(* ===== verification/MR_Prelude.thy ===== *)
theory MR_Prelude
  imports Main "HOL-Library.Word" "HOL-Library.Product_Lexorder"
begin

text \<open>
  Shared vocabulary of the development: byte constants, the 64-bit \<open>size_t\<close> limits, the parts of
  the C++ standard library the sources call on vectors (\<open>std::upper_bound\<close>, \<open>std::swap\<close> by
  \<open>min\<close>/\<open>max\<close>, \<open>substr\<close>), and generic list lemmas that the components use.
\<close>

named_theorems frame_simps \<open>what an operation leaves unchanged\<close>
named_theorems text_simps \<open>the text an operation leaves in the document\<close>
named_theorems spec_simps \<open>an operation rewritten to its specification\<close>

subsection \<open>Bytes and machine sizes\<close>

type_synonym Offset = nat

abbreviation LF :: char where "LF \<equiv> CHR 0x0A"
abbreviation CR :: char where "CR \<equiv> CHR 0x0D"
abbreviation NUL :: char where "NUL \<equiv> CHR 0x00"

text \<open>
  \<open>size_max\<close> is \<open>static_cast<std::size_t>(-1)\<close>, the sentinel and the largest \<open>size_t\<close>;
  \<open>wrap64\<close> writes the unsigned wrap-around out where a sum of two \<open>size_t\<close> values can exceed it.
\<close>

definition size_max :: nat where
  "size_max = 2 ^ 64 - 1"

definition wrap64 :: "nat \<Rightarrow> nat" where
  "wrap64 n = n mod 2 ^ 64"

lemma wrap64_id [simp]: "n \<le> size_max \<Longrightarrow> wrap64 n = n"
  by (simp add: wrap64_def size_max_def)

lemma wrap64_le: "wrap64 n \<le> size_max"
  by (simp add: wrap64_def size_max_def)

subsection \<open>Substrings\<close>

text \<open>\<open>std::string::substr(start, length)\<close> for a start inside the string.\<close>

definition substr :: "'a list \<Rightarrow> nat \<Rightarrow> nat \<Rightarrow> 'a list" where
  "substr s start n = take n (drop start s)"

lemma length_substr [simp]: "length (substr s a n) = min n (length s - a)"
  by (simp add: substr_def min.commute)

lemma substr_zero [simp]: "substr s a 0 = []"
  by (simp add: substr_def)

lemma substr_all [simp]: "length s \<le> n \<Longrightarrow> substr s 0 n = s"
  by (simp add: substr_def)

lemma substr_append: "substr s a (m + n) = substr s a m @ substr s (a + m) n"
  by (simp add: substr_def take_add add.commute)

lemma nth_substr: "i < n \<Longrightarrow> a + i < length s \<Longrightarrow> substr s a n ! i = s ! (a + i)"
  by (simp add: substr_def)

lemma substr_Cons: "a < length s \<Longrightarrow> substr s a (Suc n) = s ! a # substr s (Suc a) n"
  by (simp add: substr_def flip: Cons_nth_drop_Suc)

lemma substr_snoc: "a + n < length s \<Longrightarrow> substr s a (Suc n) = substr s a n @ [s ! (a + n)]"
  by (simp add: substr_def take_Suc_conv_app_nth)

lemma take_substr: "take k (substr s a n) = substr s a (min k n)"
  by (simp add: substr_def)

lemma drop_substr: "drop k (substr s a n) = substr s (a + k) (n - k)"
  by (simp add: substr_def drop_take add.commute)

lemma substr_append_list:
  "substr (xs @ ys) a n = substr xs a n @ substr ys (a - length xs) (n - (length xs - a))"
  by (simp add: substr_def)

lemma substr_of_take: "substr (take k xs) a n = substr xs a (min n (k - a))"
  by (simp add: substr_def drop_take)

lemma substr_eq_Nil: "substr s a n = [] \<longleftrightarrow> n = 0 \<or> length s \<le> a"
  by (simp add: substr_def)

lemma take_drop_substr: "a \<le> b \<Longrightarrow> take (b - a) (drop a s) = substr s a (b - a)"
  by (simp add: substr_def)

lemma substr_append_left: "a + n \<le> length s \<Longrightarrow> substr (s @ t) a n = substr s a n"
  by (simp add: substr_def)

subsection \<open>Searching sorted vectors\<close>

text \<open>
  \<open>std::upper_bound(v.begin(), v.end(), x)\<close> as an index: the first element greater than \<open>x\<close>.
  The hand-written loop of the line index (\<open>left\<close>, \<open>right\<close>, \<open>mid\<close>) searches the same position;
  it takes the element test as an argument because the sources use it on two different keys.
\<close>

definition upper_bound :: "('a::linorder) list \<Rightarrow> 'a \<Rightarrow> nat" where
  "upper_bound xs v = length (takeWhile (\<lambda>x. x \<le> v) xs)"

function upper_bound_loop :: "(nat \<Rightarrow> bool) \<Rightarrow> nat \<Rightarrow> nat \<Rightarrow> nat" where
  "upper_bound_loop le left right =
     (if left < right then
        (let mid = left + (right - left) div 2
         in if le mid then upper_bound_loop le (mid + 1) right
            else upper_bound_loop le left mid)
      else left)"
  by pat_completeness auto
termination
  by (relation "measure (\<lambda>(le, left, right). right - left)") (auto simp: Let_def)

declare upper_bound_loop.simps [simp del]

lemma takeWhile_length_less: "x \<in> set xs \<Longrightarrow> \<not> P x \<Longrightarrow> length (takeWhile P xs) < length xs"
  by (induction xs) auto

lemma takeWhile_nth_P: "i < length (takeWhile P xs) \<Longrightarrow> P (xs ! i)"
  by (metis nth_mem set_takeWhileD takeWhile_nth)

lemma upt_shift: "[m..<m + n] = map ((+) m) [0..<n]"
  by (rule nth_equalityI) simp_all

lemma last_take_nth: "0 < p \<Longrightarrow> p \<le> length s \<Longrightarrow> last (take p s) = s ! (p - 1)"
  by (subst last_conv_nth) auto

lemma upt_split_at: "m \<le> n \<Longrightarrow> [0..<n] = [0..<m] @ [m..<n]"
  using upt_add_eq_append [of 0 m "n - m"] by simp

lemma length_takeWhile_eqI:
  assumes "n \<le> length xs" "\<And>i. i < n \<Longrightarrow> P (xs ! i)" "n < length xs \<Longrightarrow> \<not> P (xs ! n)"
  shows "length (takeWhile P xs) = n"
proof (rule antisym)
  show "length (takeWhile P xs) \<le> n"
  proof (rule ccontr)
    assume "\<not> ?thesis"
    then have less: "n < length (takeWhile P xs)" by simp
    then have "P (takeWhile P xs ! n)" by (metis nth_mem set_takeWhileD)
    moreover have "takeWhile P xs ! n = xs ! n" using less by (simp add: takeWhile_nth)
    moreover have "n < length xs"
      using less length_takeWhile_le [of P xs] by linarith
    ultimately show False using assms(3) by simp
  qed
  show "n \<le> length (takeWhile P xs)"
    by (rule length_takeWhile_less_P_nth) (use assms in auto)
qed

lemma upper_bound_loop_range:
  "left \<le> right \<Longrightarrow> left \<le> upper_bound_loop le left right \<and> upper_bound_loop le left right \<le> right"
proof (induction le left right rule: upper_bound_loop.induct)
  case (1 le left right)
  show ?case
  proof (cases "left < right")
    case True
    define mid where "mid = left + (right - left) div 2"
    have mid: "left \<le> mid" "mid < right" using True by (auto simp: mid_def)
    show ?thesis
    proof (cases "le mid")
      case True
      with "1.IH"(1) [OF \<open>left < right\<close> mid_def] mid
      have "mid + 1 \<le> upper_bound_loop le (mid + 1) right
            \<and> upper_bound_loop le (mid + 1) right \<le> right" by simp
      with True \<open>left < right\<close> mid show ?thesis
        by (auto simp: upper_bound_loop.simps [of le left right] mid_def [symmetric] Let_def)
    next
      case False
      with "1.IH"(2) [OF \<open>left < right\<close> mid_def] mid
      have "left \<le> upper_bound_loop le left mid \<and> upper_bound_loop le left mid \<le> mid" by simp
      with False \<open>left < right\<close> mid show ?thesis
        by (auto simp: upper_bound_loop.simps [of le left right] mid_def [symmetric] Let_def)
    qed
  next
    case False
    then have "upper_bound_loop le left right = left" by (subst upper_bound_loop.simps) simp
    with False "1.prems" show ?thesis by simp
  qed
qed

lemma upper_bound_loop_split:
  assumes "left \<le> right"
    and mono: "\<And>i j. i \<le> j \<Longrightarrow> j < right \<Longrightarrow> le j \<Longrightarrow> le i"
    and below: "\<And>i. i < left \<Longrightarrow> le i"
  shows "(\<forall>i < upper_bound_loop le left right. le i)
         \<and> (upper_bound_loop le left right < right \<longrightarrow> \<not> le (upper_bound_loop le left right))"
  using assms
proof (induction le left right rule: upper_bound_loop.induct)
  case (1 le left right)
  show ?case
  proof (cases "left < right")
    case True
    define mid where "mid = left + (right - left) div 2"
    have mid: "left \<le> mid" "mid < right" using True by (auto simp: mid_def)
    show ?thesis
    proof (cases "le mid")
      case True
      have "\<And>i. i < mid + 1 \<Longrightarrow> le i" using True "1.prems"(2) [of _ mid] mid by auto
      with "1.IH"(1) [OF \<open>left < right\<close> mid_def True] "1.prems"(2) mid True \<open>left < right\<close>
      show ?thesis
        by (simp add: upper_bound_loop.simps [of le left right] mid_def [symmetric] Let_def)
    next
      case False
      let ?r = "upper_bound_loop le left mid"
      have r: "(\<forall>i<?r. le i) \<and> (?r < mid \<longrightarrow> \<not> le ?r)"
        using "1.IH"(2) [OF \<open>left < right\<close> mid_def False] "1.prems"(2,3) mid by simp
      have "?r \<le> mid" using upper_bound_loop_range [OF mid(1)] by blast
      with r False \<open>left < right\<close> show ?thesis
        by (auto simp: upper_bound_loop.simps [of le left right] mid_def [symmetric] Let_def
            dest: le_neq_implies_less)
    qed
  next
    case False
    then have "upper_bound_loop le left right = left" by (subst upper_bound_loop.simps) simp
    with False "1.prems" show ?thesis by simp
  qed
qed

text \<open>On a vector whose keys are sorted the loop and \<open>std::upper_bound\<close> agree.\<close>

lemma upper_bound_loop_eq:
  assumes "sorted (map f xs)"
  shows "upper_bound_loop (\<lambda>i. f (xs ! i) \<le> v) 0 (length xs) = upper_bound (map f xs) v"
proof -
  let ?r = "upper_bound_loop (\<lambda>i. f (xs ! i) \<le> v) 0 (length xs)"
  have mono: "\<And>i j. i \<le> j \<Longrightarrow> j < length xs \<Longrightarrow> f (xs ! j) \<le> v \<Longrightarrow> f (xs ! i) \<le> v"
    using assms by (auto simp: sorted_iff_nth_mono intro: order_trans)
  from upper_bound_loop_split [of 0 "length xs", OF _ mono]
  have split: "(\<forall>i<?r. f (xs ! i) \<le> v) \<and> (?r < length xs \<longrightarrow> \<not> f (xs ! ?r) \<le> v)" by simp
  have "?r \<le> length xs" using upper_bound_loop_range [of 0 "length xs"] by blast
  with split have "length (takeWhile (\<lambda>x. x \<le> v) (map f xs)) = ?r"
    by (intro length_takeWhile_eqI) auto
  then show ?thesis by (simp add: upper_bound_def)
qed

lemma upper_bound_le: "upper_bound xs v \<le> length xs"
  by (simp add: upper_bound_def length_takeWhile_le)

lemma upper_bound_nth_le:
  assumes "0 < upper_bound xs v" shows "xs ! (upper_bound xs v - 1) \<le> v"
proof -
  let ?w = "takeWhile (\<lambda>x. x \<le> v) xs" and ?u = "upper_bound xs v - 1"
  have less: "?u < length ?w" using assms by (simp add: upper_bound_def)
  have "?w ! ?u \<in> set ?w" using less by (rule nth_mem)
  then have "?w ! ?u \<le> v" by (rule set_takeWhileD [THEN conjunct2])
  with less show ?thesis by (simp add: takeWhile_nth)
qed

lemma upper_bound_sorted:
  "sorted xs \<Longrightarrow> upper_bound xs v = length (filter (\<lambda>x. x \<le> v) xs)"
  by (induction xs) (auto simp: upper_bound_def filter_empty_conv)

subsection \<open>Sorted lists and filtered intervals\<close>

lemma sorted_last_ge: "sorted xs \<Longrightarrow> x \<in> set xs \<Longrightarrow> x \<le> last xs"
  by (induction xs) auto

lemma sorted_map_mono: "mono f \<Longrightarrow> sorted xs \<Longrightarrow> sorted (map f xs)"
  by (induction xs) (auto dest: monoD)

lemma sorted_split_at:
  fixes p :: "'a :: linorder"
  shows "sorted xs \<Longrightarrow> xs = filter (\<lambda>q. q \<le> p) xs @ filter (\<lambda>q. p < q) xs"
proof (induction xs)
  case (Cons a xs)
  show ?case
  proof (cases "a \<le> p")
    case True
    with Cons show ?thesis by simp
  next
    case False
    with Cons.prems have "\<forall>q \<in> set xs. p < q" by auto
    with False show ?thesis by (auto simp: filter_id_conv filter_empty_conv not_le leD)
  qed
qed simp

lemma sorted_hd_le: "sorted xs \<Longrightarrow> x \<in> set xs \<Longrightarrow> hd xs \<le> x"
  by (cases xs) auto

lemma filter_upt_nth_count:
  "k < length (filter P [0..<n]) \<Longrightarrow>
   length (filter P [0..<Suc (filter P [0..<n] ! k)]) = Suc k"
proof (induction n)
  case 0
  then show ?case by simp
next
  case (Suc n)
  show ?case
  proof (cases "k < length (filter P [0..<n])")
    case True
    then have "filter P [0..<Suc n] ! k = filter P [0..<n] ! k" by (simp add: nth_append)
    with True Suc.IH show ?thesis by (simp del: upt_Suc)
  next
    case False
    with Suc.prems have "P n" "k = length (filter P [0..<n])" by (auto split: if_splits)
    then show ?thesis by (simp add: nth_append)
  qed
qed

end
