(* ===== verification/Text_Types.thy ===== *)
theory Text_Types
  imports MR_Prelude
begin

text \<open>
  The value types of \<open>src/piecetable/MRTextDocument.hpp\<close> and their member functions: ranges,
  cursors, selections, spans and pieces, the three byte buffers (memory-mapped original, append-only
  add buffer, staged add buffer), the two kinds of edit transaction and the commit result.
  \<open>std::shared_ptr\<close> buffers are values here: every in-place write of the sources is preceded by
  \<open>ensureUnique\<close>, so no two owners see each other's writes. A null pointer is \<open>None\<close>.
\<close>

subsection \<open>Ranges, cursors, selections\<close>

record Range =
  range_start :: Offset
  range_end :: Offset

definition mkRange :: "Offset \<Rightarrow> Offset \<Rightarrow> Range" where
  "mkRange aStart aEnd = \<lparr>range_start = aStart, range_end = aEnd\<rparr>"

definition Range_empty :: "Range \<Rightarrow> bool" where
  "Range_empty r \<longleftrightarrow> range_start r = range_end r"

definition Range_length :: "Range \<Rightarrow> Offset" where
  "Range_length r =
     (if range_start r \<le> range_end r then range_end r - range_start r
      else range_start r - range_end r)"

definition Range_normalize :: "Range \<Rightarrow> Range" where
  "Range_normalize r =
     (if range_end r < range_start r then mkRange (range_end r) (range_start r) else r)"

definition Range_normalized :: "Range \<Rightarrow> Range" where
  "Range_normalized r = Range_normalize r"

definition Range_clamped :: "Range \<Rightarrow> Offset \<Rightarrow> Range" where
  "Range_clamped r maxOffset =
     Range_normalize (mkRange (min (range_start r) maxOffset) (min (range_end r) maxOffset))"

record Cursor =
  cursor_offset :: Offset

definition Cursor_clamp :: "Cursor \<Rightarrow> Offset \<Rightarrow> Cursor" where
  "Cursor_clamp c maxOffset =
     (if cursor_offset c > maxOffset then c\<lparr>cursor_offset := maxOffset\<rparr> else c)"

record Selection =
  sel_anchor :: Offset
  sel_cursor :: Offset

definition Selection_empty :: "Selection \<Rightarrow> bool" where
  "Selection_empty s \<longleftrightarrow> sel_anchor s = sel_cursor s"

definition Selection_range :: "Selection \<Rightarrow> Range" where
  "Selection_range s = Range_normalized (mkRange (sel_anchor s) (sel_cursor s))"

definition Selection_clamp :: "Selection \<Rightarrow> Offset \<Rightarrow> Selection" where
  "Selection_clamp s maxOffset =
     (let s1 = (if sel_anchor s > maxOffset then s\<lparr>sel_anchor := maxOffset\<rparr> else s)
      in if sel_cursor s1 > maxOffset then s1\<lparr>sel_cursor := maxOffset\<rparr> else s1)"

record Snapshot =
  snap_text :: string
  snap_version :: nat

lemma mkRange_sel [simp]:
  "range_start (mkRange a b) = a" "range_end (mkRange a b) = b"
  by (simp_all add: mkRange_def)

lemma Range_normalize_bounds [simp]:
  "range_start (Range_normalize r) = min (range_start r) (range_end r)"
  "range_end (Range_normalize r) = max (range_start r) (range_end r)"
  by (auto simp: Range_normalize_def)

lemma Range_clamped_bounds [simp]:
  "range_start (Range_clamped r m) = min (min (range_start r) m) (min (range_end r) m)"
  "range_end (Range_clamped r m) = max (min (range_start r) m) (min (range_end r) m)"
  by (simp_all add: Range_clamped_def)

lemma Range_clamped_le: "range_start (Range_clamped r m) \<le> range_end (Range_clamped r m)"
  "range_end (Range_clamped r m) \<le> m"
  by auto

lemma Range_length_normal: "range_start r \<le> range_end r \<Longrightarrow> Range_length r = range_end r - range_start r"
  by (simp add: Range_length_def)

lemma Range_clamped_idem: "Range_clamped (Range_clamped r m) m = Range_clamped r m"
  by (simp add: Range_clamped_def Range_normalize_def mkRange_def min_def)

subsection \<open>Spans and pieces\<close>

datatype BufferKind = Original | Add

record TextSpan =
  span_start :: Offset
  span_length :: Offset

definition mkSpan :: "Offset \<Rightarrow> Offset \<Rightarrow> TextSpan" where
  "mkSpan aStart aLength = \<lparr>span_start = aStart, span_length = aLength\<rparr>"

definition TextSpan_empty :: "TextSpan \<Rightarrow> bool" where
  "TextSpan_empty s \<longleftrightarrow> span_length s = 0"

definition TextSpan_end :: "TextSpan \<Rightarrow> Offset" where
  "TextSpan_end s = span_start s + span_length s"

definition TextSpan_clamped :: "TextSpan \<Rightarrow> Offset \<Rightarrow> TextSpan" where
  "TextSpan_clamped s maxLength =
     (if span_start s \<ge> maxLength then mkSpan maxLength 0
      else mkSpan (span_start s) (min (span_length s) (maxLength - span_start s)))"

record Piece =
  source :: BufferKind
  span :: TextSpan

definition mkPiece :: "BufferKind \<Rightarrow> TextSpan \<Rightarrow> Piece" where
  "mkPiece aSource aSpan = \<lparr>source = aSource, span = aSpan\<rparr>"

definition Piece_empty :: "Piece \<Rightarrow> bool" where
  "Piece_empty p \<longleftrightarrow> TextSpan_empty (span p)"

lemma mkSpan_sel [simp]: "span_start (mkSpan a n) = a" "span_length (mkSpan a n) = n"
  by (simp_all add: mkSpan_def)

lemma mkPiece_sel [simp]: "source (mkPiece k s) = k" "span (mkPiece k s) = s"
  by (simp_all add: mkPiece_def)

lemma TextSpan_clamped_within:
  "TextSpan_end s \<le> m \<Longrightarrow> span_length s > 0 \<Longrightarrow> TextSpan_clamped s m = s"
  by (auto simp: TextSpan_clamped_def TextSpan_end_def mkSpan_def)

lemma substr_clamped:
  "substr t (span_start (TextSpan_clamped s (length t))) (span_length (TextSpan_clamped s (length t)))
   = substr t (span_start s) (span_length s)"
  by (auto simp: TextSpan_clamped_def substr_def min_def)

subsection \<open>The memory-mapped original\<close>

text \<open>
  The operating-system calls of \<open>openReadOnly\<close> are parameters: each returns \<open>Inl\<close> the
  \<open>strerror\<close> text of the failure or \<open>Inr\<close> the result (descriptor; regular-file flag and size;
  mapped bytes).
\<close>

record OsCalls =
  os_open :: "string \<Rightarrow> string + int"
  os_fstat :: "int \<Rightarrow> string + (bool \<times> nat)"
  os_mmap :: "int \<Rightarrow> nat \<Rightarrow> string + string"

record MappedState =
  ms_fd :: int
  ms_data :: "string option"
  ms_size :: nat
  ms_path :: string

type_synonym MappedFileSource = "MappedState option"

definition openReadOnlyFd ::
  "OsCalls \<Rightarrow> MappedFileSource \<Rightarrow> int \<Rightarrow> string \<Rightarrow> bool \<times> string \<times> MappedFileSource" where
  "openReadOnlyFd os m fileDescriptor path =
     (if fileDescriptor < 0 then (False, ''Invalid file descriptor.'', m)
      else case os_fstat os fileDescriptor of
        Inl err \<Rightarrow> (False, err, m)
      | Inr (isreg, st_size) \<Rightarrow>
          if \<not> isreg then (False, ''Only regular files can be memory-mapped.'', m)
          else if st_size \<noteq> 0 then
            (case os_mmap os fileDescriptor st_size of
               Inl err \<Rightarrow> (False, err, m)
             | Inr bytes \<Rightarrow>
                 (True, [], Some \<lparr>ms_fd = fileDescriptor, ms_data = Some bytes,
                                  ms_size = st_size, ms_path = path\<rparr>))
          else (True, [], Some \<lparr>ms_fd = fileDescriptor, ms_data = None,
                                ms_size = st_size, ms_path = path\<rparr>))"

definition openReadOnly ::
  "OsCalls \<Rightarrow> MappedFileSource \<Rightarrow> string \<Rightarrow> bool \<times> string \<times> MappedFileSource" where
  "openReadOnly os m path =
     (case os_open os path of
        Inl err \<Rightarrow> (False, err, m)
      | Inr fd \<Rightarrow> openReadOnlyFd os m fd path)"

definition MappedFileSource_reset :: "MappedFileSource \<Rightarrow> MappedFileSource" where
  "MappedFileSource_reset m = None"

definition MappedFileSource_mapped :: "MappedFileSource \<Rightarrow> bool" where
  "MappedFileSource_mapped m \<longleftrightarrow> m \<noteq> None"

definition MappedFileSource_size :: "MappedFileSource \<Rightarrow> nat" where
  "MappedFileSource_size m = (case m of None \<Rightarrow> 0 | Some st \<Rightarrow> ms_size st)"

definition MappedFileSource_data :: "MappedFileSource \<Rightarrow> string option" where
  "MappedFileSource_data m = (case m of None \<Rightarrow> None | Some st \<Rightarrow> ms_data st)"

definition MappedFileSource_path :: "MappedFileSource \<Rightarrow> string" where
  "MappedFileSource_path m = (case m of None \<Rightarrow> [] | Some st \<Rightarrow> ms_path st)"

definition MappedFileSource_sliceText :: "MappedFileSource \<Rightarrow> TextSpan \<Rightarrow> string" where
  "MappedFileSource_sliceText m sp =
     (let bounded = TextSpan_clamped sp (MappedFileSource_size m) in
      case MappedFileSource_data m of
        None \<Rightarrow> []
      | Some bytes \<Rightarrow>
          if span_length bounded = 0 then []
          else substr bytes (span_start bounded) (span_length bounded))"

text \<open>What \<open>mmap\<close> promises: the mapping holds exactly the bytes asked for.\<close>

definition mapped_ok :: "MappedFileSource \<Rightarrow> bool" where
  "mapped_ok m \<longleftrightarrow>
     (case m of None \<Rightarrow> True
      | Some st \<Rightarrow> (case ms_data st of None \<Rightarrow> ms_size st = 0 | Some b \<Rightarrow> length b = ms_size st))"

definition mmap_sound :: "OsCalls \<Rightarrow> bool" where
  "mmap_sound os \<longleftrightarrow> (\<forall>fd n b. os_mmap os fd n = Inr b \<longrightarrow> length b = n)"

lemma openReadOnlyFd_ok:
  "mmap_sound os \<Longrightarrow> openReadOnlyFd os m fd path = (True, err, m') \<Longrightarrow>
   mapped_ok m' \<and> MappedFileSource_mapped m' \<and> MappedFileSource_path m' = path"
  by (auto simp: openReadOnlyFd_def mapped_ok_def mmap_sound_def MappedFileSource_mapped_def
      MappedFileSource_path_def split: if_splits sum.splits)

lemma openReadOnly_ok:
  "mmap_sound os \<Longrightarrow> openReadOnly os m path = (True, err, m') \<Longrightarrow>
   mapped_ok m' \<and> MappedFileSource_mapped m' \<and> MappedFileSource_path m' = path"
  by (auto simp: openReadOnly_def split: sum.splits dest: openReadOnlyFd_ok)

lemma openReadOnly_failed: "openReadOnly os m path = (False, err, m') \<Longrightarrow> m' = m"
  by (auto simp: openReadOnly_def openReadOnlyFd_def split: if_splits sum.splits)

text \<open>
  What the system has to say of a descriptor and of a path: the calls find a regular file of these bytes.
  \<open>openReadOnly\<close> succeeds exactly on such files, and maps those bytes.
\<close>

definition fd_bytes :: "OsCalls \<Rightarrow> int \<Rightarrow> string \<Rightarrow> bool" where
  "fd_bytes os fd bytes \<longleftrightarrow> 0 \<le> fd \<and> os_fstat os fd = Inr (True, length bytes) \<and> (bytes = [] \<or> os_mmap os fd (length bytes) = Inr bytes)"

definition file_bytes :: "OsCalls \<Rightarrow> string \<Rightarrow> string \<Rightarrow> bool" where
  "file_bytes os path bytes \<longleftrightarrow> (\<exists>fd. os_open os path = Inr fd \<and> fd_bytes os fd bytes)"

lemma fd_bytes_unique: "fd_bytes os fd a \<Longrightarrow> fd_bytes os fd b \<Longrightarrow> a = b"
  by (auto simp: fd_bytes_def)

lemma openReadOnlyFd_bytes:
  assumes "mmap_sound os"
  shows "case openReadOnlyFd os m fd path of (ok, err, m') \<Rightarrow>
    if ok then \<exists>bytes. fd_bytes os fd bytes \<and> (case MappedFileSource_data m' of None \<Rightarrow> [] | Some b \<Rightarrow> b) = bytes \<and> MappedFileSource_size m' = length bytes
    else m' = m \<and> (\<forall>bytes. \<not> fd_bytes os fd bytes)"
proof (cases "os_fstat os fd")
  case (Inr st)
  then obtain reg n where st: "os_fstat os fd = Inr (reg, n)" by (metis surj_pair)
  have n: "fd_bytes os fd bytes \<longleftrightarrow> 0 \<le> fd \<and> reg \<and> n = length bytes \<and> (bytes = [] \<or> os_mmap os fd n = Inr bytes)" for bytes
    by (auto simp: fd_bytes_def st)
  show ?thesis
  proof (cases "0 \<le> fd \<and> reg \<and> n \<noteq> 0")
    case False
    then show ?thesis by (auto simp: openReadOnlyFd_def st n MappedFileSource_data_def MappedFileSource_size_def)
  next
    case True
    show ?thesis
    proof (cases "os_mmap os fd n")
      case (Inr b)
      then have "length b = n" using assms by (simp add: mmap_sound_def)
      with True Inr show ?thesis by (auto simp: openReadOnlyFd_def st n MappedFileSource_data_def MappedFileSource_size_def)
    qed (use True in \<open>auto simp: openReadOnlyFd_def st n\<close>)
  qed
qed (auto simp: openReadOnlyFd_def fd_bytes_def)

lemma openReadOnly_bytes:
  assumes "mmap_sound os"
  shows "case openReadOnly os m path of (ok, err, m') \<Rightarrow>
    if ok then \<exists>bytes. file_bytes os path bytes \<and> (case MappedFileSource_data m' of None \<Rightarrow> [] | Some b \<Rightarrow> b) = bytes \<and> MappedFileSource_size m' = length bytes
    else m' = m \<and> (\<forall>bytes. \<not> file_bytes os path bytes)"
proof (cases "os_open os path")
  case (Inr fd)
  then show ?thesis using openReadOnlyFd_bytes [OF assms, of fd m path] by (auto simp: openReadOnly_def file_bytes_def split: prod.splits)
qed (simp add: openReadOnly_def file_bytes_def)

lemma file_bytes_unique: "file_bytes os path a \<Longrightarrow> file_bytes os path b \<Longrightarrow> a = b"
  by (auto simp: file_bytes_def dest: fd_bytes_unique)

lemma mapped_sliceText:
  "mapped_ok m \<Longrightarrow> MappedFileSource_sliceText m sp
     = substr (case MappedFileSource_data m of None \<Rightarrow> [] | Some b \<Rightarrow> b) (span_start sp) (span_length sp)"
  by (auto simp: MappedFileSource_sliceText_def mapped_ok_def MappedFileSource_size_def
      MappedFileSource_data_def Let_def substr_def TextSpan_clamped_def min_def
      split: option.splits)

subsection \<open>The add buffer\<close>

type_synonym AppendBuffer = "string option"

definition AppendBuffer_ensureUnique :: "AppendBuffer \<Rightarrow> AppendBuffer" where
  "AppendBuffer_ensureUnique b = (case b of None \<Rightarrow> Some [] | Some t \<Rightarrow> Some t)"

definition AppendBuffer_size :: "AppendBuffer \<Rightarrow> nat" where
  "AppendBuffer_size b = (case b of None \<Rightarrow> 0 | Some t \<Rightarrow> length t)"

definition AppendBuffer_text :: "AppendBuffer \<Rightarrow> string" where
  "AppendBuffer_text b = (case b of None \<Rightarrow> [] | Some t \<Rightarrow> t)"

definition AppendBuffer_append :: "AppendBuffer \<Rightarrow> string \<Rightarrow> TextSpan \<times> AppendBuffer" where
  "AppendBuffer_append b text =
     (let b1 = AppendBuffer_ensureUnique b;
          sp = mkSpan (AppendBuffer_size b1) (length text)
      in (sp, Some (AppendBuffer_text b1 @ text)))"

definition AppendBuffer_clear :: "AppendBuffer \<Rightarrow> AppendBuffer" where
  "AppendBuffer_clear b = Some []"

definition AppendBuffer_setSharedText :: "AppendBuffer \<Rightarrow> string option \<Rightarrow> AppendBuffer" where
  "AppendBuffer_setSharedText b text = (case text of None \<Rightarrow> Some [] | Some t \<Rightarrow> Some t)"

definition AppendBuffer_sliceText :: "AppendBuffer \<Rightarrow> TextSpan \<Rightarrow> string" where
  "AppendBuffer_sliceText b sp =
     (let bounded = TextSpan_clamped sp (AppendBuffer_size b) in
      case b of None \<Rightarrow> [] | Some t \<Rightarrow> substr t (span_start bounded) (span_length bounded))"

lemma AppendBuffer_sliceText_eq [simp]:
  "AppendBuffer_sliceText b sp = substr (AppendBuffer_text b) (span_start sp) (span_length sp)"
  by (auto simp: AppendBuffer_sliceText_def AppendBuffer_size_def AppendBuffer_text_def
      substr_clamped Let_def split: option.split) (simp add: substr_def)

lemma AppendBuffer_append_eq:
  "AppendBuffer_append b text =
     (mkSpan (length (AppendBuffer_text b)) (length text), Some (AppendBuffer_text b @ text))"
  by (simp add: AppendBuffer_append_def AppendBuffer_ensureUnique_def AppendBuffer_size_def
      AppendBuffer_text_def Let_def split: option.split)

lemma AppendBuffer_text_simps [simp]:
  "AppendBuffer_text (Some t) = t" "AppendBuffer_text (AppendBuffer_clear b) = []"
  "AppendBuffer_size b = length (AppendBuffer_text b)"
  by (simp_all add: AppendBuffer_text_def AppendBuffer_clear_def AppendBuffer_size_def
      split: option.split)

subsection \<open>The staged add buffer\<close>

type_synonym StagedAddBuffer = string

definition StagedAddBuffer_append :: "StagedAddBuffer \<Rightarrow> string \<Rightarrow> TextSpan \<times> StagedAddBuffer" where
  "StagedAddBuffer_append b text = (mkSpan (length b) (length text), b @ text)"

definition StagedAddBuffer_clear :: "StagedAddBuffer \<Rightarrow> StagedAddBuffer" where
  "StagedAddBuffer_clear b = []"

definition StagedAddBuffer_sliceText :: "StagedAddBuffer \<Rightarrow> TextSpan \<Rightarrow> string" where
  "StagedAddBuffer_sliceText b sp =
     (let bounded = TextSpan_clamped sp (length b)
      in substr b (span_start bounded) (span_length bounded))"

lemma StagedAddBuffer_sliceText_eq:
  "StagedAddBuffer_sliceText b sp = substr b (span_start sp) (span_length sp)"
  by (simp add: StagedAddBuffer_sliceText_def substr_clamped Let_def)

subsection \<open>Edit transactions\<close>

datatype EditKind = SetText | Insert | Erase | Replace

record EditOperation =
  op_kind :: EditKind
  op_range :: Range
  op_text :: string

record EditTransaction =
  et_label :: string
  et_operations :: "EditOperation list"

definition mkEditTransaction :: "string \<Rightarrow> EditTransaction" where
  "mkEditTransaction label = \<lparr>et_label = label, et_operations = []\<rparr>"

definition EditTransaction_setLabel :: "EditTransaction \<Rightarrow> string \<Rightarrow> EditTransaction" where
  "EditTransaction_setLabel t label = t\<lparr>et_label := label\<rparr>"

definition EditTransaction_push :: "EditTransaction \<Rightarrow> EditOperation \<Rightarrow> EditTransaction" where
  "EditTransaction_push t op = t\<lparr>et_operations := et_operations t @ [op]\<rparr>"

definition EditTransaction_setText :: "EditTransaction \<Rightarrow> string \<Rightarrow> EditTransaction" where
  "EditTransaction_setText t text =
     EditTransaction_push t \<lparr>op_kind = SetText, op_range = mkRange 0 0, op_text = text\<rparr>"

definition EditTransaction_insert :: "EditTransaction \<Rightarrow> Offset \<Rightarrow> string \<Rightarrow> EditTransaction" where
  "EditTransaction_insert t offset text =
     EditTransaction_push t \<lparr>op_kind = Insert, op_range = mkRange offset offset, op_text = text\<rparr>"

definition EditTransaction_erase :: "EditTransaction \<Rightarrow> Range \<Rightarrow> EditTransaction" where
  "EditTransaction_erase t rng =
     EditTransaction_push t \<lparr>op_kind = Erase, op_range = Range_normalize rng, op_text = []\<rparr>"

definition EditTransaction_replace :: "EditTransaction \<Rightarrow> Range \<Rightarrow> string \<Rightarrow> EditTransaction" where
  "EditTransaction_replace t rng text =
     EditTransaction_push t \<lparr>op_kind = Replace, op_range = Range_normalize rng, op_text = text\<rparr>"

record StagedEditOperation =
  sop_kind :: EditKind
  sop_range :: Range
  sop_span :: TextSpan

record StagedEditTransaction =
  st_baseVersion :: nat
  st_label :: string
  st_addBuffer :: StagedAddBuffer
  st_operations :: "StagedEditOperation list"

definition mkStagedEditTransaction :: "nat \<Rightarrow> string \<Rightarrow> StagedEditTransaction" where
  "mkStagedEditTransaction aBaseVersion label =
     \<lparr>st_baseVersion = aBaseVersion, st_label = label, st_addBuffer = [], st_operations = []\<rparr>"

definition StagedEditTransaction_setBaseVersion ::
  "StagedEditTransaction \<Rightarrow> nat \<Rightarrow> StagedEditTransaction" where
  "StagedEditTransaction_setBaseVersion t v = t\<lparr>st_baseVersion := v\<rparr>"

definition StagedEditTransaction_push ::
  "StagedEditTransaction \<Rightarrow> EditKind \<Rightarrow> Range \<Rightarrow> string \<Rightarrow> StagedEditTransaction" where
  "StagedEditTransaction_push t kind rng text =
     (let (sp, b) = StagedAddBuffer_append (st_addBuffer t) text
      in t\<lparr>st_addBuffer := b,
           st_operations := st_operations t
             @ [\<lparr>sop_kind = kind, sop_range = rng, sop_span = sp\<rparr>]\<rparr>)"

definition StagedEditTransaction_setText ::
  "StagedEditTransaction \<Rightarrow> string \<Rightarrow> StagedEditTransaction" where
  "StagedEditTransaction_setText t text = StagedEditTransaction_push t SetText (mkRange 0 0) text"

definition StagedEditTransaction_insert ::
  "StagedEditTransaction \<Rightarrow> Offset \<Rightarrow> string \<Rightarrow> StagedEditTransaction" where
  "StagedEditTransaction_insert t offset text =
     StagedEditTransaction_push t Insert (mkRange offset offset) text"

definition StagedEditTransaction_erase ::
  "StagedEditTransaction \<Rightarrow> Range \<Rightarrow> StagedEditTransaction" where
  "StagedEditTransaction_erase t rng =
     t\<lparr>st_operations := st_operations t
        @ [\<lparr>sop_kind = Erase, sop_range = Range_normalize rng, sop_span = mkSpan 0 0\<rparr>]\<rparr>"

definition StagedEditTransaction_replace ::
  "StagedEditTransaction \<Rightarrow> Range \<Rightarrow> string \<Rightarrow> StagedEditTransaction" where
  "StagedEditTransaction_replace t rng text =
     StagedEditTransaction_push t Replace (Range_normalize rng) text"

subsection \<open>Commit results, chunk views and line-index records\<close>

record DocumentChangeSet =
  changed :: bool
  touchedRange :: Range
  oldLength :: Offset
  newLength :: Offset
  oldVersion :: nat
  newVersion :: nat

definition emptyChangeSet :: DocumentChangeSet where
  "emptyChangeSet = \<lparr>changed = False, touchedRange = mkRange 0 0, oldLength = 0, newLength = 0,
                     oldVersion = 0, newVersion = 0\<rparr>"

datatype CommitStatus = Applied | VersionConflict | NoOp

record CommitResult =
  status :: CommitStatus
  expectedVersion :: nat
  actualVersion :: nat
  change :: DocumentChangeSet

definition mkCommitResult :: "nat \<Rightarrow> nat \<Rightarrow> CommitResult" where
  "mkCommitResult expected actual =
     \<lparr>status = NoOp, expectedVersion = expected, actualVersion = actual, change = emptyChangeSet\<rparr>"

definition CommitResult_applied :: "CommitResult \<Rightarrow> bool" where
  "CommitResult_applied r \<longleftrightarrow> status r = Applied"

definition CommitResult_conflicted :: "CommitResult \<Rightarrow> bool" where
  "CommitResult_conflicted r \<longleftrightarrow> status r = VersionConflict"

definition CommitResult_changed :: "CommitResult \<Rightarrow> bool" where
  "CommitResult_changed r \<longleftrightarrow> changed (change r)"

text \<open>
  A chunk view is a pointer and a length: \<open>chunk_data\<close> holds the buffer's bytes from the pointer
  on, \<open>None\<close> for a null pointer.
\<close>

record PieceChunkView =
  chunk_data :: "string option"
  chunk_length :: Offset

definition emptyChunk :: PieceChunkView where
  "emptyChunk = \<lparr>chunk_data = None, chunk_length = 0\<rparr>"

record LineIndexCheckpoint =
  cp_offset :: Offset
  cp_lineIndex :: nat

definition mkCheckpoint :: "Offset \<Rightarrow> nat \<Rightarrow> LineIndexCheckpoint" where
  "mkCheckpoint anOffset aLineIndex = \<lparr>cp_offset = anOffset, cp_lineIndex = aLineIndex\<rparr>"

lemma mkCheckpoint_sel [simp]:
  "cp_offset (mkCheckpoint a n) = a" "cp_lineIndex (mkCheckpoint a n) = n"
  by (simp_all add: mkCheckpoint_def)

record LineIndexWarmupData =
  wu_checkpoints :: "LineIndexCheckpoint list"
  wu_lazyIndexedOffset :: Offset
  wu_lazyIndexedLine :: nat
  wu_lazyLineIndexComplete :: bool
  wu_lazyTotalLineCount :: nat

definition emptyWarmup :: LineIndexWarmupData where
  "emptyWarmup = \<lparr>wu_checkpoints = [], wu_lazyIndexedOffset = 0, wu_lazyIndexedLine = 0,
                  wu_lazyLineIndexComplete = False, wu_lazyTotalLineCount = 1\<rparr>"

datatype LineIndexScanDirection = Bof | Eof

record LineIndexScanCheckpoint =
  sc_offset :: Offset
  sc_lineBreakCount :: nat

record LineIndexScanPacket =
  pk_reservationId :: nat
  pk_startOffset :: Offset
  pk_endOffset :: Offset
  pk_lineBreakCount :: nat
  pk_checkpoints :: "LineIndexScanCheckpoint list"

definition emptyScanPacket :: LineIndexScanPacket where
  "emptyScanPacket = \<lparr>pk_reservationId = 0, pk_startOffset = 0, pk_endOffset = 0,
                      pk_lineBreakCount = 0, pk_checkpoints = []\<rparr>"

record LineIndexScanReservation =
  rv_reservationId :: nat
  rv_startOffset :: Offset
  rv_endOffset :: Offset
  rv_direction :: LineIndexScanDirection

end
