(* ===== verification/Piece_Table.thy ===== *)
theory Piece_Table
  imports Text_Types
begin

text \<open>
  The piece vector of \<open>src/piecetable/MRTextDocument.cpp\<close>: \<open>splitAt\<close>, the insertion and removal of
  pieces, and \<open>mergeAdjacentPiecesAt\<close>, on the list \<open>mPieces\<close> points to. \<open>pieces_text orig add ps\<close>
  is the text the pieces denote over the two buffers; every operation is specified by what it does
  to that text.
\<close>

subsection \<open>Operations\<close>

fun splitAt_loop :: "Piece list \<Rightarrow> nat \<Rightarrow> Offset \<Rightarrow> Offset \<Rightarrow> Piece list \<times> nat" where
  "splitAt_loop [] i consumed logical = ([], i)"
| "splitAt_loop (p # ps) i consumed logical =
     (let pieceLen = span_length (span p); pieceEnd = consumed + pieceLen in
      if logical = consumed then (p # ps, i)
      else if logical = pieceEnd then (p # ps, i + 1)
      else if consumed < logical \<and> logical < pieceEnd then
        (let leftLen = logical - consumed;
             left = p\<lparr>span := (span p)\<lparr>span_length := leftLen\<rparr>\<rparr>;
             right = p\<lparr>span := (span p)\<lparr>span_start := span_start (span p) + leftLen,
                                       span_length := span_length (span p) - leftLen\<rparr>\<rparr>
         in (left # right # ps, i + 1))
      else (let (ps', k) = splitAt_loop ps (i + 1) pieceEnd logical in (p # ps', k)))"

definition splitAt :: "Piece list \<Rightarrow> Offset \<Rightarrow> Offset \<Rightarrow> Piece list \<times> nat" where
  "splitAt ps len offset =
     (let logical = min offset len in
      if logical = 0 then (ps, 0)
      else if logical \<ge> len then (ps, length ps)
      else splitAt_loop ps 0 0 logical)"

definition pieces_insert :: "Piece list \<Rightarrow> nat \<Rightarrow> Piece \<Rightarrow> Piece list" where
  "pieces_insert ps index p = take index ps @ p # drop index ps"

definition pieces_erase :: "Piece list \<Rightarrow> nat \<Rightarrow> nat \<Rightarrow> Piece list" where
  "pieces_erase ps startIndex endIndex =
     (if startIndex < endIndex then take startIndex ps @ drop endIndex ps else ps)"

text \<open>Joining \<open>ps ! i\<close> with \<open>ps ! (i + 1)\<close> where the second continues the first.\<close>

definition adjacent :: "Piece \<Rightarrow> Piece \<Rightarrow> bool" where
  "adjacent left right \<longleftrightarrow> source left = source right \<and> TextSpan_end (span left) = span_start (span right)"

definition joinPieces :: "Piece \<Rightarrow> Piece \<Rightarrow> Piece" where
  "joinPieces left right =
     left\<lparr>span := (span left)\<lparr>span_length := span_length (span left) + span_length (span right)\<rparr>\<rparr>"

definition merge_pair :: "Piece list \<Rightarrow> nat \<Rightarrow> Piece list" where
  "merge_pair ps i = take i ps @ joinPieces (ps ! i) (ps ! (i + 1)) # drop (i + 2) ps"

definition mergeAdjacentPiecesAt :: "Piece list \<Rightarrow> nat \<Rightarrow> Piece list" where
  "mergeAdjacentPiecesAt ps index0 =
     (if ps = [] then ps
      else
        (let index = (if index0 \<ge> length ps then length ps - 1 else index0);
             (ps1, index1) =
               (if index > 0 \<and> adjacent (ps ! (index - 1)) (ps ! index)
                then (merge_pair ps (index - 1), index - 1) else (ps, index))
         in if index1 + 1 < length ps1 \<and> adjacent (ps1 ! index1) (ps1 ! (index1 + 1))
            then merge_pair ps1 index1 else ps1))"

subsection \<open>The text of the pieces\<close>

definition piece_buffer :: "string \<Rightarrow> string \<Rightarrow> Piece \<Rightarrow> string" where
  "piece_buffer orig add p = (case source p of Original \<Rightarrow> orig | Add \<Rightarrow> add)"

definition piece_text :: "string \<Rightarrow> string \<Rightarrow> Piece \<Rightarrow> string" where
  "piece_text orig add p = substr (piece_buffer orig add p) (span_start (span p)) (span_length (span p))"

definition pieces_text :: "string \<Rightarrow> string \<Rightarrow> Piece list \<Rightarrow> string" where
  "pieces_text orig add ps = concat (map (piece_text orig add) ps)"

definition piece_ok :: "string \<Rightarrow> string \<Rightarrow> Piece \<Rightarrow> bool" where
  "piece_ok orig add p \<longleftrightarrow> 0 < span_length (span p) \<and> TextSpan_end (span p) \<le> length (piece_buffer orig add p)"

abbreviation pieces_ok :: "string \<Rightarrow> string \<Rightarrow> Piece list \<Rightarrow> bool" where
  "pieces_ok orig add ps \<equiv> list_all (piece_ok orig add) ps"

lemma pieces_text_simps [simp]:
  "pieces_text orig add [] = []"
  "pieces_text orig add (p # ps) = piece_text orig add p @ pieces_text orig add ps"
  "pieces_text orig add (ps @ qs) = pieces_text orig add ps @ pieces_text orig add qs"
  by (simp_all add: pieces_text_def)

lemma piece_ok_length: "piece_ok orig add p \<Longrightarrow> length (piece_text orig add p) = span_length (span p)"
  by (auto simp: piece_ok_def piece_text_def TextSpan_end_def)

text \<open>Appending to the add buffer changes no existing piece.\<close>

lemma piece_ok_grow: "piece_ok orig add p \<Longrightarrow> piece_ok orig (add @ t) p"
  by (cases "source p") (auto simp: piece_ok_def piece_buffer_def)

lemma piece_text_grow: "piece_ok orig add p \<Longrightarrow> piece_text orig (add @ t) p = piece_text orig add p"
  by (cases "source p") (auto simp: piece_text_def piece_ok_def piece_buffer_def TextSpan_end_def substr_append_left)

lemma pieces_grow:
  assumes "pieces_ok orig add ps"
  shows "pieces_ok orig (add @ t) ps" "pieces_text orig (add @ t) ps = pieces_text orig add ps"
  using assms by (induction ps) (auto simp: piece_ok_grow piece_text_grow)

subsection \<open>What the operations do to the text\<close>

lemma piece_split:
  assumes "piece_ok orig add p" "0 < n" "n < span_length (span p)"
    and "left = p\<lparr>span := (span p)\<lparr>span_length := n\<rparr>\<rparr>"
    and "right = p\<lparr>span := (span p)\<lparr>span_start := span_start (span p) + n, span_length := span_length (span p) - n\<rparr>\<rparr>"
  shows "piece_ok orig add left" "piece_ok orig add right"
    "piece_text orig add left = take n (piece_text orig add p)"
    "piece_text orig add right = drop n (piece_text orig add p)"
  using assms
  by (auto simp: piece_ok_def piece_text_def piece_buffer_def TextSpan_end_def substr_def drop_take add.commute
      split: BufferKind.splits)

lemma splitAt_loop_spec:
  assumes "pieces_ok orig add ps" "consumed \<le> logical" "logical \<le> consumed + length (pieces_text orig add ps)"
    and "splitAt_loop ps i consumed logical = (ps', k)"
  shows "pieces_ok orig add ps' \<and> i \<le> k \<and> k - i \<le> length ps'
    \<and> pieces_text orig add (take (k - i) ps') = take (logical - consumed) (pieces_text orig add ps)
    \<and> pieces_text orig add (drop (k - i) ps') = drop (logical - consumed) (pieces_text orig add ps)"
  using assms
proof (induction ps i consumed logical arbitrary: ps' k rule: splitAt_loop.induct)
  case (1 i consumed logical)
  then show ?case by simp
next
  case (2 p ps i consumed logical)
  let ?n = "span_length (span p)"
  have p: "piece_ok orig add p" and ps: "pieces_ok orig add ps" using "2.prems"(1) by auto
  have len: "length (piece_text orig add p) = ?n" by (rule piece_ok_length [OF p])
  consider (here) "logical = consumed" | (next_one) "logical \<noteq> consumed" "logical = consumed + ?n"
    | (inside) "consumed < logical" "logical < consumed + ?n" | (later) "consumed + ?n < logical"
    using "2.prems"(2) by linarith
  then show ?case
  proof cases
    case here
    with "2.prems" show ?thesis by auto
  next
    case next_one
    with "2.prems" len show ?thesis by auto
  next
    case inside
    then have n: "0 < logical - consumed" "logical - consumed < ?n" by auto
    note sp = piece_split [OF p n refl refl]
    from inside "2.prems"(4) have
      "ps' = p\<lparr>span := (span p)\<lparr>span_length := logical - consumed\<rparr>\<rparr>
         # p\<lparr>span := (span p)\<lparr>span_start := span_start (span p) + (logical - consumed),
                             span_length := span_length (span p) - (logical - consumed)\<rparr>\<rparr> # ps"
      "k = i + 1" by (auto simp: Let_def)
    with sp ps n len show ?thesis by simp
  next
    case later
    obtain qs l where rec: "splitAt_loop ps (i + 1) (consumed + ?n) logical = (qs, l)" by (metis surj_pair)
    with later "2.prems"(4) have res: "ps' = p # qs" "k = l" by (auto simp: Let_def)
    have "pieces_ok orig add qs \<and> i + 1 \<le> l \<and> l - (i + 1) \<le> length qs
      \<and> pieces_text orig add (take (l - (i + 1)) qs) = take (logical - (consumed + ?n)) (pieces_text orig add ps)
      \<and> pieces_text orig add (drop (l - (i + 1)) qs) = drop (logical - (consumed + ?n)) (pieces_text orig add ps)"
      using later "2.prems"(3) len by (intro "2.IH" [OF refl refl _ _ _ ps _ _ rec]) auto
    moreover from this have "l - i = Suc (l - (i + 1))" by linarith
    ultimately show ?thesis using later len p res by (auto simp: take_Cons' drop_Cons')
  qed
qed

lemma splitAt_spec:
  assumes "pieces_ok orig add ps" "len = length (pieces_text orig add ps)" "off \<le> len"
    and "splitAt ps len off = (ps', k)"
  shows "pieces_ok orig add ps'" "k \<le> length ps'"
    "pieces_text orig add (take k ps') = take off (pieces_text orig add ps)"
    "pieces_text orig add (drop k ps') = drop off (pieces_text orig add ps)"
    "pieces_text orig add ps' = pieces_text orig add ps"
proof -
  have "pieces_ok orig add ps' \<and> k \<le> length ps'
    \<and> pieces_text orig add (take k ps') = take off (pieces_text orig add ps)
    \<and> pieces_text orig add (drop k ps') = drop off (pieces_text orig add ps)"
  proof (cases "off = 0 \<or> off = len")
    case True
    with assms show ?thesis by (auto simp: splitAt_def split: if_splits)
  next
    case False
    with assms have "splitAt_loop ps 0 0 off = (ps', k)" by (simp add: splitAt_def min_absorb1)
    from splitAt_loop_spec [OF assms(1) _ _ this] assms(2,3) show ?thesis by simp
  qed
  moreover from this show "pieces_ok orig add ps'" "k \<le> length ps'"
    "pieces_text orig add (take k ps') = take off (pieces_text orig add ps)"
    "pieces_text orig add (drop k ps') = drop off (pieces_text orig add ps)" by blast+
  ultimately show "pieces_text orig add ps' = pieces_text orig add ps"
    by (metis append_take_drop_id pieces_text_simps(3))
qed

lemma joinPieces_spec:
  assumes "piece_ok orig add l" "piece_ok orig add r" "adjacent l r"
  shows "piece_ok orig add (joinPieces l r)"
    "piece_text orig add (joinPieces l r) = piece_text orig add l @ piece_text orig add r"
  using assms
  by (auto simp: joinPieces_def adjacent_def piece_ok_def piece_text_def piece_buffer_def TextSpan_end_def
      substr_append split: BufferKind.splits)

lemma merge_pair_spec:
  assumes "pieces_ok orig add ps" "i + 1 < length ps" "adjacent (ps ! i) (ps ! (i + 1))"
  shows "pieces_ok orig add (merge_pair ps i) \<and> pieces_text orig add (merge_pair ps i) = pieces_text orig add ps"
proof -
  have split: "ps = take i ps @ ps ! i # ps ! (i + 1) # drop (i + 2) ps"
    using Cons_nth_drop_Suc [of i ps] Cons_nth_drop_Suc [of "i + 1" ps] append_take_drop_id [of i ps] assms(2)
    by simp
  have ok: "piece_ok orig add (ps ! i)" "piece_ok orig add (ps ! (i + 1))"
    "pieces_ok orig add (take i ps)" "pieces_ok orig add (drop (i + 2) ps)"
    using assms(1,2) by (auto simp: list_all_length)
  have "pieces_text orig add ps = pieces_text orig add (take i ps) @ piece_text orig add (ps ! i)
      @ piece_text orig add (ps ! (i + 1)) @ pieces_text orig add (drop (i + 2) ps)"
    by (subst split) simp
  with ok joinPieces_spec [OF ok(1,2) assms(3)] show ?thesis by (simp add: merge_pair_def)
qed

lemma mergeAdjacentPiecesAt_spec:
  assumes "pieces_ok orig add ps"
  shows "pieces_ok orig add (mergeAdjacentPiecesAt ps i)
    \<and> pieces_text orig add (mergeAdjacentPiecesAt ps i) = pieces_text orig add ps"
proof (cases "ps = []")
  case True
  then show ?thesis by (simp add: mergeAdjacentPiecesAt_def)
next
  case False
  define index where "index = (if i \<ge> length ps then length ps - 1 else i)"
  have index: "index < length ps" using False by (auto simp: index_def)
  obtain ps1 j where one: "(ps1, j) = (if index > 0 \<and> adjacent (ps ! (index - 1)) (ps ! index)
                then (merge_pair ps (index - 1), index - 1) else (ps, index))" by (metis surj_pair)
  have ps1: "pieces_ok orig add ps1 \<and> pieces_text orig add ps1 = pieces_text orig add ps"
    using one merge_pair_spec [OF assms, of "index - 1"] assms index by (auto split: if_splits)
  have "mergeAdjacentPiecesAt ps i = (if j + 1 < length ps1 \<and> adjacent (ps1 ! j) (ps1 ! (j + 1))
            then merge_pair ps1 j else ps1)"
    using False unfolding mergeAdjacentPiecesAt_def Let_def index_def [symmetric] one [symmetric] by simp
  with ps1 merge_pair_spec [of orig add ps1 j] show ?thesis by auto
qed

text \<open>An edit of the pieces: everything between two cuts replaced by \<open>ins\<close>, then merged.\<close>

lemma pieces_insert_spec:
  assumes "pieces_ok orig add ps" "pieces_ok orig add [p]" "len = length (pieces_text orig add ps)" "off \<le> len"
    and "splitAt ps len off = (ps1, k)" "ps2 = mergeAdjacentPiecesAt (pieces_insert ps1 k p) k"
  shows "pieces_ok orig add ps2"
    "pieces_text orig add ps2 = take off (pieces_text orig add ps) @ piece_text orig add p @ drop off (pieces_text orig add ps)"
proof -
  note s = splitAt_spec [OF assms(1,3,4,5)]
  have "pieces_ok orig add (pieces_insert ps1 k p)"
    using s(1) assms(2) by (auto simp: pieces_insert_def list_all_iff dest: in_set_takeD in_set_dropD)
  from mergeAdjacentPiecesAt_spec [OF this] s assms(6)
  show "pieces_ok orig add ps2"
    "pieces_text orig add ps2 = take off (pieces_text orig add ps) @ piece_text orig add p @ drop off (pieces_text orig add ps)"
    by (simp_all add: pieces_insert_def)
qed

lemma splitAt_loop_ge: "splitAt_loop ps i consumed logical = (ps', k) \<Longrightarrow> i \<le> k"
  by (induction ps i consumed logical arbitrary: ps' k rule: splitAt_loop.induct)
    (fastforce simp: Let_def split: if_splits prod.splits)+

lemma splitAt_loop_prefix:
  "pieces_ok orig add ps \<Longrightarrow> n \<le> length ps \<Longrightarrow> consumed + length (pieces_text orig add (take n ps)) \<le> logical \<Longrightarrow>
   splitAt_loop ps i consumed logical = (ps', k) \<Longrightarrow> take n ps' = take n ps \<and> n + i \<le> k"
proof (induction ps i consumed logical arbitrary: n ps' k rule: splitAt_loop.induct)
  case (1 i consumed logical)
  then show ?case by simp
next
  case (2 p ps i consumed logical)
  let ?len = "span_length (span p)"
  have p: "piece_ok orig add p" and ps: "pieces_ok orig add ps" using "2.prems"(1) by auto
  have len: "length (piece_text orig add p) = ?len" "0 < ?len" using p piece_ok_length by (auto simp: piece_ok_def)
  have other: "0 < length (pieces_text orig add qs)" if "pieces_ok orig add qs" "qs \<noteq> []" for qs
    using that by (cases qs) (auto simp: piece_ok_length piece_ok_def)
  show ?case
  proof (cases n)
    case 0
    with "2.prems"(4) show ?thesis
    proof (cases "consumed + ?len < logical")
      case True
      obtain qs l where rec: "splitAt_loop ps (i + 1) (consumed + ?len) logical = (qs, l)" by (metis surj_pair)
      from "2.IH" [OF refl refl _ _ _ ps _ _ rec, of 0] True rec "2.prems"(4) 0 show ?thesis
        by (auto simp: Let_def)
    qed (auto simp: Let_def split: if_splits prod.splits dest!: splitAt_loop_ge)
  next
    case (Suc m)
    then have m: "m \<le> length ps" "consumed + ?len + length (pieces_text orig add (take m ps)) \<le> logical"
      using "2.prems"(2,3) len by auto
    show ?thesis
    proof (cases "logical = consumed + ?len")
      case True
      have "pieces_ok orig add (take m ps)" using ps by (auto simp: list_all_iff dest: in_set_takeD)
      with m(2) True other [of "take m ps"] have "take m ps = []" by fastforce
      then have "m = 0 \<or> ps = []" by simp
      with m(1) have "m = 0" by auto
      with Suc True len "2.prems"(4) show ?thesis by (auto simp: Let_def)
    next
      case False
      with m have later: "consumed + ?len < logical" by simp
      obtain qs l where rec: "splitAt_loop ps (i + 1) (consumed + ?len) logical = (qs, l)" by (metis surj_pair)
      have "take m qs = take m ps \<and> m + (i + 1) \<le> l"
        using later m by (intro "2.IH" [OF refl refl _ _ _ ps m(1) _ rec]) auto
      with later rec "2.prems"(4) Suc show ?thesis by (auto simp: Let_def)
    qed
  qed
qed

lemma splitAt_prefix:
  assumes "pieces_ok orig add ps" "n \<le> length ps" "length (pieces_text orig add (take n ps)) \<le> off" "off \<le> len"
    and "splitAt ps len off = (ps', k)"
  shows "take n ps' = take n ps" "n \<le> k"
proof -
  have "take n ps' = take n ps \<and> n \<le> k"
  proof (cases "off = 0 \<or> off = len")
    case True
    have "n = 0" if "off = 0"
      using that assms(1,2,3) by (cases ps; cases n) (auto simp: piece_ok_def piece_ok_length)
    with True assms show ?thesis by (auto simp: splitAt_def split: if_splits)
  next
    case False
    with assms have "splitAt_loop ps 0 0 off = (ps', k)" by (simp add: splitAt_def min_absorb1)
    from splitAt_loop_prefix [OF assms(1,2) _ this] assms(3) show ?thesis by simp
  qed
  then show "take n ps' = take n ps" "n \<le> k" by auto
qed

lemma pieces_erase_spec:
  assumes "pieces_ok orig add ps" "len = length (pieces_text orig add ps)" "a \<le> b" "b \<le> len"
    and "splitAt ps len a = (ps1, i)" "splitAt ps1 len b = (ps2, j)"
    and "ps3 = mergeAdjacentPiecesAt (pieces_erase ps2 i j) i"
  shows "pieces_ok orig add ps3"
    "pieces_text orig add ps3 = take a (pieces_text orig add ps) @ drop b (pieces_text orig add ps)"
proof -
  have "a \<le> len" using assms(3,4) by simp
  note s1 = splitAt_spec [OF assms(1,2) this assms(5)]
  have len1: "len = length (pieces_text orig add ps1)" using s1(5) assms(2) by simp
  note s2 = splitAt_spec [OF s1(1) len1 assms(4,6)]
  have "length (pieces_text orig add (take i ps1)) \<le> b" using s1(3) assms(3) by simp
  note pre = splitAt_prefix [OF s1(1,2) this assms(4,6)]
  have cut: "pieces_text orig add (take i ps2) = take a (pieces_text orig add ps)" using pre(1) s1(3) by simp
  have "pieces_ok orig add (pieces_erase ps2 i j)"
    using s2(1) by (auto simp: pieces_erase_def list_all_iff dest: in_set_takeD in_set_dropD)
  moreover have "pieces_text orig add (pieces_erase ps2 i j) = take a (pieces_text orig add ps) @ drop b (pieces_text orig add ps)"
  proof (cases "i < j")
    case True
    then show ?thesis using cut s2(4) s1(5) by (simp add: pieces_erase_def)
  next
    case False
    then have "i = j" using pre(2) by simp
    then show ?thesis using cut s2(4,5) s1(5) pieces_text_simps(3) [of orig add "take i ps2" "drop i ps2"]
      by (simp add: pieces_erase_def)
  qed
  ultimately show "pieces_ok orig add ps3"
    "pieces_text orig add ps3 = take a (pieces_text orig add ps) @ drop b (pieces_text orig add ps)"
    using mergeAdjacentPiecesAt_spec [of orig add "pieces_erase ps2 i j" i] assms(7) by auto
qed

end
