(* ===== verification/Line_Breaks.thy ===== *)
theory Line_Breaks
  imports Text_Types
begin

text \<open>
  What a line is, as a specification on byte strings. A line ends with LF, with CR, or with the
  pair CR LF, which is one break. The scanners and the line index of \<open>src/piecetable\<close> are proved
  against these definitions; only \<open>isLineBreakByte\<close> is code.
\<close>

subsection \<open>Specification: where lines end and start\<close>

definition isLineBreakByte :: "char \<Rightarrow> bool" where
  "isLineBreakByte ch \<longleftrightarrow> ch = LF \<or> ch = CR"

text \<open>\<open>lb_end s i\<close>: byte \<open>i\<close> is the last byte of a line break of \<open>s\<close>.\<close>

definition lb_end :: "string \<Rightarrow> nat \<Rightarrow> bool" where
  "lb_end s i \<longleftrightarrow> i < length s \<and>
     (s ! i = LF \<or> (s ! i = CR \<and> \<not> (Suc i < length s \<and> s ! Suc i = LF)))"

definition breaks_before :: "string \<Rightarrow> nat \<Rightarrow> nat" where
  "breaks_before s p = length (filter (lb_end s) [0..<p])"

definition line_starts :: "string \<Rightarrow> nat list" where
  "line_starts s = 0 # map Suc (filter (lb_end s) [0..<length s])"

definition is_line_start :: "string \<Rightarrow> nat \<Rightarrow> bool" where
  "is_line_start s p \<longleftrightarrow> p = 0 \<or> lb_end s (p - 1)"

text \<open>\<open>mid_crlf s p\<close>: offset \<open>p\<close> lies between the CR and the LF of one break.\<close>

definition mid_crlf :: "string \<Rightarrow> nat \<Rightarrow> bool" where
  "mid_crlf s p \<longleftrightarrow> 0 < p \<and> p < length s \<and> s ! (p - 1) = CR \<and> s ! p = LF"

definition line_start_at :: "string \<Rightarrow> nat \<Rightarrow> nat" where
  "line_start_at s p = last (filter (\<lambda>x. x \<le> p) (line_starts s))"

definition line_count :: "string \<Rightarrow> nat" where
  "line_count s = Suc (breaks_before s (length s))"

lemma lb_end_less: "lb_end s i \<Longrightarrow> i < length s"
  by (simp add: lb_end_def)

lemma breaks_before_0 [simp]: "breaks_before s 0 = 0"
  by (simp add: breaks_before_def)

lemma breaks_before_Suc: "breaks_before s (Suc p) = breaks_before s p + of_bool (lb_end s p)"
  by (simp add: breaks_before_def)

lemma breaks_before_mono: "p \<le> q \<Longrightarrow> breaks_before s p \<le> breaks_before s q"
  by (induction q rule: dec_induct) (auto simp: breaks_before_Suc)

lemma breaks_before_split:
  "p \<le> q \<Longrightarrow> breaks_before s q = breaks_before s p + length (filter (lb_end s) [p..<q])"
  by (induction q rule: dec_induct) (auto simp: breaks_before_Suc)

lemma breaks_before_beyond:
  "length s \<le> p \<Longrightarrow> breaks_before s p = breaks_before s (length s)"
  by (induction p rule: dec_induct) (auto simp: breaks_before_Suc dest: lb_end_less)

lemma breaks_before_eqI:
  "p \<le> q \<Longrightarrow> (\<And>i. p \<le> i \<Longrightarrow> i < q \<Longrightarrow> \<not> lb_end s i) \<Longrightarrow> breaks_before s q = breaks_before s p"
  by (simp add: breaks_before_split filter_empty_conv)

lemma length_line_starts: "length (line_starts s) = line_count s"
  by (simp add: line_starts_def line_count_def breaks_before_def)

lemma set_line_starts: "set (line_starts s) = {p. is_line_start s p}"
proof -
  have "p \<in> set (line_starts s) \<longleftrightarrow> is_line_start s p" for p
    by (cases p) (auto simp: line_starts_def is_line_start_def dest: lb_end_less)
  then show ?thesis by auto
qed

lemma sorted_line_starts: "sorted (line_starts s)"
  by (auto simp: line_starts_def sorted_map intro: sorted_wrt_mono_rel [OF _ sorted_wrt_filter [OF sorted_upt]])

lemma distinct_line_starts: "distinct (line_starts s)"
  by (simp add: line_starts_def distinct_map)

lemma is_line_start_0 [simp]: "is_line_start s 0"
  by (simp add: is_line_start_def)

lemma is_line_start_le: "is_line_start s p \<Longrightarrow> p \<le> length s"
  by (auto simp: is_line_start_def dest: lb_end_less)

lemma is_line_start_not_mid: "is_line_start s p \<Longrightarrow> \<not> mid_crlf s p"
  by (cases p) (auto simp: is_line_start_def mid_crlf_def lb_end_def)

lemma not_lb_end_before_mid: "mid_crlf s p \<Longrightarrow> \<not> lb_end s (p - 1)"
  using is_line_start_not_mid [of s p] by (auto simp: is_line_start_def)

lemma isLineBreakByte_lb_end:
  "i < length s \<Longrightarrow> isLineBreakByte (s ! i) \<longleftrightarrow> lb_end s i \<or> mid_crlf s (Suc i)"
  by (auto simp: isLineBreakByte_def lb_end_def mid_crlf_def)

lemma lb_end_byte: "lb_end s i \<Longrightarrow> isLineBreakByte (s ! i)"
  by (auto simp: isLineBreakByte_def lb_end_def)

text \<open>The start of the line holding \<open>p\<close> is the line start with no break between.\<close>

lemma line_start_at_eqI:
  assumes "is_line_start s b" "b \<le> p" "\<And>i. b \<le> i \<Longrightarrow> i < p \<Longrightarrow> \<not> lb_end s i"
  shows "line_start_at s p = b"
proof -
  let ?xs = "filter (\<lambda>x. x \<le> p) (line_starts s)"
  have mem: "b \<in> set ?xs" using assms(1,2) by (simp add: set_line_starts)
  have le: "x \<le> b" if "x \<in> set ?xs" for x
  proof (rule ccontr)
    assume "\<not> x \<le> b"
    then have "lb_end s (x - 1)" "b \<le> x - 1" "x - 1 < p"
      using that by (auto simp: set_line_starts is_line_start_def)
    with assms(3) show False by blast
  qed
  have "sorted ?xs" by (simp add: sorted_line_starts sorted_wrt_filter)
  then have "b \<le> last ?xs" using mem by (rule sorted_last_ge)
  moreover have "last ?xs \<in> set ?xs" using mem by (intro last_in_set) fastforce
  ultimately show ?thesis using le by (force simp: line_start_at_def)
qed

lemma line_start_at_ex:
  "\<exists>b. is_line_start s b \<and> b \<le> p \<and> (\<forall>i. b \<le> i \<and> i < p \<longrightarrow> \<not> lb_end s i)"
proof (induction p)
  case 0
  then show ?case by (intro exI [of _ 0]) simp
next
  case (Suc p)
  then obtain b where b: "is_line_start s b" "b \<le> p" "\<forall>i. b \<le> i \<and> i < p \<longrightarrow> \<not> lb_end s i"
    by blast
  show ?case
  proof (cases "lb_end s p")
    case True
    then show ?thesis by (intro exI [of _ "Suc p"]) (auto simp: is_line_start_def)
  next
    case False
    with b show ?thesis by (intro exI [of _ b]) (auto simp: less_Suc_eq)
  qed
qed

lemma line_start_at_props:
  "is_line_start s (line_start_at s p)" "line_start_at s p \<le> p"
  "line_start_at s p \<le> i \<Longrightarrow> i < p \<Longrightarrow> \<not> lb_end s i"
proof -
  obtain b where b: "is_line_start s b" "b \<le> p" "\<forall>i. b \<le> i \<and> i < p \<longrightarrow> \<not> lb_end s i"
    using line_start_at_ex by blast
  then have "line_start_at s p = b" by (intro line_start_at_eqI) auto
  with b show "is_line_start s (line_start_at s p)" "line_start_at s p \<le> p"
    "line_start_at s p \<le> i \<Longrightarrow> i < p \<Longrightarrow> \<not> lb_end s i" by auto
qed

lemma breaks_before_line_start_at [simp]:
  "breaks_before s (line_start_at s p) = breaks_before s p"
  by (rule breaks_before_eqI [symmetric]) (auto simp: line_start_at_props)

text \<open>Line \<open>k\<close> starts at the \<open>k\<close>-th entry; its number is the count of breaks before it.\<close>

lemma breaks_before_nth_start:
  "k < line_count s \<Longrightarrow> breaks_before s (line_starts s ! k) = k"
  by (cases k) (auto simp: line_starts_def line_count_def breaks_before_def filter_upt_nth_count
      simp del: upt_Suc)

lemma line_start_at_mid:
  assumes "mid_crlf s p"
  shows "line_start_at s (p - 1) = line_start_at s p"
proof (rule line_start_at_eqI [symmetric])
  show "line_start_at s (p - 1) \<le> p" using line_start_at_props(2) [of s "p - 1"] by simp
  fix i assume i: "line_start_at s (p - 1) \<le> i" "i < p"
  show "\<not> lb_end s i"
  proof (cases "i = p - 1")
    case True
    then show ?thesis using not_lb_end_before_mid [OF assms] by simp
  next
    case False
    then show ?thesis using i line_start_at_props(3) [of s "p - 1" i] by simp
  qed
qed (rule line_start_at_props)

subsection \<open>The next line start\<close>

definition next_line_start :: "string \<Rightarrow> nat \<Rightarrow> nat option" where
  "next_line_start s p =
     (case filter (lb_end s) [p..<length s] of [] \<Rightarrow> None | i # _ \<Rightarrow> Some (Suc i))"

lemma next_line_start_None: "next_line_start s p = None \<longleftrightarrow> (\<forall>i \<ge> p. \<not> lb_end s i)"
proof -
  have "next_line_start s p = None \<longleftrightarrow> filter (lb_end s) [p..<length s] = []"
    by (auto simp: next_line_start_def split: list.splits)
  also have "\<dots> \<longleftrightarrow> (\<forall>i \<ge> p. \<not> lb_end s i)"
    by (fastforce simp: filter_empty_conv dest: lb_end_less)
  finally show ?thesis .
qed

lemma filter_upt_first:
  "p \<le> i \<Longrightarrow> i < n \<Longrightarrow> P i \<Longrightarrow> (\<And>j. p \<le> j \<Longrightarrow> j < i \<Longrightarrow> \<not> P j) \<Longrightarrow>
   filter P [p..<n] = i # filter P [Suc i..<n]"
proof -
  assume a: "p \<le> i" "i < n" "P i" "\<And>j. p \<le> j \<Longrightarrow> j < i \<Longrightarrow> \<not> P j"
  have "[p..<n] = [p..<i] @ i # [Suc i..<n]"
    using a(1,2) by (metis le_add_diff_inverse less_imp_le upt_add_eq_append upt_conv_Cons)
  moreover have "filter P [p..<i] = []" using a(4) by (auto simp: filter_empty_conv)
  ultimately show ?thesis using a(3) by simp
qed

lemma next_line_start_SomeI:
  "p \<le> i \<Longrightarrow> lb_end s i \<Longrightarrow> (\<And>j. p \<le> j \<Longrightarrow> j < i \<Longrightarrow> \<not> lb_end s j) \<Longrightarrow>
   next_line_start s p = Some (Suc i)"
  using filter_upt_first [of p i "length s" "lb_end s"] by (auto simp: next_line_start_def dest: lb_end_less)

lemma next_line_start_SomeD:
  assumes "next_line_start s p = Some q"
  shows "p < q" "q \<le> length s" "lb_end s (q - 1)" "is_line_start s q"
    "\<And>j. p \<le> j \<Longrightarrow> j < q - 1 \<Longrightarrow> \<not> lb_end s j"
    "breaks_before s q = Suc (breaks_before s p)"
proof -
  obtain i xs where i: "filter (lb_end s) [p..<length s] = i # xs" "q = Suc i"
    using assms by (auto simp: next_line_start_def split: list.splits)
  have mem: "i \<in> set (filter (lb_end s) [p..<length s])" by (simp add: i)
  then have lb: "p \<le> i" "lb_end s i" "i < length s" by auto
  show "p < q" "q \<le> length s" "lb_end s (q - 1)" "is_line_start s q"
    using lb i by (auto simp: is_line_start_def)
  have sorted: "sorted (i # xs)" using i(1) by (metis sorted_upt sorted_wrt_filter)
  show none: "\<not> lb_end s j" if "p \<le> j" "j < q - 1" for j
  proof
    assume "lb_end s j"
    then have "j \<in> set (i # xs)" using that i by (auto simp flip: i(1) dest: lb_end_less)
    with sorted that i(2) show False by auto
  qed
  have "breaks_before s i = breaks_before s p"
    using lb none i(2) by (intro breaks_before_eqI) auto
  then show "breaks_before s q = Suc (breaks_before s p)" using lb i by (simp add: breaks_before_Suc)
qed

lemma next_line_start_beyond: "length s \<le> p \<Longrightarrow> next_line_start s p = None"
  by (simp add: next_line_start_def)

subsection \<open>Line breaks of a concatenation\<close>

text \<open>
  Cutting a text in two moves no line break, unless the cut separates a CR from its LF: then the CR
  alone is a break of the first part that the whole text does not have.
\<close>

definition seam :: "string \<Rightarrow> string \<Rightarrow> bool" where
  "seam x y \<longleftrightarrow> x \<noteq> [] \<and> y \<noteq> [] \<and> last x = CR \<and> hd y = LF"

lemma seam_Nil [simp]: "\<not> seam [] y" "\<not> seam x []"
  by (simp_all add: seam_def)

lemma seam_append_right: "y \<noteq> [] \<Longrightarrow> seam x (y @ z) = seam x y"
  by (simp add: seam_def)

lemma seam_append_left: "y \<noteq> [] \<Longrightarrow> seam (x @ y) z = seam y z"
  by (simp add: seam_def)

lemma mid_crlf_seam: "p \<le> length s \<Longrightarrow> mid_crlf s p \<longleftrightarrow> seam (take p s) (drop p s)"
  by (cases "p = 0 \<or> p = length s")
    (auto simp: mid_crlf_def seam_def last_take_nth hd_drop_conv_nth)

lemma lb_end_append_right [simp]: "lb_end (x @ y) (length x + j) = lb_end y j"
  by (auto simp: lb_end_def nth_append)

lemma lb_end_append_left:
  "i < length x \<Longrightarrow> lb_end (x @ y) i \<longleftrightarrow> lb_end x i \<and> \<not> (Suc i = length x \<and> seam x y)"
proof (cases "Suc i = length x")
  case True
  then have ne: "x \<noteq> []" and "i = length x - 1" by auto
  then have "last x = x ! i" by (simp add: last_conv_nth)
  with True ne show ?thesis by (cases y) (auto simp: lb_end_def nth_append seam_def)
next
  case False
  then show "i < length x \<Longrightarrow> ?thesis" by (auto simp: lb_end_def nth_append)
qed

lemma lb_end_append_ge: "length x \<le> i \<Longrightarrow> lb_end (x @ y) i = lb_end y (i - length x)"
  by (metis lb_end_append_right le_add_diff_inverse)

lemma breaks_before_append_less: "p < length x \<Longrightarrow> breaks_before (x @ y) p = breaks_before x p"
  unfolding breaks_before_def by (intro arg_cong [where f = length] filter_cong) (auto simp: lb_end_append_left)

lemma breaks_before_append_at:
  "breaks_before (x @ y) (length x) + of_bool (seam x y) = breaks_before x (length x)"
proof (cases x rule: rev_cases)
  case (snoc xs c)
  have "breaks_before (x @ y) (length xs) = breaks_before x (length xs)"
    using snoc by (intro breaks_before_append_less) simp
  moreover have "lb_end (x @ y) (length xs) \<longleftrightarrow> lb_end x (length xs) \<and> \<not> seam x y"
    using snoc by (subst lb_end_append_left) auto
  moreover have "seam x y \<longrightarrow> lb_end x (length xs)"
    using snoc by (auto simp: seam_def lb_end_def nth_append)
  ultimately show ?thesis using snoc by (auto simp: breaks_before_Suc)
qed simp

lemma breaks_before_append_right:
  "breaks_before (x @ y) (length x + j) + of_bool (seam x y) = breaks_before x (length x) + breaks_before y j"
proof (induction j)
  case 0
  then show ?case using breaks_before_append_at [of x y] by simp
next
  case (Suc j)
  then show ?case by (simp add: breaks_before_Suc)
qed

lemma is_line_start_append_less:
  "p < length x \<Longrightarrow> is_line_start (x @ y) p = is_line_start x p"
  by (cases p) (auto simp: is_line_start_def lb_end_append_left)

lemma is_line_start_append_at: "is_line_start (x @ y) (length x) \<longleftrightarrow> is_line_start x (length x) \<and> \<not> seam x y"
  by (cases "x = []") (auto simp: is_line_start_def lb_end_append_left)

lemma is_line_start_append_right: "0 < j \<Longrightarrow> is_line_start (x @ y) (length x + j) = is_line_start y j"
  by (cases j) (auto simp: is_line_start_def)

text \<open>The ends of line breaks, as a list: a break split by the cut belongs to the second part.\<close>

definition line_ends :: "string \<Rightarrow> nat list" where
  "line_ends s = filter (lb_end s) [0..<length s]"

lemma line_starts_ends: "line_starts s = 0 # map Suc (line_ends s)"
  by (simp add: line_starts_def line_ends_def)

lemma filter_upt_shift:
  "filter P [m..<m + n] = map ((+) m) (filter (\<lambda>j. P (m + j)) [0..<n])"
  by (simp add: upt_shift filter_map comp_def)

lemma line_ends_append:
  assumes "\<not> seam x y"
  shows "line_ends (x @ y) = line_ends x @ map ((+) (length x)) (line_ends y)"
proof -
  have "[0..<length (x @ y)] = [0..<length x] @ [length x..<length x + length y]"
    using upt_split_at [of "length x" "length x + length y"] by simp
  moreover have "filter (lb_end (x @ y)) [0..<length x] = line_ends x"
    unfolding line_ends_def using assms by (intro filter_cong) (auto simp: lb_end_append_left)
  moreover have "filter (lb_end (x @ y)) [length x..<length x + length y] = map ((+) (length x)) (line_ends y)"
    by (simp add: filter_upt_shift line_ends_def)
  ultimately show ?thesis by (simp add: line_ends_def)
qed

lemma line_ends_less: "i \<in> set (line_ends s) \<Longrightarrow> i < length s"
  by (simp add: line_ends_def)

lemma line_ends_plain: "\<forall>c \<in> set s. \<not> isLineBreakByte c \<Longrightarrow> line_ends s = []"
  by (auto simp: line_ends_def filter_empty_conv dest!: lb_end_byte)

lemma line_count_ends: "line_count s = Suc (length (line_ends s))"
  by (simp add: line_count_def line_ends_def breaks_before_def)

end
