(* ===== verification/Line_Scan.thy ===== *)
theory Line_Scan
  imports Line_Breaks
begin

unbundle bit_operations_syntax

text \<open>
  The scanners of \<open>src/piecetable/MRTextDocumentDirectLineIndex.cpp\<close> on contiguous bytes: counting
  breaks, finding the next and the previous break, stepping to the next line, collecting the line
  starts of inserted text. The 16-lane SSE2 loops are modelled lane by lane: a vector compare is a
  list of lane results, \<open>_mm_movemask_epi8\<close> a 32-bit word whose bit \<open>i\<close> is lane \<open>i\<close>. Each scanner
  is proved equal to the portable byte loop of its \<open>#else\<close> branch and to the specification of
  \<open>Line_Breaks\<close>.
\<close>

subsection \<open>Vector lanes and bit masks\<close>

definition movemask :: "bool list \<Rightarrow> 32 word" where
  "movemask lanes = horner_sum of_bool 2 lanes"

definition cmpeq :: "string \<Rightarrow> char \<Rightarrow> bool list" where
  "cmpeq bytes c = map (\<lambda>b. b = c) bytes"

definition or_lanes :: "bool list \<Rightarrow> bool list \<Rightarrow> bool list" where
  "or_lanes xs ys = map2 (\<or>) xs ys"

definition popcount :: "32 word \<Rightarrow> nat" where
  "popcount w = length (filter (bit w) [0..<32])"

definition ctz :: "32 word \<Rightarrow> nat" where
  "ctz w = length (takeWhile (\<lambda>i. \<not> bit w i) [0..<32])"

definition clz :: "32 word \<Rightarrow> nat" where
  "clz w = length (takeWhile (\<lambda>i. \<not> bit w (31 - i)) [0..<32])"

lemma bit_movemask: "length lanes \<le> 32 \<Longrightarrow> bit (movemask lanes) i \<longleftrightarrow> i < length lanes \<and> lanes ! i"
  by (auto simp: movemask_def bit_horner_sum_bit_word_iff)

lemma movemask_eq_0: "length lanes \<le> 32 \<Longrightarrow> movemask lanes = 0 \<longleftrightarrow> True \<notin> set lanes"
  by (force simp: bit_eq_iff bit_movemask in_set_conv_nth)

lemma or_lanes_cmpeq: "or_lanes (cmpeq bs CR) (cmpeq bs LF) = map isLineBreakByte bs"
  by (auto simp: or_lanes_def cmpeq_def isLineBreakByte_def map2_map_map)

text \<open>The lowest set bit is the first lane that matched, the highest set bit the last.\<close>

lemma ctz_movemask:
  assumes "length lanes \<le> 32" "True \<in> set lanes"
  shows "ctz (movemask lanes) = length (takeWhile Not lanes)"
proof -
  let ?k = "length (takeWhile Not lanes)"
  have k: "?k < length lanes"
    using takeWhile_length_less [OF assms(2), of Not] by simp
  show ?thesis unfolding ctz_def
  proof (rule length_takeWhile_eqI)
    show "\<And>i. i < ?k \<Longrightarrow> \<not> bit (movemask lanes) ([0..<32] ! i)"
      using assms(1) k takeWhile_nth_P [of _ Not lanes] by (auto simp: bit_movemask)
    show "\<not> \<not> bit (movemask lanes) ([0..<32] ! ?k)"
      using assms(1) k nth_length_takeWhile [OF k] by (simp add: bit_movemask)
  qed (use k assms(1) in simp)
qed

lemma clz_movemask:
  assumes "length lanes \<le> 32" "True \<in> set lanes"
  shows "31 - clz (movemask lanes) = length (dropWhile Not (rev lanes)) - 1"
proof -
  let ?k = "length (takeWhile Not (rev lanes))"
  have k: "?k < length lanes"
    using takeWhile_length_less [of True "rev lanes" Not] assms(2) by simp
  have len: "length (dropWhile Not (rev lanes)) = length lanes - ?k"
    by (metis length_drop dropWhile_eq_drop length_rev)
  have "clz (movemask lanes) = 32 - length lanes + ?k" unfolding clz_def
  proof (rule length_takeWhile_eqI)
    show "32 - length lanes + ?k \<le> length [0..<32::nat]" using k assms(1) by simp
    fix i assume i: "i < 32 - length lanes + ?k"
    show "\<not> bit (movemask lanes) (31 - [0..<32] ! i)"
    proof (cases "31 - i < length lanes")
      case True
      with i have j: "length lanes - 1 - (31 - i) < ?k" using k assms(1) by simp
      have "rev lanes ! (length lanes - 1 - (31 - i)) = lanes ! (31 - i)"
        using True by (simp add: rev_nth)
      moreover have "\<not> rev lanes ! (length lanes - 1 - (31 - i))"
        using takeWhile_nth_P [OF j] by simp
      ultimately show ?thesis using i k assms(1) by (simp add: bit_movemask)
    next
      case False
      then show ?thesis using i k assms(1) by (simp add: bit_movemask)
    qed
  next
    show "\<not> \<not> bit (movemask lanes) (31 - [0..<32] ! (32 - length lanes + ?k))"
    proof -
      have "rev lanes ! ?k" using nth_length_takeWhile [of Not "rev lanes"] k by simp
      then have "lanes ! (length lanes - 1 - ?k)" using k by (simp add: rev_nth)
      then show ?thesis using k assms(1) by (simp add: bit_movemask)
    qed
  qed
  then show ?thesis using len k assms(1) by simp
qed

lemma popcount_lanes:
  assumes "n \<le> 32" "\<And>i. bit w i \<longleftrightarrow> i < n \<and> P i"
  shows "popcount w = length (filter P [0..<n])"
proof -
  have "filter (bit w) [0..<32] = filter (bit w) [0..<n] @ filter (bit w) [n..<32]"
    unfolding upt_split_at [OF assms(1)] by simp
  moreover have "filter (bit w) [n..<32] = []" using assms(2) by (auto simp: filter_empty_conv)
  moreover have "filter (bit w) [0..<n] = filter P [0..<n]" 
    by (rule filter_cong [OF refl]) (simp add: assms(2))
  ultimately show ?thesis by (simp add: popcount_def)
qed

subsection \<open>Counting line breaks\<close>

fun countLineBreaksScalar_loop :: "string \<Rightarrow> nat \<Rightarrow> bool \<Rightarrow> nat \<times> bool" where
  "countLineBreaksScalar_loop [] count prevWasCR = (count, prevWasCR)"
| "countLineBreaksScalar_loop (ch # rest) count prevWasCR =
     (if ch = LF then
        countLineBreaksScalar_loop rest (if \<not> prevWasCR then count + 1 else count) False
      else if ch = CR then countLineBreaksScalar_loop rest (count + 1) True
      else countLineBreaksScalar_loop rest count False)"

definition countLineBreaksScalar :: "string \<Rightarrow> nat \<Rightarrow> bool \<Rightarrow> nat \<times> bool" where
  "countLineBreaksScalar data len prevWasCR = countLineBreaksScalar_loop (take len data) 0 prevWasCR"

text \<open>One 16-byte step of the vector loop: the updated count and carry flag.\<close>

definition countLineBreaks_block :: "string \<Rightarrow> nat \<Rightarrow> bool \<Rightarrow> nat \<times> bool" where
  "countLineBreaks_block bytes count prevWasCR =
     (let crMask = movemask (cmpeq bytes CR);
          lfMask = movemask (cmpeq bytes LF);
          lfNotAfterCr = lfMask AND NOT (push_bit 1 crMask);
          lfNotAfterCr = (if prevWasCR then lfNotAfterCr AND NOT 1 else lfNotAfterCr)
      in (count + popcount crMask + popcount lfNotAfterCr, (crMask AND push_bit 15 1) \<noteq> 0))"

function countLineBreaksChunk_blocks ::
  "string \<Rightarrow> nat \<Rightarrow> nat \<Rightarrow> nat \<Rightarrow> bool \<Rightarrow> nat \<times> nat \<times> bool" where
  "countLineBreaksChunk_blocks data len i count prevWasCR =
     (if i + 16 \<le> len then
        (let (count', prev') = countLineBreaks_block (substr data i 16) count prevWasCR
         in countLineBreaksChunk_blocks data len (i + 16) count' prev')
      else (i, count, prevWasCR))"
  by pat_completeness auto
termination
  by (relation "measure (\<lambda>(data, len, i, count, prev). len - i)") auto

definition countLineBreaksChunk :: "string option \<Rightarrow> nat \<Rightarrow> bool \<Rightarrow> nat \<times> bool" where
  "countLineBreaksChunk data len prevWasCR =
     (case data of
        None \<Rightarrow> (0, prevWasCR)
      | Some d \<Rightarrow>
          if len = 0 then (0, prevWasCR)
          else (let (i, count, prev1) = countLineBreaksChunk_blocks d len 0 0 prevWasCR;
                    (rest, prev2) = countLineBreaksScalar (drop i d) (len - i) prev1
                in (count + rest, prev2)))"

definition directCountLineBreaksInRange ::
  "string option \<Rightarrow> nat \<Rightarrow> nat \<Rightarrow> nat \<Rightarrow> nat" where
  "directCountLineBreaksInRange data len start0 end0 =
     (case data of
        None \<Rightarrow> 0
      | Some d \<Rightarrow>
          if len = 0 then 0
          else
            (let start = min start0 len; e = min end0 len in
             if e \<le> start then 0
             else
               (let prevWasCR = (start > 0 \<and> d ! (start - 1) = CR);
                    count = fst (countLineBreaksChunk (Some (drop start d)) (e - start) prevWasCR)
                in if count > 0 \<and> e < len \<and> e > start \<and> d ! e = LF \<and> d ! (e - 1) = CR
                   then count - 1 else count)))"

declare countLineBreaksChunk_blocks.simps [simp del]

lemma countLineBreaksScalar_loop_append:
  "countLineBreaksScalar_loop (xs @ ys) c p =
     (case countLineBreaksScalar_loop xs c p of (c', p') \<Rightarrow> countLineBreaksScalar_loop ys c' p')"
  by (induction xs arbitrary: c p) auto

lemma countLineBreaksScalar_loop_count:
  "countLineBreaksScalar_loop xs c p =
     (c + fst (countLineBreaksScalar_loop xs 0 p), snd (countLineBreaksScalar_loop xs 0 p))"
proof (induction xs arbitrary: c p)
  case Nil
  then show ?case by simp
next
  case (Cons x xs)
  have "countLineBreaksScalar_loop xs (c + 1) q =
      (c + 1 + fst (countLineBreaksScalar_loop xs 0 q), snd (countLineBreaksScalar_loop xs 0 q))" for c q
    by (rule Cons.IH)
  from this [of 0] this [of c] Cons.IH [of c] show ?case by auto
qed

definition lf_counted :: "string \<Rightarrow> bool \<Rightarrow> nat \<Rightarrow> bool" where
  "lf_counted bs prev i \<longleftrightarrow> bs ! i = LF \<and> \<not> (if i = 0 then prev else bs ! (i - 1) = CR)"

lemma countLineBreaksScalar_loop_lanes:
  "countLineBreaksScalar_loop bs c prev =
     (c + length (filter (\<lambda>i. bs ! i = CR) [0..<length bs])
        + length (filter (lf_counted bs prev) [0..<length bs]),
      if bs = [] then prev else last bs = CR)"
proof (induction bs rule: rev_induct)
  case Nil
  then show ?case by simp
next
  case (snoc x bs)
  have cr: "filter (\<lambda>i. (bs @ [x]) ! i = CR) [0..<length bs] = filter (\<lambda>i. bs ! i = CR) [0..<length bs]"
    by (rule filter_cong) (auto simp: nth_append)
  have lf: "filter (lf_counted (bs @ [x]) prev) [0..<length bs] = filter (lf_counted bs prev) [0..<length bs]"
    by (rule filter_cong) (auto simp: nth_append lf_counted_def)
  have last: "(if length bs = 0 then prev else (bs @ [x]) ! (length bs - 1) = CR)
      \<longleftrightarrow> (if bs = [] then prev else last bs = CR)"
    by (auto simp: nth_append last_conv_nth)
  have new: "lf_counted (bs @ [x]) prev (length bs) \<longleftrightarrow> x = LF \<and> \<not> (if bs = [] then prev else last bs = CR)"
    unfolding lf_counted_def last by simp
  show ?case
    by (simp add: countLineBreaksScalar_loop_append snoc.IH cr lf new)
qed

text \<open>The vector step computes what the byte loop computes on the same 16 bytes.\<close>

lemma countLineBreaks_block_scalar:
  assumes "length bytes = 16"
  shows "countLineBreaks_block bytes c prev = countLineBreaksScalar_loop bytes c prev"
proof -
  have cr: "bit (movemask (cmpeq bytes CR)) i \<longleftrightarrow> i < 16 \<and> bytes ! i = CR"
    and lf: "bit (movemask (cmpeq bytes LF)) i \<longleftrightarrow> i < 16 \<and> bytes ! i = LF" for i
    using assms by (auto simp: bit_movemask cmpeq_def)
  define sh where "sh = push_bit 1 (movemask (cmpeq bytes CR))"
  have sh: "bit sh i \<longleftrightarrow> 0 < i \<and> i \<le> 16 \<and> bytes ! (i - 1) = CR" for i
    unfolding sh_def bit_push_bit_iff by (auto simp: cr)
  let ?lf = "movemask (cmpeq bytes LF) AND NOT sh"
  let ?lf' = "if prev then ?lf AND NOT 1 else ?lf"
  have lfbit: "bit ?lf' i \<longleftrightarrow> i < 16 \<and> lf_counted bytes prev i" for i
    by (cases i) (auto simp: bit_simps lf sh lf_counted_def)
  define top where "top = (push_bit 15 1 :: 32 word)"
  have top: "bit top i \<longleftrightarrow> i = 15" for i
    unfolding top_def bit_push_bit_iff by (auto simp: bit_1_iff)
  have last: "(movemask (cmpeq bytes CR) AND top \<noteq> 0) \<longleftrightarrow> bytes ! 15 = CR"
    by (subst bit_eq_iff) (auto simp: bit_and_iff cr top)
  have ne: "bytes \<noteq> []" using assms by auto
  then have "last bytes = bytes ! 15" using assms by (simp add: last_conv_nth)
  with ne show ?thesis
    using assms last popcount_lanes [OF _ cr] popcount_lanes [OF _ lfbit]
    by (simp only: countLineBreaks_block_def countLineBreaksScalar_loop_lanes Let_def sh_def [symmetric] top_def [symmetric]) simp
qed

lemma countLineBreaksChunk_blocks_scalar:
  assumes "len \<le> length d" "i \<le> len"
    and "countLineBreaksChunk_blocks d len i c p = (j, c', p')"
  shows "j \<le> len \<and> countLineBreaksScalar_loop (take (len - i) (drop i d)) c p
         = countLineBreaksScalar_loop (take (len - j) (drop j d)) c' p'"
  using assms
proof (induction d len i c p rule: countLineBreaksChunk_blocks.induct)
  case (1 d len i c p)
  show ?case
  proof (cases "i + 16 \<le> len")
    case True
    obtain c1 p1 where blk: "countLineBreaks_block (substr d i 16) c p = (c1, p1)" by fastforce
    have scal: "countLineBreaksScalar_loop (substr d i 16) c p = (c1, p1)"
      using blk True "1.prems"(1) by (simp add: countLineBreaks_block_scalar)
    have "countLineBreaksChunk_blocks d len (i + 16) c1 p1 = (j, c', p')"
      using "1.prems"(3) True blk by (subst (asm) countLineBreaksChunk_blocks.simps) simp
    from "1.IH" [OF True blk [symmetric] refl "1.prems"(1) True this]
    have IH: "j \<le> len \<and> countLineBreaksScalar_loop (take (len - (i + 16)) (drop (i + 16) d)) c1 p1
       = countLineBreaksScalar_loop (take (len - j) (drop j d)) c' p'" .
    have "take (len - i) (drop i d) = substr d i 16 @ take (len - (i + 16)) (drop (i + 16) d)"
      using True substr_append [of d i 16 "len - (i + 16)"] by (simp add: substr_def)
    then show ?thesis using IH scal by (simp add: countLineBreaksScalar_loop_append)
  next
    case False
    with "1.prems" show ?thesis by (subst (asm) countLineBreaksChunk_blocks.simps) simp
  qed
qed

lemma countLineBreaksChunk_scalar:
  assumes "len \<le> length d"
  shows "countLineBreaksChunk (Some d) len p = countLineBreaksScalar d len p"
proof -
  obtain i c q where blk: "countLineBreaksChunk_blocks d len 0 0 p = (i, c, q)"
    by (metis prod_cases3)
  from countLineBreaksChunk_blocks_scalar [OF assms _ this]
  have "countLineBreaksScalar_loop (take len d) 0 p = countLineBreaksScalar_loop (take (len - i) (drop i d)) c q"
    by simp
  then show ?thesis
    using blk countLineBreaksScalar_loop_count [of "take (len - i) (drop i d)" c q]
    by (auto simp: countLineBreaksChunk_def countLineBreaksScalar_def split: prod.split)
qed

text \<open>
  Counting between two offsets: a CR LF pair that the start or the end offset cuts in two is counted
  with the CR, the specification counts it with the LF.
\<close>

lemma countLineBreaksScalar_range:
  assumes "a + n \<le> length s"
  shows "fst (countLineBreaksScalar_loop (substr s a n) 0 (0 < a \<and> s ! (a - 1) = CR))
           + of_bool (mid_crlf s a) + breaks_before s a
         = breaks_before s (a + n) + of_bool (mid_crlf s (a + n))
         \<and> snd (countLineBreaksScalar_loop (substr s a n) 0 (0 < a \<and> s ! (a - 1) = CR))
         = (0 < a + n \<and> s ! (a + n - 1) = CR)"
  using assms
proof (induction n)
  case 0
  then show ?case by simp
next
  case (Suc n)
  define p where "p = (0 < a \<and> s ! (a - 1) = CR)"
  obtain c q where cq: "countLineBreaksScalar_loop (substr s a n) 0 p = (c, q)" by fastforce
  have IH: "c + of_bool (mid_crlf s a) + breaks_before s a = breaks_before s (a + n) + of_bool (mid_crlf s (a + n))"
    "q = (0 < a + n \<and> s ! (a + n - 1) = CR)"
    using Suc cq unfolding p_def [symmetric] by auto
  have lt: "a + n < length s" using Suc.prems by simp
  then have loop: "countLineBreaksScalar_loop (substr s a (Suc n)) 0 p
      = countLineBreaksScalar_loop [s ! (a + n)] c q"
    by (simp add: substr_snoc countLineBreaksScalar_loop_append cq)
  have step: "breaks_before s (Suc (a + n)) = breaks_before s (a + n) + of_bool (lb_end s (a + n))"
    by (rule breaks_before_Suc)
  show ?case
    unfolding p_def [symmetric] loop add_Suc_right step using IH lt
    by (auto simp: lb_end_def mid_crlf_def of_bool_def split: if_splits)
qed

lemma directCountLineBreaksInRange_spec:
  assumes "a \<le> e" "e \<le> length s"
  shows "directCountLineBreaksInRange (Some s) (length s) a e + of_bool (a < e \<and> mid_crlf s a)
           + breaks_before s a = breaks_before s e"
proof (cases "a < e")
  case True
  let ?p = "0 < a \<and> s ! (a - 1) = CR"
  let ?c = "fst (countLineBreaksScalar_loop (substr s a (e - a)) 0 ?p)"
  have count: "?c + of_bool (mid_crlf s a) + breaks_before s a
      = breaks_before s e + of_bool (mid_crlf s e)"
    using countLineBreaksScalar_range [of a "e - a" s] assms by simp
  have chunk: "countLineBreaksChunk (Some (drop a s)) (e - a) ?p
      = countLineBreaksScalar_loop (substr s a (e - a)) 0 ?p"
    using assms by (simp add: countLineBreaksChunk_scalar countLineBreaksScalar_def substr_def)
  have mono: "breaks_before s a + of_bool (mid_crlf s a) \<le> breaks_before s e"
  proof (cases "mid_crlf s a")
    case True
    then have "breaks_before s (Suc a) = Suc (breaks_before s a)"
      by (simp add: breaks_before_Suc mid_crlf_def lb_end_def)
    with \<open>a < e\<close> True show ?thesis using breaks_before_mono [of "Suc a" e s] by simp
  qed (use breaks_before_mono [OF assms(1), of s] in simp)
  have "directCountLineBreaksInRange (Some s) (length s) a e
      = (if ?c > 0 \<and> mid_crlf s e then ?c - 1 else ?c)"
    using True assms chunk
    by (auto simp: directCountLineBreaksInRange_def Let_def mid_crlf_def min_absorb1)
  then show ?thesis using count mono True by (auto split: if_splits simp: of_bool_def)
next
  case False
  with assms show ?thesis
    by (auto simp: directCountLineBreaksInRange_def Let_def)
qed

subsection \<open>Finding the next and the previous line break\<close>

function findNextLineBreak_scalar :: "string \<Rightarrow> nat \<Rightarrow> nat \<Rightarrow> nat" where
  "findNextLineBreak_scalar d len i =
     (if i < len then
        (if isLineBreakByte (d ! i) then i else findNextLineBreak_scalar d len (i + 1))
      else len)"
  by pat_completeness auto
termination
  by (relation "measure (\<lambda>(d, len, i). len - i)") auto

function findNextLineBreak_blocks :: "string \<Rightarrow> nat \<Rightarrow> nat \<Rightarrow> nat" where
  "findNextLineBreak_blocks d len i =
     (if i + 16 \<le> len then
        (let bytes = substr d i 16;
             mask = movemask (or_lanes (cmpeq bytes CR) (cmpeq bytes LF))
         in if mask \<noteq> 0 then i + ctz mask else findNextLineBreak_blocks d len (i + 16))
      else findNextLineBreak_scalar d len i)"
  by pat_completeness auto
termination
  by (relation "measure (\<lambda>(d, len, i). len - i)") auto

definition directFindNextLineBreak :: "string option \<Rightarrow> nat \<Rightarrow> nat \<Rightarrow> nat" where
  "directFindNextLineBreak data len start =
     (case data of
        None \<Rightarrow> len
      | Some d \<Rightarrow> if start \<ge> len then len else findNextLineBreak_blocks d len start)"

fun findPrevLineBreak_scalar :: "string \<Rightarrow> nat \<Rightarrow> nat" where
  "findPrevLineBreak_scalar d 0 = size_max"
| "findPrevLineBreak_scalar d (Suc j) =
     (if isLineBreakByte (d ! j) then j else findPrevLineBreak_scalar d j)"

function findPrevLineBreak_blocks :: "string \<Rightarrow> nat \<Rightarrow> nat" where
  "findPrevLineBreak_blocks d i =
     (if i \<ge> 16 then
        (let blockStart = i - 16;
             bytes = substr d blockStart 16;
             mask = movemask (or_lanes (cmpeq bytes CR) (cmpeq bytes LF))
         in if mask \<noteq> 0 then (let highestBit = 31 - clz mask in blockStart + highestBit)
            else findPrevLineBreak_blocks d blockStart)
      else findPrevLineBreak_scalar d i)"
  by pat_completeness auto
termination
  by (relation "measure (\<lambda>(d, i). i)") auto

definition directFindPrevLineBreak :: "string option \<Rightarrow> nat \<Rightarrow> nat" where
  "directFindPrevLineBreak data endExclusive =
     (case data of
        None \<Rightarrow> size_max
      | Some d \<Rightarrow> if endExclusive = 0 then size_max else findPrevLineBreak_blocks d endExclusive)"

declare findNextLineBreak_scalar.simps [simp del]
declare findNextLineBreak_blocks.simps [simp del]
declare findPrevLineBreak_blocks.simps [simp del]

text \<open>
  \<open>next_break s n p\<close> is the first break byte of \<open>s\<close> in \<open>[p, n)\<close>, \<open>n\<close> if there is none;
  \<open>after_prev_break s e\<close> is one past the last break byte before \<open>e\<close>, 0 if there is none.
\<close>

definition next_break :: "string \<Rightarrow> nat \<Rightarrow> nat \<Rightarrow> nat" where
  "next_break s n p = p + length (takeWhile (\<lambda>c. \<not> isLineBreakByte c) (substr s p (n - p)))"

definition after_prev_break :: "string \<Rightarrow> nat \<Rightarrow> nat" where
  "after_prev_break s e = length (dropWhile (\<lambda>c. \<not> isLineBreakByte c) (rev (take e s)))"

lemma findNextLineBreak_scalar_spec:
  "n \<le> length d \<Longrightarrow> p \<le> n \<Longrightarrow> findNextLineBreak_scalar d n p = next_break d n p"
proof (induction d n p rule: findNextLineBreak_scalar.induct)
  case (1 d n p)
  show ?case
  proof (cases "p < n")
    case True
    then have "substr d p (n - p) = d ! p # substr d (Suc p) (n - Suc p)"
      using "1.prems" substr_Cons [of p d "n - Suc p"] by (simp add: Suc_diff_Suc)
    with True 1 show ?thesis
      by (simp add: findNextLineBreak_scalar.simps [of d n p] next_break_def)
  next
    case False
    then have "findNextLineBreak_scalar d n p = n" by (subst findNextLineBreak_scalar.simps) simp
    with False "1.prems" show ?thesis by (simp add: next_break_def)
  qed
qed

lemma next_break_block:
  assumes "p + 16 \<le> n" "n \<le> length d"
    and "msk = movemask (or_lanes (cmpeq (substr d p 16) CR) (cmpeq (substr d p 16) LF))"
  shows "next_break d n p = (if msk \<noteq> 0 then p + ctz msk else next_break d n (p + 16))"
proof -
  let ?b = "substr d p 16"
  have msk: "msk = movemask (map isLineBreakByte ?b)" by (simp add: assms(3) or_lanes_cmpeq)
  have split: "substr d p (n - p) = ?b @ substr d (p + 16) (n - (p + 16))"
    using assms(1) substr_append [of d p 16 "n - (p + 16)"] by simp
  have len: "length (map isLineBreakByte ?b) \<le> 32" by simp
  show ?thesis
  proof (cases "msk = 0")
    case True
    then have "\<forall>c \<in> set ?b. \<not> isLineBreakByte c"
      using movemask_eq_0 [OF len] msk by auto
    with True assms(1,2) show ?thesis by (simp add: next_break_def split takeWhile_append2)
  next
    case False
    then obtain c where c: "c \<in> set ?b" "isLineBreakByte c"
      using movemask_eq_0 [OF len] msk by auto
    then have "ctz msk = length (takeWhile (\<lambda>c. \<not> isLineBreakByte c) ?b)"
      using ctz_movemask [OF len] msk by (force simp: takeWhile_map comp_def)
    with False c show ?thesis by (auto simp: next_break_def split)
  qed
qed

lemma findNextLineBreak_blocks_spec:
  "n \<le> length d \<Longrightarrow> p \<le> n \<Longrightarrow> findNextLineBreak_blocks d n p = next_break d n p"
proof (induction d n p rule: findNextLineBreak_blocks.induct)
  case (1 d n p)
  show ?case
  proof (cases "p + 16 \<le> n")
    case True
    with 1 next_break_block [OF True "1.prems"(1) refl] show ?thesis
      by (auto simp: findNextLineBreak_blocks.simps [of d n p] Let_def)
  next
    case False
    with "1.prems" show ?thesis
      by (simp add: findNextLineBreak_blocks.simps [of d n p] findNextLineBreak_scalar_spec)
  qed
qed

lemma directFindNextLineBreak_spec [spec_simps]:
  "n \<le> length d \<Longrightarrow> p \<le> n \<Longrightarrow> directFindNextLineBreak (Some d) n p = next_break d n p"
  by (auto simp: directFindNextLineBreak_def findNextLineBreak_blocks_spec next_break_def)

lemma findPrevLineBreak_scalar_spec:
  "e \<le> length d \<Longrightarrow>
   findPrevLineBreak_scalar d e = (if after_prev_break d e = 0 then size_max else after_prev_break d e - 1)"
  by (induction e) (auto simp: after_prev_break_def take_Suc_conv_app_nth)

lemma after_prev_break_block:
  assumes "16 \<le> e" "e \<le> length d"
    and "msk = movemask (or_lanes (cmpeq (substr d (e - 16) 16) CR) (cmpeq (substr d (e - 16) 16) LF))"
  shows "after_prev_break d e = (if msk \<noteq> 0 then e - 16 + (31 - clz msk) + 1 else after_prev_break d (e - 16))"
proof -
  let ?b = "substr d (e - 16) 16"
  have msk: "msk = movemask (map isLineBreakByte ?b)" by (simp add: assms(3) or_lanes_cmpeq)
  have split: "take e d = take (e - 16) d @ ?b"
    using assms(1,2) by (simp add: substr_def) (metis le_add_diff_inverse2 take_add)
  have len: "length (map isLineBreakByte ?b) \<le> 32" by simp
  show ?thesis
  proof (cases "msk = 0")
    case True
    then have "\<forall>c \<in> set ?b. \<not> isLineBreakByte c"
      using movemask_eq_0 [OF len] msk by auto
    then have "dropWhile (\<lambda>c. \<not> isLineBreakByte c) (rev ?b @ rev (take (e - 16) d))
        = dropWhile (\<lambda>c. \<not> isLineBreakByte c) (rev (take (e - 16) d))"
      by (intro dropWhile_append2) auto
    with True show ?thesis by (simp add: after_prev_break_def split)
  next
    case False
    then obtain c where c: "c \<in> set ?b" "isLineBreakByte c"
      using movemask_eq_0 [OF len] msk by auto
    let ?dw = "dropWhile (\<lambda>c. \<not> isLineBreakByte c) (rev ?b)"
    have "True \<in> set (map isLineBreakByte ?b)" using c by force
    from clz_movemask [OF len this] have "31 - clz msk = length ?dw - 1"
      by (simp add: msk rev_map dropWhile_map comp_def)
    moreover have "0 < length ?dw" using c by (auto simp: dropWhile_eq_Nil_conv)
    moreover have "after_prev_break d e = length ?dw + (e - 16)"
      using c assms(1,2) by (auto simp: after_prev_break_def split dropWhile_append1)
    ultimately show ?thesis using False by simp
  qed
qed

lemma findPrevLineBreak_blocks_spec:
  "e \<le> length d \<Longrightarrow>
   findPrevLineBreak_blocks d e = (if after_prev_break d e = 0 then size_max else after_prev_break d e - 1)"
proof (induction d e rule: findPrevLineBreak_blocks.induct)
  case (1 d e)
  show ?case
  proof (cases "16 \<le> e")
    case True
    with 1 after_prev_break_block [OF True "1.prems" refl] show ?thesis
      by (auto simp: findPrevLineBreak_blocks.simps [of d e] Let_def)
  next
    case False
    with "1.prems" show ?thesis
      by (simp add: findPrevLineBreak_blocks.simps [of d e] findPrevLineBreak_scalar_spec)
  qed
qed

lemma directFindPrevLineBreak_spec [spec_simps]:
  "e \<le> length d \<Longrightarrow> directFindPrevLineBreak (Some d) e
     = (if after_prev_break d e = 0 then size_max else after_prev_break d e - 1)"
  by (auto simp: directFindPrevLineBreak_def findPrevLineBreak_blocks_spec after_prev_break_def)

lemma next_break_props:
  assumes "p \<le> n" "n \<le> length s"
  shows "p \<le> next_break s n p" "next_break s n p \<le> n"
    "\<And>i. p \<le> i \<Longrightarrow> i < next_break s n p \<Longrightarrow> \<not> isLineBreakByte (s ! i)"
    "next_break s n p < n \<Longrightarrow> isLineBreakByte (s ! next_break s n p)"
proof -
  let ?w = "substr s p (n - p)"
  let ?k = "length (takeWhile (\<lambda>c. \<not> isLineBreakByte c) ?w)"
  have len: "length ?w = n - p" using assms by simp
  have k: "?k \<le> n - p" by (metis len length_takeWhile_le)
  have nb: "next_break s n p = p + ?k" by (simp add: next_break_def)
  show "p \<le> next_break s n p" "next_break s n p \<le> n" using k assms(1) by (auto simp: nb)
  show "\<not> isLineBreakByte (s ! i)" if "p \<le> i" "i < next_break s n p" for i
  proof -
    have i: "i - p < ?k" using that nb by simp
    then have "\<not> isLineBreakByte (?w ! (i - p))" by (rule takeWhile_nth_P)
    moreover have "?w ! (i - p) = s ! i" using i k that(1) assms by (subst nth_substr) auto
    ultimately show ?thesis by simp
  qed
  show "isLineBreakByte (s ! next_break s n p)" if "next_break s n p < n"
  proof -
    have kk: "?k < length ?w" using that nb len by simp
    then have "isLineBreakByte (?w ! ?k)" using nth_length_takeWhile by fastforce
    moreover have "?w ! ?k = s ! (p + ?k)" using kk assms by (subst nth_substr) auto
    ultimately show ?thesis by (simp add: nb)
  qed
qed

lemma after_prev_break_props:
  "e \<le> length s \<Longrightarrow> after_prev_break s e \<le> e
     \<and> (after_prev_break s e = 0 \<or> isLineBreakByte (s ! (after_prev_break s e - 1)))
     \<and> (\<forall>i. after_prev_break s e \<le> i \<and> i < e \<longrightarrow> \<not> isLineBreakByte (s ! i))"
proof (induction e)
  case 0
  then show ?case by (simp add: after_prev_break_def)
next
  case (Suc e)
  have step: "after_prev_break s (Suc e)
      = (if isLineBreakByte (s ! e) then Suc e else after_prev_break s e)"
    using Suc.prems by (simp add: after_prev_break_def take_Suc_conv_app_nth)
  show ?case
  proof (cases "isLineBreakByte (s ! e)")
    case True
    then show ?thesis by (auto simp: step)
  next
    case False
    with Suc show ?thesis by (auto simp: step less_Suc_eq)
  qed
qed

lemma after_prev_break_line_start:
  assumes "e \<le> length s" "\<not> mid_crlf s e"
  shows "after_prev_break s e = line_start_at s e"
proof -
  let ?b = "after_prev_break s e"
  note props = after_prev_break_props [OF assms(1)]
  have nob: "\<not> lb_end s i" if "?b \<le> i" "i < e" for i
    using props that by (auto dest: lb_end_byte)
  have "is_line_start s ?b"
  proof (cases "?b = 0")
    case False
    then have lt: "?b - 1 < length s" and "isLineBreakByte (s ! (?b - 1))"
      using props assms(1) by auto
    then have "lb_end s (?b - 1) \<or> mid_crlf s ?b"
      using isLineBreakByte_lb_end [OF lt] False by simp
    moreover have "\<not> mid_crlf s ?b"
    proof (cases "?b = e")
      case False
      then have "\<not> isLineBreakByte (s ! ?b)" using props by auto
      then show ?thesis by (auto simp: mid_crlf_def isLineBreakByte_def)
    qed (use assms(2) in simp)
    ultimately show ?thesis by (simp add: is_line_start_def)
  qed simp
  with props nob show ?thesis by (intro line_start_at_eqI [symmetric]) auto
qed

subsection \<open>Stepping to the next line\<close>

text \<open>\<open>directAdvanceLine\<close>: \<open>None\<close> is the result \<open>false\<close>, otherwise the updated offset.\<close>

definition directAdvanceLine :: "string option \<Rightarrow> nat \<Rightarrow> nat \<Rightarrow> nat option" where
  "directAdvanceLine data len offset =
     (case data of
        None \<Rightarrow> None
      | Some d \<Rightarrow>
          if offset \<ge> len then None
          else (let breakPos = directFindNextLineBreak data len offset in
                if breakPos \<ge> len then None
                else if d ! breakPos = CR \<and> breakPos + 1 < len \<and> d ! (breakPos + 1) = LF
                then Some (breakPos + 2) else Some (breakPos + 1)))"

lemma advance_from_break:
  assumes "p \<le> length s" "b = next_break s (length s) p" "b < length s"
  shows "next_line_start s p = Some (if s ! b = CR \<and> b + 1 < length s \<and> s ! (b + 1) = LF then b + 2 else b + 1)"
proof -
  note nb = next_break_props [of p "length s" s, folded assms(2)]
  have pb: "p \<le> b" and byte: "isLineBreakByte (s ! b)" using nb assms by auto
  have none: "\<not> lb_end s j" if "p \<le> j" "j < b" for j
    using nb(3) [OF _ _ that] assms(1) lb_end_byte by blast
  show ?thesis
  proof (cases "s ! b = CR \<and> b + 1 < length s \<and> s ! (b + 1) = LF")
    case True
    then have "lb_end s (Suc b)" "\<not> lb_end s b" by (auto simp: lb_end_def)
    then have "next_line_start s p = Some (Suc (Suc b))"
      using pb none by (intro next_line_start_SomeI) (auto simp: less_Suc_eq)
    with True show ?thesis by simp
  next
    case False
    then have "lb_end s b" using byte assms(3) by (auto simp: isLineBreakByte_def lb_end_def)
    with False pb none show ?thesis using next_line_start_SomeI [of p b s] by auto
  qed
qed

lemma no_break_no_line:
  assumes "p \<le> length s" "next_break s (length s) p \<ge> length s"
  shows "next_line_start s p = None"
proof -
  have "\<not> lb_end s i" if "p \<le> i" for i
  proof
    assume lb: "lb_end s i"
    then have "i < next_break s (length s) p" using assms(2) lb_end_less by fastforce
    with next_break_props(3) [OF assms(1) order.refl that] lb_end_byte [OF lb] show False by blast
  qed
  then show ?thesis by (simp add: next_line_start_None)
qed

lemma directAdvanceLine_spec [spec_simps]:
  "directAdvanceLine (Some s) (length s) p = next_line_start s p"
proof (cases "p < length s")
  case True
  then show ?thesis
    using advance_from_break [of p s, OF _ refl] no_break_no_line [of p s]
    by (auto simp: directAdvanceLine_def directFindNextLineBreak_spec Let_def not_le)
next
  case False
  then show ?thesis by (simp add: directAdvanceLine_def next_line_start_beyond)
qed

subsection \<open>Line starts of inserted text\<close>

function appendLineStarts_loop ::
  "string \<Rightarrow> Offset \<Rightarrow> nat \<Rightarrow> Offset list \<Rightarrow> bool \<Rightarrow> Offset list \<times> bool" where
  "appendLineStarts_loop text baseOffset i starts endedWithBreak =
     (if i < length text then
        if text ! i = CR then
          (let i1 = i + 1;
               i2 = (if i1 < length text \<and> text ! i1 = LF then i1 + 1 else i1);
               starts' = (if i2 < length text then starts @ [baseOffset + i2] else starts)
           in appendLineStarts_loop text baseOffset i2 starts' True)
        else if text ! i = LF then
          (let i1 = i + 1;
               starts' = (if i1 < length text then starts @ [baseOffset + i1] else starts)
           in appendLineStarts_loop text baseOffset i1 starts' True)
        else appendLineStarts_loop text baseOffset (i + 1) starts False
      else (starts, endedWithBreak))"
  by pat_completeness auto
termination
  by (relation "measure (\<lambda>(text, b, i, starts, e). length text - i)") (auto simp: Let_def)

declare appendLineStarts_loop.simps [simp del]

definition appendLineStartsFromInsertedText ::
  "Offset list \<Rightarrow> Offset \<Rightarrow> string \<Rightarrow> bool \<Rightarrow> Offset list" where
  "appendLineStartsFromInsertedText starts baseOffset text includeTerminalStart =
     (let (starts', endedWithBreak) = appendLineStarts_loop text baseOffset 0 starts False
      in if includeTerminalStart \<and> endedWithBreak \<and> text \<noteq> []
         then starts' @ [baseOffset + length text] else starts')"

lemma appendLineStarts_loop_spec:
  "i \<le> length s \<Longrightarrow> \<not> mid_crlf s i \<Longrightarrow>
   appendLineStarts_loop s base i starts ended =
     (starts @ map (\<lambda>j. base + Suc j) (filter (\<lambda>j. lb_end s j \<and> Suc j < length s) [i..<length s]),
      if i < length s then isLineBreakByte (last s) else ended)"
proof (induction s base i starts ended rule: appendLineStarts_loop.induct)
  case (1 s base i starts ended)
  let ?P = "\<lambda>j. lb_end s j \<and> Suc j < length s"
  note unf = appendLineStarts_loop.simps [of s base i starts ended]
  show ?case
  proof (cases "i < length s")
    case False
    then have "appendLineStarts_loop s base i starts ended = (starts, ended)" by (subst unf) simp
    with False "1.prems" show ?thesis by simp
  next
    case lt: True
    have last: "last s = s ! i" if "Suc i = length s"
      using that by (simp add: last_conv_nth flip: that) (metis diff_Suc_1 last_conv_nth length_0_conv nat.distinct(1) that)
    have last2: "last s = s ! Suc i" if "Suc (Suc i) = length s"
      using that by (metis diff_Suc_1 last_conv_nth length_0_conv nat.distinct(1))
    have upt: "filter ?P [i..<length s] = (if ?P i then [i] else []) @ filter ?P [Suc i..<length s]"
      using lt by (simp add: upt_conv_Cons)
    consider (crlf) "s ! i = CR" "Suc i < length s" "s ! Suc i = LF"
      | (cr) "s ! i = CR" "\<not> (Suc i < length s \<and> s ! Suc i = LF)"
      | (lf) "s ! i = LF" | (other) "\<not> isLineBreakByte (s ! i)"
      by (auto simp: isLineBreakByte_def)
    then show ?thesis
    proof cases
      case crlf
      have up2: "filter ?P [Suc i..<length s] = (if Suc (Suc i) < length s then [Suc i] else [])
          @ filter ?P [Suc (Suc i)..<length s]"
        using crlf by (simp add: upt_conv_Cons lb_end_def)
      have "\<not> ?P i" "\<not> mid_crlf s (Suc (Suc i))" using crlf by (auto simp: lb_end_def mid_crlf_def)
      with crlf lt upt up2 1 last2 show ?thesis
        by (auto simp: unf Let_def isLineBreakByte_def)
    next
      case cr
      then have "lb_end s i" "\<not> mid_crlf s (Suc i)" using lt by (auto simp: lb_end_def mid_crlf_def)
      with cr lt upt 1 last show ?thesis by (auto simp: unf Let_def isLineBreakByte_def)
    next
      case lf
      then have "lb_end s i" "\<not> mid_crlf s (Suc i)" using lt by (auto simp: lb_end_def mid_crlf_def)
      with lf lt upt 1 last show ?thesis by (auto simp: unf Let_def isLineBreakByte_def)
    next
      case other
      then have "\<not> lb_end s i" "\<not> mid_crlf s (Suc i)" using lt
        by (auto simp: lb_end_def mid_crlf_def isLineBreakByte_def)
      with other lt upt 1 last show ?thesis by (auto simp: unf Let_def isLineBreakByte_def)
    qed
  qed
qed

lemma appendLineStarts_spec:
  "appendLineStartsFromInsertedText starts base s True =
     starts @ map (\<lambda>j. base + Suc j) (filter (lb_end s) [0..<length s])"
proof (cases "s = []")
  case True
  then show ?thesis
    by (simp add: appendLineStartsFromInsertedText_def appendLineStarts_loop.simps)
next
  case False
  let ?n = "length s - 1"
  have n: "length s = Suc ?n" using False by simp
  have init: "filter (\<lambda>j. lb_end s j \<and> Suc j < length s) [0..<length s]
      = filter (lb_end s) [0..<?n]"
    by (subst n) (auto intro!: filter_cong)
  have lastb: "lb_end s ?n \<longleftrightarrow> isLineBreakByte (last s)"
    using False n by (auto simp: lb_end_def isLineBreakByte_def last_conv_nth)
  have "filter (lb_end s) [0..<length s]
      = filter (lb_end s) [0..<?n] @ (if lb_end s ?n then [?n] else [])"
    by (subst n) simp
  then show ?thesis
    using False n lastb appendLineStarts_loop_spec [of 0 s base starts False]
    by (auto simp: appendLineStartsFromInsertedText_def init mid_crlf_def)
qed

end
