(* ===== verification/Doc_View.thy ===== *)
theory Doc_View
  imports Line_Scan
begin

text \<open>
  The template functions of \<open>src/piecetable/MRTextDocumentLineIndex.hpp\<close>. They are written once for
  every \<open>Doc\<close> that offers \<open>length\<close>, \<open>pieceCount\<close>, \<open>pieceChunk\<close> and \<open>clampOffset\<close>; here a \<open>DocView\<close>
  holds what those members return, the loop over piece indices is a recursion over the chunk list,
  and the locale \<open>line_queries\<close> of theory \<open>Doc_Queries\<close> states what a document class promises about its view.
\<close>

record DocView =
  dv_length :: Offset
  dv_chunks :: "PieceChunkView list"

definition dv_clampOffset :: "DocView \<Rightarrow> Offset \<Rightarrow> Offset" where
  "dv_clampOffset v pos = min pos (dv_length v)"

definition chunk_skip :: "PieceChunkView \<Rightarrow> bool" where
  "chunk_skip c \<longleftrightarrow> chunk_data c = None \<or> chunk_length c = 0"

definition chunk_bytes :: "PieceChunkView \<Rightarrow> string" where
  "chunk_bytes c = (case chunk_data c of None \<Rightarrow> [] | Some d \<Rightarrow> d)"

subsection \<open>The template functions\<close>

fun piecewiseCharAt_loop :: "PieceChunkView list \<Rightarrow> Offset \<Rightarrow> Offset \<Rightarrow> char" where
  "piecewiseCharAt_loop [] pos logical = NUL"
| "piecewiseCharAt_loop (c # cs) pos logical =
     (if chunk_skip c then piecewiseCharAt_loop cs pos logical
      else if pos < logical + chunk_length c then chunk_bytes c ! (pos - logical)
      else piecewiseCharAt_loop cs pos (logical + chunk_length c))"

definition piecewiseCharAt :: "DocView \<Rightarrow> Offset \<Rightarrow> char" where
  "piecewiseCharAt v pos0 =
     (let pos = dv_clampOffset v pos0
      in if pos \<ge> dv_length v then NUL else piecewiseCharAt_loop (dv_chunks v) pos 0)"

fun piecewiseCount_loop ::
  "PieceChunkView list \<Rightarrow> Offset \<Rightarrow> Offset \<Rightarrow> Offset \<Rightarrow> nat \<Rightarrow> bool \<Rightarrow> nat" where
  "piecewiseCount_loop [] start e logical count prevWasCR = count"
| "piecewiseCount_loop (c # cs) start e logical count prevWasCR =
     (if \<not> logical < e then count
      else if chunk_skip c then piecewiseCount_loop cs start e logical count prevWasCR
      else
        (let chunkStart = logical; chunkEnd = logical + chunk_length c in
         if chunkEnd \<le> start then piecewiseCount_loop cs start e chunkEnd count prevWasCR
         else
           (let takeStart = max start chunkStart; takeEnd = min e chunkEnd in
            if takeEnd > takeStart then
              (let (n, prev') = countLineBreaksChunk (Some (drop (takeStart - chunkStart) (chunk_bytes c)))
                                  (takeEnd - takeStart) prevWasCR
               in piecewiseCount_loop cs start e chunkEnd (count + n) prev')
            else piecewiseCount_loop cs start e chunkEnd count prevWasCR)))"

definition piecewiseCountLineBreaksInRange :: "DocView \<Rightarrow> Offset \<Rightarrow> Offset \<Rightarrow> nat" where
  "piecewiseCountLineBreaksInRange v start0 end0 =
     (let start = dv_clampOffset v start0; e = dv_clampOffset v end0 in
      if e \<le> start then 0
      else
        (let prevWasCR = (start > 0 \<and> piecewiseCharAt v (start - 1) = CR);
             count = piecewiseCount_loop (dv_chunks v) start e 0 0 prevWasCR
         in if count > 0 \<and> e < dv_length v \<and> e > start
               \<and> piecewiseCharAt v e = LF \<and> piecewiseCharAt v (e - 1) = CR
            then count - 1 else count))"

fun piecewiseLineCount_loop :: "PieceChunkView list \<Rightarrow> nat \<Rightarrow> bool \<Rightarrow> nat" where
  "piecewiseLineCount_loop [] breaks prevWasCR = breaks"
| "piecewiseLineCount_loop (c # cs) breaks prevWasCR =
     (if chunk_skip c then piecewiseLineCount_loop cs breaks prevWasCR
      else (let (n, prev') = countLineBreaksChunk (chunk_data c) (chunk_length c) prevWasCR
            in piecewiseLineCount_loop cs (breaks + n) prev'))"

definition piecewiseLineCount :: "DocView \<Rightarrow> nat" where
  "piecewiseLineCount v = piecewiseLineCount_loop (dv_chunks v) 0 False + 1"

text \<open>The backward loop takes the chunks from the last to the first.\<close>

fun piecewiseLineStart_loop :: "PieceChunkView list \<Rightarrow> Offset \<Rightarrow> Offset \<Rightarrow> Offset" where
  "piecewiseLineStart_loop [] pos logicalEnd = 0"
| "piecewiseLineStart_loop (c # cs) pos logicalEnd =
     (if chunk_skip c then piecewiseLineStart_loop cs pos logicalEnd
      else
        (let chunkStart = logicalEnd - chunk_length c in
         if pos \<le> chunkStart then piecewiseLineStart_loop cs pos chunkStart
         else
           (let localLimit = min (chunk_length c) (pos - chunkStart);
                breakPos = directFindPrevLineBreak (chunk_data c) localLimit
            in if breakPos \<noteq> size_max then chunkStart + breakPos + 1
               else if chunkStart = 0 then 0
               else piecewiseLineStart_loop cs chunkStart chunkStart)))"

definition piecewiseLineStart :: "DocView \<Rightarrow> Offset \<Rightarrow> Offset" where
  "piecewiseLineStart v pos0 =
     (let pos = dv_clampOffset v pos0 in
      if pos = 0 then 0
      else
        (let pos1 = (if pos < dv_length v \<and> piecewiseCharAt v pos = LF \<and> piecewiseCharAt v (pos - 1) = CR
                     then pos - 1 else pos)
         in piecewiseLineStart_loop (rev (dv_chunks v)) pos1 (dv_length v)))"

fun piecewiseLineEnd_loop ::
  "PieceChunkView list \<Rightarrow> Offset \<Rightarrow> Offset \<Rightarrow> bool \<Rightarrow> Offset \<Rightarrow> Offset" where
  "piecewiseLineEnd_loop [] pos logical active len = len"
| "piecewiseLineEnd_loop (c # cs) pos logical active len =
     (if chunk_skip c then piecewiseLineEnd_loop cs pos logical active len
      else if \<not> active \<and> pos \<ge> logical + chunk_length c
      then piecewiseLineEnd_loop cs pos (logical + chunk_length c) active len
      else
        (let start = (if \<not> active then pos - logical else 0);
             breakPos = directFindNextLineBreak (chunk_data c) (chunk_length c) start
         in if breakPos < chunk_length c then logical + breakPos
            else piecewiseLineEnd_loop cs pos (logical + chunk_length c) True len))"

definition piecewiseLineEnd :: "DocView \<Rightarrow> Offset \<Rightarrow> Offset" where
  "piecewiseLineEnd v pos =
     piecewiseLineEnd_loop (dv_chunks v) (dv_clampOffset v pos) 0 False (dv_length v)"

definition piecewiseNextLine :: "DocView \<Rightarrow> Offset \<Rightarrow> Offset" where
  "piecewiseNextLine v pos =
     (let e = piecewiseLineEnd v pos in
      if e < dv_length v then
        if piecewiseCharAt v e = CR \<and> e + 1 < dv_length v \<and> piecewiseCharAt v (e + 1) = LF
        then e + 2 else e + 1
      else e)"

definition piecewiseAdvanceLine :: "DocView \<Rightarrow> Offset \<Rightarrow> Offset option" where
  "piecewiseAdvanceLine v offset =
     (let e = piecewiseLineEnd v offset in
      if e \<ge> dv_length v then None
      else if piecewiseCharAt v e = CR \<and> e + 1 < dv_length v \<and> piecewiseCharAt v (e + 1) = LF
      then Some (e + 2) else Some (e + 1))"

definition piecewisePrevLine :: "DocView \<Rightarrow> Offset \<Rightarrow> Offset" where
  "piecewisePrevLine v pos =
     (let start = piecewiseLineStart v pos in
      if start = 0 then 0
      else
        (let probe = start - 1;
             probe1 = (if probe > 0 \<and> piecewiseCharAt v (probe - 1) = CR \<and> piecewiseCharAt v probe = LF
                       then probe - 1 else probe)
         in piecewiseLineStart v probe1))"

fun piecewiseRangeText_loop ::
  "PieceChunkView list \<Rightarrow> Offset \<Rightarrow> Offset \<Rightarrow> Offset \<Rightarrow> string \<Rightarrow> string" where
  "piecewiseRangeText_loop [] start e logical out = out"
| "piecewiseRangeText_loop (c # cs) start e logical out =
     (if \<not> logical < e then out
      else if chunk_skip c then piecewiseRangeText_loop cs start e logical out
      else
        (let chunkStart = logical; chunkEnd = logical + chunk_length c in
         if chunkEnd \<le> start then piecewiseRangeText_loop cs start e chunkEnd out
         else
           (let takeStart = max start chunkStart; takeEnd = min e chunkEnd;
                out' = (if takeEnd > takeStart
                        then out @ substr (chunk_bytes c) (takeStart - chunkStart) (takeEnd - takeStart)
                        else out)
            in piecewiseRangeText_loop cs start e chunkEnd out')))"

definition piecewiseRangeText :: "DocView \<Rightarrow> Offset \<Rightarrow> Offset \<Rightarrow> string" where
  "piecewiseRangeText v start0 end0 =
     (let a = dv_clampOffset v start0; b = dv_clampOffset v end0;
          start = min a b; e = max a b
      in piecewiseRangeText_loop (dv_chunks v) start e 0 [])"

subsection \<open>Exact line starts\<close>

definition lineIndexFromExactStarts :: "Offset list \<Rightarrow> Offset \<Rightarrow> nat" where
  "lineIndexFromExactStarts starts pos =
     (if starts = [] then 0
      else (let it = upper_bound starts pos in if it = 0 then 0 else it - 1))"

definition lineStartFromExactStarts :: "Offset list \<Rightarrow> nat \<Rightarrow> Offset" where
  "lineStartFromExactStarts starts index =
     (if starts = [] then 0 else if index < length starts then starts ! index else last starts)"

lemma lineIndexFromExactStarts_spec [spec_simps]:
  "lineIndexFromExactStarts (line_starts s) p = breaks_before s p"
proof -
  have "filter (\<lambda>x. x \<le> p) (line_starts s) = 0 # map Suc (filter (lb_end s) [0..<min p (length s)])"
    (is "?l = ?r")
  proof -
    have "filter (\<lambda>i. Suc i \<le> p \<and> lb_end s i) [0..<length s] = filter (lb_end s) [0..<min p (length s)]"
    proof (cases "p \<le> length s")
      case True
      have "filter (\<lambda>i. Suc i \<le> p \<and> lb_end s i) [p..<length s] = []"
        by (auto simp: filter_empty_conv)
      moreover have "filter (\<lambda>i. Suc i \<le> p \<and> lb_end s i) [0..<p] = filter (lb_end s) [0..<p]"
        by (rule filter_cong) auto
      ultimately show ?thesis using True by (subst upt_split_at [OF True]) simp
    next
      case False
      then show ?thesis by (auto intro!: filter_cong)
    qed
    then show ?thesis by (simp add: line_starts_def filter_map comp_def conj_commute)
  qed
  moreover have "breaks_before s (min p (length s)) = breaks_before s p"
    using breaks_before_beyond [of s p] by (simp add: min_def)
  ultimately have "upper_bound (line_starts s) p = Suc (breaks_before s p)"
    by (simp add: upper_bound_sorted sorted_line_starts breaks_before_def)
  then show ?thesis by (simp add: lineIndexFromExactStarts_def line_starts_def)
qed

lemma lineStartFromExactStarts_spec [spec_simps]:
  "lineStartFromExactStarts (line_starts s) (breaks_before s p) = line_start_at s p"
proof -
  let ?k = "breaks_before s p"
  have k: "?k < line_count s"
    using breaks_before_mono [of p "length s" s] breaks_before_beyond [of s p]
    by (cases "p \<le> length s") (auto simp: line_count_def)
  have bb: "breaks_before s (line_starts s ! ?k) = ?k" by (rule breaks_before_nth_start [OF k])
  have start: "is_line_start s (line_starts s ! ?k)"
    using k nth_mem [of ?k "line_starts s"] by (simp add: length_line_starts set_line_starts)
  have "line_starts s ! ?k = line_start_at s p"
  proof (rule ccontr)
    assume ne: "line_starts s ! ?k \<noteq> line_start_at s p"
    let ?a = "min (line_starts s ! ?k) (line_start_at s p)"
    let ?b = "max (line_starts s ! ?k) (line_start_at s p)"
    have "?a < ?b" "is_line_start s ?b" using ne start line_start_at_props(1) by (auto simp: max_def)
    then have "lb_end s (?b - 1)" "?a \<le> ?b - 1" by (auto simp: is_line_start_def)
    then have "breaks_before s ?a < breaks_before s ?b"
      using breaks_before_mono [of ?a "?b - 1" s] breaks_before_Suc [of s "?b - 1"] \<open>?a < ?b\<close> by simp
    with bb show False by (simp add: min_def max_def split: if_splits)
  qed
  with k show ?thesis
    by (auto simp: lineStartFromExactStarts_def length_line_starts) (simp add: line_starts_def)
qed

subsection \<open>What a view promises, and what the functions then compute\<close>

definition chunk_text :: "PieceChunkView \<Rightarrow> string" where
  "chunk_text c = (if chunk_skip c then [] else take (chunk_length c) (chunk_bytes c))"

definition chunk_valid :: "PieceChunkView \<Rightarrow> bool" where
  "chunk_valid c \<longleftrightarrow> chunk_skip c \<or> chunk_length c \<le> length (chunk_bytes c)"

definition chunks_text :: "PieceChunkView list \<Rightarrow> string" where
  "chunks_text cs = concat (map chunk_text cs)"

definition view_ok :: "DocView \<Rightarrow> string \<Rightarrow> bool" where
  "view_ok v s \<longleftrightarrow> dv_length v = length s \<and> chunks_text (dv_chunks v) = s
     \<and> list_all chunk_valid (dv_chunks v) \<and> length s < size_max"

lemma chunks_text_simps [simp]:
  "chunks_text [] = []" "chunks_text (c # cs) = chunk_text c @ chunks_text cs"
  "chunks_text (cs @ ds) = chunks_text cs @ chunks_text ds"
  by (simp_all add: chunks_text_def)

lemma chunk_text_skip [simp]: "chunk_skip c \<Longrightarrow> chunk_text c = []"
  by (simp add: chunk_text_def)

lemma chunk_text_keep:
  assumes "\<not> chunk_skip c" "chunk_valid c"
  shows "length (chunk_text c) = chunk_length c" "chunk_data c = Some (chunk_bytes c)"
    "chunk_length c \<le> length (chunk_bytes c)" "chunk_length c > 0"
    "chunk_text c = take (chunk_length c) (chunk_bytes c)"
  using assms by (auto simp: chunk_text_def chunk_valid_def chunk_skip_def chunk_bytes_def)

lemma piecewiseCharAt_loop_spec:
  "list_all chunk_valid cs \<Longrightarrow> logical \<le> pos \<Longrightarrow> pos < logical + length (chunks_text cs) \<Longrightarrow>
   piecewiseCharAt_loop cs pos logical = chunks_text cs ! (pos - logical)"
proof (induction cs arbitrary: logical)
  case Nil
  then show ?case by simp
next
  case (Cons c cs)
  show ?case
  proof (cases "chunk_skip c")
    case True
    with Cons show ?thesis by simp
  next
    case False
    note k = chunk_text_keep [OF False] Cons.prems(1)
    show ?thesis
    proof (cases "pos < logical + chunk_length c")
      case True
      then have "pos - logical < length (chunk_text c)" using Cons.prems(2) k by simp
      with True False Cons.prems k show ?thesis by (simp add: nth_append)
    next
      case f: False
      then have "\<not> pos - logical < length (chunk_text c)" using k by simp
      with f False Cons k show ?thesis by (simp add: nth_append)
    qed
  qed
qed

lemma piecewiseCharAt_spec [spec_simps]:
  "view_ok v s \<Longrightarrow> piecewiseCharAt v p = (if p < length s then s ! p else NUL)"
  by (auto simp: piecewiseCharAt_def view_ok_def dv_clampOffset_def Let_def piecewiseCharAt_loop_spec)

lemma countLineBreaksChunk_bytes:
  "a + n \<le> length d \<Longrightarrow> countLineBreaksChunk (Some (drop a d)) n p = countLineBreaksScalar_loop (substr d a n) 0 p"
  by (simp add: countLineBreaksChunk_scalar countLineBreaksScalar_def substr_def)

lemma piecewiseCount_loop_spec:
  "list_all chunk_valid cs \<Longrightarrow>
   piecewiseCount_loop cs st e logical count p
   = count + fst (countLineBreaksScalar_loop (substr (chunks_text cs) (st - logical) (e - max st logical)) 0 p)"
proof (induction cs arbitrary: logical count p)
  case Nil
  then show ?case by (simp add: substr_def)
next
  case (Cons c cs)
  have valid: "chunk_valid c" "list_all chunk_valid cs" using Cons.prems by auto
  consider (stop) "\<not> logical < e" | (skip) "logical < e" "chunk_skip c"
    | (before) "logical < e" "\<not> chunk_skip c" "logical + chunk_length c \<le> st"
    | (empty) "logical < e" "\<not> chunk_skip c" "st < logical + chunk_length c" "e \<le> st"
    | (take) "logical < e" "\<not> chunk_skip c" "st < logical + chunk_length c" "st < e"
    by linarith
  then show ?case
  proof cases
    case stop
    then show ?thesis by simp
  next
    case skip
    with Cons.IH [OF valid(2)] show ?thesis by simp
  next
    case before
    note k = chunk_text_keep [OF before(2) valid(1)]
    have "substr (chunk_text c @ chunks_text cs) (st - logical) (e - max st logical)
        = substr (chunks_text cs) (st - (logical + chunk_length c)) (e - max st (logical + chunk_length c))"
      using before k by (simp add: substr_def)
    with before Cons.IH [OF valid(2)] show ?thesis by (simp add: Let_def)
  next
    case empty
    then have "e - max st logical = 0" "e - max st (logical + chunk_length c) = 0" by auto
    with empty Cons.IH [OF valid(2)] show ?thesis by (auto simp: Let_def)
  next
    case take
    note k = chunk_text_keep [OF take(2) valid(1)]
    let ?ts = "max st logical" let ?te = "min e (logical + chunk_length c)"
    let ?seg = "substr (chunk_bytes c) (?ts - logical) (?te - ?ts)"
    obtain n q where nq: "countLineBreaksScalar_loop ?seg 0 p = (n, q)" by fastforce
    have cnt: "countLineBreaksChunk (Some (drop (?ts - logical) (chunk_bytes c))) (?te - ?ts) p = (n, q)"
      using take k nq by (subst countLineBreaksChunk_bytes) auto
    have seg: "substr (chunk_text c @ chunks_text cs) (st - logical) (e - ?ts)
        = ?seg @ substr (chunks_text cs) 0 (e - (logical + chunk_length c))"
    proof -
      have "min (e - ?ts) (chunk_length c - (st - logical)) = ?te - ?ts"
        "e - ?ts - (chunk_length c - (st - logical)) = e - (logical + chunk_length c)"
        "st - logical = ?ts - logical" "st - logical - chunk_length c = 0"
        using take by linarith+
      moreover have "substr (chunk_text c) (st - logical) (e - ?ts)
          = substr (chunk_bytes c) (st - logical) (min (e - ?ts) (chunk_length c - (st - logical)))"
        unfolding k(5) substr_of_take ..
      ultimately show ?thesis unfolding substr_append_list k(1) by metis
    qed
    have "countLineBreaksScalar_loop (?seg @ r) 0 p
        = (n + fst (countLineBreaksScalar_loop r 0 q), snd (countLineBreaksScalar_loop r 0 q))" for r
      by (simp add: countLineBreaksScalar_loop_append nq) (rule countLineBreaksScalar_loop_count)
    with take cnt seg Cons.IH [OF valid(2)] show ?thesis by (auto simp: Let_def max_def)
  qed
qed

lemma piecewiseCountLineBreaksInRange_spec:
  assumes "view_ok v s" "a \<le> e" "e \<le> length s"
  shows "piecewiseCountLineBreaksInRange v a e + of_bool (a < e \<and> mid_crlf s a)
           + breaks_before s a = breaks_before s e"
proof -
  have v: "dv_length v = length s" "chunks_text (dv_chunks v) = s" "list_all chunk_valid (dv_chunks v)"
    using assms(1) by (auto simp: view_ok_def)
  have "piecewiseCountLineBreaksInRange v a e = directCountLineBreaksInRange (Some s) (length s) a e"
    using assms v
    by (auto simp: piecewiseCountLineBreaksInRange_def directCountLineBreaksInRange_def Let_def
        dv_clampOffset_def piecewiseCharAt_spec [OF assms(1)] piecewiseCount_loop_spec
        countLineBreaksChunk_bytes)
  then show ?thesis using directCountLineBreaksInRange_spec [OF assms(2,3)] by simp
qed

lemma piecewiseLineCount_loop_spec:
  "list_all chunk_valid cs \<Longrightarrow>
   piecewiseLineCount_loop cs n p = n + fst (countLineBreaksScalar_loop (chunks_text cs) 0 p)"
proof (induction cs arbitrary: n p)
  case Nil
  then show ?case by simp
next
  case (Cons c cs)
  show ?case
  proof (cases "chunk_skip c")
    case True
    with Cons show ?thesis by simp
  next
    case False
    note k = chunk_text_keep [OF False] Cons.prems
    obtain m q where mq: "countLineBreaksScalar_loop (chunk_text c) 0 p = (m, q)" by fastforce
    have "countLineBreaksChunk (chunk_data c) (chunk_length c) p = (m, q)"
      using k mq by (simp add: countLineBreaksChunk_scalar countLineBreaksScalar_def)
    moreover have "countLineBreaksScalar_loop (chunk_text c @ r) 0 p
        = (m + fst (countLineBreaksScalar_loop r 0 q), snd (countLineBreaksScalar_loop r 0 q))" for r
      by (simp add: countLineBreaksScalar_loop_append mq) (rule countLineBreaksScalar_loop_count)
    ultimately show ?thesis using False Cons by simp
  qed
qed

lemma piecewiseLineCount_spec [spec_simps]: "view_ok v s \<Longrightarrow> piecewiseLineCount v = line_count s"
  using countLineBreaksScalar_range [of 0 "length s" s]
  by (simp add: piecewiseLineCount_def piecewiseLineCount_loop_spec view_ok_def line_count_def mid_crlf_def)

lemma after_prev_break_append_left: "e \<le> length xs \<Longrightarrow> after_prev_break (xs @ ys) e = after_prev_break xs e"
  by (simp add: after_prev_break_def)

lemma after_prev_break_append_right:
  "after_prev_break (xs @ ys) (length xs + k)
   = (if after_prev_break ys k = 0 then after_prev_break xs (length xs)
      else length xs + after_prev_break ys k)"
proof (cases "after_prev_break ys k = 0")
  case True
  then have none: "\<forall>c \<in> set (rev (take k ys)). \<not> isLineBreakByte c"
    by (simp add: after_prev_break_def dropWhile_eq_Nil_conv)
  have "dropWhile (\<lambda>c. \<not> isLineBreakByte c) (rev (take k ys) @ rev xs)
      = dropWhile (\<lambda>c. \<not> isLineBreakByte c) (rev xs)"
    by (rule dropWhile_append2) (use none in auto)
  then show ?thesis using True by (simp add: after_prev_break_def)
next
  case False
  then obtain c where "c \<in> set (rev (take k ys))" "isLineBreakByte c"
    by (auto simp: after_prev_break_def dropWhile_eq_Nil_conv)
  then show ?thesis using False by (auto simp: after_prev_break_def dropWhile_append1)
qed

lemma after_prev_break_take: "after_prev_break (take n xs) k = after_prev_break xs (min n k)"
  by (simp add: after_prev_break_def min.commute)

lemma piecewiseLineStart_loop_spec:
  assumes "list_all chunk_valid rcs" "le = length (chunks_text (rev rcs))" "le < size_max" "pos \<le> le"
  shows "piecewiseLineStart_loop rcs pos le = after_prev_break (chunks_text (rev rcs)) pos"
  using assms
proof (induction rcs arbitrary: pos le)
  case Nil
  then show ?case by (simp add: after_prev_break_def)
next
  case (Cons c cs)
  let ?t = "chunks_text (rev cs)"
  have valid: "chunk_valid c" "list_all chunk_valid cs" using Cons.prems(1) by auto
  show ?case
  proof (cases "chunk_skip c")
    case True
    with Cons.IH [OF valid(2)] Cons.prems show ?thesis by simp
  next
    case False
    note k = chunk_text_keep [OF False valid(1)]
    have le: "le - chunk_length c = length ?t" "le = length ?t + chunk_length c"
      using Cons.prems(2) k by auto
    show ?thesis
    proof (cases "pos \<le> length ?t")
      case True
      with False le Cons.IH [OF valid(2), of "length ?t" pos] Cons.prems k show ?thesis
        by (simp add: after_prev_break_append_left)
    next
      case after: False
      let ?loc = "pos - length ?t"
      have loc: "?loc \<le> chunk_length c" "pos = length ?t + ?loc" "min (chunk_length c) ?loc = ?loc"
        using Cons.prems(4) le after by auto
      let ?b = "after_prev_break (chunk_bytes c) ?loc"
      have fp: "directFindPrevLineBreak (chunk_data c) ?loc = (if ?b = 0 then size_max else ?b - 1)"
        using k loc by (simp add: directFindPrevLineBreak_spec)
      have b: "?b \<le> ?loc" using after_prev_break_props [of ?loc "chunk_bytes c"] loc k by simp
      have ct: "after_prev_break (chunk_text c) ?loc = ?b"
        using k loc by (simp add: after_prev_break_take)
      have goal: "after_prev_break (?t @ chunk_text c) pos
          = (if ?b = 0 then after_prev_break ?t (length ?t) else length ?t + ?b)"
        using after_prev_break_append_right [of ?t "chunk_text c" ?loc] ct loc(2) by simp
      have small: "?b - 1 \<noteq> size_max" using b loc(1) le Cons.prems(3) by simp
      show ?thesis
      proof (cases "?b = 0")
        case True
        have "length ?t = 0 \<Longrightarrow> after_prev_break ?t (length ?t) = 0" by (simp add: after_prev_break_def)
        with True after False le loc fp goal Cons.IH [OF valid(2), of "length ?t" "length ?t"] Cons.prems
        show ?thesis by (simp add: Let_def)
      next
        case found: False
        with after False le loc fp goal small show ?thesis by (simp add: Let_def)
      qed
    qed
  qed
qed

lemma piecewiseLineStart_spec [spec_simps]:
  assumes "view_ok v s"
  shows "piecewiseLineStart v p = line_start_at s (min p (length s))"
proof -
  let ?p = "min p (length s)"
  have v: "dv_length v = length s" "chunks_text (dv_chunks v) = s" "list_all chunk_valid (rev (dv_chunks v))"
    "length s < size_max"
    using assms by (auto simp: view_ok_def list_all_iff)
  have loop: "piecewiseLineStart_loop (rev (dv_chunks v)) q (length s) = after_prev_break s q"
    if "q \<le> length s" for q
    using piecewiseLineStart_loop_spec [OF v(3), of "length s" q] v that by simp
  consider (zero) "?p = 0" | (mid) "mid_crlf s ?p" | (plain) "?p > 0" "\<not> mid_crlf s ?p" by blast
  then show ?thesis
  proof cases
    case zero
    then show ?thesis
      using line_start_at_props(2) [of s 0]
      by (simp add: piecewiseLineStart_def dv_clampOffset_def v Let_def)
  next
    case mid
    have "\<not> mid_crlf s (?p - 1)" using mid by (auto simp: mid_crlf_def)
    with mid show ?thesis
      using loop [of "?p - 1"] after_prev_break_line_start [of "?p - 1" s] line_start_at_mid [OF mid]
      by (auto simp: piecewiseLineStart_def dv_clampOffset_def v Let_def piecewiseCharAt_spec [OF assms] mid_crlf_def)
  next
    case plain
    then show ?thesis
      using loop [of ?p] after_prev_break_line_start [of ?p s]
      by (auto simp: piecewiseLineStart_def dv_clampOffset_def v Let_def piecewiseCharAt_spec [OF assms] mid_crlf_def)
  qed
qed

lemma next_break_append:
  "p \<le> length xs \<Longrightarrow> next_break (xs @ ys) (length (xs @ ys)) p
   = (if next_break xs (length xs) p < length xs then next_break xs (length xs) p
      else length xs + next_break ys (length ys) 0)"
proof -
  assume p: "p \<le> length xs"
  let ?P = "\<lambda>c. \<not> isLineBreakByte c"
  have drop: "substr (xs @ ys) p (length xs + length ys - p) = drop p xs @ ys"
    "substr xs p (length xs - p) = drop p xs" "substr ys 0 (length ys) = ys"
    using p by (simp_all add: substr_def)
  show ?thesis
  proof (cases "\<forall>c \<in> set (drop p xs). ?P c")
    case True
    then have "takeWhile ?P (drop p xs) = drop p xs" by (simp add: takeWhile_eq_all_conv)
    then have "length (takeWhile ?P (drop p xs)) = length xs - p" by (metis length_drop)
    moreover have "takeWhile ?P (drop p xs @ ys) = drop p xs @ takeWhile ?P ys"
      by (rule takeWhile_append2) (use True in auto)
    ultimately show ?thesis using p by (simp add: next_break_def drop)
  next
    case False
    then obtain c where c: "c \<in> set (drop p xs)" "isLineBreakByte c" by auto
    then have "length (takeWhile ?P (drop p xs)) < length (drop p xs)"
      using takeWhile_length_less [of c "drop p xs" ?P] by blast
    with c p show ?thesis by (auto simp: next_break_def drop takeWhile_append1)
  qed
qed

lemma next_break_take:
  "p \<le> n \<Longrightarrow> n \<le> length xs \<Longrightarrow> next_break (take n xs) n p = next_break xs n p"
  by (simp add: next_break_def substr_of_take)

lemma next_break_at_end [simp]: "next_break s n n = n"
  by (simp add: next_break_def)

lemma piecewiseLineEnd_loop_spec:
  assumes "list_all chunk_valid cs" "len = logical + length (chunks_text cs)"
    and "\<not> active \<Longrightarrow> logical \<le> pos \<and> pos \<le> len"
  shows "piecewiseLineEnd_loop cs pos logical active len
     = logical + next_break (chunks_text cs) (length (chunks_text cs)) (if active then 0 else pos - logical)"
  using assms
proof (induction cs arbitrary: logical active)
  case Nil
  then show ?case by (cases active) (simp_all add: next_break_def substr_def)
next
  case (Cons c cs)
  let ?r = "chunks_text cs"
  have valid: "chunk_valid c" "list_all chunk_valid cs" using Cons.prems(1) by auto
  show ?case
  proof (cases "chunk_skip c")
    case True
    with Cons.IH [OF valid(2)] Cons.prems show ?thesis by simp
  next
    case False
    note k = chunk_text_keep [OF False valid(1)]
    have len: "len = logical + chunk_length c + length ?r" using Cons.prems(2) k by simp
    show ?thesis
    proof (cases "\<not> active \<and> pos \<ge> logical + chunk_length c")
      case skip: True
      have "next_break (chunk_text c @ ?r) (length (chunk_text c @ ?r)) (chunk_length c + q)
          = chunk_length c + next_break ?r (length ?r) q" for q
        using k by (simp add: next_break_def substr_def)
      from this [of "pos - (logical + chunk_length c)"]
      show ?thesis using skip False len Cons.prems(3) Cons.IH [OF valid(2) len] k by simp
    next
      case here: False
      let ?st = "if active then 0 else pos - logical"
      have st: "?st \<le> chunk_length c" using here by auto
      let ?b = "next_break (chunk_bytes c) (chunk_length c) ?st"
      have fn: "directFindNextLineBreak (chunk_data c) (chunk_length c) ?st = ?b"
        using k st by (simp add: directFindNextLineBreak_spec)
      have nb: "next_break (chunk_text c) (length (chunk_text c)) ?st = ?b"
        using k st next_break_take [of ?st "chunk_length c" "chunk_bytes c"] by simp
      have app: "next_break (chunk_text c @ ?r) (length (chunk_text c @ ?r)) ?st
          = (if ?b < chunk_length c then ?b else chunk_length c + next_break ?r (length ?r) 0)"
        using next_break_append [of ?st "chunk_text c" ?r] nb k st by simp
      have step: "piecewiseLineEnd_loop (c # cs) pos logical active len
          = (if ?b < chunk_length c then logical + ?b
             else piecewiseLineEnd_loop cs pos (logical + chunk_length c) True len)"
        using False here fn by (auto simp: Let_def)
      show ?thesis unfolding step chunks_text_simps app
        using Cons.IH [OF valid(2) len, of True] by simp
    qed
  qed
qed

lemma piecewiseLineEnd_spec [spec_simps]:
  "view_ok v s \<Longrightarrow> piecewiseLineEnd v p = next_break s (length s) (min p (length s))"
  using piecewiseLineEnd_loop_spec [of "dv_chunks v" "length s" 0 False "min p (length s)"]
  by (simp add: piecewiseLineEnd_def view_ok_def dv_clampOffset_def)

lemma piecewiseAdvanceLine_spec [spec_simps]:
  assumes "view_ok v s"
  shows "piecewiseAdvanceLine v p = next_line_start s (min p (length s))"
proof -
  have "dv_length v = length s" using assms by (simp add: view_ok_def)
  then show ?thesis
    using advance_from_break [of "min p (length s)" s, OF _ refl] no_break_no_line [of "min p (length s)" s]
    by (auto simp: piecewiseAdvanceLine_def piecewiseLineEnd_spec [OF assms] piecewiseCharAt_spec [OF assms]
        Let_def not_le)
qed

lemma piecewiseNextLine_spec [spec_simps]:
  assumes "view_ok v s"
  shows "piecewiseNextLine v p
    = (case next_line_start s (min p (length s)) of None \<Rightarrow> length s | Some q \<Rightarrow> q)"
proof -
  have len: "dv_length v = length s" using assms by (simp add: view_ok_def)
  have le: "piecewiseLineEnd v p \<le> length s"
    using next_break_props(2) [of "min p (length s)" "length s" s] by (simp add: piecewiseLineEnd_spec [OF assms])
  have "piecewiseNextLine v p = (case piecewiseAdvanceLine v p of None \<Rightarrow> length s | Some q \<Rightarrow> q)"
    using le by (auto simp: piecewiseNextLine_def piecewiseAdvanceLine_def Let_def len)
  then show ?thesis by (simp add: piecewiseAdvanceLine_spec [OF assms])
qed

text \<open>The line before: the start of the line that the break before this line ends.\<close>

definition prev_line_start :: "string \<Rightarrow> nat \<Rightarrow> nat" where
  "prev_line_start s p = (let b = line_start_at s p in if b = 0 then 0 else line_start_at s (b - 1))"

lemma piecewisePrevLine_spec [spec_simps]:
  assumes "view_ok v s"
  shows "piecewisePrevLine v p = prev_line_start s (min p (length s))"
proof -
  let ?b = "line_start_at s (min p (length s))"
  show ?thesis
  proof (cases "?b = 0")
    case True
    then show ?thesis
      by (simp add: piecewisePrevLine_def piecewiseLineStart_spec [OF assms] prev_line_start_def)
  next
    case False
    have le: "?b \<le> length s" using line_start_at_props(2) [of s "min p (length s)"] by simp
    let ?q = "?b - 1"
    show ?thesis
    proof (cases "mid_crlf s ?q")
      case True
      then show ?thesis
        using False le line_start_at_mid [OF True]
        by (auto simp: piecewisePrevLine_def piecewiseLineStart_spec [OF assms] prev_line_start_def
            piecewiseCharAt_spec [OF assms] mid_crlf_def Let_def min_def)
    next
      case nm: False
      then show ?thesis
        using False le
        by (auto simp: piecewisePrevLine_def piecewiseLineStart_spec [OF assms] prev_line_start_def
            piecewiseCharAt_spec [OF assms] mid_crlf_def Let_def min_def)
    qed
  qed
qed

lemma piecewiseRangeText_loop_spec:
  "list_all chunk_valid cs \<Longrightarrow> st \<le> e \<Longrightarrow>
   piecewiseRangeText_loop cs st e logical out
   = out @ substr (chunks_text cs) (st - logical) (e - max st logical)"
proof (induction cs arbitrary: logical out)
  case Nil
  then show ?case by (simp add: substr_def)
next
  case (Cons c cs)
  have valid: "chunk_valid c" "list_all chunk_valid cs" using Cons.prems by auto
  show ?case
  proof (cases "logical < e \<and> \<not> chunk_skip c")
    case False
    with Cons.IH [OF valid(2) Cons.prems(2)] Cons.prems show ?thesis by auto
  next
    case True
    then have lt: "logical < e" and ns: "\<not> chunk_skip c" by auto
    note k = chunk_text_keep [OF ns valid(1)]
    let ?L = "chunk_length c" let ?ts = "max st logical"
    have app: "substr (chunk_text c @ chunks_text cs) (st - logical) (e - ?ts)
        = substr (chunk_bytes c) (st - logical) (min (e - ?ts) (?L - (st - logical)))
          @ substr (chunks_text cs) (st - logical - ?L) (e - ?ts - (?L - (st - logical)))"
      unfolding substr_append_list k(1) k(5) substr_of_take
      using k by (simp add: min_absorb2)
    show ?thesis
    proof (cases "logical + ?L \<le> st")
      case True
      have "e - ?ts - (?L - (st - logical)) = e - max st (logical + ?L)"
        "st - logical - ?L = st - (logical + ?L)" "?L - (st - logical) = 0"
        using True by linarith+
      with True lt ns app Cons.IH [OF valid(2) Cons.prems(2)] show ?thesis by (simp add: Let_def)
    next
      case False
      let ?te = "min e (logical + ?L)"
      have ar: "e - ?ts - (?L - (st - logical)) = e - max st (logical + ?L)"
        "st - logical - ?L = st - (logical + ?L)"
        "min (e - ?ts) (?L - (st - logical)) = ?te - ?ts" "st - logical = ?ts - logical"
        using False Cons.prems(2) by linarith+
      have step: "piecewiseRangeText_loop (c # cs) st e logical out
          = piecewiseRangeText_loop cs st e (logical + ?L)
              (out @ substr (chunk_bytes c) (?ts - logical) (?te - ?ts))"
      proof (cases "?ts < ?te")
        case True
        with False lt ns show ?thesis by (simp add: Let_def)
      next
        case nt: False
        then have "?te - ?ts = 0" by linarith
        with nt False lt ns show ?thesis by (simp only: piecewiseRangeText_loop.simps Let_def) simp
      qed
      show ?thesis
        unfolding step Cons.IH [OF valid(2) Cons.prems(2)] chunks_text_simps app
        unfolding ar(1,2,3) unfolding ar(4) [symmetric] by simp
    qed
  qed
qed

lemma piecewiseRangeText_spec [spec_simps]:
  "view_ok v s \<Longrightarrow> a \<le> e \<Longrightarrow> e \<le> length s \<Longrightarrow> piecewiseRangeText v a e = substr s a (e - a)"
  by (simp add: piecewiseRangeText_def dv_clampOffset_def view_ok_def piecewiseRangeText_loop_spec Let_def)

end
