(* ===== verification/Lazy_Index.thy ===== *)
theory Lazy_Index
  imports Doc_View
begin

text \<open>
  The lazily built line index of \<open>src/piecetable/MRTextDocumentLineIndex.cpp\<close>: the five mutable
  members \<open>mLineIndexCheckpoints\<close>, \<open>mLazyIndexedOffset\<close>, \<open>mLazyIndexedLine\<close>,
  \<open>mLazyLineIndexComplete\<close> and \<open>mLazyTotalLineCount\<close> that \<open>TextDocument\<close> and \<open>ReadSnapshot\<close> both
  carry, with the member functions that have the same body in the two classes. A \<open>TextSource\<close> is
  what those bodies read of the document: its pieces and length, and \<open>directTextData()\<close>.
  \<open>lazy_ok s li\<close> is the invariant against the text \<open>s\<close>; the queries are proved to return the
  line structure of \<open>s\<close> under it. The locale \<open>line_queries\<close> of theory \<open>Doc_Queries\<close> is the contract
  of a document class, from which its queries inherit these results.
\<close>

record TextSource =
  ts_view :: DocView
  ts_direct :: "string option"

abbreviation ts_length :: "TextSource \<Rightarrow> Offset" where
  "ts_length src \<equiv> dv_length (ts_view src)"

record LazyIndex =
  mLineIndexCheckpoints :: "LineIndexCheckpoint list"
  mLazyIndexedOffset :: Offset
  mLazyIndexedLine :: nat
  mLazyLineIndexComplete :: bool
  mLazyTotalLineCount :: nat

definition kLazyLineIndexStride :: nat where
  "kLazyLineIndexStride = 4096"

definition kPiecewiseLineIndexCheckpointStride :: nat where
  "kPiecewiseLineIndexCheckpointStride = 64"

definition kLazyLineStartCatchupWindow :: nat where
  "kLazyLineStartCatchupWindow = 256"

definition checkpointStrideForMode :: "bool \<Rightarrow> nat" where
  "checkpointStrideForMode directMode =
     (if directMode then kLazyLineIndexStride else kPiecewiseLineIndexCheckpointStride)"

subsection \<open>Building the index\<close>

definition resetLazyLineIndex :: "Offset \<Rightarrow> LazyIndex" where
  "resetLazyLineIndex len =
     \<lparr>mLineIndexCheckpoints = [mkCheckpoint 0 0], mLazyIndexedOffset = 0, mLazyIndexedLine = 0,
      mLazyLineIndexComplete = (len = 0), mLazyTotalLineCount = 1\<rparr>"

definition ensureLazyIndexSeeded :: "Offset \<Rightarrow> LazyIndex \<Rightarrow> LazyIndex" where
  "ensureLazyIndexSeeded len li = (if mLineIndexCheckpoints li = [] then resetLazyLineIndex len else li)"

definition charAt :: "TextSource \<Rightarrow> Offset \<Rightarrow> char" where
  "charAt src pos =
     (case ts_direct src of
        Some d \<Rightarrow> if pos < ts_length src then d ! pos else NUL
      | None \<Rightarrow> piecewiseCharAt (ts_view src) pos)"

definition advanceLine :: "TextSource \<Rightarrow> Offset \<Rightarrow> Offset option" where
  "advanceLine src offset =
     (case directAdvanceLine (ts_direct src) (ts_length src) offset of
        Some next \<Rightarrow> Some next
      | None \<Rightarrow> piecewiseAdvanceLine (ts_view src) offset)"

function stride_loop :: "TextSource \<Rightarrow> nat \<Rightarrow> nat \<Rightarrow> LazyIndex \<Rightarrow> LazyIndex" where
  "stride_loop src checkpointStride steps li =
     (if steps < kLazyLineIndexStride then
        (case advanceLine src (mLazyIndexedOffset li) of
           None \<Rightarrow> li\<lparr>mLazyLineIndexComplete := True, mLazyTotalLineCount := mLazyIndexedLine li + 1\<rparr>
         | Some next \<Rightarrow>
             (let line = mLazyIndexedLine li + 1;
                  li1 = li\<lparr>mLazyIndexedOffset := next, mLazyIndexedLine := line\<rparr>;
                  li2 = (if line mod checkpointStride = 0
                         then li1\<lparr>mLineIndexCheckpoints := mLineIndexCheckpoints li1 @ [mkCheckpoint next line]\<rparr>
                         else li1)
              in stride_loop src checkpointStride (steps + 1) li2))
      else li)"
  by pat_completeness auto
termination
  by (relation "measure (\<lambda>(src, stride, steps, li). kLazyLineIndexStride - steps)") auto

declare stride_loop.simps [simp del]

definition advanceLazyIndexByStride :: "TextSource \<Rightarrow> LazyIndex \<Rightarrow> LazyIndex" where
  "advanceLazyIndexByStride src li0 =
     (let li = ensureLazyIndexSeeded (ts_length src) li0 in
      if mLazyLineIndexComplete li then li
      else stride_loop src (checkpointStrideForMode (ts_direct src \<noteq> None)) 0 li)"

subsection \<open>Every step makes progress\<close>

text \<open>
  Termination of the index loops holds for every source, well-formed or not: a successful
  \<open>advanceLine\<close> returns a larger offset that is at most the length.
\<close>

lemma findNextLineBreak_scalar_ge:
  "findNextLineBreak_scalar d n p = n \<or> p \<le> findNextLineBreak_scalar d n p"
  by (induction d n p rule: findNextLineBreak_scalar.induct) (subst (1 2) findNextLineBreak_scalar.simps, auto)

lemma findNextLineBreak_blocks_ge:
  "findNextLineBreak_blocks d n p = n \<or> p \<le> findNextLineBreak_blocks d n p"
proof (induction d n p rule: findNextLineBreak_blocks.induct)
  case (1 d n p)
  define msk where "msk = movemask (or_lanes (cmpeq (substr d p 16) CR) (cmpeq (substr d p 16) LF))"
  have step: "findNextLineBreak_blocks d n p =
      (if p + 16 \<le> n then if msk \<noteq> 0 then p + ctz msk else findNextLineBreak_blocks d n (p + 16)
       else findNextLineBreak_scalar d n p)"
    by (subst findNextLineBreak_blocks.simps) (simp add: Let_def msk_def)
  show ?case
    using 1 [OF _ refl msk_def] findNextLineBreak_scalar_ge [of d n p] by (auto simp: step)
qed

lemma directFindNextLineBreak_ge: "directFindNextLineBreak data n p < n \<Longrightarrow> p \<le> directFindNextLineBreak data n p"
  using findNextLineBreak_blocks_ge [of "the data" n p]
  by (auto simp: directFindNextLineBreak_def split: option.splits if_splits)

lemma piecewiseLineEnd_loop_ge:
  "(if active then pos \<le> logical else logical \<le> pos) \<Longrightarrow> piecewiseLineEnd_loop cs pos logical active len < len \<Longrightarrow>
   pos \<le> piecewiseLineEnd_loop cs pos logical active len"
proof (induction cs arbitrary: logical active)
  case Nil
  then show ?case by simp
next
  case (Cons c cs)
  show ?case
  proof (cases "chunk_skip c \<or> \<not> active \<and> pos \<ge> logical + chunk_length c")
    case True
    with Cons show ?thesis by (auto split: if_splits)
  next
    case False
    let ?st = "if \<not> active then pos - logical else 0"
    let ?b = "directFindNextLineBreak (chunk_data c) (chunk_length c) ?st"
    show ?thesis
    proof (cases "?b < chunk_length c")
      case True
      from directFindNextLineBreak_ge [OF this] True False Cons.prems show ?thesis
        by (auto simp: Let_def split: if_splits)
    next
      case f: False
      from Cons.IH [of True "logical + chunk_length c"] f False Cons.prems show ?thesis
        by (auto simp: Let_def split: if_splits)
    qed
  qed
qed

lemma piecewiseAdvanceLine_progress:
  assumes "piecewiseAdvanceLine v p = Some q" shows "p < q \<and> q \<le> dv_length v"
proof -
  let ?e = "piecewiseLineEnd v p"
  have "?e < dv_length v" using assms by (auto simp: piecewiseAdvanceLine_def Let_def split: if_splits)
  then have "min p (dv_length v) \<le> ?e"
    using piecewiseLineEnd_loop_ge [of False "dv_clampOffset v p" 0]
    by (auto simp: piecewiseLineEnd_def dv_clampOffset_def)
  with \<open>?e < dv_length v\<close> assms show ?thesis
    by (auto simp: piecewiseAdvanceLine_def Let_def split: if_splits)
qed

lemma directAdvanceLine_progress:
  assumes "directAdvanceLine data n p = Some q" shows "p < q \<and> q \<le> n"
proof -
  let ?b = "directFindNextLineBreak data n p"
  have "?b < n" using assms by (auto simp: directAdvanceLine_def Let_def split: option.splits if_splits)
  from directFindNextLineBreak_ge [OF this] this assms show ?thesis
    by (auto simp: directAdvanceLine_def Let_def split: option.splits if_splits)
qed

lemma advanceLine_progress: "advanceLine src p = Some q \<Longrightarrow> p < q \<and> q \<le> ts_length src"
  by (auto simp: advanceLine_def split: option.splits
      dest: directAdvanceLine_progress piecewiseAdvanceLine_progress)

lemma stride_loop_offset: "mLazyIndexedOffset li \<le> mLazyIndexedOffset (stride_loop src k steps li)"
proof (induction src k steps li rule: stride_loop.induct)
  case (1 src k steps li)
  show ?case
  proof (cases "steps < kLazyLineIndexStride")
    case True
    show ?thesis
    proof (cases "advanceLine src (mLazyIndexedOffset li)")
      case None
      with True show ?thesis by (subst stride_loop.simps) simp
    next
      case (Some q)
      with 1 [OF True Some refl refl refl] True advanceLine_progress [OF Some] show ?thesis
        by (subst stride_loop.simps) (auto simp: Let_def)
    qed
  next
    case False
    then show ?thesis by (subst stride_loop.simps) simp
  qed
qed

definition lazy_rest :: "TextSource \<Rightarrow> LazyIndex \<Rightarrow> nat" where
  "lazy_rest src li =
     (if mLazyLineIndexComplete li then 0
      else if mLineIndexCheckpoints li = [] then ts_length src + 2
      else ts_length src - mLazyIndexedOffset li + 1)"

lemma stride_loop_checkpoints:
  "mLineIndexCheckpoints li \<noteq> [] \<Longrightarrow> mLineIndexCheckpoints (stride_loop src k steps li) \<noteq> []"
proof (induction src k steps li rule: stride_loop.induct)
  case (1 src k steps li)
  then show ?case
    by (subst stride_loop.simps) (auto simp: Let_def split: option.splits)
qed

lemma advanceLazyIndexByStride_progress:
  assumes "\<not> mLazyLineIndexComplete li"
  shows "lazy_rest src (advanceLazyIndexByStride src li) < lazy_rest src li"
proof -
  define li1 where "li1 = ensureLazyIndexSeeded (ts_length src) li"
  have le: "lazy_rest src li1 \<le> lazy_rest src li" and ne: "mLineIndexCheckpoints li1 \<noteq> []"
    using assms by (auto simp: li1_def ensureLazyIndexSeeded_def resetLazyLineIndex_def lazy_rest_def)
  show ?thesis
  proof (cases "mLazyLineIndexComplete li1")
    case True
    with assms show ?thesis by (simp add: advanceLazyIndexByStride_def Let_def li1_def [symmetric] lazy_rest_def)
  next
    case False
    let ?k = "checkpointStrideForMode (ts_direct src \<noteq> None)"
    have "lazy_rest src (stride_loop src ?k 0 li1) < lazy_rest src li1"
    proof (cases "advanceLine src (mLazyIndexedOffset li1)")
      case None
      then show ?thesis using False
        by (subst stride_loop.simps) (simp add: kLazyLineIndexStride_def lazy_rest_def)
    next
      case (Some q)
      define li2 where "li2 = (let line = mLazyIndexedLine li1 + 1;
                  li2 = li1\<lparr>mLazyIndexedOffset := q, mLazyIndexedLine := line\<rparr>
              in (if line mod ?k = 0
                         then li2\<lparr>mLineIndexCheckpoints := mLineIndexCheckpoints li2 @ [mkCheckpoint q line]\<rparr>
                         else li2))"
      have eq: "stride_loop src ?k 0 li1 = stride_loop src ?k 1 li2"
        using Some by (subst stride_loop.simps) (simp add: kLazyLineIndexStride_def Let_def li2_def)
      have q: "mLazyIndexedOffset li2 = q" "mLineIndexCheckpoints li2 \<noteq> []"
        using ne by (auto simp: li2_def Let_def)
      have "q \<le> mLazyIndexedOffset (stride_loop src ?k 1 li2)" using stride_loop_offset [of li2 src ?k 1] q by simp
      with advanceLine_progress [OF Some] stride_loop_checkpoints [OF q(2), of src ?k 1] ne False eq
      show ?thesis by (auto simp: lazy_rest_def)
    qed
    with False le show ?thesis
      by (simp add: advanceLazyIndexByStride_def Let_def li1_def [symmetric])
  qed
qed

function ensureComplete_loop :: "TextSource \<Rightarrow> LazyIndex \<Rightarrow> LazyIndex" where
  "ensureComplete_loop src li =
     (if \<not> mLazyLineIndexComplete li then ensureComplete_loop src (advanceLazyIndexByStride src li) else li)"
  by pat_completeness auto
termination
  by (relation "measure (\<lambda>(src, li). lazy_rest src li)") (auto simp: advanceLazyIndexByStride_progress)

declare ensureComplete_loop.simps [simp del]

text \<open>
  \<open>buildDirectInitialLineIndex\<close> fills its four reference parameters; the loop stops where the
  source breaks out of it.
\<close>

function buildDirect_loop ::
  "string \<Rightarrow> Offset \<Rightarrow> LineIndexCheckpoint list \<Rightarrow> Offset \<Rightarrow> nat \<Rightarrow> LineIndexCheckpoint list \<times> Offset \<times> nat" where
  "buildDirect_loop d len checkpoints indexedOffset indexedLine =
     (if indexedOffset < len then
        (let breakOffset = directFindNextLineBreak (Some d) len indexedOffset in
         if breakOffset \<ge> len then (checkpoints, indexedOffset, indexedLine)
         else
           (let next = (if d ! breakOffset = CR \<and> breakOffset + 1 < len \<and> d ! (breakOffset + 1) = LF
                        then breakOffset + 2 else breakOffset + 1);
                line = indexedLine + 1;
                checkpoints' = (if line mod kLazyLineIndexStride = 0
                                then checkpoints @ [mkCheckpoint next line] else checkpoints)
            in buildDirect_loop d len checkpoints' next line))
      else (checkpoints, indexedOffset, indexedLine))"
  by pat_completeness auto
termination
proof (relation "measure (\<lambda>(d, len, cps, off, line). len - off)")
  fix d :: string and len off b q line line' :: nat and cps cps' :: "LineIndexCheckpoint list"
  assume b: "off < len" "b = directFindNextLineBreak (Some d) len off" "\<not> len \<le> b"
    and n: "q = (if d ! b = CR \<and> b + 1 < len \<and> d ! (b + 1) = LF then b + 2 else b + 1)"
  have "off \<le> b" using directFindNextLineBreak_ge [of "Some d" len off] b by simp
  with b(1) n show "((d, len, cps', q, line'), d, len, cps, off, line)
      \<in> measure (\<lambda>(d, len, cps, off, line). len - off)"
    by auto
qed auto

declare buildDirect_loop.simps [simp del]

definition buildDirectInitialLineIndex ::
  "string option \<Rightarrow> Offset \<Rightarrow> LineIndexCheckpoint list \<times> Offset \<times> nat \<times> nat" where
  "buildDirectInitialLineIndex data len =
     (case data of
        None \<Rightarrow> ([mkCheckpoint 0 0], 0, 0, 1)
      | Some d \<Rightarrow>
          (let (cps, off, line) = buildDirect_loop d len [mkCheckpoint 0 0] 0 0 in (cps, off, line, line + 1)))"

definition lazy_untouched :: "LazyIndex \<Rightarrow> bool" where
  "lazy_untouched li \<longleftrightarrow> \<not> mLazyLineIndexComplete li \<and> length (mLineIndexCheckpoints li) = 1
     \<and> cp_offset (mLineIndexCheckpoints li ! 0) = 0 \<and> cp_lineIndex (mLineIndexCheckpoints li ! 0) = 0
     \<and> mLazyIndexedOffset li = 0 \<and> mLazyIndexedLine li = 0"

definition ensureLazyIndexComplete :: "TextSource \<Rightarrow> LazyIndex \<Rightarrow> LazyIndex" where
  "ensureLazyIndexComplete src li0 =
     (let li = ensureLazyIndexSeeded (ts_length src) li0 in
      if lazy_untouched li \<and> ts_direct src \<noteq> None then
        (let (cps, off, line, total) = buildDirectInitialLineIndex (ts_direct src) (ts_length src)
         in \<lparr>mLineIndexCheckpoints = cps, mLazyIndexedOffset = off, mLazyIndexedLine = line,
             mLazyLineIndexComplete = True, mLazyTotalLineCount = total\<rparr>)
      else ensureComplete_loop src li)"

subsection \<open>The invariant\<close>

definition checkpoint_ok :: "string \<Rightarrow> LineIndexCheckpoint \<Rightarrow> bool" where
  "checkpoint_ok s c \<longleftrightarrow> is_line_start s (cp_offset c) \<and> cp_lineIndex c = breaks_before s (cp_offset c)"

definition lazy_ok :: "string \<Rightarrow> LazyIndex \<Rightarrow> bool" where
  "lazy_ok s li \<longleftrightarrow>
     mLineIndexCheckpoints li \<noteq> [] \<and> hd (mLineIndexCheckpoints li) = mkCheckpoint 0 0
     \<and> sorted (map cp_offset (mLineIndexCheckpoints li))
     \<and> list_all (checkpoint_ok s) (mLineIndexCheckpoints li)
     \<and> list_all (\<lambda>c. cp_offset c \<le> mLazyIndexedOffset li) (mLineIndexCheckpoints li)
     \<and> mLazyIndexedOffset li \<le> length s
     \<and> mLazyIndexedLine li = breaks_before s (mLazyIndexedOffset li)
     \<and> (mLazyLineIndexComplete li \<longrightarrow>
          mLazyTotalLineCount li = line_count s \<and> mLazyIndexedLine li + 1 = line_count s)"

definition source_ok :: "TextSource \<Rightarrow> string \<Rightarrow> bool" where
  "source_ok src s \<longleftrightarrow> view_ok (ts_view src) s
     \<and> (case ts_direct src of None \<Rightarrow> True | Some d \<Rightarrow> length s \<le> length d \<and> take (length s) d = s)"

lemma source_ok_length: "source_ok src s \<Longrightarrow> ts_length src = length s"
  by (simp add: source_ok_def view_ok_def)

lemma source_ok_small: "source_ok src s \<Longrightarrow> length s < size_max"
  by (simp add: source_ok_def view_ok_def)

text \<open>The functions on a data pointer read the first \<open>length\<close> bytes only.\<close>

lemma next_break_of_take: "p \<le> n \<Longrightarrow> n \<le> length d \<Longrightarrow> next_break d n p = next_break (take n d) n p"
  by (simp add: next_break_take)

lemma directAdvanceLine_take:
  assumes "n \<le> length d" shows "directAdvanceLine (Some d) n p = next_line_start (take n d) p"
proof (cases "p < n")
  case True
  let ?b = "next_break (take n d) n p"
  have b: "directFindNextLineBreak (Some d) n p = ?b"
    using True assms by (simp add: directFindNextLineBreak_spec next_break_take)
  show ?thesis
    using advance_from_break [of p "take n d", OF _ refl] no_break_no_line [of p "take n d"] assms True
    by (auto simp: directAdvanceLine_def b Let_def not_le)
next
  case False
  with assms show ?thesis by (simp add: directAdvanceLine_def next_line_start_beyond)
qed

lemma directCount_take:
  assumes "n \<le> length d"
  shows "directCountLineBreaksInRange (Some d) n a e = directCountLineBreaksInRange (Some (take n d)) n a e"
proof -
  have "countLineBreaksChunk (Some (drop x d)) (y - x) p = countLineBreaksChunk (Some (drop x (take n d))) (y - x) p"
    if "x < y" "y \<le> n" for x y p
  proof -
    have "take (y - x) (drop x (take n d)) = take (y - x) (drop x d)"
      using that by (simp add: drop_take)
    with that assms show ?thesis
      by (simp add: countLineBreaksChunk_scalar countLineBreaksScalar_def)
  qed
  then show ?thesis using assms by (auto simp: directCountLineBreaksInRange_def Let_def not_le)
qed

lemma source_direct:
  assumes "source_ok src s" "ts_direct src = Some d"
  shows "length s \<le> length d" "take (length s) d = s" "i < length s \<Longrightarrow> d ! i = s ! i"
proof -
  show *: "length s \<le> length d" "take (length s) d = s" using assms by (auto simp: source_ok_def)
  show "i < length s \<Longrightarrow> d ! i = s ! i" using nth_take [of i "length s" d] * by simp
qed

lemma charAt_spec [spec_simps]:
  "source_ok src s \<Longrightarrow> charAt src p = (if p < length s then s ! p else NUL)"
  using source_direct [of src s] source_ok_length [of src s] piecewiseCharAt_spec [of "ts_view src" s p]
  by (auto simp: charAt_def source_ok_def split: option.splits)

lemma advanceLine_spec [spec_simps]:
  assumes "source_ok src s" shows "advanceLine src p = next_line_start s (min p (length s))"
proof -
  have v: "piecewiseAdvanceLine (ts_view src) p = next_line_start s (min p (length s))"
    using assms by (simp add: source_ok_def piecewiseAdvanceLine_spec)
  show ?thesis
  proof (cases "ts_direct src")
    case None
    then show ?thesis by (simp add: advanceLine_def directAdvanceLine_def v)
  next
    case (Some d)
    then have "directAdvanceLine (ts_direct src) (ts_length src) p = next_line_start s p"
      using Some source_ok_length [OF assms] source_direct [OF assms Some] by (simp add: directAdvanceLine_take)
    then show ?thesis
      by (auto simp: advanceLine_def v min_def next_line_start_beyond split: option.splits)
  qed
qed

subsection \<open>Every operation keeps the invariant\<close>

lemma next_line_start_None_count:
  "next_line_start s p = None \<Longrightarrow> p \<le> length s \<Longrightarrow> Suc (breaks_before s p) = line_count s"
  using breaks_before_eqI [of p "length s" s] by (simp add: next_line_start_None line_count_def)

lemma lazy_ok_reset [simp, intro]: "lazy_ok s (resetLazyLineIndex (length s))"
  by (simp add: lazy_ok_def resetLazyLineIndex_def checkpoint_ok_def line_count_def)

lemma lazy_ok_seeded [simp]: "lazy_ok s li \<Longrightarrow> ensureLazyIndexSeeded n li = li"
  by (simp add: lazy_ok_def ensureLazyIndexSeeded_def)

lemma lazy_ok_finish:
  assumes "lazy_ok s li" "next_line_start s (mLazyIndexedOffset li) = None"
  shows "lazy_ok s (li\<lparr>mLazyLineIndexComplete := True, mLazyTotalLineCount := mLazyIndexedLine li + 1\<rparr>)"
  using assms next_line_start_None_count [OF assms(2)] by (simp add: lazy_ok_def)

lemma lazy_ok_step:
  assumes "lazy_ok s li" "\<not> mLazyLineIndexComplete li" "next_line_start s (mLazyIndexedOffset li) = Some q"
    and "li' = li\<lparr>mLazyIndexedOffset := q, mLazyIndexedLine := mLazyIndexedLine li + 1\<rparr>"
  shows "lazy_ok s li'"
    and "lazy_ok s (li'\<lparr>mLineIndexCheckpoints :=
          mLineIndexCheckpoints li @ [mkCheckpoint q (mLazyIndexedLine li + 1)]\<rparr>)"
proof -
  note q = next_line_start_SomeD [OF assms(3)]
  have le: "list_all (\<lambda>c. cp_offset c \<le> q) (mLineIndexCheckpoints li)"
    using assms(1) q(1) by (auto simp: lazy_ok_def list_all_iff)
  show "lazy_ok s li'" using assms q le by (simp add: lazy_ok_def)
  have "\<forall>c \<in> set (mLineIndexCheckpoints li). cp_offset c \<le> q" using le by (simp add: list_all_iff)
  with assms q le
  show "lazy_ok s (li'\<lparr>mLineIndexCheckpoints :=
          mLineIndexCheckpoints li @ [mkCheckpoint q (mLazyIndexedLine li + 1)]\<rparr>)"
    by (simp add: lazy_ok_def sorted_append checkpoint_ok_def)
qed

lemma stride_loop_ok:
  "source_ok src s \<Longrightarrow> lazy_ok s li \<Longrightarrow> \<not> mLazyLineIndexComplete li \<Longrightarrow> lazy_ok s (stride_loop src k steps li)"
proof (induction src k steps li rule: stride_loop.induct)
  case (1 src k steps li)
  let ?o = "mLazyIndexedOffset li"
  have adv: "advanceLine src ?o = next_line_start s ?o"
    using "1.prems" by (simp add: advanceLine_spec lazy_ok_def min_absorb1)
  show ?case
  proof (cases "steps < kLazyLineIndexStride")
    case True
    show ?thesis
    proof (cases "next_line_start s ?o")
      case None
      with True adv lazy_ok_finish [OF "1.prems"(2) None] show ?thesis
        by (subst stride_loop.simps) simp
    next
      case (Some q)
      define li1 where "li1 = li\<lparr>mLazyIndexedOffset := q, mLazyIndexedLine := mLazyIndexedLine li + 1\<rparr>"
      define li2 where "li2 = (if (mLazyIndexedLine li + 1) mod k = 0
          then li1\<lparr>mLineIndexCheckpoints := mLineIndexCheckpoints li1 @ [mkCheckpoint q (mLazyIndexedLine li + 1)]\<rparr>
          else li1)"
      have a: "advanceLine src ?o = Some q" using Some adv by simp
      have eq: "stride_loop src k steps li = stride_loop src k (steps + 1) li2"
        using True a by (subst stride_loop.simps) (simp add: Let_def li1_def li2_def)
      have "lazy_ok s li2" "\<not> mLazyLineIndexComplete li2"
        using lazy_ok_step [OF "1.prems"(2,3) Some li1_def] "1.prems"(3) by (auto simp: li2_def li1_def)
      with "1.IH" [OF True a refl li1_def li2_def "1.prems"(1)] show ?thesis by (simp add: eq)
    qed
  next
    case False
    with "1.prems" show ?thesis by (subst stride_loop.simps) simp
  qed
qed

lemma advanceLazyIndexByStride_ok:
  "source_ok src s \<Longrightarrow> lazy_ok s li \<Longrightarrow> lazy_ok s (advanceLazyIndexByStride src li)"
  by (simp add: advanceLazyIndexByStride_def Let_def stride_loop_ok)

lemma ensureComplete_loop_ok:
  "source_ok src s \<Longrightarrow> lazy_ok s li \<Longrightarrow>
   lazy_ok s (ensureComplete_loop src li) \<and> mLazyLineIndexComplete (ensureComplete_loop src li)"
proof (induction src li rule: ensureComplete_loop.induct)
  case (1 src li)
  then show ?case
    by (cases "mLazyLineIndexComplete li")
      (subst (1 2) ensureComplete_loop.simps, simp add: advanceLazyIndexByStride_ok)+
qed

lemma buildDirect_loop_ok:
  assumes "n \<le> length d" "s = take n d"
    and "lazy_ok s \<lparr>mLineIndexCheckpoints = cps, mLazyIndexedOffset = off, mLazyIndexedLine = line,
                    mLazyLineIndexComplete = False, mLazyTotalLineCount = t\<rparr>"
    and "buildDirect_loop d n cps off line = (cps', off', line')"
  shows "lazy_ok s \<lparr>mLineIndexCheckpoints = cps', mLazyIndexedOffset = off', mLazyIndexedLine = line',
                    mLazyLineIndexComplete = True, mLazyTotalLineCount = line' + 1\<rparr>"
  using assms
proof (induction d n cps off line rule: buildDirect_loop.induct)
  case (1 d n cps off line)
  let ?b = "directFindNextLineBreak (Some d) n off"
  let ?li = "\<lparr>mLineIndexCheckpoints = cps, mLazyIndexedOffset = off, mLazyIndexedLine = line,
              mLazyLineIndexComplete = False, mLazyTotalLineCount = t\<rparr>"
  have adv: "directAdvanceLine (Some d) n off = next_line_start s off"
    using "1.prems" by (simp add: directAdvanceLine_take)
  show ?case
  proof (cases "off < n \<and> ?b < n")
    case False
    then have "directAdvanceLine (Some d) n off = None" by (auto simp: directAdvanceLine_def)
    then have none: "next_line_start s (mLazyIndexedOffset ?li) = None" using adv by simp
    have "buildDirect_loop d n cps off line = (cps, off, line)"
      using False by (subst buildDirect_loop.simps) (auto simp: Let_def)
    with "1.prems"(4) have "cps' = cps" "off' = off" "line' = line" by auto
    with lazy_ok_finish [OF "1.prems"(3) none] show ?thesis by simp
  next
    case True
    define q where "q = (if d ! ?b = CR \<and> ?b + 1 < n \<and> d ! (?b + 1) = LF then ?b + 2 else ?b + 1)"
    define cps1 where "cps1 = (if (line + 1) mod kLazyLineIndexStride = 0
                                then cps @ [mkCheckpoint q (line + 1)] else cps)"
    have "directAdvanceLine (Some d) n off = Some q"
      using True by (simp add: directAdvanceLine_def Let_def q_def)
    then have some: "next_line_start s (mLazyIndexedOffset ?li) = Some q" using adv by simp
    have "buildDirect_loop d n cps off line = buildDirect_loop d n cps1 q (line + 1)"
      using True by (subst buildDirect_loop.simps) (simp add: Let_def q_def cps1_def)
    moreover have "lazy_ok s \<lparr>mLineIndexCheckpoints = cps1, mLazyIndexedOffset = q,
        mLazyIndexedLine = line + 1, mLazyLineIndexComplete = False, mLazyTotalLineCount = t\<rparr>"
      using lazy_ok_step [OF "1.prems"(3) _ some refl] by (simp add: cps1_def)
    ultimately show ?thesis
      using "1.IH" [OF _ refl _ q_def refl cps1_def] "1.prems" True by simp
  qed
qed

lemma ensureLazyIndexComplete_ok:
  assumes "source_ok src s" "lazy_ok s li"
  shows "lazy_ok s (ensureLazyIndexComplete src li)" "mLazyLineIndexComplete (ensureLazyIndexComplete src li)"
    "mLazyTotalLineCount (ensureLazyIndexComplete src li) = line_count s"
proof -
  let ?r = "ensureLazyIndexComplete src li"
  have *: "lazy_ok s ?r \<and> mLazyLineIndexComplete ?r"
  proof (cases "lazy_untouched li \<and> ts_direct src \<noteq> None")
    case True
    then obtain d where d: "ts_direct src = Some d" by auto
    obtain cps off line where b: "buildDirect_loop d (length s) [mkCheckpoint 0 0] 0 0 = (cps, off, line)"
      by (metis prod_cases3)
    note src = source_direct [OF assms(1) d]
    have "lazy_ok s \<lparr>mLineIndexCheckpoints = [mkCheckpoint 0 0], mLazyIndexedOffset = 0,
        mLazyIndexedLine = 0, mLazyLineIndexComplete = False, mLazyTotalLineCount = 1\<rparr>"
      by (simp add: lazy_ok_def checkpoint_ok_def)
    from buildDirect_loop_ok [OF src(1) src(2) [symmetric] this b] True d assms b show ?thesis
      by (simp add: ensureLazyIndexComplete_def buildDirectInitialLineIndex_def source_ok_length)
  next
    case False
    with assms ensureComplete_loop_ok [OF assms] show ?thesis
      by (auto simp: ensureLazyIndexComplete_def)
  qed
  then show "lazy_ok s ?r" "mLazyLineIndexComplete ?r" by auto
  with * show "mLazyTotalLineCount ?r = line_count s" by (simp add: lazy_ok_def)
qed

subsection \<open>Queries\<close>

text \<open>
  The document queries. \<open>es\<close> is \<open>mEditedLineStarts\<close> (\<open>None\<close> the null pointer). The queries are
  \<open>const\<close> but may extend the mutable index, so those that do return it.
\<close>

definition hasEditedLineStartIndex :: "Offset list option \<Rightarrow> bool" where
  "hasEditedLineStartIndex es \<longleftrightarrow> (case es of None \<Rightarrow> False | Some starts \<Rightarrow> starts \<noteq> [])"

definition editedLineIndex :: "TextSource \<Rightarrow> Offset list \<Rightarrow> Offset \<Rightarrow> nat" where
  "editedLineIndex src starts pos0 =
     (let len = ts_length src; pos = min pos0 len in
      if pos = len \<and> len > 0 \<and> isLineBreakByte (charAt src (len - 1)) then length starts - 1
      else lineIndexFromExactStarts starts (if pos = len \<and> len > 0 then len - 1 else pos))"

definition checkpointAtOrBefore :: "LineIndexCheckpoint list \<Rightarrow> Offset \<Rightarrow> LineIndexCheckpoint" where
  "checkpointAtOrBefore cps pos =
     (let left = upper_bound_loop (\<lambda>i. cp_offset (cps ! i) \<le> pos) 0 (length cps)
      in cps ! (if left = 0 then 0 else left - 1))"

definition lineIndex :: "TextSource \<Rightarrow> Offset list option \<Rightarrow> LazyIndex \<Rightarrow> Offset \<Rightarrow> LazyIndex \<times> nat" where
  "lineIndex src es li0 pos0 =
     (let pos = min pos0 (ts_length src) in
      if hasEditedLineStartIndex es then (li0, editedLineIndex src (the es) pos)
      else
        (let li = ensureLazyIndexSeeded (ts_length src) li0 in
         if mLineIndexCheckpoints li = [] then (li, 0)
         else if pos = ts_length src then
           (let li' = ensureLazyIndexComplete src li
            in (li', if mLazyTotalLineCount li' > 0 then mLazyTotalLineCount li' - 1 else 0))
         else
           (let checkpoint = checkpointAtOrBefore (mLineIndexCheckpoints li) pos
            in (li,
                if cp_offset checkpoint \<ge> pos then cp_lineIndex checkpoint
                else
                  (case ts_direct src of
                     Some d \<Rightarrow> cp_lineIndex checkpoint
                       + directCountLineBreaksInRange (Some d) (ts_length src) (cp_offset checkpoint) pos
                   | None \<Rightarrow> cp_lineIndex checkpoint
                       + piecewiseCountLineBreaksInRange (ts_view src) (cp_offset checkpoint) pos)))))"

definition lineCount :: "TextSource \<Rightarrow> Offset list option \<Rightarrow> LazyIndex \<Rightarrow> LazyIndex \<times> nat" where
  "lineCount src es li =
     (if hasEditedLineStartIndex es then (li, length (the es))
      else (let li' = ensureLazyIndexComplete src li in (li', mLazyTotalLineCount li')))"

definition lineStart :: "TextSource \<Rightarrow> Offset list option \<Rightarrow> Offset \<Rightarrow> Offset" where
  "lineStart src es pos0 =
     (if hasEditedLineStartIndex es
      then lineStartFromExactStarts (the es) (editedLineIndex src (the es) pos0)
      else
        (case ts_direct src of
           Some d \<Rightarrow>
             (let pos = min pos0 (ts_length src);
                  pos1 = (if pos < ts_length src \<and> pos > 0 \<and> d ! pos = LF \<and> d ! (pos - 1) = CR
                          then pos - 1 else pos);
                  breakPos = directFindPrevLineBreak (Some d) pos1
              in if breakPos = size_max then 0 else breakPos + 1)
         | None \<Rightarrow> piecewiseLineStart (ts_view src) pos0))"

definition lineEnd :: "TextSource \<Rightarrow> Offset \<Rightarrow> Offset" where
  "lineEnd src pos0 =
     (case ts_direct src of
        Some d \<Rightarrow> directFindNextLineBreak (Some d) (ts_length src) (min pos0 (ts_length src))
      | None \<Rightarrow> piecewiseLineEnd (ts_view src) pos0)"

definition nextLine :: "TextSource \<Rightarrow> Offset list option \<Rightarrow> Offset \<Rightarrow> Offset" where
  "nextLine src es pos0 =
     (if hasEditedLineStartIndex es then
        (let line = editedLineIndex src (the es) pos0
         in if line + 1 < length (the es) then the es ! (line + 1) else ts_length src)
      else
        (case ts_direct src of
           Some d \<Rightarrow>
             (let pos = lineEnd src pos0 in
              if pos < ts_length src then
                if d ! pos = CR \<and> pos + 1 < ts_length src \<and> d ! (pos + 1) = LF then pos + 2 else pos + 1
              else pos)
         | None \<Rightarrow> piecewiseNextLine (ts_view src) pos0))"

definition prevLine :: "TextSource \<Rightarrow> Offset list option \<Rightarrow> Offset \<Rightarrow> Offset" where
  "prevLine src es pos0 =
     (if hasEditedLineStartIndex es then
        (let line = editedLineIndex src (the es) pos0 in if line = 0 then 0 else the es ! (line - 1))
      else
        (case ts_direct src of
           Some d \<Rightarrow>
             (let pos = lineStart src es pos0 in
              if pos = 0 then 0
              else
                (let pos1 = pos - 1;
                     pos2 = (if pos1 > 0 \<and> d ! (pos1 - 1) = CR \<and> d ! pos1 = LF then pos1 - 1 else pos1);
                     breakPos = directFindPrevLineBreak (Some d) pos2
                 in if breakPos = size_max then 0 else breakPos + 1))
         | None \<Rightarrow> piecewisePrevLine (ts_view src) pos0))"

definition exactLineCountKnown :: "Offset list option \<Rightarrow> LazyIndex \<Rightarrow> bool" where
  "exactLineCountKnown es li = (if hasEditedLineStartIndex es then True else mLazyLineIndexComplete li)"

definition column :: "TextSource \<Rightarrow> Offset list option \<Rightarrow> Offset \<Rightarrow> nat" where
  "column src es pos0 = (let pos = min pos0 (ts_length src) in pos - lineStart src es pos)"

definition lineText :: "TextSource \<Rightarrow> Offset list option \<Rightarrow> Offset \<Rightarrow> string" where
  "lineText src es pos =
     (let start = lineStart src es pos; e = lineEnd src pos
      in case ts_direct src of
           Some d \<Rightarrow> substr d start (e - start)
         | None \<Rightarrow> piecewiseRangeText (ts_view src) start e)"

subsection \<open>What the queries return\<close>

definition next_line_or_end :: "string \<Rightarrow> nat \<Rightarrow> nat" where
  "next_line_or_end s p = (case next_line_start s p of None \<Rightarrow> length s | Some q \<Rightarrow> q)"

definition edited_ok :: "string \<Rightarrow> Offset list option \<Rightarrow> bool" where
  "edited_ok s es \<longleftrightarrow> (hasEditedLineStartIndex es \<longrightarrow> the es = line_starts s)"

lemma line_start_at_self: "is_line_start s p \<Longrightarrow> line_start_at s p = p"
  by (rule line_start_at_eqI) auto

lemma breaks_before_less_count: "breaks_before s p < line_count s"
  using breaks_before_mono [of p "length s" s] breaks_before_beyond [of s p]
  by (cases "p \<le> length s") (auto simp: line_count_def)

lemma nth_line_start_at: "line_starts s ! breaks_before s p = line_start_at s p"
  using lineStartFromExactStarts_spec [of s p] breaks_before_less_count [of s p]
  by (auto simp: lineStartFromExactStarts_def length_line_starts split: if_splits) (simp add: line_starts_def)

lemma nth_line_start: "is_line_start s p \<Longrightarrow> line_starts s ! breaks_before s p = p"
  by (simp add: nth_line_start_at line_start_at_self)

lemma next_line_start_nth:
  "p \<le> length s \<Longrightarrow> next_line_start s p
    = (if Suc (breaks_before s p) < line_count s then Some (line_starts s ! Suc (breaks_before s p)) else None)"
proof (cases "next_line_start s p")
  case None
  then show "p \<le> length s \<Longrightarrow> ?thesis" using next_line_start_None_count [OF None] by simp
next
  case (Some q)
  note q = next_line_start_SomeD [OF Some]
  show ?thesis using Some nth_line_start [OF q(4)] q(6) breaks_before_less_count [of s q] by simp
qed

lemma prev_line_start_nth:
  "prev_line_start s p = (if breaks_before s p = 0 then 0 else line_starts s ! (breaks_before s p - 1))"
proof -
  let ?b = "line_start_at s p"
  show ?thesis
  proof (cases "?b = 0")
    case True
    then have "breaks_before s p = 0" using breaks_before_line_start_at [of s p] by simp
    with True show ?thesis by (simp add: prev_line_start_def)
  next
    case False
    then have "lb_end s (?b - 1)" using line_start_at_props(1) [of s p] by (simp add: is_line_start_def)
    then have "breaks_before s p = Suc (breaks_before s (?b - 1))"
      using breaks_before_Suc [of s "?b - 1"] breaks_before_line_start_at [of s p] False by simp
    with False show ?thesis by (simp add: prev_line_start_def nth_line_start_at)
  qed
qed

lemma isLineBreakByte_last:
  assumes "0 < length s"
  shows "breaks_before s (length s) = breaks_before s (length s - 1) + of_bool (isLineBreakByte (s ! (length s - 1)))"
proof -
  have "isLineBreakByte (s ! (length s - 1)) \<longleftrightarrow> lb_end s (length s - 1)"
    using assms isLineBreakByte_lb_end [of "length s - 1" s] by (auto simp: mid_crlf_def)
  then show ?thesis using breaks_before_Suc [of s "length s - 1"] assms by simp
qed

lemma editedLineIndex_spec [spec_simps]:
  assumes "source_ok src s"
  shows "editedLineIndex src (line_starts s) p = breaks_before s (min p (length s))"
  using isLineBreakByte_last [of s] source_ok_length [OF assms] charAt_spec [OF assms, of "length s - 1"]
  by (auto simp: editedLineIndex_def Let_def lineIndexFromExactStarts_spec length_line_starts
      line_count_def min_def)

lemma checkpointAtOrBefore_props:
  assumes "lazy_ok s li"
  shows "checkpointAtOrBefore (mLineIndexCheckpoints li) p \<in> set (mLineIndexCheckpoints li)"
    and "cp_offset (checkpointAtOrBefore (mLineIndexCheckpoints li) p) \<le> p"
proof -
  let ?cps = "mLineIndexCheckpoints li"
  let ?u = "upper_bound (map cp_offset ?cps) p"
  have eq: "upper_bound_loop (\<lambda>i. cp_offset (?cps ! i) \<le> p) 0 (length ?cps) = ?u"
    using assms by (intro upper_bound_loop_eq) (simp add: lazy_ok_def)
  have "cp_offset (hd ?cps) = 0" "?cps \<noteq> []" using assms by (simp_all add: lazy_ok_def)
  then have pos: "0 < ?u" by (cases ?cps) (auto simp: upper_bound_def)
  from upper_bound_nth_le [OF pos] upper_bound_le [of "map cp_offset ?cps" p] pos
  have "cp_offset (?cps ! (?u - 1)) \<le> p" "?u - 1 < length ?cps" by auto
  with pos show "checkpointAtOrBefore ?cps p \<in> set ?cps" "cp_offset (checkpointAtOrBefore ?cps p) \<le> p"
    by (simp_all add: checkpointAtOrBefore_def eq Let_def)
qed

lemma source_count:
  assumes "source_ok src s" "a \<le> e" "e \<le> length s" "\<not> mid_crlf s a"
  shows "(case ts_direct src of
            Some d \<Rightarrow> directCountLineBreaksInRange (Some d) (ts_length src) a e
          | None \<Rightarrow> piecewiseCountLineBreaksInRange (ts_view src) a e) + breaks_before s a = breaks_before s e"
proof (cases "ts_direct src")
  case None
  with assms piecewiseCountLineBreaksInRange_spec [of "ts_view src" s a e] show ?thesis
    by (simp add: source_ok_def)
next
  case (Some d)
  with assms source_direct [OF assms(1) Some] directCount_take [of "length s" d a e]
    directCountLineBreaksInRange_spec [of a e s] show ?thesis
    by (simp add: source_ok_length)
qed

lemma lineIndex_spec:
  assumes "source_ok src s" "edited_ok s es" "lazy_ok s li"
  shows "lazy_ok s (fst (lineIndex src es li p)) \<and> snd (lineIndex src es li p) = breaks_before s (min p (length s))"
proof (cases "hasEditedLineStartIndex es")
  case True
  with assms show ?thesis by (simp add: lineIndex_def edited_ok_def editedLineIndex_spec source_ok_length)
next
  case False
  let ?p = "min p (length s)"
  let ?c = "checkpointAtOrBefore (mLineIndexCheckpoints li) ?p"
  have c: "is_line_start s (cp_offset ?c)" "cp_lineIndex ?c = breaks_before s (cp_offset ?c)" "cp_offset ?c \<le> ?p"
    using checkpointAtOrBefore_props [OF assms(3), of ?p] assms(3)
    by (auto simp: lazy_ok_def list_all_iff checkpoint_ok_def)
  have ne: "mLineIndexCheckpoints li \<noteq> []" using assms(3) by (simp add: lazy_ok_def)
  show ?thesis
  proof (cases "?p = length s")
    case True
    with False ne assms ensureLazyIndexComplete_ok [OF assms(1,3)] show ?thesis
      by (simp add: lineIndex_def source_ok_length Let_def line_count_def)
  next
    case np: False
    have "cp_lineIndex ?c + (case ts_direct src of
            Some d \<Rightarrow> directCountLineBreaksInRange (Some d) (ts_length src) (cp_offset ?c) ?p
          | None \<Rightarrow> piecewiseCountLineBreaksInRange (ts_view src) (cp_offset ?c) ?p) = breaks_before s ?p"
      using source_count [OF assms(1) c(3) _ is_line_start_not_mid [OF c(1)]] c(2) by simp
    with np False ne assms c show ?thesis
      by (auto simp: lineIndex_def source_ok_length Let_def split: option.splits)
  qed
qed

lemma lineCount_spec:
  assumes "source_ok src s" "edited_ok s es" "lazy_ok s li"
  shows "lazy_ok s (fst (lineCount src es li)) \<and> snd (lineCount src es li) = line_count s"
  using assms ensureLazyIndexComplete_ok [OF assms(1,3)]
  by (auto simp: lineCount_def edited_ok_def length_line_starts Let_def)

lemma direct_line_start:
  assumes "source_ok src s" "ts_direct src = Some d" "p \<le> length s"
    and "p' = (if mid_crlf s p then p - 1 else p)" "b = directFindPrevLineBreak (Some d) p'"
  shows "(if b = size_max then 0 else b + 1) = line_start_at s p"
proof -
  note src = source_direct [OF assms(1,2)]
  have p': "p' \<le> length s" "\<not> mid_crlf s p'"
    using assms(3,4) by (auto simp: mid_crlf_def split: if_splits)
  have "after_prev_break d p' = after_prev_break s p'"
    using after_prev_break_take [of "length s" d p'] p' src by (simp add: min_absorb2)
  moreover have "after_prev_break s p' = line_start_at s p"
    using after_prev_break_line_start [OF p'] line_start_at_mid [of s p] assms(4) by auto
  moreover have "line_start_at s p \<le> p" by (rule line_start_at_props)
  ultimately show ?thesis
    using p' src source_ok_small [OF assms(1)] assms(3,5) by (auto simp: directFindPrevLineBreak_spec)
qed

lemma lineStart_spec [spec_simps]:
  assumes "source_ok src s" "edited_ok s es"
  shows "lineStart src es p = line_start_at s (min p (length s))"
proof (cases "hasEditedLineStartIndex es \<or> ts_direct src = None")
  case True
  with assms show ?thesis
    by (auto simp: lineStart_def edited_ok_def editedLineIndex_spec lineStartFromExactStarts_spec
        piecewiseLineStart_spec source_ok_def)
next
  case False
  then obtain d where d: "ts_direct src = Some d" by auto
  define q where "q = min p (length s)"
  have mid: "q < length s \<and> q > 0 \<and> d ! q = LF \<and> d ! (q - 1) = CR \<longleftrightarrow> mid_crlf s q"
    using source_direct(3) [OF assms(1) d] by (auto simp: mid_crlf_def)
  have "q \<le> length s" by (simp add: q_def)
  note eq = direct_line_start [OF assms(1) d this refl refl]
  from False have "\<not> hasEditedLineStartIndex es" by blast
  then show ?thesis
    unfolding lineStart_def source_ok_length [OF assms(1)] q_def [symmetric] Let_def d
    by (simp only: mid if_False option.case(2) eq)
qed

lemma lineEnd_spec [spec_simps]:
  assumes "source_ok src s"
  shows "lineEnd src p = next_break s (length s) (min p (length s))"
proof (cases "ts_direct src")
  case None
  with assms show ?thesis by (simp add: lineEnd_def piecewiseLineEnd_spec source_ok_def)
next
  case (Some d)
  note src = source_direct [OF assms Some]
  show ?thesis using Some src next_break_take [of "min p (length s)" "length s" d]
    by (simp add: lineEnd_def source_ok_length [OF assms] directFindNextLineBreak_spec)
qed

lemma nextLine_spec [spec_simps]:
  assumes "source_ok src s" "edited_ok s es"
  shows "nextLine src es p = next_line_or_end s (min p (length s))"
proof (cases "hasEditedLineStartIndex es")
  case True
  with assms show ?thesis
    by (simp add: nextLine_def edited_ok_def editedLineIndex_spec Let_def next_line_or_end_def
        next_line_start_nth length_line_starts source_ok_length)
next
  case False
  show ?thesis
  proof (cases "ts_direct src")
    case None
    with False assms show ?thesis
      by (simp add: nextLine_def piecewiseNextLine_spec next_line_or_end_def source_ok_def)
  next
    case (Some d)
    let ?p = "min p (length s)"
    let ?b = "next_break s (length s) ?p"
    have b: "?b \<le> length s" using next_break_props(2) [of ?p "length s" s] by simp
    then have "\<not> ?b < length s \<Longrightarrow> ?b = length s" by simp
    then show ?thesis
      using False Some advance_from_break [of ?p s, OF _ refl] no_break_no_line [of ?p s]
        source_direct(3) [OF assms(1) Some]
      by (auto simp: nextLine_def lineEnd_spec [OF assms(1)] source_ok_length [OF assms(1)] Let_def
          next_line_or_end_def)
  qed
qed

lemma prevLine_spec [spec_simps]:
  assumes "source_ok src s" "edited_ok s es"
  shows "prevLine src es p = prev_line_start s (min p (length s))"
proof (cases "hasEditedLineStartIndex es \<or> ts_direct src = None")
  case True
  with assms show ?thesis
    by (auto simp: prevLine_def edited_ok_def editedLineIndex_spec prev_line_start_nth Let_def
        piecewisePrevLine_spec source_ok_def)
next
  case False
  then obtain d where d: "ts_direct src = Some d" by auto
  let ?b = "line_start_at s (min p (length s))"
  have b: "?b \<le> length s" using line_start_at_props(2) [of s "min p (length s)"] by simp
  show ?thesis
  proof (cases "?b = 0")
    case True
    with False d assms show ?thesis by (simp add: prevLine_def lineStart_spec prev_line_start_def)
  next
    case nz: False
    define q where "q = ?b - 1"
    have mid: "q > 0 \<and> d ! (q - 1) = CR \<and> d ! q = LF \<longleftrightarrow> mid_crlf s q"
      using source_direct(3) [OF assms(1) d] b nz by (auto simp: mid_crlf_def q_def)
    have "q \<le> length s" using b by (simp add: q_def)
    note eq = direct_line_start [OF assms(1) d this refl refl]
    from False have "\<not> hasEditedLineStartIndex es" by blast
    then show ?thesis using nz
      unfolding prevLine_def lineStart_spec [OF assms] prev_line_start_def Let_def d q_def [symmetric]
      by (simp only: mid if_False option.case(2) eq)
  qed
qed

lemma line_start_le_break:
  "p \<le> length s \<Longrightarrow> line_start_at s p \<le> next_break s (length s) p \<and> next_break s (length s) p \<le> length s"
  using next_break_props(1,2) [of p "length s" s] line_start_at_props(2) [of s p] by simp

lemma lineText_spec [spec_simps]:
  assumes "source_ok src s" "edited_ok s es"
  shows "lineText src es p =
    (let b = line_start_at s (min p (length s)); e = next_break s (length s) (min p (length s)) in substr s b (e - b))"
proof -
  let ?b = "line_start_at s (min p (length s))" and ?e = "next_break s (length s) (min p (length s))"
  have be: "?b \<le> ?e" "?e \<le> length s" using line_start_le_break [of "min p (length s)" s] by auto
  show ?thesis
  proof (cases "ts_direct src")
    case None
    with be assms show ?thesis
      by (simp add: lineText_def lineStart_spec lineEnd_spec piecewiseRangeText_spec source_ok_def Let_def)
  next
    case (Some d)
    note src = source_direct [OF assms(1) Some]
    have "min (?e - ?b) (length s - ?b) = ?e - ?b" using be by linarith
    then have "substr s ?b (?e - ?b) = substr d ?b (?e - ?b)"
      using substr_of_take [of "length s" d ?b "?e - ?b"] src(2) by simp
    then show ?thesis using Some assms by (simp add: lineText_def lineStart_spec lineEnd_spec Let_def)
  qed
qed

lemma column_spec [spec_simps]:
  "source_ok src s \<Longrightarrow> edited_ok s es \<Longrightarrow>
   column src es p = min p (length s) - line_start_at s (min p (length s))"
  by (simp add: column_def lineStart_spec source_ok_length Let_def)

end
