(* ===== verification/Line_Lookup.thy ===== *)
theory Line_Lookup
  imports Lazy_Index
begin

text \<open>
  Lookup of a line by its number and the line estimates of
  \<open>src/piecetable/MRTextDocumentLineIndex.hpp\<close> and \<open>.cpp\<close>. The interpolation computes in
  \<open>long double\<close>, whose precision C++ leaves to the implementation: the arithmetic is the parameter
  \<open>ld\<close>, and a conversion back to \<open>size_t\<close> wraps. The lookup is proved exact for every \<open>ld\<close>: the
  estimate only chooses where the walk starts.
\<close>

record 'f LongDouble =
  ld_of :: "nat \<Rightarrow> 'f"
  ld_mul :: "'f \<Rightarrow> 'f \<Rightarrow> 'f"
  ld_div :: "'f \<Rightarrow> 'f \<Rightarrow> 'f"
  ld_less :: "'f \<Rightarrow> 'f \<Rightarrow> bool"
  ld_trunc :: "'f \<Rightarrow> nat"

definition ld_min :: "'f LongDouble \<Rightarrow> 'f \<Rightarrow> 'f \<Rightarrow> 'f" where
  "ld_min ld a b = (if ld_less ld b a then b else a)"

definition ld_size :: "'f LongDouble \<Rightarrow> 'f \<Rightarrow> nat" where
  "ld_size ld x = wrap64 (ld_trunc ld x)"

subsection \<open>Estimates\<close>

definition estimatedLineCount ::
  "'f LongDouble \<Rightarrow> TextSource \<Rightarrow> Offset list option \<Rightarrow> LazyIndex \<Rightarrow> LazyIndex \<times> nat" where
  "estimatedLineCount ld src es li0 =
     (if hasEditedLineStartIndex es then (li0, length (the es))
      else
        (let li = ensureLazyIndexSeeded (ts_length src) li0 in
         (li,
          if mLazyLineIndexComplete li then mLazyTotalLineCount li
          else if mLazyIndexedOffset li = 0 \<or> mLazyIndexedLine li = 0 then max 1 (ts_length src div 80 + 1)
          else
            (let observedLines = mLazyIndexedLine li + 1;
                 estimated = ld_size ld (ld_div ld (ld_mul ld (ld_of ld (ts_length src)) (ld_of ld observedLines))
                               (ld_of ld (max (mLazyIndexedOffset li) 1)))
             in max observedLines estimated))))"

definition estimatedLineIndexFromPrefix ::
  "'f LongDouble \<Rightarrow> Offset \<Rightarrow> Offset \<Rightarrow> Offset \<Rightarrow> nat \<Rightarrow> nat \<Rightarrow> nat" where
  "estimatedLineIndexFromPrefix ld pos0 len indexedOffset indexedLine lineCountEstimate =
     (if len = 0 \<or> pos0 = 0 then 0
      else
        (let pos = min pos0 len;
             estimate =
               (if indexedOffset > 0 \<and> indexedLine > 0 then
                  (let density = ld_div ld (ld_of ld indexedLine) (ld_of ld indexedOffset)
                   in wrap64 (indexedLine
                        + ld_size ld (ld_mul ld (ld_of ld (if pos > indexedOffset then pos - indexedOffset else 0)) density)))
                else ld_size ld (ld_div ld (ld_mul ld (ld_of ld pos) (ld_of ld (max lineCountEstimate 1))) (ld_of ld len)))
         in min estimate (max lineCountEstimate 1 - 1)))"

definition estimatedLineIndex ::
  "'f LongDouble \<Rightarrow> TextSource \<Rightarrow> Offset list option \<Rightarrow> LazyIndex \<Rightarrow> Offset \<Rightarrow> LazyIndex \<times> nat" where
  "estimatedLineIndex ld src es li pos0 =
     (let pos = min pos0 (ts_length src) in
      if hasEditedLineStartIndex es \<or> mLazyLineIndexComplete li \<or> pos \<le> mLazyIndexedOffset li
      then lineIndex src es li pos
      else
        (let (li', n) = estimatedLineCount ld src es li
         in (li', estimatedLineIndexFromPrefix ld pos (ts_length src) (mLazyIndexedOffset li) (mLazyIndexedLine li) n)))"

subsection \<open>Lookup by line number\<close>

text \<open>
  One round of the interpolation: \<open>interpolate_target\<close> is the offset to probe,
  \<open>interpolate_round\<close> the probe and its correction; \<open>None\<close> is a break out of the loop.
\<close>

definition interpolate_target ::
  "'f LongDouble \<Rightarrow> TextSource \<Rightarrow> Offset list option \<Rightarrow> LazyIndex \<Rightarrow> nat \<Rightarrow> Offset \<Rightarrow> nat \<Rightarrow> Offset option" where
  "interpolate_target ld src es li remainingLines cursor line =
     (if remainingLines \<le> kLazyLineStartCatchupWindow then None
      else
        (let estimatedTotalLines = max (snd (estimatedLineCount ld src es li)) (line + 1) in
         if estimatedTotalLines \<le> line + 1 \<or> cursor \<ge> ts_length src then None
         else
           (let estimatedRemainingLines = estimatedTotalLines - line - 1;
                remainingBytes = ts_length src - cursor
            in if estimatedRemainingLines = 0 \<or> remainingBytes = 0 then None
               else
                 (let avgBytesPerLine = ld_div ld (ld_of ld remainingBytes) (ld_of ld estimatedRemainingLines);
                      approx = wrap64 (cursor + ld_size ld (ld_min ld (ld_of ld remainingBytes)
                                 (ld_mul ld avgBytesPerLine (ld_of ld remainingLines))))
                  in Some (min approx (ts_length src))))))"

definition interpolate_round ::
  "'f LongDouble \<Rightarrow> TextSource \<Rightarrow> Offset list option \<Rightarrow> LazyIndex \<Rightarrow> nat \<Rightarrow> Offset \<Rightarrow> nat \<Rightarrow> (Offset \<times> nat) option" where
  "interpolate_round ld src es li index cursor line =
     (let remainingLines = (if index > line then index - line else 0) in
      case interpolate_target ld src es li remainingLines cursor line of
        None \<Rightarrow> None
      | Some approx \<Rightarrow>
          (let approxStart = lineStart src es approx in
           if approxStart \<le> cursor then None
           else
             (let advanced = piecewiseCountLineBreaksInRange (ts_view src) cursor approxStart in
              if advanced = 0 then None
              else if advanced > remainingLines then
                (let scale = ld_div ld (ld_of ld remainingLines) (ld_of ld advanced);
                     delta = approxStart - cursor;
                     scaledDelta = max 1 (ld_size ld (ld_mul ld (ld_of ld delta) scale));
                     approxStart' = lineStart src es (wrap64 (cursor + scaledDelta))
                 in if approxStart' \<le> cursor then None
                    else
                      (let advanced' = piecewiseCountLineBreaksInRange (ts_view src) cursor approxStart'
                       in if advanced' = 0 \<or> advanced' > remainingLines then None
                          else Some (approxStart', line + advanced')))
              else Some (approxStart, line + advanced))))"

fun interpolate_loop ::
  "'f LongDouble \<Rightarrow> TextSource \<Rightarrow> Offset list option \<Rightarrow> LazyIndex \<Rightarrow> nat \<Rightarrow> nat \<Rightarrow> Offset \<Rightarrow> nat \<Rightarrow> Offset \<times> nat" where
  "interpolate_loop ld src es li index 0 cursor line = (cursor, line)"
| "interpolate_loop ld src es li index (Suc rounds) cursor line =
     (if mLazyLineIndexComplete li then (cursor, line)
      else
        (case interpolate_round ld src es li index cursor line of
           None \<Rightarrow> (cursor, line)
         | Some (cursor', line') \<Rightarrow> interpolate_loop ld src es li index rounds cursor' line'))"

function walkToLine :: "TextSource \<Rightarrow> Offset list option \<Rightarrow> nat \<Rightarrow> Offset \<Rightarrow> nat \<Rightarrow> Offset" where
  "walkToLine src es index cursor line =
     (if line < index then
        (let next = nextLine src es cursor
         in if next \<le> cursor then cursor else walkToLine src es index next (line + 1))
      else cursor)"
  by pat_completeness auto
termination
  by (relation "measure (\<lambda>(src, es, index, cursor, line). index - line)") auto

declare walkToLine.simps [simp del]

definition checkpointForLine :: "LineIndexCheckpoint list \<Rightarrow> nat \<Rightarrow> LineIndexCheckpoint" where
  "checkpointForLine cps index =
     (let left = upper_bound_loop (\<lambda>i. cp_lineIndex (cps ! i) \<le> index) 0 (length cps)
      in cps ! (if left = 0 then 0 else left - 1))"

definition localInterpolatedLineStartByIndex ::
  "'f LongDouble \<Rightarrow> TextSource \<Rightarrow> Offset list option \<Rightarrow> LazyIndex \<Rightarrow> nat \<Rightarrow> Offset" where
  "localInterpolatedLineStartByIndex ld src es li index0 =
     (if mLineIndexCheckpoints li = [] then 0
      else
        (let total = mLazyTotalLineCount li;
             index = (if mLazyLineIndexComplete li \<and> index0 \<ge> total then (if total > 0 then total - 1 else 0) else index0);
             checkpoint = checkpointForLine (mLineIndexCheckpoints li) index;
             (cursor, line) = interpolate_loop ld src es li index 3 (cp_offset checkpoint) (cp_lineIndex checkpoint)
         in walkToLine src es index cursor line))"

definition lineStartByIndex ::
  "'f LongDouble \<Rightarrow> TextSource \<Rightarrow> Offset list option \<Rightarrow> LazyIndex \<Rightarrow> nat \<Rightarrow> LazyIndex \<times> Offset" where
  "lineStartByIndex ld src es li0 index =
     (if hasEditedLineStartIndex es then (li0, lineStartFromExactStarts (the es) index)
      else
        (let li = ensureLazyIndexSeeded (ts_length src) li0 in
         (li, if mLineIndexCheckpoints li = [] then 0
              else localInterpolatedLineStartByIndex ld src es li index)))"

definition lineStartByIndexKnown :: "Offset \<Rightarrow> Offset list option \<Rightarrow> LazyIndex \<Rightarrow> nat \<Rightarrow> LazyIndex \<times> bool" where
  "lineStartByIndexKnown len es li0 index =
     (if hasEditedLineStartIndex es then (li0, True)
      else
        (let li = ensureLazyIndexSeeded len li0 in
         (li, if mLineIndexCheckpoints li = [] then False
              else mLazyLineIndexComplete li \<or> index \<le> mLazyIndexedLine li)))"

subsection \<open>The lookup is exact\<close>

definition cursor_ok :: "string \<Rightarrow> nat \<Rightarrow> Offset \<Rightarrow> nat \<Rightarrow> bool" where
  "cursor_ok s index cursor line \<longleftrightarrow> is_line_start s cursor \<and> line = breaks_before s cursor \<and> line \<le> index"

lemma breaks_before_line_start_mono:
  "is_line_start s a \<Longrightarrow> is_line_start s b \<Longrightarrow> a < b \<Longrightarrow> breaks_before s a < breaks_before s b"
  using breaks_before_mono [of a "b - 1" s] breaks_before_Suc [of s "b - 1"]
  by (cases b) (auto simp: is_line_start_def)

lemma checkpointForLine_props:
  assumes "lazy_ok s li"
  shows "checkpointForLine (mLineIndexCheckpoints li) index \<in> set (mLineIndexCheckpoints li)"
    and "cp_lineIndex (checkpointForLine (mLineIndexCheckpoints li) index) \<le> index"
proof -
  let ?cps = "mLineIndexCheckpoints li"
  let ?u = "upper_bound (map cp_lineIndex ?cps) index"
  have "sorted (map cp_lineIndex ?cps)"
    using assms breaks_before_mono
    by (auto simp: lazy_ok_def sorted_iff_nth_mono list_all_length checkpoint_ok_def)
  then have eq: "upper_bound_loop (\<lambda>i. cp_lineIndex (?cps ! i) \<le> index) 0 (length ?cps) = ?u"
    by (rule upper_bound_loop_eq)
  have "cp_lineIndex (hd ?cps) = 0" "?cps \<noteq> []" using assms by (simp_all add: lazy_ok_def)
  then have pos: "0 < ?u" by (cases ?cps) (auto simp: upper_bound_def)
  from upper_bound_nth_le [OF pos] upper_bound_le [of "map cp_lineIndex ?cps" index] pos
  have "cp_lineIndex (?cps ! (?u - 1)) \<le> index" "?u - 1 < length ?cps" by auto
  with pos show "checkpointForLine ?cps index \<in> set ?cps" "cp_lineIndex (checkpointForLine ?cps index) \<le> index"
    by (simp_all add: checkpointForLine_def eq Let_def)
qed

lemma piecewise_count_line_start:
  assumes "source_ok src s" "is_line_start s a" "a \<le> e" "e \<le> length s"
  shows "piecewiseCountLineBreaksInRange (ts_view src) a e = breaks_before s e - breaks_before s a"
  using assms piecewiseCountLineBreaksInRange_spec [of "ts_view src" s a e] is_line_start_not_mid [OF assms(2)]
  by (simp add: source_ok_def)

lemma interpolate_round_ok:
  assumes "source_ok src s" "edited_ok s es" "cursor_ok s index cursor line"
    and "interpolate_round ld src es li index cursor line = Some (cursor', line')"
  shows "cursor_ok s index cursor' line'"
proof -
  have *: "cursor_ok s index b (line + n)"
    if "b = lineStart src es p" "cursor < b" "n = piecewiseCountLineBreaksInRange (ts_view src) cursor b"
      "n \<le> (if index > line then index - line else 0)" for b p n
  proof -
    have b: "is_line_start s b" "b \<le> length s"
      using that(1) line_start_at_props(1,2) [of s "min p (length s)"] lineStart_spec [OF assms(1,2), of p] by simp_all
    then have "breaks_before s cursor + n = breaks_before s b"
      using that(2,3) piecewise_count_line_start [OF assms(1) _ _ b(2), of cursor] assms(3)
        breaks_before_mono [of cursor b s] by (simp add: cursor_ok_def)
    with b(1) that(4) assms(3) show ?thesis by (auto simp: cursor_ok_def split: if_splits)
  qed
  define rem where "rem = (if index > line then index - line else 0)"
  have "\<exists>p. cursor' = lineStart src es p \<and> cursor < cursor'
    \<and> line' = line + piecewiseCountLineBreaksInRange (ts_view src) cursor cursor'
    \<and> piecewiseCountLineBreaksInRange (ts_view src) cursor cursor' \<le> rem"
    using assms(4) unfolding interpolate_round_def rem_def [symmetric] Let_def
    by (auto simp: not_le not_less split: option.splits if_split_asm)
  then show ?thesis using * by (auto simp: rem_def)
qed

lemma interpolate_loop_ok:
  "source_ok src s \<Longrightarrow> edited_ok s es \<Longrightarrow> cursor_ok s index cursor line \<Longrightarrow>
   interpolate_loop ld src es li index n cursor line = (c, l) \<Longrightarrow> cursor_ok s index c l"
  by (induction n arbitrary: cursor line)
    (auto split: if_splits option.splits prod.splits dest: interpolate_round_ok)

lemma walkToLine_ok:
  assumes "source_ok src s" "edited_ok s es" "cursor_ok s index cursor line" "index < line_count s"
  shows "walkToLine src es index cursor line = line_starts s ! index"
  using assms
proof (induction src es index cursor line rule: walkToLine.induct)
  case (1 src es index cursor line)
  have c: "is_line_start s cursor" "line = breaks_before s cursor" "line \<le> index" "cursor \<le> length s"
    using "1.prems"(3) is_line_start_le by (auto simp: cursor_ok_def)
  show ?case
  proof (cases "line < index")
    case True
    then have "next_line_start s cursor = Some (line_starts s ! Suc line)"
      using next_line_start_nth [OF c(4)] c "1.prems"(4) by simp
    note q = next_line_start_SomeD [OF this]
    have nx: "nextLine src es cursor = line_starts s ! Suc line"
      using "1.prems" c \<open>next_line_start s cursor = _\<close>
      by (simp add: nextLine_spec next_line_or_end_def min_absorb1)
    have "cursor_ok s index (line_starts s ! Suc line) (line + 1)"
      using q c True by (simp add: cursor_ok_def)
    with "1.IH" [OF True refl] "1.prems" nx q(1) show ?thesis
      by (subst walkToLine.simps) (simp add: True)
  next
    case False
    with c have "index = line" by simp
    then show ?thesis using c nth_line_start [OF c(1)] by (subst walkToLine.simps) simp
  qed
qed

lemma lineStartByIndex_spec:
  assumes "source_ok src s" "edited_ok s es" "lazy_ok s li" "index < line_count s"
  shows "lineStartByIndex ld src es li index = (li, line_starts s ! index)"
proof (cases "hasEditedLineStartIndex es")
  case True
  with assms show ?thesis
    by (simp add: lineStartByIndex_def edited_ok_def lineStartFromExactStarts_def length_line_starts)
      (simp add: line_starts_def)
next
  case False
  let ?c = "checkpointForLine (mLineIndexCheckpoints li) index"
  have ne: "mLineIndexCheckpoints li \<noteq> []" using assms(3) by (simp add: lazy_ok_def)
  have idx: "\<not> (mLazyLineIndexComplete li \<and> index \<ge> mLazyTotalLineCount li)"
    using assms(3,4) by (auto simp: lazy_ok_def)
  have c: "cursor_ok s index (cp_offset ?c) (cp_lineIndex ?c)"
    using checkpointForLine_props [OF assms(3), of index] assms(3)
    by (auto simp: cursor_ok_def lazy_ok_def list_all_iff checkpoint_ok_def)
  obtain cur l where i: "interpolate_loop ld src es li index 3 (cp_offset ?c) (cp_lineIndex ?c) = (cur, l)"
    by (metis surj_pair)
  from walkToLine_ok [OF assms(1,2) interpolate_loop_ok [OF assms(1,2) c i] assms(4)] False ne idx i assms(3)
  show ?thesis by (auto simp: lineStartByIndex_def localInterpolatedLineStartByIndex_def Let_def)
qed

end
