(* ===== verification/Index_Edits.thy ===== *)
theory Index_Edits
  imports Line_Lookup
begin

text \<open>
  How an edit adjusts the line index (\<open>src/piecetable/MRTextDocumentLineIndex.cpp\<close>): the lazy index
  is shifted when the edit moves no line break and cut back to the edit otherwise, and the exact
  list of line starts, when the document has one, is patched around the edit. The text before the
  edit is \<open>x @ z\<close> (insert) or \<open>x @ m @ z\<close> (erase). The patches are exact unless the edit joins or
  splits a CR LF pair at its boundary; the exact side conditions are part of the lemmas.
\<close>

subsection \<open>The lazy index\<close>

definition shiftLazyLineIndexForInsertWithoutLineBreak ::
  "Offset \<Rightarrow> LazyIndex \<Rightarrow> Offset \<Rightarrow> Offset \<Rightarrow> LazyIndex" where
  "shiftLazyLineIndexForInsertWithoutLineBreak len li offset0 n =
     (if n \<le> 0 then li
      else if mLineIndexCheckpoints li = [] then li
      else
        (let offset = min offset0 len
         in li\<lparr>mLineIndexCheckpoints :=
                 map (\<lambda>c. if cp_offset c > offset then c\<lparr>cp_offset := cp_offset c + n\<rparr> else c) (mLineIndexCheckpoints li),
               mLazyIndexedOffset :=
                 (if mLazyIndexedOffset li > offset then mLazyIndexedOffset li + n else mLazyIndexedOffset li)\<rparr>))"

definition shiftLazyLineIndexForEraseWithoutLineBreak :: "LazyIndex \<Rightarrow> Offset \<Rightarrow> Offset \<Rightarrow> LazyIndex" where
  "shiftLazyLineIndexForEraseWithoutLineBreak li offset n =
     (if n = 0 then li
      else if mLineIndexCheckpoints li = [] then li
      else
        (let erasedEnd = offset + n
         in li\<lparr>mLineIndexCheckpoints :=
                 map (\<lambda>c. if cp_offset c \<ge> erasedEnd then c\<lparr>cp_offset := cp_offset c - n\<rparr>
                          else if cp_offset c > offset then c\<lparr>cp_offset := offset\<rparr> else c) (mLineIndexCheckpoints li),
               mLazyIndexedOffset :=
                 (if mLazyIndexedOffset li \<ge> erasedEnd then mLazyIndexedOffset li - n
                  else if mLazyIndexedOffset li > offset then offset else mLazyIndexedOffset li)\<rparr>))"

definition invalidateLazyLineIndexFrom :: "Offset \<Rightarrow> LazyIndex \<Rightarrow> Offset \<Rightarrow> LazyIndex" where
  "invalidateLazyLineIndexFrom len li offset0 =
     (let offset = min offset0 len in
      if mLineIndexCheckpoints li = [] then resetLazyLineIndex len
      else
        (let upper = upper_bound (map cp_offset (mLineIndexCheckpoints li)) offset;
             keepEnd = (if upper = 0 then 1 else upper);
             kept = take keepEnd (mLineIndexCheckpoints li)
         in if kept = [] then resetLazyLineIndex len
            else \<lparr>mLineIndexCheckpoints = kept, mLazyIndexedOffset = cp_offset (last kept),
                  mLazyIndexedLine = cp_lineIndex (last kept), mLazyLineIndexComplete = False,
                  mLazyTotalLineCount = max 1 (cp_lineIndex (last kept) + 1)\<rparr>))"

lemma takeWhile_upper_bound:
  "take (upper_bound (map f xs) v) xs = takeWhile (\<lambda>c. f c \<le> v) xs"
  by (simp add: upper_bound_def takeWhile_map comp_def takeWhile_eq_take [symmetric])

text \<open>The checkpoints up to the cut survive every change of the text behind it.\<close>

lemma invalidate_ok:
  assumes "lazy_ok (x @ y) li" "seam x y' \<longrightarrow> seam x y" "len = length (x @ y')"
  shows "lazy_ok (x @ y') (invalidateLazyLineIndexFrom len li (length x))"
proof -
  let ?cps = "mLineIndexCheckpoints li"
  let ?kept = "takeWhile (\<lambda>c. cp_offset c \<le> length x) ?cps"
  have ne: "?cps \<noteq> []" and hd: "hd ?cps = mkCheckpoint 0 0" and sorted: "sorted (map cp_offset ?cps)"
    using assms(1) by (auto simp: lazy_ok_def)
  from ne hd have kne: "?kept \<noteq> []" and khd: "hd ?kept = mkCheckpoint 0 0" by (cases ?cps; simp)+
  have up: "upper_bound (map cp_offset ?cps) (length x) \<noteq> 0"
    using kne takeWhile_upper_bound [of cp_offset ?cps "length x"] by (intro notI) simp
  have inv: "invalidateLazyLineIndexFrom len li (length x) =
      \<lparr>mLineIndexCheckpoints = ?kept, mLazyIndexedOffset = cp_offset (last ?kept),
       mLazyIndexedLine = cp_lineIndex (last ?kept), mLazyLineIndexComplete = False,
       mLazyTotalLineCount = max 1 (cp_lineIndex (last ?kept) + 1)\<rparr>"
    using ne kne up assms(3) takeWhile_upper_bound [of cp_offset ?cps "length x"]
    by (simp add: invalidateLazyLineIndexFrom_def Let_def)
  have ok: "checkpoint_ok (x @ y') c" if "c \<in> set ?kept" for c
  proof -
    have "c \<in> set ?cps" and le: "cp_offset c \<le> length x" using that by (auto dest: set_takeWhileD)
    then have c: "is_line_start (x @ y) (cp_offset c)" "cp_lineIndex c = breaks_before (x @ y) (cp_offset c)"
      using assms(1) by (auto simp: lazy_ok_def list_all_iff checkpoint_ok_def)
    show ?thesis
    proof (cases "cp_offset c = length x")
      case True
      with c(1) assms(2) have "is_line_start x (length x)" "\<not> seam x y" "\<not> seam x y'"
        by (auto simp: is_line_start_append_at)
      with True c(2) breaks_before_append_at [of x y] breaks_before_append_at [of x y'] show ?thesis
        by (simp add: checkpoint_ok_def is_line_start_append_at)
    next
      case False
      with le c show ?thesis
        by (simp add: checkpoint_ok_def is_line_start_append_less breaks_before_append_less)
    qed
  qed
  have srt: "sorted (map cp_offset ?kept)"
    using sorted by (metis takeWhile_eq_take take_map sorted_wrt_take)
  have last: "cp_offset c \<le> cp_offset (last ?kept)" if "c \<in> set ?kept" for c
    using sorted_last_ge [OF srt, of "cp_offset c"] that kne by (simp add: last_map)
  have lk: "last ?kept \<in> set ?kept" using kne by simp
  from ok [OF lk] have "cp_offset (last ?kept) \<le> length (x @ y')"
    by (auto simp: checkpoint_ok_def dest: is_line_start_le)
  with inv kne khd srt ok last ok [OF lk] show ?thesis
    by (simp add: lazy_ok_def list_all_iff checkpoint_ok_def)
qed

text \<open>An edit that moves the line starts by a monotone map and no line number.\<close>

lemma lazy_ok_map:
  assumes ok: "lazy_ok s li" and f: "mono f" "f 0 = (0 :: nat)"
    and g: "\<And>c. cp_offset (g c) = f (cp_offset c)" "\<And>c. cp_lineIndex (g c) = cp_lineIndex c"
    and starts: "\<And>p. is_line_start s p \<Longrightarrow> is_line_start s' (f p) \<and> breaks_before s' (f p) = breaks_before s p"
    and off: "f (mLazyIndexedOffset li) \<le> length s'"
      "breaks_before s' (f (mLazyIndexedOffset li)) = breaks_before s (mLazyIndexedOffset li)"
    and lines: "line_count s' = line_count s"
  shows "lazy_ok s' (li\<lparr>mLineIndexCheckpoints := map g (mLineIndexCheckpoints li),
                          mLazyIndexedOffset := f (mLazyIndexedOffset li)\<rparr>)"
proof -
  let ?cps = "mLineIndexCheckpoints li"
  have ne: "?cps \<noteq> []" and hd: "hd ?cps = mkCheckpoint 0 0" using ok by (auto simp: lazy_ok_def)
  have hd': "hd (map g ?cps) = mkCheckpoint 0 0"
    using ne hd g [of "mkCheckpoint 0 0"] f(2) by (simp add: hd_map LineIndexCheckpoint.equality mkCheckpoint_def)
  have "map cp_offset (map g ?cps) = map f (map cp_offset ?cps)" using g(1) by simp
  moreover have "sorted (map cp_offset ?cps)" using ok by (simp add: lazy_ok_def)
  ultimately have "sorted (map cp_offset (map g ?cps))" using sorted_map_mono [OF f(1)] by metis
  moreover have "list_all (checkpoint_ok s') (map g ?cps)"
    using ok starts by (auto simp: lazy_ok_def list_all_iff checkpoint_ok_def g)
  moreover have "list_all (\<lambda>c. cp_offset c \<le> f (mLazyIndexedOffset li)) (map g ?cps)"
    using ok monoD [OF f(1)] by (auto simp: lazy_ok_def list_all_iff g)
  ultimately show ?thesis using ok ne hd' off lines by (auto simp: lazy_ok_def)
qed

lemma plain_no_seam:
  "\<forall>c \<in> set t. \<not> isLineBreakByte c \<Longrightarrow> \<not> seam x t" "\<forall>c \<in> set t. \<not> isLineBreakByte c \<Longrightarrow> \<not> seam t z"
  by (metis seam_def isLineBreakByte_def hd_in_set) (metis seam_def isLineBreakByte_def last_in_set)

lemma breaks_before_plain: "\<forall>c \<in> set t. \<not> isLineBreakByte c \<Longrightarrow> breaks_before t p = 0"
  using lb_end_byte lb_end_less nth_mem by (fastforce simp: breaks_before_def filter_empty_conv)

lemma insert_plain_breaks:
  assumes "\<forall>c \<in> set t. \<not> isLineBreakByte c" "\<not> seam x z"
  shows "p \<le> length x \<Longrightarrow> breaks_before (x @ t @ z) p = breaks_before (x @ z) p"
    and "length x < p \<Longrightarrow> breaks_before (x @ t @ z) (p + length t) = breaks_before (x @ z) p"
proof -
  note pl = plain_no_seam [OF assms(1)] breaks_before_plain [OF assms(1)]
  have xt: "\<not> seam x (t @ z)" using pl assms(2) by (cases "t = []") (auto simp: seam_append_right)
  show "p \<le> length x \<Longrightarrow> breaks_before (x @ t @ z) p = breaks_before (x @ z) p"
    using breaks_before_append_at [of x z] breaks_before_append_at [of x "t @ z"] xt assms(2)
    by (cases "p = length x") (auto simp: breaks_before_append_less)
  assume "length x < p"
  then obtain k where p: "p = length x + k" by (metis less_imp_le le_iff_add)
  have "breaks_before (t @ z) (length t + k) = breaks_before z k"
    using breaks_before_append_right [of t z k] pl by simp
  then show "breaks_before (x @ t @ z) (p + length t) = breaks_before (x @ z) p"
    using breaks_before_append_right [of x "t @ z" "length t + k"] breaks_before_append_right [of x z k] xt assms(2)
    by (simp add: p add.assoc add.commute [of k])
qed

lemma insert_plain_starts:
  assumes "\<forall>c \<in> set t. \<not> isLineBreakByte c" "\<not> seam x z" "is_line_start (x @ z) p"
  shows "is_line_start (x @ t @ z) (if p > length x then p + length t else p)"
proof (cases "p > length x")
  case True
  then obtain k where p: "p = length x + k" "0 < k" by (metis less_imp_add_positive)
  then have "is_line_start z k" using assms(3) by (simp add: is_line_start_append_right)
  with p is_line_start_append_right [of k t z] is_line_start_append_right [of "length t + k" x "t @ z"] show ?thesis
    by (simp add: add.assoc add.commute [of k])
next
  case False
  have "\<not> seam x (t @ z)"
    using plain_no_seam [OF assms(1)] assms(2) by (cases "t = []") (auto simp: seam_append_right)
  with False assms(2,3) show ?thesis
    by (cases "p = length x") (auto simp: is_line_start_append_less is_line_start_append_at)
qed

lemma shift_insert_ok:
  assumes "lazy_ok (x @ z) li" "\<forall>c \<in> set t. \<not> isLineBreakByte c" "\<not> seam x z" "len = length (x @ t @ z)"
  shows "lazy_ok (x @ t @ z) (shiftLazyLineIndexForInsertWithoutLineBreak len li (length x) (length t))"
proof (cases "t = []")
  case True
  with assms show ?thesis by (simp add: shiftLazyLineIndexForInsertWithoutLineBreak_def)
next
  case False
  let ?f = "\<lambda>p. if p > length x then p + length t else p"
  let ?g = "\<lambda>c. if cp_offset c > length x then c\<lparr>cp_offset := cp_offset c + length t\<rparr> else c"
  have bb: "breaks_before (x @ t @ z) (?f p) = breaks_before (x @ z) p" for p
    using insert_plain_breaks [OF assms(2,3)] by (simp add: not_less)
  have lines: "line_count (x @ t @ z) = line_count (x @ z)"
    using bb [of "length (x @ z)"] breaks_before_append_right [of x t "length t"]
      plain_no_seam [OF assms(2)] breaks_before_plain [OF assms(2)]
    by (cases "z = []") (simp_all add: line_count_def add.commute add.left_commute)
  have "lazy_ok (x @ t @ z) (li\<lparr>mLineIndexCheckpoints := map ?g (mLineIndexCheckpoints li),
                                 mLazyIndexedOffset := ?f (mLazyIndexedOffset li)\<rparr>)"
    using insert_plain_starts [OF assms(2,3)] bb lines assms(1)
    by (intro lazy_ok_map [OF assms(1)]) (auto simp: lazy_ok_def monoI)
  moreover have "mLineIndexCheckpoints li \<noteq> []" using assms(1) by (simp add: lazy_ok_def)
  ultimately show ?thesis
    using assms(4) False by (simp add: shiftLazyLineIndexForInsertWithoutLineBreak_def Let_def)
qed

text \<open>
  Erasing \<open>m\<close> from \<open>x @ m @ z\<close> moves position \<open>p\<close> to \<open>erase_pos x m p\<close>. When the erased range
  contains no counted line break and no CR LF pair appears at the cut, no line number changes.
\<close>

definition erase_pos :: "string \<Rightarrow> string \<Rightarrow> nat \<Rightarrow> nat" where
  "erase_pos x m p = (if p \<ge> length x + length m then p - length m else if p > length x then length x else p)"

lemma erase_pos_mono: "mono (erase_pos x m)"
  by (rule monoI) (auto simp: erase_pos_def)

lemma breaks_before_append_seam:
  "breaks_before (x @ y) (length x + j) = breaks_before x (length x) + breaks_before y j - of_bool (seam x y)"
  using breaks_before_append_right [of x y j] by linarith

lemma erase_plain_head:
  assumes "m \<noteq> []" "breaks_before (x @ m @ z) (length x + length m) = breaks_before (x @ m @ z) (length x) + of_bool (seam x m)"
  shows "breaks_before (m @ z) (length m) = of_bool (seam x m)"
    and "0 < j \<Longrightarrow> j \<le> length m \<Longrightarrow> breaks_before (m @ z) j = of_bool (seam x m)"
proof -
  have seam: "seam x (m @ z) = seam x m" using assms(1) by (simp add: seam_append_right)
  show all: "breaks_before (m @ z) (length m) = of_bool (seam x m)"
    using breaks_before_append_right [of x "m @ z" "length m"] breaks_before_append_right [of x "m @ z" 0] assms(2)
    by (simp add: seam)
  assume j: "0 < j" "j \<le> length m"
  have "seam x m \<Longrightarrow> lb_end (m @ z) 0" by (cases m) (auto simp: seam_def lb_end_def)
  then have "of_bool (seam x m) \<le> breaks_before (m @ z) (Suc 0)" by (simp add: breaks_before_Suc)
  with j all breaks_before_mono [of "Suc 0" j "m @ z"] breaks_before_mono [of j "length m" "m @ z"]
  show "breaks_before (m @ z) j = of_bool (seam x m)" by linarith
qed

lemma erase_plain_breaks:
  assumes "m \<noteq> []" "\<not> seam x z" "p = length x \<longrightarrow> \<not> seam x m"
    and "breaks_before (x @ m @ z) (length x + length m) = breaks_before (x @ m @ z) (length x) + of_bool (seam x m)"
  shows "breaks_before (x @ z) (erase_pos x m p) = breaks_before (x @ m @ z) p"
proof -
  note head = erase_plain_head [OF assms(1,4)]
  have seam: "seam x (m @ z) = seam x m" using assms(1) by (simp add: seam_append_right)
  have old: "breaks_before (x @ m @ z) (length x + j) = breaks_before x (length x) + breaks_before (m @ z) j - of_bool (seam x m)" for j
    using breaks_before_append_seam [of x "m @ z" j] by (simp add: seam)
  have new: "breaks_before (x @ z) (length x + k) = breaks_before x (length x) + breaks_before z k" for k
    using breaks_before_append_seam [of x z k] assms(2) by simp
  consider "p < length x" | "p = length x" | j where "p = length x + j" "0 < j" "j < length m"
    | k where "p = length x + (length m + k)"
    by (metis add.assoc le_iff_add less_imp_add_positive linorder_cases nat_add_left_cancel_less not_less)
  then show ?thesis
  proof cases
    case 1
    then show ?thesis by (simp add: erase_pos_def breaks_before_append_less)
  next
    case 2
    with assms(1,3) show ?thesis using old [of 0] new [of 0] by (simp add: erase_pos_def)
  next
    case 3
    then show ?thesis using old [of j] new [of 0] head(2) [of j] by (simp add: erase_pos_def)
  next
    case 4
    have "breaks_before (m @ z) (length m + k) = breaks_before (m @ z) (length m) + breaks_before z k"
      using breaks_before_append_right [of m z k] breaks_before_append_right [of m z 0] by simp
    with 4 show ?thesis using old [of "length m + k"] new [of k] head(1) by (simp add: erase_pos_def)
  qed
qed

lemma erase_plain_starts:
  assumes "m \<noteq> []" "\<not> seam x z" "is_line_start (x @ m @ z) p"
    and "breaks_before (x @ m @ z) (length x + length m) = breaks_before (x @ m @ z) (length x) + of_bool (seam x m)"
  shows "is_line_start (x @ z) (erase_pos x m p)"
proof -
  note head = erase_plain_head [OF assms(1,4)]
  consider "p \<le> length x" | j where "p = length x + j" "0 < j" "j \<le> length m"
    | k where "p = length x + (length m + k)" "0 < k"
    by (metis add.assoc less_imp_add_positive nat_add_left_cancel_le not_less)
  then show ?thesis
  proof cases
    case 1
    with assms(1,2,3) show ?thesis
      by (cases "p = length x") (auto simp: erase_pos_def is_line_start_append_less is_line_start_append_at)
  next
    case 2
    then have "is_line_start (m @ z) j" using assms(3) by (simp add: is_line_start_append_right)
    with 2 have "lb_end (m @ z) (j - 1)" by (simp add: is_line_start_def)
    then have "breaks_before (m @ z) j > breaks_before (m @ z) (j - 1)"
      using breaks_before_Suc [of "m @ z" "j - 1"] 2 by simp
    then have "seam x m" using head(2) [of j] 2 by (cases "seam x m") auto
    then have "is_line_start x (length x)"
      by (cases x rule: rev_cases) (auto simp: seam_def is_line_start_def lb_end_def nth_append)
    with 2 assms(2) show ?thesis by (auto simp: erase_pos_def is_line_start_append_at)
  next
    case 3
    then have "is_line_start z k"
      using assms(3) is_line_start_append_right [of "length m + k" x "m @ z"] is_line_start_append_right [of k m z] by simp
    with 3 show ?thesis by (simp add: erase_pos_def is_line_start_append_right)
  qed
qed

lemma shift_erase_ok:
  assumes "lazy_ok (x @ m @ z) li" "mLazyLineIndexComplete li" "m \<noteq> []" "\<not> seam x z"
    and bb: "breaks_before (x @ m @ z) (length x + length m) = breaks_before (x @ m @ z) (length x) + of_bool (seam x m)"
  shows "lazy_ok (x @ z) (shiftLazyLineIndexForEraseWithoutLineBreak li (length x) (length m))"
proof -
  let ?f = "erase_pos x m"
  let ?g = "\<lambda>c. if cp_offset c \<ge> length x + length m then c\<lparr>cp_offset := cp_offset c - length m\<rparr>
                 else if cp_offset c > length x then c\<lparr>cp_offset := length x\<rparr> else c"
  let ?o = "mLazyIndexedOffset li"
  have not_mid: "p = length x \<longrightarrow> \<not> seam x m" if "is_line_start (x @ m @ z) p" for p
    using that assms(3) by (auto simp: is_line_start_append_at seam_append_right)
  have o: "?o \<le> length (x @ m @ z)" "Suc (breaks_before (x @ m @ z) ?o) = line_count (x @ m @ z)"
    using assms(1,2) by (auto simp: lazy_ok_def)
  have o_mid: "?o = length x \<longrightarrow> \<not> seam x m"
    using o(2) bb breaks_before_mono [of "length x + length m" "length (x @ m @ z)" "x @ m @ z"]
    by (auto simp: line_count_def)
  have lines: "line_count (x @ z) = line_count (x @ m @ z)"
    using erase_plain_breaks [OF assms(3,4) _ bb, of "length (x @ m @ z)"] assms(3)
    by (simp add: line_count_def erase_pos_def)
  have "lazy_ok (x @ z) (li\<lparr>mLineIndexCheckpoints := map ?g (mLineIndexCheckpoints li), mLazyIndexedOffset := ?f ?o\<rparr>)"
    using erase_plain_breaks [OF assms(3,4) _ bb] erase_plain_starts [OF assms(3,4) _ bb] not_mid o o_mid lines
    by (intro lazy_ok_map [OF assms(1) erase_pos_mono]) (auto simp: erase_pos_def)
  moreover have "mLineIndexCheckpoints li \<noteq> []" using assms(1) by (simp add: lazy_ok_def)
  ultimately show ?thesis
    using assms(3) by (simp add: shiftLazyLineIndexForEraseWithoutLineBreak_def erase_pos_def Let_def)
qed

subsection \<open>The exact list of line starts\<close>

function rebuildEdited_loop :: "TextSource \<Rightarrow> Offset list \<Rightarrow> Offset \<Rightarrow> Offset list" where
  "rebuildEdited_loop src starts cursor =
     (if cursor < ts_length src then
        (case advanceLine src cursor of
           None \<Rightarrow> starts
         | Some next \<Rightarrow> if next \<le> cursor then starts else rebuildEdited_loop src (starts @ [next]) next)
      else starts)"
  by pat_completeness auto
termination
  by (relation "measure (\<lambda>(src, starts, cursor). ts_length src - cursor)") auto

definition rebuildEditedLineStartIndex :: "TextSource \<Rightarrow> Offset list" where
  "rebuildEditedLineStartIndex src = rebuildEdited_loop src [0] 0"

definition updateEditedLineStartIndexForInsert ::
  "TextSource \<Rightarrow> Offset list option \<Rightarrow> Offset \<Rightarrow> string \<Rightarrow> Offset list option" where
  "updateEditedLineStartIndexForInsert src es offset t =
     (if t = [] then es
      else if \<not> hasEditedLineStartIndex es then Some (rebuildEditedLineStartIndex src)
      else
        (let starts = the es;
             insertedStarts = appendLineStartsFromInsertedText [] offset t True;
             suffix = 1 + upper_bound (tl starts) offset
         in Some (remdups_adj (take suffix starts @ insertedStarts
                   @ map (\<lambda>p. p + length t) (drop suffix starts)))))"

text \<open>The loop that rescans the line the erased range began on.\<close>

function rescan_loop :: "TextSource \<Rightarrow> bool \<Rightarrow> Offset \<Rightarrow> Offset list \<Rightarrow> Offset \<Rightarrow> Offset list" where
  "rescan_loop src hasSuffix stopOffset rebuilt cursor =
     (if cursor < ts_length src then
        (case advanceLine src cursor of
           None \<Rightarrow> rebuilt
         | Some next \<Rightarrow>
             if next \<le> cursor then rebuilt
             else if next > stopOffset then rebuilt
             else if hasSuffix \<and> next = stopOffset then rebuilt
             else if \<not> hasSuffix \<and> next = stopOffset then rebuilt @ [next]
             else rescan_loop src hasSuffix stopOffset (rebuilt @ [next]) next)
      else rebuilt)"
  by pat_completeness auto
termination
  by (relation "measure (\<lambda>(src, hs, stop, rebuilt, cursor). ts_length src - cursor)") auto

declare rebuildEdited_loop.simps [simp del] rescan_loop.simps [simp del]

definition spliceRescanned :: "TextSource \<Rightarrow> Offset list \<Rightarrow> Offset \<Rightarrow> Offset list \<Rightarrow> Offset list" where
  "spliceRescanned src kept baseOffset suffix =
     (let hasSuffix = (suffix \<noteq> []);
          stopOffset = (if hasSuffix then hd suffix else ts_length src);
          rebuiltStarts = rescan_loop src hasSuffix stopOffset [] baseOffset
      in remdups_adj (kept @ rebuiltStarts @ suffix))"

definition updateEditedLineStartIndexForErase ::
  "TextSource \<Rightarrow> Offset list option \<Rightarrow> Range \<Rightarrow> Offset list option" where
  "updateEditedLineStartIndexForErase src es rng =
     (if Range_empty rng then es
      else if \<not> hasEditedLineStartIndex es then Some (rebuildEditedLineStartIndex src)
      else
        (let starts = the es;
             baseLineIndex = lineIndexFromExactStarts starts (range_start rng);
             baseOffset = lineStartFromExactStarts starts baseLineIndex;
             erasedBytes = Range_length rng;
             suffixIndex = baseLineIndex + 1;
             removedEnd = suffixIndex + upper_bound (drop suffixIndex starts) (range_end rng);
             suffix = map (\<lambda>p. p - erasedBytes) (drop removedEnd starts)
         in Some (spliceRescanned src (take suffixIndex starts) baseOffset suffix)))"

subsection \<open>The patches are exact\<close>

definition starts_after :: "string \<Rightarrow> nat \<Rightarrow> nat list" where
  "starts_after s p = filter (\<lambda>q. p < q) (line_starts s)"

lemma starts_after_split: "line_starts s = filter (\<lambda>q. q \<le> p) (line_starts s) @ starts_after s p"
  unfolding starts_after_def by (rule sorted_split_at [OF sorted_line_starts])

lemma starts_after_upt: "starts_after s p = map Suc (filter (lb_end s) [p..<length s])"
proof -
  have "filter (\<lambda>q. p < q) (map Suc (filter (lb_end s) [0..<length s])) = map Suc (filter (\<lambda>i. p \<le> i \<and> lb_end s i) [0..<length s])"
    by (simp add: filter_map comp_def conj_commute less_Suc_eq_le)
  also have "filter (\<lambda>i. p \<le> i \<and> lb_end s i) [0..<length s] = filter (lb_end s) [p..<length s]"
  proof (cases "p \<le> length s")
    case True
    have "filter (\<lambda>i. p \<le> i \<and> lb_end s i) [0..<p] = []" by (simp add: filter_empty_conv)
    moreover have "filter (\<lambda>i. p \<le> i \<and> lb_end s i) [p..<length s] = filter (lb_end s) [p..<length s]"
      by (rule filter_cong) auto
    ultimately show ?thesis by (subst upt_split_at [OF True]) simp
  qed (auto simp: filter_empty_conv)
  finally show ?thesis by (simp add: starts_after_def line_starts_def)
qed

lemma starts_after_step:
  "starts_after s p = (case next_line_start s p of None \<Rightarrow> [] | Some q \<Rightarrow> q # starts_after s q)"
proof (cases "next_line_start s p")
  case None
  then have "filter (lb_end s) [p..<length s] = []" by (simp add: filter_empty_conv next_line_start_None)
  with None show ?thesis by (simp add: starts_after_upt)
next
  case (Some q)
  note q = next_line_start_SomeD [OF Some]
  have "filter (lb_end s) [p..<length s] = (q - 1) # filter (lb_end s) [Suc (q - 1)..<length s]"
    using q by (intro filter_upt_first) auto
  with Some q(1) show ?thesis by (simp add: starts_after_upt)
qed

lemma rebuildEdited_loop_spec:
  "source_ok src s \<Longrightarrow> rebuildEdited_loop src starts cursor = starts @ starts_after s cursor"
proof (induction src starts cursor rule: rebuildEdited_loop.induct)
  case (1 src starts cursor)
  show ?case
  proof (cases "cursor < length s")
    case True
    then have "advanceLine src cursor = next_line_start s cursor"
      using "1.prems" by (simp add: advanceLine_spec min_absorb1)
    with True 1 show ?thesis
      by (subst rebuildEdited_loop.simps)
        (auto simp: source_ok_length starts_after_step [of s cursor] split: option.splits
          dest: next_line_start_SomeD(1))
  next
    case False
    with "1.prems" show ?thesis
      by (subst rebuildEdited_loop.simps) (simp add: source_ok_length starts_after_upt)
  qed
qed

lemma rebuildEditedLineStartIndex_spec [spec_simps]:
  "source_ok src s \<Longrightarrow> rebuildEditedLineStartIndex src = line_starts s"
  by (simp add: rebuildEditedLineStartIndex_def rebuildEdited_loop_spec starts_after_upt)
    (simp add: line_starts_def)

lemma remdups_adj_line_starts [simp]: "remdups_adj (line_starts s) = line_starts s"
  by (simp add: remdups_adj_distinct distinct_line_starts)

lemma appendLineStarts_ends:
  "appendLineStartsFromInsertedText [] base t True = map (\<lambda>i. base + Suc i) (line_ends t)"
  by (simp add: appendLineStarts_spec line_ends_def)

lemma update_edited_insert:
  assumes "source_ok src (x @ t @ z)" "edited_ok (x @ z) es"
    and "\<not> seam x t" "\<not> seam t z" "\<not> seam x z" "t \<noteq> []"
  shows "edited_ok (x @ t @ z) (updateEditedLineStartIndexForInsert src es (length x) t)"
proof (cases "hasEditedLineStartIndex es")
  case False
  with assms show ?thesis
    by (simp add: updateEditedLineStartIndexForInsert_def rebuildEditedLineStartIndex_spec edited_ok_def)
next
  case True
  let ?old = "0 # map Suc (line_ends x) @ map (\<lambda>i. Suc (length x + i)) (line_ends z)"
  have es: "the es = ?old"
    using True assms(2,5) by (simp add: edited_ok_def line_starts_ends line_ends_append comp_def)
  have "takeWhile (\<lambda>p. p \<le> length x) (map (\<lambda>i. Suc (length x + i)) (line_ends z)) = []"
    by (cases "line_ends z") auto
  moreover have "\<forall>p \<in> set (map Suc (line_ends x)). p \<le> length x" by (auto simp: Suc_le_eq line_ends_less)
  ultimately have ub: "upper_bound (tl ?old) (length x) = length (line_ends x)"
    by (simp add: upper_bound_def takeWhile_append2 del: set_map)
  have xtz: "\<not> seam x (t @ z)" using assms by (simp add: seam_append_right)
  have "updateEditedLineStartIndexForInsert src es (length x) t = Some (remdups_adj (line_starts (x @ t @ z)))"
    using True assms(6) ub
    by (simp add: updateEditedLineStartIndexForInsert_def es appendLineStarts_ends line_starts_ends
        line_ends_append [OF xtz] line_ends_append [OF assms(4)] comp_def add_ac)
  then show ?thesis by (simp add: edited_ok_def)
qed

lemma rescan_loop_all:
  "source_ok src s \<Longrightarrow> rescan_loop src False (length s) rebuilt cursor = rebuilt @ starts_after s cursor"
proof (induction src False "length s" rebuilt cursor rule: rescan_loop.induct)
  case (1 src rebuilt cursor)
  show ?case
  proof (cases "cursor < length s")
    case True
    then have adv: "advanceLine src cursor = next_line_start s cursor"
      using "1.prems" by (simp add: advanceLine_spec min_absorb1)
    show ?thesis
    proof (cases "next_line_start s cursor")
      case None
      with adv True "1.prems" show ?thesis
        by (subst rescan_loop.simps) (simp add: source_ok_length starts_after_step [of s cursor])
    next
      case (Some q)
      note q = next_line_start_SomeD [OF Some]
      have "starts_after s (length s) = []" by (simp add: starts_after_upt)
      with adv True 1 Some q(1,2) show ?thesis
        by (subst rescan_loop.simps) (auto simp: source_ok_length starts_after_step [of s cursor])
    qed
  next
    case False
    with "1.prems" show ?thesis by (subst rescan_loop.simps) (simp add: source_ok_length starts_after_upt)
  qed
qed

lemma rescan_loop_until:
  "source_ok src s \<Longrightarrow> rescan_loop src True stop rebuilt cursor = rebuilt @ takeWhile (\<lambda>q. q < stop) (starts_after s cursor)"
proof (induction src True stop rebuilt cursor rule: rescan_loop.induct)
  case (1 src stop rebuilt cursor)
  show ?case
  proof (cases "cursor < length s")
    case True
    then have adv: "advanceLine src cursor = next_line_start s cursor"
      using "1.prems" by (simp add: advanceLine_spec min_absorb1)
    show ?thesis
    proof (cases "next_line_start s cursor")
      case None
      with adv True "1.prems" show ?thesis
        by (subst rescan_loop.simps) (simp add: source_ok_length starts_after_step [of s cursor])
    next
      case (Some q)
      with adv True 1 next_line_start_SomeD(1) [OF Some] show ?thesis
        by (subst rescan_loop.simps) (auto simp: source_ok_length starts_after_step [of s cursor])
    qed
  next
    case False
    with "1.prems" show ?thesis by (subst rescan_loop.simps) (simp add: source_ok_length starts_after_upt)
  qed
qed

lemma starts_after_append: "starts_after (x @ y) (length x) = map (\<lambda>j. Suc (length x + j)) (line_ends y)"
  by (simp add: starts_after_upt filter_upt_shift line_ends_def comp_def)

lemma starts_after_after: "p \<le> q \<Longrightarrow> filter (\<lambda>r. q < r) (starts_after s p) = starts_after s q"
  by (auto simp: starts_after_def intro!: filter_cong)

lemma sorted_starts_after: "sorted (starts_after s p)"
  by (simp add: starts_after_def sorted_wrt_filter sorted_line_starts)

lemma length_starts_upto: "length (filter (\<lambda>q. q \<le> p) (line_starts s)) = Suc (breaks_before s p)"
proof -
  have "upper_bound (line_starts s) p = length (filter (\<lambda>q. q \<le> p) (line_starts s))"
    by (rule upper_bound_sorted [OF sorted_line_starts])
  moreover have "0 < length (filter (\<lambda>q. q \<le> p) (line_starts s))" by (simp add: line_starts_def)
  ultimately show ?thesis
    using lineIndexFromExactStarts_spec [of s p]
    by (auto simp: lineIndexFromExactStarts_def line_starts_def Let_def split: if_splits)
qed

lemma take_drop_starts:
  "take (Suc (breaks_before s p)) (line_starts s) = filter (\<lambda>q. q \<le> p) (line_starts s)"
  "drop (Suc (breaks_before s p)) (line_starts s) = starts_after s p"
  using arg_cong [OF starts_after_split [of s p], of "take (Suc (breaks_before s p))"]
    arg_cong [OF starts_after_split [of s p], of "drop (Suc (breaks_before s p))"]
  by (simp_all add: length_starts_upto)

lemma drop_upper_bound: "sorted xs \<Longrightarrow> drop (upper_bound xs v) xs = filter (\<lambda>q. v < q) xs"
  using arg_cong [OF sorted_split_at [of xs v], of "drop (upper_bound xs v)"] by (simp add: upper_bound_sorted)

text \<open>The line starts up to the cut are the same before and after the erase.\<close>

lemma erase_keeps_prefix:
  assumes "seam x z \<longrightarrow> seam x m" "m \<noteq> []"
  shows "filter (\<lambda>q. q \<le> line_start_at (x @ m @ z) (length x)) (line_starts (x @ z))
       = filter (\<lambda>q. q \<le> length x) (line_starts (x @ m @ z))"
proof (rule sorted_distinct_set_unique)
  let ?b = "line_start_at (x @ m @ z) (length x)"
  have b: "is_line_start (x @ m @ z) ?b" "?b \<le> length x" by (rule line_start_at_props)+
  have up: "p \<le> ?b" if "is_line_start (x @ m @ z) p" "p \<le> length x" for p
    using that line_start_at_props(3) [of "x @ m @ z" "length x" "p - 1"]
    by (cases p) (fastforce simp: is_line_start_def not_less_eq_eq not_le)+
  have same: "is_line_start (x @ z) p \<longleftrightarrow> is_line_start (x @ m @ z) p" if "p \<le> ?b" for p
  proof (cases "p = length x")
    case True
    with that b have "is_line_start (x @ m @ z) (length x)" by simp
    with True assms show ?thesis by (auto simp: is_line_start_append_at seam_append_right)
  next
    case False
    with that b show ?thesis by (simp add: is_line_start_append_less)
  qed
  show "set (filter (\<lambda>q. q \<le> ?b) (line_starts (x @ z))) = set (filter (\<lambda>q. q \<le> length x) (line_starts (x @ m @ z)))"
    using same up b(2) by (auto simp: set_line_starts)
qed (simp_all add: sorted_wrt_filter sorted_line_starts distinct_line_starts)

lemma update_edited_erase:
  assumes "source_ok src (x @ z)" "edited_ok (x @ m @ z) es" "seam x z \<longrightarrow> seam x m" "m \<noteq> []"
    and "rng = mkRange (length x) (length x + length m)"
  shows "edited_ok (x @ z) (updateEditedLineStartIndexForErase src es rng)"
proof (cases "hasEditedLineStartIndex es")
  case False
  with assms show ?thesis
    by (simp add: updateEditedLineStartIndexForErase_def rebuildEditedLineStartIndex_spec edited_ok_def)
next
  case True
  let ?old = "x @ m @ z" and ?s = "x @ z"
  let ?b = "line_start_at ?old (length x)"
  have es: "the es = line_starts ?old" using True assms(2) by (simp add: edited_ok_def)
  have b: "?b \<le> length x" by (rule line_start_at_props)
  have "drop (Suc (breaks_before ?old (length x)) + upper_bound (starts_after ?old (length x)) (length x + length m)) (line_starts ?old)
      = starts_after ?old (length x + length m)"
    using take_drop_starts(2) [of ?old "length x"] drop_upper_bound [OF sorted_starts_after, of ?old "length x" "length x + length m"]
    by (metis add.commute drop_drop le_add1 starts_after_after)
  moreover have "map (\<lambda>p. p - length m) (starts_after ?old (length x + length m)) = starts_after ?s (length x)"
    using starts_after_append [of "x @ m" z] by (simp add: starts_after_append comp_def)
  ultimately have suffix: "map (\<lambda>p. p - length m) (drop (Suc (breaks_before ?old (length x))
        + upper_bound (starts_after ?old (length x)) (length x + length m)) (line_starts ?old)) = starts_after ?s (length x)"
    by simp
  define mids where "mids = filter (\<lambda>q. q \<le> length x) (starts_after ?s ?b)"
  have after: "starts_after ?s ?b = mids @ starts_after ?s (length x)"
    using sorted_split_at [OF sorted_starts_after, of ?s ?b "length x"] by (simp add: mids_def starts_after_after b)
  have rescan: "rescan_loop src (starts_after ?s (length x) \<noteq> [])
      (if starts_after ?s (length x) \<noteq> [] then hd (starts_after ?s (length x)) else ts_length src) [] ?b = mids"
  proof (cases "starts_after ?s (length x)")
    case Nil
    with after rescan_loop_all [OF assms(1)] show ?thesis by (simp add: source_ok_length [OF assms(1)])
  next
    case (Cons q qs)
    then have "q \<in> set (starts_after ?s (length x))" by simp
    then have "length x < q" by (simp add: starts_after_def)
    then have "\<forall>r \<in> set mids. r < q" by (auto simp: mids_def)
    then have "takeWhile (\<lambda>r. r < q) (mids @ q # qs) = mids" by (simp add: takeWhile_append2)
    with Cons after assms(1) show ?thesis by (simp add: rescan_loop_until)
  qed
  have "updateEditedLineStartIndexForErase src es rng
      = Some (spliceRescanned src (filter (\<lambda>q. q \<le> length x) (line_starts ?old)) ?b (starts_after ?s (length x)))"
    using True assms(4,5) suffix
    by (simp add: updateEditedLineStartIndexForErase_def es Let_def Range_empty_def Range_length_def
        lineIndexFromExactStarts_spec lineStartFromExactStarts_spec take_drop_starts)
  also have "spliceRescanned src (filter (\<lambda>q. q \<le> length x) (line_starts ?old)) ?b (starts_after ?s (length x))
      = remdups_adj (filter (\<lambda>q. q \<le> length x) (line_starts ?old) @ mids @ starts_after ?s (length x))"
    by (simp only: spliceRescanned_def Let_def rescan)
  also have "filter (\<lambda>q. q \<le> length x) (line_starts ?old) @ mids @ starts_after ?s (length x) = line_starts ?s"
    using erase_keeps_prefix [OF assms(3,4)] starts_after_split [of ?s ?b] after by simp
  finally show ?thesis by (simp add: edited_ok_def)
qed

end
