(* ===== verification/Text_Document.thy ===== *)
theory Text_Document
  imports Piece_Table Index_Edits
begin

text \<open>
  The class \<open>TextDocument\<close> of \<open>src/piecetable/MRTextDocument.cpp\<close>: its state, construction, loading,
  the materialized text, the chunk view, and the edits \<open>setText\<close>, \<open>insert\<close>, \<open>erase\<close> and
  \<open>replace\<close>. The invariant \<open>doc_ok\<close> ties the piece vector, the length and the text cache together;
  \<open>index_ok\<close> states that the line index describes the text. Shared pointers are modelled by value:
  the class copies a shared buffer or piece vector before it writes to it (\<open>ensureUnique\<close>,
  \<open>ensureUniquePieces\<close>).
\<close>

record TextDocument =
  mOriginalBuffer :: "string option"
  mMappedOriginal :: MappedFileSource
  mAddBuffer :: AppendBuffer
  mPieces :: "Piece list option"
  mLength :: Offset
  mDocumentId :: nat
  mVersion :: nat
  mCacheDirty :: bool
  mMaterializedText :: string
  mLazyIndex :: LazyIndex
  mPendingLineIndexScanPackets :: "LineIndexScanPacket list"
  mLineIndexScanReservations :: "LineIndexScanReservation list"
  mNextLineIndexScanReservationId :: nat
  mEditedLineStarts :: "Offset list option"

subsection \<open>Reading\<close>

definition td_pieces :: "TextDocument \<Rightarrow> Piece list" where
  "td_pieces d = (case mPieces d of None \<Rightarrow> [] | Some ps \<Rightarrow> ps)"

definition pieceCount :: "TextDocument \<Rightarrow> nat" where
  "pieceCount d = (case mPieces d of None \<Rightarrow> 0 | Some ps \<Rightarrow> length ps)"

definition originalLength :: "TextDocument \<Rightarrow> nat" where
  "originalLength d =
     (if MappedFileSource_mapped (mMappedOriginal d) then MappedFileSource_size (mMappedOriginal d)
      else (case mOriginalBuffer d of None \<Rightarrow> 0 | Some b \<Rightarrow> length b))"

definition originalData :: "TextDocument \<Rightarrow> string option" where
  "originalData d =
     (if MappedFileSource_mapped (mMappedOriginal d) then MappedFileSource_data (mMappedOriginal d)
      else mOriginalBuffer d)"

definition pieceChunk :: "TextDocument \<Rightarrow> nat \<Rightarrow> PieceChunkView" where
  "pieceChunk d index =
     (case mPieces d of
        None \<Rightarrow> emptyChunk
      | Some ps \<Rightarrow>
          if index \<ge> length ps then emptyChunk
          else
            (let piece = ps ! index in
             if Piece_empty piece then emptyChunk
             else if source piece = Original then
               (case originalData d of
                  None \<Rightarrow> emptyChunk
                | Some base \<Rightarrow> \<lparr>chunk_data = Some (drop (span_start (span piece)) base),
                                chunk_length = span_length (span piece)\<rparr>)
             else if span_start (span piece) \<ge> AppendBuffer_size (mAddBuffer d) then emptyChunk
             else \<lparr>chunk_data = Some (drop (span_start (span piece)) (AppendBuffer_text (mAddBuffer d))),
                   chunk_length = span_length (span piece)\<rparr>))"

definition hasDirectOriginalView :: "TextDocument \<Rightarrow> bool" where
  "hasDirectOriginalView d \<longleftrightarrow>
     (case mPieces d of
        None \<Rightarrow> False
      | Some ps \<Rightarrow>
          length ps = 1
          \<and> (let piece = ps ! 0 in
             span_start (span piece) = 0 \<and> span_length (span piece) = mLength d
             \<and> (case source piece of
                  Original \<Rightarrow> originalData d \<noteq> None
                | Add \<Rightarrow> AppendBuffer_size (mAddBuffer d) \<ge> span_length (span piece))))"

definition directTextData :: "TextDocument \<Rightarrow> string option" where
  "directTextData d =
     (if \<not> hasDirectOriginalView d then None
      else if source (the (mPieces d) ! 0) = Original then originalData d
      else Some (AppendBuffer_text (mAddBuffer d)))"

definition doc_view :: "TextDocument \<Rightarrow> DocView" where
  "doc_view d = \<lparr>dv_length = mLength d, dv_chunks = map (pieceChunk d) [0..<pieceCount d]\<rparr>"

definition doc_source :: "TextDocument \<Rightarrow> TextSource" where
  "doc_source d = \<lparr>ts_view = doc_view d, ts_direct = directTextData d\<rparr>"

definition pieceText :: "TextDocument \<Rightarrow> Piece \<Rightarrow> string" where
  "pieceText d piece =
     (if source piece = Original then
        (if MappedFileSource_mapped (mMappedOriginal d) then MappedFileSource_sliceText (mMappedOriginal d) (span piece)
         else (case mOriginalBuffer d of
                 None \<Rightarrow> []
               | Some b \<Rightarrow> substr b (span_start (span piece)) (span_length (span piece))))
      else AppendBuffer_sliceText (mAddBuffer d) (span piece))"

definition ensureMaterialized :: "TextDocument \<Rightarrow> TextDocument" where
  "ensureMaterialized d =
     (if \<not> mCacheDirty d then d
      else d\<lparr>mMaterializedText :=
               (case mPieces d of None \<Rightarrow> [] | Some ps \<Rightarrow> concat (map (pieceText d) ps)),
             mCacheDirty := False\<rparr>)"

definition TextDocument_text :: "TextDocument \<Rightarrow> TextDocument \<times> string" where
  "TextDocument_text d = (let d' = ensureMaterialized d in (d', mMaterializedText d'))"

definition TextDocument_empty :: "TextDocument \<Rightarrow> bool" where
  "TextDocument_empty d \<longleftrightarrow> mLength d = 0"

definition TextDocument_snapshot :: "TextDocument \<Rightarrow> TextDocument \<times> Snapshot" where
  "TextDocument_snapshot d =
     (let (d', s) = TextDocument_text d in (d', \<lparr>snap_text = s, snap_version = mVersion d'\<rparr>))"

definition matchesVersion :: "TextDocument \<Rightarrow> nat \<Rightarrow> bool" where
  "matchesVersion d expected \<longleftrightarrow> expected = mVersion d"

definition matchesSnapshot :: "TextDocument \<Rightarrow> Snapshot \<Rightarrow> bool" where
  "matchesSnapshot d snap \<longleftrightarrow> matchesVersion d (snap_version snap)"

subsection \<open>Construction and loading\<close>

definition clearLineIndexScanLedger :: "TextDocument \<Rightarrow> TextDocument" where
  "clearLineIndexScanLedger d =
     d\<lparr>mPendingLineIndexScanPackets := [], mLineIndexScanReservations := [],
       mNextLineIndexScanReservationId := 1\<rparr>"

definition TextDocument_resetLazyLineIndex :: "TextDocument \<Rightarrow> TextDocument" where
  "TextDocument_resetLazyLineIndex d =
     clearLineIndexScanLedger (d\<lparr>mLazyIndex := resetLazyLineIndex (mLength d)\<rparr>)"

definition bumpVersion :: "TextDocument \<Rightarrow> TextDocument" where
  "bumpVersion d = d\<lparr>mVersion := wrap64 (mVersion d + 1)\<rparr>"

definition markDirty :: "TextDocument \<Rightarrow> TextDocument" where
  "markDirty d = d\<lparr>mCacheDirty := True\<rparr>"

definition ensureUniquePieces :: "TextDocument \<Rightarrow> TextDocument" where
  "ensureUniquePieces d = (case mPieces d of None \<Rightarrow> d\<lparr>mPieces := Some []\<rparr> | Some ps \<Rightarrow> d)"

text \<open>The document id is drawn from a global counter, so a constructor takes it as an argument.\<close>

definition newTextDocument :: "nat \<Rightarrow> TextDocument" where
  "newTextDocument documentId =
     \<lparr>mOriginalBuffer = Some [], mMappedOriginal = None, mAddBuffer = Some [], mPieces = Some [],
      mLength = 0, mDocumentId = documentId, mVersion = 0, mCacheDirty = False, mMaterializedText = [],
      mLazyIndex = resetLazyLineIndex 0, mPendingLineIndexScanPackets = [],
      mLineIndexScanReservations = [], mNextLineIndexScanReservationId = 1, mEditedLineStarts = Some [0]\<rparr>"

definition initializeFromOriginal :: "TextDocument \<Rightarrow> string \<Rightarrow> bool \<Rightarrow> TextDocument" where
  "initializeFromOriginal d t bumpVersionFlag =
     (let d1 = d\<lparr>mOriginalBuffer := Some t, mMappedOriginal := MappedFileSource_reset (mMappedOriginal d),
                 mAddBuffer := AppendBuffer_clear (mAddBuffer d)\<rparr>;
          d2 = ensureUniquePieces d1;
          d3 = d2\<lparr>mPieces := Some (if t \<noteq> [] then [mkPiece Original (mkSpan 0 (length t))] else []),
                  mLength := length t, mMaterializedText := t, mCacheDirty := False\<rparr>;
          d4 = (TextDocument_resetLazyLineIndex d3)\<lparr>mEditedLineStarts := None\<rparr>
      in if bumpVersionFlag then bumpVersion d4 else d4)"

definition newTextDocumentFrom :: "nat \<Rightarrow> string \<Rightarrow> TextDocument" where
  "newTextDocumentFrom documentId t = initializeFromOriginal (newTextDocument documentId) t True"

definition initializeFromMappedSource :: "TextDocument \<Rightarrow> MappedFileSource \<Rightarrow> bool \<Rightarrow> TextDocument" where
  "initializeFromMappedSource d src bumpVersionFlag =
     (let len = MappedFileSource_size src;
          d1 = ensureUniquePieces (d\<lparr>mOriginalBuffer := Some [], mMappedOriginal := src,
                                      mAddBuffer := AppendBuffer_clear (mAddBuffer d)\<rparr>);
          d2 = d1\<lparr>mPieces := Some (if len \<noteq> 0 then [mkPiece Original (mkSpan 0 len)] else []),
                  mLength := len, mMaterializedText := [], mCacheDirty := (len \<noteq> 0)\<rparr>;
          d3 = (TextDocument_resetLazyLineIndex d2)\<lparr>mEditedLineStarts := None\<rparr>
      in if bumpVersionFlag then bumpVersion d3 else d3)"

text \<open>The two overloads of \<open>loadMappedFile\<close>: success flag, error text, document.\<close>

definition loadMappedFile :: "OsCalls \<Rightarrow> TextDocument \<Rightarrow> string \<Rightarrow> bool \<times> string \<times> TextDocument" where
  "loadMappedFile os d path =
     (let (ok, err, src) = openReadOnly os None path
      in if \<not> ok then (False, err, d) else (True, err, initializeFromMappedSource d src True))"

definition loadMappedFileFd :: "OsCalls \<Rightarrow> TextDocument \<Rightarrow> int \<Rightarrow> string \<Rightarrow> bool \<times> string \<times> TextDocument" where
  "loadMappedFileFd os d fileDescriptor path =
     (let (ok, err, src) = openReadOnlyFd os None fileDescriptor path
      in if \<not> ok then (False, err, d) else (True, err, initializeFromMappedSource d src True))"

text \<open>Copies share the buffers but not the scan ledger.\<close>

definition copyTextDocument :: "TextDocument \<Rightarrow> TextDocument" where
  "copyTextDocument src = clearLineIndexScanLedger src"

definition assignTextDocument :: "TextDocument \<Rightarrow> TextDocument \<Rightarrow> TextDocument" where
  "assignTextDocument d src =
     clearLineIndexScanLedger
       (d\<lparr>mOriginalBuffer := mOriginalBuffer src, mMappedOriginal := mMappedOriginal src,
         mAddBuffer := mAddBuffer src, mPieces := mPieces src, mLength := mLength src,
         mDocumentId := mDocumentId src, mVersion := mVersion src, mCacheDirty := mCacheDirty src,
         mMaterializedText := mMaterializedText src, mLazyIndex := mLazyIndex src,
         mEditedLineStarts := mEditedLineStarts src\<rparr>)"

subsection \<open>Edits\<close>

definition kLazyLineIndexEraseProbeLimit :: Offset where
  "kLazyLineIndexEraseProbeLimit = 4096"

definition invalidateIndexFrom :: "TextDocument \<Rightarrow> Offset \<Rightarrow> TextDocument" where
  "invalidateIndexFrom d offset =
     (clearLineIndexScanLedger d)\<lparr>mLazyIndex := invalidateLazyLineIndexFrom (mLength d) (mLazyIndex d) offset\<rparr>"

definition shiftIndexForInsert :: "TextDocument \<Rightarrow> Offset \<Rightarrow> Offset \<Rightarrow> TextDocument" where
  "shiftIndexForInsert d offset n =
     (if n \<le> 0 then d
      else (clearLineIndexScanLedger d)
        \<lparr>mLazyIndex := shiftLazyLineIndexForInsertWithoutLineBreak (mLength d) (mLazyIndex d) offset n\<rparr>)"

definition shiftIndexForErase :: "TextDocument \<Rightarrow> Offset \<Rightarrow> Offset \<Rightarrow> TextDocument" where
  "shiftIndexForErase d offset n =
     (if n = 0 then d
      else (clearLineIndexScanLedger d)
        \<lparr>mLazyIndex := shiftLazyLineIndexForEraseWithoutLineBreak (mLazyIndex d) offset n\<rparr>)"

definition setTextNoVersionBump :: "TextDocument \<Rightarrow> string \<Rightarrow> TextDocument \<times> bool" where
  "setTextNoVersionBump d t =
     (let (d1, current) = TextDocument_text d
      in if t = current then (d1, False) else (initializeFromOriginal d1 t False, True))"

definition preservesLazyIndex :: "TextDocument \<Rightarrow> Range \<Rightarrow> bool" where
  "preservesLazyIndex d bounded =
     (if \<not> hasEditedLineStartIndex (mEditedLineStarts d) \<and> mLazyLineIndexComplete (mLazyIndex d)
         \<and> Range_length bounded \<le> kLazyLineIndexEraseProbeLimit then
        (let removedLineBreaks =
               (case directTextData d of
                  Some data \<Rightarrow> directCountLineBreaksInRange (Some data) (mLength d) (range_start bounded) (range_end bounded)
                | None \<Rightarrow> piecewiseCountLineBreaksInRange (doc_view d) (range_start bounded) (range_end bounded));
             createsCrLf = (range_start bounded > 0 \<and> range_end bounded < mLength d
               \<and> charAt (doc_source d) (range_start bounded - 1) = CR
               \<and> charAt (doc_source d) (range_end bounded) = LF)
         in removedLineBreaks = 0 \<and> \<not> createsCrLf)
      else False)"

definition eraseNoVersionBump :: "TextDocument \<Rightarrow> Range \<Rightarrow> TextDocument \<times> bool" where
  "eraseNoVersionBump d rng =
     (let bounded = Range_clamped rng (mLength d) in
      if Range_empty bounded then (d, False)
      else
        (let preserve = preservesLazyIndex d bounded;
             d1 = ensureUniquePieces d;
             (ps1, startIndex) = splitAt (td_pieces d1) (mLength d1) (range_start bounded);
             (ps2, endIndex) = splitAt ps1 (mLength d1) (range_end bounded);
             ps3 = mergeAdjacentPiecesAt (pieces_erase ps2 startIndex endIndex) startIndex;
             d2 = d1\<lparr>mPieces := Some ps3, mLength := mLength d1 - (range_end bounded - range_start bounded)\<rparr>;
             d3 = (if preserve then shiftIndexForErase d2 (range_start bounded) (Range_length bounded)
                   else invalidateIndexFrom d2 (range_start bounded));
             d4 = (if hasEditedLineStartIndex (mEditedLineStarts d3)
                   then d3\<lparr>mEditedLineStarts :=
                             updateEditedLineStartIndexForErase (doc_source d3) (mEditedLineStarts d3) bounded\<rparr>
                   else d3)
         in (markDirty d4, True)))"

definition insertAddSpanNoVersionBump :: "TextDocument \<Rightarrow> Offset \<Rightarrow> TextSpan \<Rightarrow> TextDocument \<times> bool" where
  "insertAddSpanNoVersionBump d offset sp =
     (let logical = min offset (mLength d) in
      if TextSpan_empty sp then (d, False)
      else
        (let d1 = ensureUniquePieces d;
             (ps1, index) = splitAt (td_pieces d1) (mLength d1) logical;
             ps2 = mergeAdjacentPiecesAt (pieces_insert ps1 index (mkPiece Add sp)) index;
             d2 = d1\<lparr>mPieces := Some ps2, mLength := wrap64 (mLength d1 + span_length sp)\<rparr>;
             inserted = substr (AppendBuffer_text (mAddBuffer d2)) (span_start sp) (span_length sp);
             insertedLineBreak = list_ex isLineBreakByte inserted;
             d3 = (if insertedLineBreak then invalidateIndexFrom d2 logical
                   else shiftIndexForInsert d2 logical (span_length sp));
             d4 = (if hasEditedLineStartIndex (mEditedLineStarts d3)
                   then d3\<lparr>mEditedLineStarts :=
                             updateEditedLineStartIndexForInsert (doc_source d3) (mEditedLineStarts d3) logical inserted\<rparr>
                   else d3)
         in (markDirty d4, True)))"

text \<open>\<open>insertAddSpanNoVersionBump(offset, mAddBuffer.append(text))\<close>, as three callers write it.\<close>

definition appendAndInsert :: "TextDocument \<Rightarrow> Offset \<Rightarrow> string \<Rightarrow> TextDocument \<times> bool" where
  "appendAndInsert d offset t =
     (let (sp, buffer) = AppendBuffer_append (mAddBuffer d) t
      in insertAddSpanNoVersionBump (d\<lparr>mAddBuffer := buffer\<rparr>) offset sp)"

definition replaceNoVersionBump :: "TextDocument \<Rightarrow> Range \<Rightarrow> string \<Rightarrow> TextDocument \<times> bool" where
  "replaceNoVersionBump d rng t =
     (let bounded = Range_clamped rng (mLength d);
          (d1, removed) = eraseNoVersionBump d bounded;
          (d2, inserted) = (if t \<noteq> [] then appendAndInsert d1 (range_start bounded) t else (d1, False))
      in (d2, inserted \<or> removed))"

definition bumpIf :: "TextDocument \<times> bool \<Rightarrow> TextDocument" where
  "bumpIf r = (if snd r then bumpVersion (fst r) else fst r)"

definition TextDocument_setText :: "TextDocument \<Rightarrow> string \<Rightarrow> TextDocument" where
  "TextDocument_setText d t = bumpIf (setTextNoVersionBump d t)"

definition TextDocument_insert :: "TextDocument \<Rightarrow> Offset \<Rightarrow> string \<Rightarrow> TextDocument" where
  "TextDocument_insert d offset t = (if t = [] then d else bumpIf (appendAndInsert d offset t))"

definition TextDocument_erase :: "TextDocument \<Rightarrow> Range \<Rightarrow> TextDocument" where
  "TextDocument_erase d rng = bumpIf (eraseNoVersionBump d rng)"

definition TextDocument_replace :: "TextDocument \<Rightarrow> Range \<Rightarrow> string \<Rightarrow> TextDocument" where
  "TextDocument_replace d rng t = bumpIf (replaceNoVersionBump d rng t)"

subsection \<open>The invariant\<close>

definition doc_orig :: "TextDocument \<Rightarrow> string" where
  "doc_orig d = (case originalData d of None \<Rightarrow> [] | Some b \<Rightarrow> b)"

definition doc_add :: "TextDocument \<Rightarrow> string" where
  "doc_add d = AppendBuffer_text (mAddBuffer d)"

definition doc_text :: "TextDocument \<Rightarrow> string" where
  "doc_text d = pieces_text (doc_orig d) (doc_add d) (td_pieces d)"

definition doc_ok :: "TextDocument \<Rightarrow> bool" where
  "doc_ok d \<longleftrightarrow>
     mapped_ok (mMappedOriginal d) \<and> mAddBuffer d \<noteq> None
     \<and> pieces_ok (doc_orig d) (doc_add d) (td_pieces d)
     \<and> mLength d = length (doc_text d) \<and> length (doc_text d) < size_max
     \<and> (\<not> mCacheDirty d \<longrightarrow> mMaterializedText d = doc_text d)"

definition index_ok :: "TextDocument \<Rightarrow> bool" where
  "index_ok d \<longleftrightarrow> lazy_ok (doc_text d) (mLazyIndex d) \<and> edited_ok (doc_text d) (mEditedLineStarts d)"

text \<open>The line index and the scan ledger are no part of the text.\<close>

lemma clear_ledger_frame [simp]:
  "mOriginalBuffer (clearLineIndexScanLedger d) = mOriginalBuffer d"
  "mMappedOriginal (clearLineIndexScanLedger d) = mMappedOriginal d"
  "mAddBuffer (clearLineIndexScanLedger d) = mAddBuffer d"
  "mPieces (clearLineIndexScanLedger d) = mPieces d"
  "mLength (clearLineIndexScanLedger d) = mLength d"
  "mDocumentId (clearLineIndexScanLedger d) = mDocumentId d"
  "mVersion (clearLineIndexScanLedger d) = mVersion d"
  "mCacheDirty (clearLineIndexScanLedger d) = mCacheDirty d"
  "mMaterializedText (clearLineIndexScanLedger d) = mMaterializedText d"
  "mLazyIndex (clearLineIndexScanLedger d) = mLazyIndex d"
  "mEditedLineStarts (clearLineIndexScanLedger d) = mEditedLineStarts d"
  by (simp_all add: clearLineIndexScanLedger_def)

definition same_buffers :: "TextDocument \<Rightarrow> TextDocument \<Rightarrow> bool" where
  "same_buffers d d' \<longleftrightarrow> mOriginalBuffer d' = mOriginalBuffer d \<and> mMappedOriginal d' = mMappedOriginal d
     \<and> mAddBuffer d' = mAddBuffer d"

lemma same_buffers_refl [simp]: "same_buffers d d"
  by (simp add: same_buffers_def)

lemma same_buffers_data:
  "same_buffers d d' \<Longrightarrow> originalData d' = originalData d"
  "same_buffers d d' \<Longrightarrow> doc_orig d' = doc_orig d"
  "same_buffers d d' \<Longrightarrow> doc_add d' = doc_add d"
  by (simp_all add: same_buffers_def originalData_def doc_orig_def doc_add_def)

lemma doc_text_same: "same_buffers d d' \<Longrightarrow> td_pieces d' = td_pieces d \<Longrightarrow> doc_text d' = doc_text d"
  by (simp add: doc_text_def same_buffers_data)

lemma doc_ok_same:
  "same_buffers d d' \<Longrightarrow> td_pieces d' = td_pieces d \<Longrightarrow> mLength d' = mLength d \<Longrightarrow>
   (\<not> mCacheDirty d' \<longrightarrow> mMaterializedText d' = doc_text d) \<Longrightarrow> doc_ok d \<Longrightarrow> doc_ok d'"
  using doc_text_same [of d d'] by (simp add: doc_ok_def same_buffers_data) (simp add: same_buffers_def)

subsection \<open>The chunk view\<close>

definition chunk_of :: "TextDocument \<Rightarrow> Piece \<Rightarrow> PieceChunkView" where
  "chunk_of d p = \<lparr>chunk_data = Some (drop (span_start (span p)) (piece_buffer (doc_orig d) (doc_add d) p)),
                   chunk_length = span_length (span p)\<rparr>"

lemma pieceChunk_chunk_of:
  assumes "pieces_ok (doc_orig d) (doc_add d) (td_pieces d)" "i < length (td_pieces d)"
  shows "pieceChunk d i = chunk_of d (td_pieces d ! i)"
proof -
  obtain ps where ps: "mPieces d = Some ps" "td_pieces d = ps"
    using assms(2) by (auto simp: td_pieces_def split: option.splits)
  have ok: "piece_ok (doc_orig d) (doc_add d) (ps ! i)" using assms ps by (simp add: list_all_length)
  show ?thesis
  proof (cases "source (ps ! i)")
    case Original
    then have "originalData d \<noteq> None"
      using ok by (cases "originalData d") (auto simp: piece_ok_def piece_buffer_def doc_orig_def TextSpan_end_def)
    with Original ok ps assms(2) show ?thesis
      by (auto simp: pieceChunk_def chunk_of_def piece_ok_def Piece_empty_def TextSpan_empty_def
          piece_buffer_def doc_orig_def Let_def)
  next
    case Add
    with ok ps assms(2) show ?thesis
      by (auto simp: pieceChunk_def chunk_of_def piece_ok_def Piece_empty_def TextSpan_empty_def
          piece_buffer_def doc_add_def TextSpan_end_def Let_def)
  qed
qed

lemma chunk_of_text:
  "piece_ok (doc_orig d) (doc_add d) p \<Longrightarrow>
   chunk_text (chunk_of d p) = piece_text (doc_orig d) (doc_add d) p \<and> chunk_valid (chunk_of d p)"
  by (auto simp: chunk_text_def chunk_of_def chunk_skip_def chunk_bytes_def piece_text_def substr_def
      chunk_valid_def piece_ok_def TextSpan_end_def)

lemma doc_chunks:
  assumes "pieces_ok (doc_orig d) (doc_add d) (td_pieces d)"
  shows "dv_chunks (doc_view d) = map (chunk_of d) (td_pieces d)"
proof -
  have n: "pieceCount d = length (td_pieces d)" by (simp add: pieceCount_def td_pieces_def split: option.splits)
  show ?thesis
    using pieceChunk_chunk_of [OF assms] by (intro nth_equalityI) (auto simp: doc_view_def n)
qed

lemma chunks_of_text:
  "pieces_ok (doc_orig d) (doc_add d) ps \<Longrightarrow>
   chunks_text (map (chunk_of d) ps) = pieces_text (doc_orig d) (doc_add d) ps
   \<and> list_all chunk_valid (map (chunk_of d) ps)"
  by (induction ps) (auto simp: chunk_of_text)

lemma doc_view_ok: "doc_ok d \<Longrightarrow> view_ok (doc_view d) (doc_text d)"
  using chunks_of_text [of d "td_pieces d"]
  by (auto simp: view_ok_def doc_ok_def doc_chunks) (simp_all add: doc_view_def doc_text_def)

lemma doc_source_ok: "doc_ok d \<Longrightarrow> source_ok (doc_source d) (doc_text d)"
proof -
  assume ok: "doc_ok d"
  have "length (doc_text d) \<le> length data \<and> take (length (doc_text d)) data = doc_text d"
    if direct: "directTextData d = Some data" for data
  proof -
    obtain p where p: "mPieces d = Some [p]" "span_start (span p) = 0" "span_length (span p) = mLength d"
    proof -
      from direct have "hasDirectOriginalView d" by (auto simp: directTextData_def split: if_splits)
      then obtain ps where ps: "mPieces d = Some ps" "length ps = 1" "span_start (span (ps ! 0)) = 0"
        "span_length (span (ps ! 0)) = mLength d"
        by (auto simp: hasDirectOriginalView_def Let_def split: option.splits)
      then have "ps = [ps ! 0]" by (cases ps) auto
      with ps show thesis by (intro that [of "ps ! 0"]) simp_all
    qed
    have "data = piece_buffer (doc_orig d) (doc_add d) p"
      using direct p(1) by (cases "source p")
        (auto simp: directTextData_def piece_buffer_def doc_orig_def doc_add_def split: if_splits)
    moreover have "doc_text d = substr (piece_buffer (doc_orig d) (doc_add d) p) 0 (mLength d)"
      using p by (simp add: doc_text_def td_pieces_def piece_text_def)
    moreover have "mLength d \<le> length (piece_buffer (doc_orig d) (doc_add d) p)"
      using ok p by (auto simp: doc_ok_def td_pieces_def piece_ok_def TextSpan_end_def)
    ultimately show ?thesis by (simp add: substr_def min_absorb1)
  qed
  with doc_view_ok [OF ok] show ?thesis by (auto simp: source_ok_def doc_source_def split: option.splits)
qed

lemma pieceText_spec:
  assumes "doc_ok d" shows "pieceText d p = piece_text (doc_orig d) (doc_add d) p"
  using assms mapped_sliceText [of "mMappedOriginal d" "span p"]
  by (cases "source p") (auto simp: pieceText_def piece_text_def piece_buffer_def doc_orig_def originalData_def
      doc_add_def doc_ok_def substr_def split: option.splits)

lemma ensureMaterialized_spec:
  assumes "doc_ok d"
  shows "doc_ok (ensureMaterialized d)" "doc_text (ensureMaterialized d) = doc_text d"
    "mMaterializedText (ensureMaterialized d) = doc_text d"
    "mVersion (ensureMaterialized d) = mVersion d" "mDocumentId (ensureMaterialized d) = mDocumentId d"
    "mLazyIndex (ensureMaterialized d) = mLazyIndex d" "mEditedLineStarts (ensureMaterialized d) = mEditedLineStarts d"
proof -
  have mat: "concat (map (pieceText d) (td_pieces d)) = doc_text d"
    using pieceText_spec [OF assms] by (simp add: doc_text_def pieces_text_def cong: map_cong)
  have em: "ensureMaterialized d = (if mCacheDirty d then d\<lparr>mMaterializedText := doc_text d, mCacheDirty := False\<rparr> else d)"
    unfolding ensureMaterialized_def using mat by (auto simp: td_pieces_def split: option.splits)
  show "mMaterializedText (ensureMaterialized d) = doc_text d" using assms by (auto simp: em doc_ok_def)
  show "mVersion (ensureMaterialized d) = mVersion d" "mDocumentId (ensureMaterialized d) = mDocumentId d"
    "mLazyIndex (ensureMaterialized d) = mLazyIndex d" "mEditedLineStarts (ensureMaterialized d) = mEditedLineStarts d"
    by (simp_all add: em)
  have "same_buffers d (ensureMaterialized d)" "td_pieces (ensureMaterialized d) = td_pieces d"
    "mLength (ensureMaterialized d) = mLength d"
    by (simp_all add: em same_buffers_def td_pieces_def)
  then show "doc_ok (ensureMaterialized d)" "doc_text (ensureMaterialized d) = doc_text d"
    using doc_ok_same [of d "ensureMaterialized d"] doc_text_same [of d "ensureMaterialized d"] assms
    by (auto simp: em doc_ok_def)
qed

end
