(* ===== verification/Doc_Edits.thy ===== *)
theory Doc_Edits
  imports Text_Document
begin

text \<open>
  What the edits of \<open>TextDocument\<close> do: each keeps \<open>doc_ok\<close>, changes the text as the same edit of
  a plain string would, and keeps \<open>index_ok\<close> when the edit neither joins nor splits a CR LF pair
  at its boundary (\<open>erase_safe\<close>, \<open>insert_safe\<close>, \<open>replace_safe\<close>).
\<close>

subsection \<open>The edits of a plain string\<close>

definition erase_text :: "string \<Rightarrow> Offset \<Rightarrow> Offset \<Rightarrow> string" where
  "erase_text s a e = take a s @ drop e s"

definition insert_text :: "string \<Rightarrow> Offset \<Rightarrow> string \<Rightarrow> string" where
  "insert_text s p t = take p s @ t @ drop p s"

definition replace_text :: "string \<Rightarrow> Offset \<Rightarrow> Offset \<Rightarrow> string \<Rightarrow> string" where
  "replace_text s a e t = take a s @ t @ drop e s"

definition clamped_erase :: "string \<Rightarrow> Range \<Rightarrow> string" where
  "clamped_erase s rng = (let r = Range_clamped rng (length s) in erase_text s (range_start r) (range_end r))"

definition clamped_insert :: "string \<Rightarrow> Offset \<Rightarrow> string \<Rightarrow> string" where
  "clamped_insert s p t = insert_text s (min p (length s)) t"

definition clamped_replace :: "string \<Rightarrow> Range \<Rightarrow> string \<Rightarrow> string" where
  "clamped_replace s rng t = (let r = Range_clamped rng (length s) in replace_text s (range_start r) (range_end r) t)"

text \<open>When an edit leaves every CR LF pair at its boundary as it was.\<close>

definition erase_safe :: "string \<Rightarrow> Offset \<Rightarrow> Offset \<Rightarrow> bool" where
  "erase_safe s a e \<longleftrightarrow> \<not> (seam (take a s) (drop e s) \<and> \<not> seam (take a s) (drop a s))"

definition insert_safe :: "string \<Rightarrow> Offset \<Rightarrow> string \<Rightarrow> bool" where
  "insert_safe s p t \<longleftrightarrow> t = [] \<or>
     \<not> seam (take p s) t \<and> \<not> seam t (drop p s) \<and> \<not> seam (take p s) (drop p s)"

definition replace_safe :: "string \<Rightarrow> Offset \<Rightarrow> Offset \<Rightarrow> string \<Rightarrow> bool" where
  "replace_safe s a e t \<longleftrightarrow> erase_safe s a e \<and> insert_safe (erase_text s a e) a t"

definition clamped_erase_safe :: "string \<Rightarrow> Range \<Rightarrow> bool" where
  "clamped_erase_safe s rng = (let r = Range_clamped rng (length s) in erase_safe s (range_start r) (range_end r))"

definition clamped_replace_safe :: "string \<Rightarrow> Range \<Rightarrow> string \<Rightarrow> bool" where
  "clamped_replace_safe s rng t = (let r = Range_clamped rng (length s) in replace_safe s (range_start r) (range_end r) t)"

lemma clamped_erase_id: "Range_empty (Range_clamped rng (length s)) \<Longrightarrow> clamped_erase s rng = s"
  by (simp add: clamped_erase_def erase_text_def Range_empty_def Let_def)

subsection \<open>Frames\<close>

lemma index_op_frame [frame_simps]:
  "same_buffers d (invalidateIndexFrom d o1)" "same_buffers d (shiftIndexForInsert d o1 n)"
  "same_buffers d (shiftIndexForErase d o1 n)" "same_buffers d (markDirty d)" "same_buffers d (bumpVersion d)"
  "mPieces (invalidateIndexFrom d o1) = mPieces d" "mPieces (shiftIndexForInsert d o1 n) = mPieces d"
  "mPieces (shiftIndexForErase d o1 n) = mPieces d" "mPieces (markDirty d) = mPieces d" "mPieces (bumpVersion d) = mPieces d"
  "mLength (invalidateIndexFrom d o1) = mLength d" "mLength (shiftIndexForInsert d o1 n) = mLength d"
  "mLength (shiftIndexForErase d o1 n) = mLength d" "mLength (markDirty d) = mLength d" "mLength (bumpVersion d) = mLength d"
  "mVersion (invalidateIndexFrom d o1) = mVersion d" "mVersion (shiftIndexForInsert d o1 n) = mVersion d"
  "mVersion (shiftIndexForErase d o1 n) = mVersion d" "mVersion (markDirty d) = mVersion d"
  "mDocumentId (invalidateIndexFrom d o1) = mDocumentId d" "mDocumentId (shiftIndexForInsert d o1 n) = mDocumentId d"
  "mDocumentId (shiftIndexForErase d o1 n) = mDocumentId d" "mDocumentId (markDirty d) = mDocumentId d"
  "mDocumentId (bumpVersion d) = mDocumentId d"
  "mEditedLineStarts (invalidateIndexFrom d o1) = mEditedLineStarts d"
  "mEditedLineStarts (shiftIndexForInsert d o1 n) = mEditedLineStarts d"
  "mEditedLineStarts (shiftIndexForErase d o1 n) = mEditedLineStarts d"
  "mEditedLineStarts (markDirty d) = mEditedLineStarts d" "mEditedLineStarts (bumpVersion d) = mEditedLineStarts d"
  "mLazyIndex (markDirty d) = mLazyIndex d" "mLazyIndex (bumpVersion d) = mLazyIndex d"
  "mCacheDirty (markDirty d)" "mCacheDirty (bumpVersion d) = mCacheDirty d"
  "mMaterializedText (bumpVersion d) = mMaterializedText d"
  by (simp_all add: invalidateIndexFrom_def shiftIndexForInsert_def shiftIndexForErase_def markDirty_def
      bumpVersion_def same_buffers_def)

lemma td_pieces_eq: "mPieces d' = mPieces d \<Longrightarrow> td_pieces d' = td_pieces d"
  by (simp add: td_pieces_def)

lemma doc_source_eq:
  assumes "same_buffers d d'" "mPieces d' = mPieces d" "mLength d' = mLength d"
  shows "doc_source d' = doc_source d"
proof -
  have eq: "originalData d' = originalData d" "mAddBuffer d' = mAddBuffer d"
    using assms(1) same_buffers_data(1) [OF assms(1)] by (simp_all add: same_buffers_def)
  have "pieceChunk d' = pieceChunk d"
    unfolding fun_eq_iff pieceChunk_def eq assms(2) by simp
  moreover have "directTextData d' = directTextData d"
    unfolding directTextData_def hasDirectOriginalView_def eq assms(2,3) by simp
  ultimately show ?thesis
    by (simp add: doc_source_def doc_view_def pieceCount_def assms(2,3))
qed

lemma bumpVersion_ok [simp]:
  "doc_ok (bumpVersion d) = doc_ok d" "doc_text (bumpVersion d) = doc_text d" "index_ok (bumpVersion d) = index_ok d"
proof -
  have *: "doc_text (bumpVersion d) = doc_text d"
    using doc_text_same [of d "bumpVersion d"] td_pieces_eq [of "bumpVersion d" d] by (simp add: frame_simps)
  then show "doc_text (bumpVersion d) = doc_text d" "index_ok (bumpVersion d) = index_ok d"
    by (simp_all add: index_ok_def frame_simps)
  show "doc_ok (bumpVersion d) = doc_ok d"
    using * td_pieces_eq [of "bumpVersion d" d] same_buffers_data [of d "bumpVersion d"] 
    by (simp add: doc_ok_def frame_simps) (simp add: bumpVersion_def)
qed

lemma ensureUniquePieces_frame [simp]:
  "same_buffers d (ensureUniquePieces d)" "td_pieces (ensureUniquePieces d) = td_pieces d"
  "mLength (ensureUniquePieces d) = mLength d" "mVersion (ensureUniquePieces d) = mVersion d"
  "mDocumentId (ensureUniquePieces d) = mDocumentId d" "mLazyIndex (ensureUniquePieces d) = mLazyIndex d"
  "mEditedLineStarts (ensureUniquePieces d) = mEditedLineStarts d"
  by (simp_all add: ensureUniquePieces_def td_pieces_def same_buffers_def split: option.splits)

lemma same_buffers_trans: "same_buffers d d1 \<Longrightarrow> same_buffers d1 d2 \<Longrightarrow> same_buffers d d2"
  by (simp add: same_buffers_def)

text \<open>A document whose pieces were rewritten over the same buffers.\<close>

lemma rewritten_doc_ok:
  assumes "doc_ok d" "same_buffers d d'" "mPieces d' = Some ps" "pieces_ok (doc_orig d) (doc_add d) ps"
    and "pieces_text (doc_orig d) (doc_add d) ps = s'" "mLength d' = length s'" "length s' < size_max" "mCacheDirty d'"
  shows "doc_ok d'" "doc_text d' = s'"
proof -
  have ps: "td_pieces d' = ps" using assms(3) by (simp add: td_pieces_def)
  show "doc_text d' = s'" using assms(2,5) ps by (simp add: doc_text_def same_buffers_data)
  with assms ps show "doc_ok d'" by (simp add: doc_ok_def same_buffers_data) (simp add: same_buffers_def)
qed

subsection \<open>erase\<close>

definition erase_tail :: "TextDocument \<Rightarrow> bool \<Rightarrow> Range \<Rightarrow> TextDocument" where
  "erase_tail d2 preserve bounded =
     (let d3 = (if preserve then shiftIndexForErase d2 (range_start bounded) (Range_length bounded)
                else invalidateIndexFrom d2 (range_start bounded));
          d4 = (if hasEditedLineStartIndex (mEditedLineStarts d3)
                then d3\<lparr>mEditedLineStarts :=
                          updateEditedLineStartIndexForErase (doc_source d3) (mEditedLineStarts d3) bounded\<rparr>
                else d3)
      in markDirty d4)"

lemma erase_tail_frame:
  "same_buffers d2 (erase_tail d2 pr rng)" "mPieces (erase_tail d2 pr rng) = mPieces d2"
  "mLength (erase_tail d2 pr rng) = mLength d2" "mVersion (erase_tail d2 pr rng) = mVersion d2"
  "mDocumentId (erase_tail d2 pr rng) = mDocumentId d2" "mCacheDirty (erase_tail d2 pr rng)"
  "mLazyIndex (erase_tail d2 pr rng) =
     (if pr then (if Range_length rng = 0 then mLazyIndex d2
                  else shiftLazyLineIndexForEraseWithoutLineBreak (mLazyIndex d2) (range_start rng) (Range_length rng))
      else invalidateLazyLineIndexFrom (mLength d2) (mLazyIndex d2) (range_start rng))"
  "mEditedLineStarts (erase_tail d2 pr rng) =
     (if hasEditedLineStartIndex (mEditedLineStarts d2)
      then updateEditedLineStartIndexForErase (doc_source d2) (mEditedLineStarts d2) rng else mEditedLineStarts d2)"
proof -
  let ?d3 = "if pr then shiftIndexForErase d2 (range_start rng) (Range_length rng) else invalidateIndexFrom d2 (range_start rng)"
  have "doc_source ?d3 = doc_source d2" by (rule doc_source_eq) (auto simp: frame_simps)
  then show "mEditedLineStarts (erase_tail d2 pr rng) =
     (if hasEditedLineStartIndex (mEditedLineStarts d2)
      then updateEditedLineStartIndexForErase (doc_source d2) (mEditedLineStarts d2) rng else mEditedLineStarts d2)"
    by (auto simp: erase_tail_def Let_def markDirty_def frame_simps)
  show "same_buffers d2 (erase_tail d2 pr rng)" "mPieces (erase_tail d2 pr rng) = mPieces d2"
    "mLength (erase_tail d2 pr rng) = mLength d2" "mVersion (erase_tail d2 pr rng) = mVersion d2"
    "mDocumentId (erase_tail d2 pr rng) = mDocumentId d2" "mCacheDirty (erase_tail d2 pr rng)"
    "mLazyIndex (erase_tail d2 pr rng) =
     (if pr then (if Range_length rng = 0 then mLazyIndex d2
                  else shiftLazyLineIndexForEraseWithoutLineBreak (mLazyIndex d2) (range_start rng) (Range_length rng))
      else invalidateLazyLineIndexFrom (mLength d2) (mLazyIndex d2) (range_start rng))"
    by (simp_all add: erase_tail_def Let_def markDirty_def shiftIndexForErase_def invalidateIndexFrom_def same_buffers_def)
qed

lemma eraseNoVersionBump_tail:
  assumes "doc_ok d" "bounded = Range_clamped rng (mLength d)" "\<not> Range_empty bounded"
  obtains ps d2 where
    "eraseNoVersionBump d rng = (erase_tail d2 (preservesLazyIndex d bounded) bounded, True)"
    "same_buffers d d2" "mPieces d2 = Some ps" "mVersion d2 = mVersion d" "mDocumentId d2 = mDocumentId d"
    "mLazyIndex d2 = mLazyIndex d" "mEditedLineStarts d2 = mEditedLineStarts d"
    "pieces_ok (doc_orig d) (doc_add d) ps"
    "pieces_text (doc_orig d) (doc_add d) ps = erase_text (doc_text d) (range_start bounded) (range_end bounded)"
    "mLength d2 = length (erase_text (doc_text d) (range_start bounded) (range_end bounded))"
proof -
  let ?a = "range_start bounded" and ?e = "range_end bounded"
  have ae: "?a \<le> ?e" "?e \<le> mLength d" using assms(2) Range_clamped_le [of rng "mLength d"] by auto
  obtain ps1 i where s1: "splitAt (td_pieces d) (mLength d) ?a = (ps1, i)" by (metis surj_pair)
  obtain ps2 j where s2: "splitAt ps1 (mLength d) ?e = (ps2, j)" by (metis surj_pair)
  define ps3 where "ps3 = mergeAdjacentPiecesAt (pieces_erase ps2 i j) i"
  define d2 where "d2 = (ensureUniquePieces d)\<lparr>mPieces := Some ps3, mLength := mLength d - (?e - ?a)\<rparr>"
  have ok: "pieces_ok (doc_orig d) (doc_add d) (td_pieces d)" "mLength d = length (doc_text d)"
    "mLength d = length (pieces_text (doc_orig d) (doc_add d) (td_pieces d))"
    using assms(1) by (auto simp: doc_ok_def doc_text_def)
  note ps3 = pieces_erase_spec [OF ok(1,3) ae s1 s2 ps3_def]
  show thesis
  proof (rule that [of d2 ps3])
    show "eraseNoVersionBump d rng = (erase_tail d2 (preservesLazyIndex d bounded) bounded, True)"
      using assms(2,3) s1 s2
      by (simp add: eraseNoVersionBump_def erase_tail_def Let_def d2_def ps3_def)
    show "same_buffers d d2"
      using ensureUniquePieces_frame(1) [of d] by (simp add: d2_def same_buffers_def)
    show "pieces_ok (doc_orig d) (doc_add d) ps3" by (rule ps3(1))
    show "pieces_text (doc_orig d) (doc_add d) ps3 = erase_text (doc_text d) ?a ?e"
      using ps3(2) by (simp add: erase_text_def doc_text_def)
    show "mLength d2 = length (erase_text (doc_text d) ?a ?e)"
      using ae ok(2) by (simp add: d2_def erase_text_def)
  qed (simp_all add: d2_def)
qed

lemma removed_breaks_zero:
  assumes "source_ok src s" "s = x @ m @ z" "m \<noteq> []"
    and "(case ts_direct src of
            Some d \<Rightarrow> directCountLineBreaksInRange (Some d) (ts_length src) (length x) (length x + length m)
          | None \<Rightarrow> piecewiseCountLineBreaksInRange (ts_view src) (length x) (length x + length m)) = 0"
  shows "breaks_before s (length x + length m) = breaks_before s (length x) + of_bool (seam x m)"
proof -
  have mid: "mid_crlf s (length x) = seam x m"
    using assms(2,3) mid_crlf_seam [of "length x" s] by (simp add: seam_append_right)
  show ?thesis
  proof (cases "ts_direct src")
    case None
    with assms mid piecewiseCountLineBreaksInRange_spec [of "ts_view src" s "length x" "length x + length m"]
    show ?thesis by (simp add: source_ok_def)
  next
    case (Some d)
    with assms mid source_direct [OF assms(1) Some] directCount_take [of "length s" d "length x" "length x + length m"]
      directCountLineBreaksInRange_spec [of "length x" "length x + length m" s]
    show ?thesis by (simp add: source_ok_length)
  qed
qed

lemma preservesLazyIndex_spec:
  assumes "doc_ok d" "doc_text d = x @ m @ z" "m \<noteq> []" "rng = mkRange (length x) (length x + length m)"
    and "preservesLazyIndex d rng"
  shows "\<not> hasEditedLineStartIndex (mEditedLineStarts d)" "mLazyLineIndexComplete (mLazyIndex d)" "\<not> seam x z"
    "breaks_before (x @ m @ z) (length x + length m) = breaks_before (x @ m @ z) (length x) + of_bool (seam x m)"
proof -
  note src = doc_source_ok [OF assms(1)]
  have len: "mLength d = length (x @ m @ z)" using assms(1,2) by (simp add: doc_ok_def)
  show "\<not> hasEditedLineStartIndex (mEditedLineStarts d)" "mLazyLineIndexComplete (mLazyIndex d)"
    using assms(5) by (auto simp: preservesLazyIndex_def split: if_splits)
  have cnt: "(case directTextData d of
        Some data \<Rightarrow> directCountLineBreaksInRange (Some data) (mLength d) (length x) (length x + length m)
      | None \<Rightarrow> piecewiseCountLineBreaksInRange (doc_view d) (length x) (length x + length m)) = 0"
    and crlf: "\<not> (length x > 0 \<and> length x + length m < mLength d
               \<and> charAt (doc_source d) (length x - 1) = CR \<and> charAt (doc_source d) (length x + length m) = LF)"
    using assms(5) unfolding assms(4) preservesLazyIndex_def Let_def mkRange_sel by (simp_all split: if_splits)
  show "breaks_before (x @ m @ z) (length x + length m) = breaks_before (x @ m @ z) (length x) + of_bool (seam x m)"
    using removed_breaks_zero [OF src assms(2,3)] cnt assms(2) by (simp add: doc_source_def doc_view_def cong: option.case_cong)
  show "\<not> seam x z"
  proof
    assume seam: "seam x z"
    then have *: "0 < length x" "z \<noteq> []" "last x = CR" "hd z = LF" by (auto simp: seam_def)
    then have "(x @ m @ z) ! (length x - 1) = CR" "(x @ m @ z) ! (length x + length m) = LF"
      by (auto simp: nth_append last_conv_nth hd_conv_nth)
    moreover have "length x - 1 < length (x @ m @ z)" using *(1) unfolding length_append by linarith
    ultimately show False using crlf len * by (simp add: charAt_spec [OF src] assms(2))
  qed
qed

lemma cut_text:
  assumes "a \<le> e" "e \<le> length s" "x = take a s" "m = substr s a (e - a)" "z = drop e s"
  shows "s = x @ m @ z" "length x = a" "length x + length m = e" "erase_text s a e = x @ z" "drop a s = m @ z"
proof -
  have "drop a s = take (e - a) (drop a s) @ drop (e - a) (drop a s)" by (simp only: append_take_drop_id)
  also have "drop (e - a) (drop a s) = drop e s" using assms(1) by simp
  finally show da: "drop a s = m @ z" using assms(4,5) by (simp add: substr_def)
  show "s = x @ m @ z" using da assms(3) append_take_drop_id [of a s] by simp
  show "length x = a" "length x + length m = e" "erase_text s a e = x @ z"
    using assms by (auto simp: erase_text_def)
qed

lemma eraseNoVersionBump_spec:
  assumes "doc_ok d" "eraseNoVersionBump d rng = (d', b)"
  shows "doc_ok d'" "doc_text d' = clamped_erase (doc_text d) rng"
    "b \<longleftrightarrow> \<not> Range_empty (Range_clamped rng (mLength d))" "same_buffers d d'"
    "mVersion d' = mVersion d" "mDocumentId d' = mDocumentId d"
    "index_ok d \<Longrightarrow> clamped_erase_safe (doc_text d) rng \<Longrightarrow> index_ok d'"
proof -
  define bounded where "bounded = Range_clamped rng (mLength d)"
  let ?a = "range_start bounded" and ?e = "range_end bounded" and ?s = "doc_text d"
  have len: "mLength d = length ?s" using assms(1) by (simp add: doc_ok_def)
  have "doc_ok d' \<and> doc_text d' = clamped_erase ?s rng \<and> (b \<longleftrightarrow> \<not> Range_empty bounded) \<and> same_buffers d d'
      \<and> mVersion d' = mVersion d \<and> mDocumentId d' = mDocumentId d
      \<and> (index_ok d \<longrightarrow> clamped_erase_safe ?s rng \<longrightarrow> index_ok d')"
  proof (cases "Range_empty bounded")
    case True
    then have "d' = d" "\<not> b" using assms(2) by (auto simp: eraseNoVersionBump_def bounded_def)
    with True assms(1) len show ?thesis by (simp add: clamped_erase_id bounded_def)
  next
    case False
    obtain d2 ps where tail: "eraseNoVersionBump d rng = (erase_tail d2 (preservesLazyIndex d bounded) bounded, True)"
      and d2: "same_buffers d d2" "mPieces d2 = Some ps" "mVersion d2 = mVersion d" "mDocumentId d2 = mDocumentId d"
        "mLazyIndex d2 = mLazyIndex d" "mEditedLineStarts d2 = mEditedLineStarts d"
        "pieces_ok (doc_orig d) (doc_add d) ps" "pieces_text (doc_orig d) (doc_add d) ps = erase_text ?s ?a ?e"
        "mLength d2 = length (erase_text ?s ?a ?e)"
      by (rule eraseNoVersionBump_tail [OF assms(1) bounded_def False])
    define x m z where "x = take ?a ?s" "m = substr ?s ?a (?e - ?a)" "z = drop ?e ?s"
    have ae: "?a \<le> ?e" "?e \<le> length ?s" using Range_clamped_le [of rng "mLength d"] len by (auto simp: bounded_def)
    note cut = cut_text [OF ae x_m_z_def]
    have m: "m \<noteq> []" using cut(2,3) False ae by (auto simp: Range_empty_def)
    have rng: "bounded = mkRange (length x) (length x + length m)" using cut(2,3) by (simp add: mkRange_def)
    have d': "d' = erase_tail d2 (preservesLazyIndex d bounded) bounded" "b" using assms(2) tail by auto
    have small: "length (erase_text ?s ?a ?e) < size_max"
      using assms(1) ae by (simp add: doc_ok_def erase_text_def) linarith
    have sb: "same_buffers d d'" using d2(1) d'(1) erase_tail_frame(1) same_buffers_trans by blast
    have doc: "doc_ok d'" "doc_text d' = x @ z"
      using rewritten_doc_ok [OF assms(1) sb _ d2(7,8) _ small] d2(2,9) d'(1) cut(4) by (simp_all add: erase_tail_frame)
    have src: "source_ok (doc_source d2) (x @ z)"
      using doc_source_ok [OF doc(1)] doc_source_eq [of d2 d'] doc(2) d'(1) by (simp add: erase_tail_frame)
    have "index_ok d'" if "index_ok d" "clamped_erase_safe ?s rng"
    proof -
      have ok: "lazy_ok (x @ m @ z) (mLazyIndex d)" "edited_ok (x @ m @ z) (mEditedLineStarts d)"
        using that(1) cut(1) by (simp_all add: index_ok_def)
      have safe: "seam x z \<longrightarrow> seam x m"
        using that(2) m x_m_z_def(1,3) cut(5) len
        by (auto simp: clamped_erase_safe_def erase_safe_def Let_def bounded_def seam_append_right)
      have "lazy_ok (x @ z) (mLazyIndex d')"
      proof (cases "preservesLazyIndex d bounded")
        case True
        note pr = preservesLazyIndex_spec [OF assms(1) cut(1) m rng True]
        have "Range_length bounded = length m" using rng by (simp add: Range_length_def)
        with shift_erase_ok [OF ok(1) pr(2) m pr(3,4)] True d2(5) d'(1) m cut(2) show ?thesis
          by (simp add: erase_tail_frame)
      next
        case False
        have "seam x z \<longrightarrow> seam x (m @ z)" using safe m by (simp add: seam_append_right)
        from invalidate_ok [OF ok(1) this refl] False d2(5,9) d'(1) cut(2,4) show ?thesis
          by (simp add: erase_tail_frame)
      qed
      moreover have "edited_ok (x @ z) (mEditedLineStarts d')"
        using update_edited_erase [OF src ok(2) safe m rng] d2(6) d'(1) by (simp add: erase_tail_frame edited_ok_def)
      ultimately show ?thesis using doc(2) by (simp add: index_ok_def)
    qed
    moreover have "doc_text d' = clamped_erase ?s rng"
      using doc(2) cut(4) len by (simp add: clamped_erase_def bounded_def)
    ultimately show ?thesis using doc(1) sb d' d2 False by (simp add: erase_tail_frame)
  qed
  then show "doc_ok d'" "doc_text d' = clamped_erase ?s rng"
    "b \<longleftrightarrow> \<not> Range_empty (Range_clamped rng (mLength d))" "same_buffers d d'"
    "mVersion d' = mVersion d" "mDocumentId d' = mDocumentId d"
    "index_ok d \<Longrightarrow> clamped_erase_safe ?s rng \<Longrightarrow> index_ok d'"
    by (simp_all add: bounded_def)
qed

subsection \<open>insert\<close>

definition insert_tail :: "TextDocument \<Rightarrow> Offset \<Rightarrow> TextSpan \<Rightarrow> TextDocument" where
  "insert_tail d2 logical sp =
     (let inserted = substr (AppendBuffer_text (mAddBuffer d2)) (span_start sp) (span_length sp);
          insertedLineBreak = list_ex isLineBreakByte inserted;
          d3 = (if insertedLineBreak then invalidateIndexFrom d2 logical
                else shiftIndexForInsert d2 logical (span_length sp));
          d4 = (if hasEditedLineStartIndex (mEditedLineStarts d3)
                then d3\<lparr>mEditedLineStarts :=
                          updateEditedLineStartIndexForInsert (doc_source d3) (mEditedLineStarts d3) logical inserted\<rparr>
                else d3)
      in markDirty d4)"

lemma insert_tail_frame:
  "same_buffers d2 (insert_tail d2 p sp)" "mPieces (insert_tail d2 p sp) = mPieces d2"
  "mLength (insert_tail d2 p sp) = mLength d2" "mVersion (insert_tail d2 p sp) = mVersion d2"
  "mDocumentId (insert_tail d2 p sp) = mDocumentId d2" "mCacheDirty (insert_tail d2 p sp)"
  "substr (doc_add d2) (span_start sp) (span_length sp) = t \<Longrightarrow>
   mLazyIndex (insert_tail d2 p sp) =
     (if list_ex isLineBreakByte t then invalidateLazyLineIndexFrom (mLength d2) (mLazyIndex d2) p
      else if span_length sp = 0 then mLazyIndex d2
      else shiftLazyLineIndexForInsertWithoutLineBreak (mLength d2) (mLazyIndex d2) p (span_length sp))"
  "substr (doc_add d2) (span_start sp) (span_length sp) = t \<Longrightarrow>
   mEditedLineStarts (insert_tail d2 p sp) =
     (if hasEditedLineStartIndex (mEditedLineStarts d2)
      then updateEditedLineStartIndexForInsert (doc_source d2) (mEditedLineStarts d2) p t else mEditedLineStarts d2)"
proof -
  let ?d3 = "if list_ex isLineBreakByte t then invalidateIndexFrom d2 p else shiftIndexForInsert d2 p (span_length sp)"
  have "doc_source ?d3 = doc_source d2" by (rule doc_source_eq) (auto simp: frame_simps)
  then show "substr (doc_add d2) (span_start sp) (span_length sp) = t \<Longrightarrow>
   mEditedLineStarts (insert_tail d2 p sp) =
     (if hasEditedLineStartIndex (mEditedLineStarts d2)
      then updateEditedLineStartIndexForInsert (doc_source d2) (mEditedLineStarts d2) p t else mEditedLineStarts d2)"
    by (auto simp: insert_tail_def Let_def markDirty_def doc_add_def frame_simps)
  show "same_buffers d2 (insert_tail d2 p sp)" "mPieces (insert_tail d2 p sp) = mPieces d2"
    "mLength (insert_tail d2 p sp) = mLength d2" "mVersion (insert_tail d2 p sp) = mVersion d2"
    "mDocumentId (insert_tail d2 p sp) = mDocumentId d2" "mCacheDirty (insert_tail d2 p sp)"
    "substr (doc_add d2) (span_start sp) (span_length sp) = t \<Longrightarrow>
     mLazyIndex (insert_tail d2 p sp) =
     (if list_ex isLineBreakByte t then invalidateLazyLineIndexFrom (mLength d2) (mLazyIndex d2) p
      else if span_length sp = 0 then mLazyIndex d2
      else shiftLazyLineIndexForInsertWithoutLineBreak (mLength d2) (mLazyIndex d2) p (span_length sp))"
    by (simp_all add: insert_tail_def Let_def markDirty_def shiftIndexForInsert_def invalidateIndexFrom_def
        same_buffers_def doc_add_def)
qed

lemma grown_buffer_ok:
  assumes "doc_ok d" "d1 = d\<lparr>mAddBuffer := Some (doc_add d @ t)\<rparr>"
  shows "doc_ok d1" "doc_text d1 = doc_text d" "doc_orig d1 = doc_orig d" "doc_add d1 = doc_add d @ t"
proof -
  have od: "originalData d1 = originalData d" by (simp add: originalData_def assms(2))
  then show orig: "doc_orig d1 = doc_orig d" and add: "doc_add d1 = doc_add d @ t"
    by (simp_all add: doc_orig_def doc_add_def assms(2))
  have ps: "td_pieces d1 = td_pieces d" by (simp add: td_pieces_def assms(2))
  note grow = pieces_grow [of "doc_orig d" "doc_add d" "td_pieces d" t]
  show tx: "doc_text d1 = doc_text d"
    using grow assms(1) by (simp add: doc_text_def orig add ps doc_ok_def)
  show "doc_ok d1" using grow(1) assms(1) tx by (simp add: doc_ok_def orig add ps) (simp add: assms(2))
qed

lemma appendAndInsert_tail:
  assumes "doc_ok d" "t \<noteq> []" "length (doc_text d) + length t < size_max" "p = min off (mLength d)"
    and "sp = mkSpan (length (doc_add d)) (length t)"
  obtains ps d2 where
    "appendAndInsert d off t = (insert_tail d2 p sp, True)"
    "same_buffers (d\<lparr>mAddBuffer := Some (doc_add d @ t)\<rparr>) d2"
    "mPieces d2 = Some ps" "mVersion d2 = mVersion d" "mDocumentId d2 = mDocumentId d"
    "mLazyIndex d2 = mLazyIndex d" "mEditedLineStarts d2 = mEditedLineStarts d"
    "pieces_ok (doc_orig d) (doc_add d @ t) ps"
    "pieces_text (doc_orig d) (doc_add d @ t) ps = insert_text (doc_text d) p t"
    "mLength d2 = length (insert_text (doc_text d) p t)"
proof -
  define d1 where "d1 = d\<lparr>mAddBuffer := Some (doc_add d @ t)\<rparr>"
  note g = grown_buffer_ok [OF assms(1) d1_def]
  have len: "mLength d1 = length (doc_text d)" "mLength d = length (doc_text d)"
    using assms(1) by (simp_all add: d1_def doc_ok_def)
  obtain ps1 k where s1: "splitAt (td_pieces d1) (mLength d1) p = (ps1, k)" by (metis surj_pair)
  define ps2 where "ps2 = mergeAdjacentPiecesAt (pieces_insert ps1 k (mkPiece Add sp)) k"
  define d2 where "d2 = (ensureUniquePieces d1)\<lparr>mPieces := Some ps2, mLength := wrap64 (mLength d1 + span_length sp)\<rparr>"
  have new: "pieces_ok (doc_orig d1) (doc_add d1) [mkPiece Add sp]"
    "piece_text (doc_orig d1) (doc_add d1) (mkPiece Add sp) = t"
    using assms(2,5) by (simp_all add: piece_ok_def piece_text_def piece_buffer_def g TextSpan_end_def substr_def)
  have old: "pieces_ok (doc_orig d1) (doc_add d1) (td_pieces d1)"
    "mLength d1 = length (pieces_text (doc_orig d1) (doc_add d1) (td_pieces d1))"
    using g(1) by (auto simp: doc_ok_def doc_text_def)
  have "p \<le> mLength d1" using assms(4) len by simp
  note ps2 = pieces_insert_spec [OF old(1) new(1) old(2) this s1 ps2_def]
  show thesis
  proof (rule that [of d2 ps2])
    have "appendAndInsert d off t = insertAddSpanNoVersionBump d1 off sp"
      using assms(5) by (simp add: appendAndInsert_def AppendBuffer_append_eq d1_def doc_add_def)
    also have "\<dots> = (insert_tail d2 p sp, True)"
      using assms(2,4,5) s1 len
      by (simp add: insertAddSpanNoVersionBump_def insert_tail_def Let_def d2_def ps2_def TextSpan_empty_def)
    finally show "appendAndInsert d off t = (insert_tail d2 p sp, True)" .
    show "same_buffers (d\<lparr>mAddBuffer := Some (doc_add d @ t)\<rparr>) d2"
      using ensureUniquePieces_frame(1) [of d1] by (simp add: d2_def same_buffers_def flip: d1_def)
    show "pieces_ok (doc_orig d) (doc_add d @ t) ps2" using ps2(1) g by simp
    show "pieces_text (doc_orig d) (doc_add d @ t) ps2 = insert_text (doc_text d) p t"
      using ps2(2) new(2) g by (simp add: insert_text_def doc_text_def)
    show "mLength d2 = length (insert_text (doc_text d) p t)"
      using len assms(3,4,5) by (simp add: d2_def insert_text_def)
  qed (simp_all add: d2_def d1_def)
qed

lemma appendAndInsert_spec:
  assumes "doc_ok d" "t \<noteq> []" "length (doc_text d) + length t < size_max" "appendAndInsert d off t = (d', b)"
  shows "doc_ok d'" "doc_text d' = clamped_insert (doc_text d) off t" "b"
    "mVersion d' = mVersion d" "mDocumentId d' = mDocumentId d"
    "index_ok d \<Longrightarrow> insert_safe (doc_text d) (min off (length (doc_text d))) t \<Longrightarrow> index_ok d'"
proof -
  define p where "p = min off (mLength d)"
  define sp where "sp = mkSpan (length (doc_add d)) (length t)"
  define d1 where "d1 = d\<lparr>mAddBuffer := Some (doc_add d @ t)\<rparr>"
  note g = grown_buffer_ok [OF assms(1) d1_def]
  obtain d2 ps where tail: "appendAndInsert d off t = (insert_tail d2 p sp, True)"
    and d2: "same_buffers d1 d2" "mPieces d2 = Some ps" "mVersion d2 = mVersion d" "mDocumentId d2 = mDocumentId d"
      "mLazyIndex d2 = mLazyIndex d" "mEditedLineStarts d2 = mEditedLineStarts d"
      "pieces_ok (doc_orig d) (doc_add d @ t) ps"
      "pieces_text (doc_orig d) (doc_add d @ t) ps = insert_text (doc_text d) p t"
      "mLength d2 = length (insert_text (doc_text d) p t)"
    unfolding d1_def by (rule appendAndInsert_tail [OF assms(1-3) p_def sp_def])
  have d': "d' = insert_tail d2 p sp" "b" using assms(4) tail by auto
  define x z where "x = take p (doc_text d)" "z = drop p (doc_text d)"
  have len: "mLength d = length (doc_text d)" using assms(1) by (simp add: doc_ok_def)
  have cut: "doc_text d = x @ z" "length x = p" "insert_text (doc_text d) p t = x @ t @ z"
    using len by (simp_all add: x_z_def insert_text_def p_def)
  have sb: "same_buffers d1 d'" using d2(1) d'(1) insert_tail_frame(1) same_buffers_trans by blast
  have small: "length (insert_text (doc_text d) p t) < size_max" using assms(3) by (simp add: insert_text_def)
  have doc: "doc_ok d'" "doc_text d' = x @ t @ z"
    using rewritten_doc_ok [OF g(1) sb, of ps] d2(2,7,8,9) d'(1) small cut(3) g by (simp_all add: insert_tail_frame)
  show "doc_ok d'" "b" using doc d' by auto
  show "doc_text d' = clamped_insert (doc_text d) off t"
    using doc(2) cut(3) by (simp add: clamped_insert_def p_def len)
  show "mVersion d' = mVersion d" "mDocumentId d' = mDocumentId d" using d' d2 by (simp_all add: insert_tail_frame)
  assume ix: "index_ok d" and safe: "insert_safe (doc_text d) (min off (length (doc_text d))) t"
  have no: "\<not> seam x t" "\<not> seam t z" "\<not> seam x z"
    using safe assms(2) by (simp_all add: insert_safe_def x_z_def p_def len)
  have ok: "lazy_ok (x @ z) (mLazyIndex d)" "edited_ok (x @ z) (mEditedLineStarts d)"
    using ix cut(1) by (simp_all add: index_ok_def)
  have src: "source_ok (doc_source d2) (x @ t @ z)"
    using doc_source_ok [OF doc(1)] doc_source_eq [of d2 d'] doc(2) d'(1) by (simp add: insert_tail_frame)
  have "doc_add d2 = doc_add d @ t" using same_buffers_data(3) [OF d2(1)] g by simp
  then have ins: "substr (doc_add d2) (span_start sp) (span_length sp) = t"
    by (simp add: sp_def substr_def)
  have "lazy_ok (x @ t @ z) (mLazyIndex d')"
  proof (cases "list_ex isLineBreakByte t")
    case True
    have "seam x (t @ z) \<longrightarrow> seam x z" using no assms(2) by (simp add: seam_append_right)
    from invalidate_ok [OF ok(1) this refl] True d2(5,9) d'(1) cut show ?thesis
      by (simp add: insert_tail_frame(7) [OF ins])
  next
    case False
    then have plain: "\<forall>c \<in> set t. \<not> isLineBreakByte c" by (simp add: list_ex_iff)
    from shift_insert_ok [OF ok(1) plain no(3) refl] False d2(5,9) d'(1) cut assms(2) show ?thesis
      using insert_tail_frame(7) [OF ins, of p] by (simp add: sp_def)
  qed
  moreover have "edited_ok (x @ t @ z) (mEditedLineStarts d')"
    using update_edited_insert [OF src ok(2) no assms(2)] d2(6) d'(1) cut(2)
    by (simp add: insert_tail_frame(8) [OF ins] edited_ok_def)
  ultimately show "index_ok d'" using doc(2) by (simp add: index_ok_def)
qed

subsection \<open>replace, setText and the initializers\<close>

lemma erase_then_insert:
  "a \<le> length s \<Longrightarrow> insert_text (erase_text s a e) a t = replace_text s a e t"
  by (simp add: insert_text_def erase_text_def replace_text_def)

lemma length_clamped_erase: "length (clamped_erase s rng) \<le> length s"
proof -
  define a e where "a = range_start (Range_clamped rng (length s))" "e = range_end (Range_clamped rng (length s))"
  have "a \<le> e" "e \<le> length s" using Range_clamped_le [of rng "length s"] by (simp_all only: a_e_def)
  then show ?thesis by (simp add: clamped_erase_def erase_text_def Let_def flip: a_e_def)
qed

lemma Range_clamped_same [simp]: "Range_clamped (Range_clamped r n) n = Range_clamped r n"
  by (rule Range_clamped_idem)

lemma replaceNoVersionBump_spec:
  assumes "doc_ok d" "length (doc_text d) + length t < size_max" "replaceNoVersionBump d rng t = (d', b)"
  shows "doc_ok d'" "doc_text d' = clamped_replace (doc_text d) rng t"
    "b \<longleftrightarrow> t \<noteq> [] \<or> \<not> Range_empty (Range_clamped rng (mLength d))"
    "mVersion d' = mVersion d" "mDocumentId d' = mDocumentId d"
    "index_ok d \<Longrightarrow> clamped_replace_safe (doc_text d) rng t \<Longrightarrow> index_ok d'"
proof -
  define r where "r = Range_clamped rng (mLength d)"
  let ?s = "doc_text d"
  have len: "mLength d = length ?s" using assms(1) by (simp add: doc_ok_def)
  obtain d1 removed where e: "eraseNoVersionBump d r = (d1, removed)" by (metis surj_pair)
  note er = eraseNoVersionBump_spec [OF assms(1) e]
  have s1: "doc_text d1 = erase_text ?s (range_start r) (range_end r)"
    using er(2) by (simp add: clamped_erase_def r_def len Let_def)
  have ae: "range_start r \<le> range_end r" "range_end r \<le> length ?s"
    using Range_clamped_le [of rng "mLength d"] len by (simp_all only: r_def)
  have a: "range_start r \<le> length ?s" "range_start r \<le> length (doc_text d1)"
    using ae by (simp_all add: s1 erase_text_def)
  have rm: "removed \<longleftrightarrow> \<not> Range_empty r" using er(3) by (simp add: r_def)
  have ix1: "index_ok d \<Longrightarrow> erase_safe ?s (range_start r) (range_end r) \<Longrightarrow> index_ok d1"
    using er(7) by (simp add: clamped_erase_safe_def r_def len Let_def)
  have "doc_ok d' \<and> doc_text d' = clamped_replace ?s rng t \<and> (b \<longleftrightarrow> t \<noteq> [] \<or> \<not> Range_empty r)
      \<and> mVersion d' = mVersion d \<and> mDocumentId d' = mDocumentId d
      \<and> (index_ok d \<longrightarrow> clamped_replace_safe ?s rng t \<longrightarrow> index_ok d')"
  proof (cases "t = []")
    case True
    then have "d' = d1" "b = removed" using assms(3) e by (auto simp: replaceNoVersionBump_def Let_def r_def)
    with True er s1 rm ix1 len show ?thesis
      by (simp add: clamped_replace_def clamped_replace_safe_def replace_safe_def replace_text_def erase_text_def
          r_def Let_def)
  next
    case False
    obtain d2 ins where i: "appendAndInsert d1 (range_start r) t = (d2, ins)" by (metis surj_pair)
    have "length (doc_text d1) + length t < size_max"
      using assms(2) length_clamped_erase [of ?s r] er(2) by simp
    note ap = appendAndInsert_spec [OF er(1) False this i]
    have res: "d' = d2" "b" using assms(3) e i False ap(3) by (auto simp: replaceNoVersionBump_def Let_def r_def)
    have "doc_text d2 = insert_text (erase_text ?s (range_start r) (range_end r)) (range_start r) t"
      using ap(2) a(2) by (simp add: clamped_insert_def s1 min_absorb1)
    then have "doc_text d2 = clamped_replace ?s rng t"
      using a(1) by (simp add: erase_then_insert clamped_replace_def r_def len Let_def)
    moreover have "index_ok d \<longrightarrow> clamped_replace_safe ?s rng t \<longrightarrow> index_ok d2"
      using ap(6) ix1 a(2) by (simp add: clamped_replace_safe_def replace_safe_def r_def len Let_def s1 min_absorb1)
    ultimately show ?thesis using ap er res False by simp
  qed
  then show "doc_ok d'" "doc_text d' = clamped_replace ?s rng t"
    "b \<longleftrightarrow> t \<noteq> [] \<or> \<not> Range_empty (Range_clamped rng (mLength d))"
    "mVersion d' = mVersion d" "mDocumentId d' = mDocumentId d"
    "index_ok d \<Longrightarrow> clamped_replace_safe ?s rng t \<Longrightarrow> index_ok d'"
    by (auto simp: r_def)
qed

lemma whole_original_ok:
  assumes "doc_orig d = s" "length s < size_max" "mapped_ok (mMappedOriginal d)" "mAddBuffer d \<noteq> None"
    and "mPieces d = Some (if s \<noteq> [] then [mkPiece Original (mkSpan 0 (length s))] else [])"
    and "mLength d = length s" "\<not> mCacheDirty d \<longrightarrow> mMaterializedText d = s"
  shows "doc_ok d" "doc_text d = s"
proof -
  have ps: "td_pieces d = (if s \<noteq> [] then [mkPiece Original (mkSpan 0 (length s))] else [])"
    using assms(5) by (simp add: td_pieces_def)
  show "doc_text d = s"
    by (simp add: doc_text_def ps assms(1) piece_text_def piece_buffer_def)
  with assms ps show "doc_ok d"
    by (simp add: doc_ok_def piece_ok_def piece_buffer_def TextSpan_end_def)
qed

lemma initializeFromOriginal_spec:
  assumes "length t < size_max"
  shows "doc_ok (initializeFromOriginal d t f)" "doc_text (initializeFromOriginal d t f) = t"
    "index_ok (initializeFromOriginal d t f)"
    "mVersion (initializeFromOriginal d t f) = (if f then wrap64 (mVersion d + 1) else mVersion d)"
    "mDocumentId (initializeFromOriginal d t f) = mDocumentId d"
proof -
  define d0 where "d0 = initializeFromOriginal d t False"
  have i: "initializeFromOriginal d t f = (if f then bumpVersion d0 else d0)"
    by (simp add: d0_def initializeFromOriginal_def Let_def)
  have orig: "doc_orig d0 = t"
    by (simp add: d0_def initializeFromOriginal_def Let_def TextDocument_resetLazyLineIndex_def doc_orig_def
        originalData_def MappedFileSource_mapped_def MappedFileSource_reset_def ensureUniquePieces_def split: option.splits)
  have fields: "mapped_ok (mMappedOriginal d0)" "mAddBuffer d0 \<noteq> None"
    "mPieces d0 = Some (if t \<noteq> [] then [mkPiece Original (mkSpan 0 (length t))] else [])"
    "mLength d0 = length t" "\<not> mCacheDirty d0 \<longrightarrow> mMaterializedText d0 = t"
    by (simp_all add: d0_def initializeFromOriginal_def Let_def TextDocument_resetLazyLineIndex_def
        ensureUniquePieces_def MappedFileSource_reset_def mapped_ok_def AppendBuffer_clear_def split: option.splits)
  note ok = whole_original_ok [OF orig assms fields]
  have "mLazyIndex d0 = resetLazyLineIndex (length t)" "mEditedLineStarts d0 = None"
    "mVersion d0 = mVersion d" "mDocumentId d0 = mDocumentId d"
    by (simp_all add: d0_def initializeFromOriginal_def Let_def TextDocument_resetLazyLineIndex_def
        ensureUniquePieces_def split: option.splits)
  with ok show "doc_ok (initializeFromOriginal d t f)" "doc_text (initializeFromOriginal d t f) = t"
    "index_ok (initializeFromOriginal d t f)"
    "mVersion (initializeFromOriginal d t f) = (if f then wrap64 (mVersion d + 1) else mVersion d)"
    "mDocumentId (initializeFromOriginal d t f) = mDocumentId d"
    by (simp_all add: i index_ok_def edited_ok_def hasEditedLineStartIndex_def frame_simps)
      (simp add: bumpVersion_def)
qed

lemma initializeFromMapped_version: "mVersion (initializeFromMappedSource d src True) = wrap64 (mVersion d + 1)"
  by (simp add: initializeFromMappedSource_def Let_def bumpVersion_def TextDocument_resetLazyLineIndex_def
      clearLineIndexScanLedger_def ensureUniquePieces_def split: option.splits)

lemma initializeFromMappedSource_spec:
  assumes "mapped_ok src" "MappedFileSource_mapped src" "MappedFileSource_size src < size_max"
    and "s = (case MappedFileSource_data src of None \<Rightarrow> [] | Some b \<Rightarrow> b)"
  shows "doc_ok (initializeFromMappedSource d src f)" "doc_text (initializeFromMappedSource d src f) = s"
    "index_ok (initializeFromMappedSource d src f)"
proof -
  define d0 where "d0 = initializeFromMappedSource d src False"
  have i: "initializeFromMappedSource d src f = (if f then bumpVersion d0 else d0)"
    by (simp add: d0_def initializeFromMappedSource_def Let_def)
  have len: "MappedFileSource_size src = length s"
    using assms by (auto simp: mapped_ok_def MappedFileSource_size_def MappedFileSource_data_def split: option.splits)
  have orig: "doc_orig d0 = s"
    using assms(2,4) by (simp add: d0_def initializeFromMappedSource_def Let_def TextDocument_resetLazyLineIndex_def
        doc_orig_def originalData_def ensureUniquePieces_def split: option.splits)
  have small: "length s < size_max" using assms(3) len by simp
  have fields: "mapped_ok (mMappedOriginal d0)" "mAddBuffer d0 \<noteq> None"
    "mPieces d0 = Some (if s \<noteq> [] then [mkPiece Original (mkSpan 0 (length s))] else [])"
    "mLength d0 = length s" "\<not> mCacheDirty d0 \<longrightarrow> mMaterializedText d0 = s"
    by (simp_all add: d0_def initializeFromMappedSource_def Let_def len TextDocument_resetLazyLineIndex_def
        ensureUniquePieces_def assms(1) AppendBuffer_clear_def split: option.splits)
  note ok = whole_original_ok [OF orig small fields]
  have "mLazyIndex d0 = resetLazyLineIndex (length s)" "mEditedLineStarts d0 = None"
    by (simp_all add: d0_def initializeFromMappedSource_def Let_def TextDocument_resetLazyLineIndex_def len
        ensureUniquePieces_def split: option.splits)
  with ok show "doc_ok (initializeFromMappedSource d src f)" "doc_text (initializeFromMappedSource d src f) = s"
    "index_ok (initializeFromMappedSource d src f)"
    by (simp_all add: i index_ok_def edited_ok_def hasEditedLineStartIndex_def frame_simps)
qed

lemma loadMappedFile_spec:
  assumes "mmap_sound os" "loadMappedFile os d path = (ok, err, d')"
  shows "(ok \<longleftrightarrow> (\<exists>bytes. file_bytes os path bytes)) \<and> (ok \<or> d' = d)
    \<and> (\<forall>bytes. file_bytes os path bytes \<and> length bytes < size_max \<longrightarrow>
        doc_ok d' \<and> index_ok d' \<and> doc_text d' = bytes \<and> mVersion d' = wrap64 (mVersion d + 1))"
proof -
  obtain k e src where o: "openReadOnly os None path = (k, e, src)" by (metis prod_cases3)
  have b: "case (k, e, src) of (ok, err, m') \<Rightarrow> if ok then \<exists>bytes. file_bytes os path bytes \<and> (case MappedFileSource_data m' of None \<Rightarrow> [] | Some b \<Rightarrow> b) = bytes \<and> MappedFileSource_size m' = length bytes
    else m' = None \<and> (\<forall>bytes. \<not> file_bytes os path bytes)" using openReadOnly_bytes [OF assms(1), of path None] unfolding o .
  show ?thesis
  proof (cases k)
    case True
    with b obtain bytes where bytes: "file_bytes os path bytes" "bytes = (case MappedFileSource_data src of None \<Rightarrow> [] | Some b \<Rightarrow> b)"
      "MappedFileSource_size src = length bytes" by auto
    have d': "ok" "d' = initializeFromMappedSource d src True" using assms(2) o True by (auto simp: loadMappedFile_def)
    have src: "mapped_ok src" "MappedFileSource_mapped src" using openReadOnly_ok [OF assms(1), of None path e src] o True by auto
    have "doc_ok d' \<and> index_ok d' \<and> doc_text d' = bytes \<and> mVersion d' = wrap64 (mVersion d + 1)" if "length bytes < size_max"
      using initializeFromMappedSource_spec [OF src _ bytes(2), of d True] that unfolding d'(2) bytes(3) initializeFromMapped_version by simp
    moreover have "other = bytes" if "file_bytes os path other" for other using file_bytes_unique [OF that bytes(1)] .
    ultimately show ?thesis using d'(1) bytes(1) by blast
  next
    case False
    with b o assms(2) show ?thesis by (auto simp: loadMappedFile_def)
  qed
qed

lemma setTextNoVersionBump_spec:
  assumes "doc_ok d" "length t < size_max" "setTextNoVersionBump d t = (d', b)"
  shows "doc_ok d'" "doc_text d' = t" "b \<longleftrightarrow> doc_text d \<noteq> t"
    "mVersion d' = mVersion d" "mDocumentId d' = mDocumentId d" "index_ok d \<Longrightarrow> index_ok d'"
proof -
  note m = ensureMaterialized_spec [OF assms(1)]
  note i = initializeFromOriginal_spec [OF assms(2), of "ensureMaterialized d" False]
  have res: "(d', b) = (if t = doc_text d then (ensureMaterialized d, False)
      else (initializeFromOriginal (ensureMaterialized d) t False, True))"
    using assms(3) m(3) by (simp add: setTextNoVersionBump_def TextDocument_text_def Let_def)
  show "doc_ok d'" "doc_text d' = t" "b \<longleftrightarrow> doc_text d \<noteq> t" "mVersion d' = mVersion d"
    "mDocumentId d' = mDocumentId d"
    using res m i by (auto split: if_splits)
  show "index_ok d \<Longrightarrow> index_ok d'" using res m i by (auto simp: index_ok_def split: if_splits)
qed

end
