(* ===== verification/Transactions.thy ===== *)
theory Transactions
  imports Doc_Edits
begin

text \<open>
  Commits on a \<open>TextDocument\<close> (\<open>src/piecetable/MRTextDocument.cpp\<close>): \<open>apply\<close>, the two overloads of
  \<open>tryApply\<close> with their version check and touched range, \<open>tryApplyReplacements\<close> and
  \<open>adoptReadOnlyProjectionText\<close>. The locale \<open>edit_engine\<close> states what a per-operation step promises;
  the commit loop is analysed once inside it and instantiated for plain and for staged operations.
\<close>

subsection \<open>One operation\<close>

definition applyOperationNoVersionBump :: "TextDocument \<Rightarrow> EditOperation \<Rightarrow> TextDocument \<times> bool" where
  "applyOperationNoVersionBump d op =
     (case op_kind op of
        SetText \<Rightarrow> setTextNoVersionBump d (op_text op)
      | Insert \<Rightarrow> if op_text op = [] then (d, False) else appendAndInsert d (range_start (op_range op)) (op_text op)
      | Erase \<Rightarrow> eraseNoVersionBump d (op_range op)
      | Replace \<Rightarrow> replaceNoVersionBump d (op_range op) (op_text op))"

definition applyStagedOperationNoVersionBump ::
  "StagedAddBuffer \<Rightarrow> TextDocument \<Rightarrow> StagedEditOperation \<Rightarrow> TextDocument \<times> bool" where
  "applyStagedOperationNoVersionBump buffer d op =
     (case sop_kind op of
        SetText \<Rightarrow> setTextNoVersionBump d (StagedAddBuffer_sliceText buffer (sop_span op))
      | Insert \<Rightarrow> if TextSpan_empty (sop_span op) then (d, False)
                 else appendAndInsert d (range_start (sop_range op)) (StagedAddBuffer_sliceText buffer (sop_span op))
      | Erase \<Rightarrow> eraseNoVersionBump d (sop_range op)
      | Replace \<Rightarrow> replaceNoVersionBump d (sop_range op) (StagedAddBuffer_sliceText buffer (sop_span op)))"

fun applyOperations_loop :: "(TextDocument \<Rightarrow> 'o \<Rightarrow> TextDocument \<times> bool) \<Rightarrow> TextDocument \<Rightarrow> bool \<Rightarrow> 'o list \<Rightarrow> TextDocument \<times> bool" where
  "applyOperations_loop step d mutated [] = (d, mutated)"
| "applyOperations_loop step d mutated (op # ops) =
     (let (d', m) = step d op in applyOperations_loop step d' (m \<or> mutated) ops)"

definition TextDocument_apply :: "TextDocument \<Rightarrow> EditTransaction \<Rightarrow> TextDocument" where
  "TextDocument_apply d tr = bumpIf (applyOperations_loop applyOperationNoVersionBump d False (et_operations tr))"

subsection \<open>Commits\<close>

text \<open>
  The touched range of an operation, before it is applied: \<open>(kind, range, length of the text)\<close>.
  A sum with the length of the text is a \<open>size_t\<close> and wraps.
\<close>

record Touch =
  touchStart :: Offset
  touchEnd :: Offset
  touched :: bool

definition touch_operation :: "Offset \<Rightarrow> Touch \<Rightarrow> EditKind \<Rightarrow> Range \<Rightarrow> nat \<Rightarrow> Touch" where
  "touch_operation oldLen t kind rng0 n =
     (if kind = SetText then \<lparr>touchStart = 0, touchEnd = max oldLen n, touched = True\<rparr>
      else
        (let rng = Range_normalized rng0;
             e = (if kind = Insert then wrap64 (range_start rng + n)
                  else if kind = Replace then max (range_end rng) (wrap64 (range_start rng + n))
                  else range_end rng)
         in \<lparr>touchStart = (if touched t then min (touchStart t) (range_start rng) else range_start rng),
             touchEnd = (if touched t then max (touchEnd t) e else e), touched = True\<rparr>))"

fun touch_operations :: "('o \<Rightarrow> EditKind \<times> Range \<times> nat) \<Rightarrow> Offset \<Rightarrow> Touch \<Rightarrow> 'o list \<Rightarrow> Touch" where
  "touch_operations shape oldLen t [] = t"
| "touch_operations shape oldLen t (op # ops) =
     (case shape op of (kind, rng, n) \<Rightarrow> touch_operations shape oldLen (touch_operation oldLen t kind rng n) ops)"

definition commit_operations ::
  "(TextDocument \<Rightarrow> 'o \<Rightarrow> TextDocument \<times> bool) \<Rightarrow> ('o \<Rightarrow> EditKind \<times> Range \<times> nat) \<Rightarrow>
   TextDocument \<Rightarrow> nat \<Rightarrow> 'o list \<Rightarrow> TextDocument \<times> CommitResult" where
  "commit_operations step shape d expected ops =
     (let result = mkCommitResult expected (mVersion d) in
      if \<not> matchesVersion d expected then (d, result\<lparr>status := VersionConflict\<rparr>)
      else
        (let (d1, mutated) = applyOperations_loop step d False ops;
             t = touch_operations shape (mLength d) \<lparr>touchStart = mLength d, touchEnd = 0, touched = False\<rparr> ops
         in if \<not> mutated then (d1, result\<lparr>status := NoOp\<rparr>)
            else
              (let d2 = bumpVersion d1 in
               (d2, result\<lparr>status := Applied, actualVersion := mVersion d2,
                  change := \<lparr>changed = True,
                    touchedRange = (if touched t then Range_normalized (mkRange (touchStart t) (touchEnd t)) else mkRange 0 0),
                    oldLength = mLength d, newLength = mLength d2,
                    oldVersion = mVersion d, newVersion = mVersion d2\<rparr>\<rparr>))))"

definition op_shape :: "EditOperation \<Rightarrow> EditKind \<times> Range \<times> nat" where
  "op_shape op = (op_kind op, op_range op, length (op_text op))"

definition sop_shape :: "StagedEditOperation \<Rightarrow> EditKind \<times> Range \<times> nat" where
  "sop_shape op = (sop_kind op, sop_range op, span_length (sop_span op))"

definition tryApply :: "TextDocument \<Rightarrow> EditTransaction \<Rightarrow> nat \<Rightarrow> TextDocument \<times> CommitResult" where
  "tryApply d tr expected = commit_operations applyOperationNoVersionBump op_shape d expected (et_operations tr)"

definition tryApplyStaged :: "TextDocument \<Rightarrow> StagedEditTransaction \<Rightarrow> TextDocument \<times> CommitResult" where
  "tryApplyStaged d tr =
     commit_operations (applyStagedOperationNoVersionBump (st_addBuffer tr)) sop_shape d (st_baseVersion tr) (st_operations tr)"

subsection \<open>Several replacements at once\<close>

fun checkReplacements_loop ::
  "Offset \<Rightarrow> nat \<Rightarrow> Range list \<Rightarrow> Offset \<Rightarrow> Offset \<Rightarrow> bool \<Rightarrow> (Offset \<times> bool) option" where
  "checkReplacements_loop len repl [] newLen previousEnd changesText = Some (newLen, changesText)"
| "checkReplacements_loop len repl (rng # rngs) newLen previousEnd changesText =
     (if range_start rng > range_end rng \<or> range_end rng > len \<or> range_start rng < previousEnd then None
      else
        (let newLen1 = newLen - Range_length rng in
         if repl > size_max - newLen1 then None
         else checkReplacements_loop len repl rngs (newLen1 + repl) (range_end rng)
                (changesText \<or> \<not> Range_empty rng \<or> repl \<noteq> 0)))"

text \<open>
  The copy cursor: piece index, offset in that piece, offset in the text, output. \<open>copy_loop\<close> is
  each of the three \<open>while\<close> loops, with \<open>emit\<close> false for the one that skips; \<open>None\<close> is the early
  return when the pieces run out.
\<close>

function copy_loop ::
  "PieceChunkView list \<Rightarrow> Offset \<Rightarrow> bool \<Rightarrow> nat \<times> Offset \<times> Offset \<times> string \<Rightarrow> (nat \<times> Offset \<times> Offset \<times> string) option" where
  "copy_loop chunks target emit (pieceIndex, pieceOffset, sourceOffset, out) =
     (if sourceOffset < target then
        if pieceIndex \<ge> length chunks then None
        else
          (let chunk = chunks ! pieceIndex in
           if chunk_data chunk = None \<or> pieceOffset \<ge> chunk_length chunk
           then copy_loop chunks target emit (pieceIndex + 1, 0, sourceOffset, out)
           else
             (let n = min (target - sourceOffset) (chunk_length chunk - pieceOffset)
              in copy_loop chunks target emit
                   (pieceIndex, pieceOffset + n, sourceOffset + n,
                    if emit then out @ substr (chunk_bytes chunk) pieceOffset n else out)))
      else Some (pieceIndex, pieceOffset, sourceOffset, out))"
  by pat_completeness auto
termination
  by (relation "measures [\<lambda>(chunks, target, emit, i, po, so, out). length chunks - i,
                          \<lambda>(chunks, target, emit, i, po, so, out). target - so]") auto

declare copy_loop.simps [simp del]

fun copyRanges_loop ::
  "PieceChunkView list \<Rightarrow> string \<Rightarrow> Range list \<Rightarrow> nat \<times> Offset \<times> Offset \<times> string \<Rightarrow> (nat \<times> Offset \<times> Offset \<times> string) option" where
  "copyRanges_loop chunks replacement [] st = Some st"
| "copyRanges_loop chunks replacement (rng # rngs) st =
     (case copy_loop chunks (range_start rng) True st of
        None \<Rightarrow> None
      | Some st1 \<Rightarrow>
          (case copy_loop chunks (range_end rng) False st1 of
             None \<Rightarrow> None
           | Some (i, po, so, out) \<Rightarrow>
               copyRanges_loop chunks replacement rngs
                 (i, po, so, if replacement \<noteq> [] then out @ replacement else out)))"

definition replacedText :: "TextDocument \<Rightarrow> Range list \<Rightarrow> string \<Rightarrow> string option" where
  "replacedText d rngs replacement =
     (case copyRanges_loop (dv_chunks (doc_view d)) replacement rngs (0, 0, 0, []) of
        None \<Rightarrow> None
      | Some st \<Rightarrow> (case copy_loop (dv_chunks (doc_view d)) (mLength d) True st of
                      None \<Rightarrow> None | Some (i, po, so, out) \<Rightarrow> Some out))"

definition adoptText :: "TextDocument \<Rightarrow> string \<Rightarrow> TextDocument" where
  "adoptText d t =
     (let d1 = d\<lparr>mOriginalBuffer := Some t, mMappedOriginal := MappedFileSource_reset (mMappedOriginal d),
                 mAddBuffer := AppendBuffer_clear (mAddBuffer d),
                 mPieces := Some (if length t \<noteq> 0 then [mkPiece Original (mkSpan 0 (length t))] else []),
                 mLength := length t, mMaterializedText := [], mCacheDirty := (length t \<noteq> 0)\<rparr>
      in bumpVersion ((TextDocument_resetLazyLineIndex d1)\<lparr>mEditedLineStarts := None\<rparr>))"

definition adoptedResult :: "CommitResult \<Rightarrow> TextDocument \<Rightarrow> TextDocument \<Rightarrow> Offset \<Rightarrow> CommitResult" where
  "adoptedResult result d d' start =
     result\<lparr>status := Applied, actualVersion := mVersion d',
       change := \<lparr>changed = True, touchedRange = mkRange start (max (mLength d) (mLength d')),
         oldLength = mLength d, newLength = mLength d', oldVersion = mVersion d, newVersion = mVersion d'\<rparr>\<rparr>"

definition tryApplyReplacements ::
  "TextDocument \<Rightarrow> Range list \<Rightarrow> string \<Rightarrow> nat \<Rightarrow> TextDocument \<times> CommitResult" where
  "tryApplyReplacements d rngs replacement expected =
     (let result = mkCommitResult expected (mVersion d) in
      if \<not> matchesVersion d expected then (d, result\<lparr>status := VersionConflict\<rparr>)
      else if rngs = [] then (d, result)
      else
        (case checkReplacements_loop (mLength d) (length replacement) rngs (mLength d) 0 False of
           None \<Rightarrow> (d, result)
         | Some (newLen, changesText) \<Rightarrow>
             if \<not> changesText then (d, result)
             else
               (case replacedText d rngs replacement of
                  None \<Rightarrow> (d, result)
                | Some finalText \<Rightarrow>
                    if length finalText \<noteq> newLen then (d, result)
                    else (let d' = adoptText d finalText
                          in (d', adoptedResult result d d' (range_start (hd rngs)))))))"

definition adoptReadOnlyProjectionText ::
  "TextDocument \<Rightarrow> string option \<Rightarrow> nat \<Rightarrow> nat \<Rightarrow> TextDocument \<times> CommitResult" where
  "adoptReadOnlyProjectionText d t expectedDocumentId expected =
     (let result = mkCommitResult expected (mVersion d) in
      case t of
        None \<Rightarrow> (d, result)
      | Some s \<Rightarrow>
          if mDocumentId d \<noteq> expectedDocumentId \<or> \<not> matchesVersion d expected
          then (d, result\<lparr>status := VersionConflict\<rparr>)
          else (let d' = adoptText d s in (d', adoptedResult result d d' 0)))"

subsection \<open>What a commit does\<close>

lemma bumpVersion_version: "mVersion (bumpVersion d) = wrap64 (mVersion d + 1)"
  by (simp add: bumpVersion_def)

locale edit_engine =
  fixes step :: "TextDocument \<Rightarrow> 'o \<Rightarrow> TextDocument \<times> bool"
    and shape :: "'o \<Rightarrow> EditKind \<times> Range \<times> nat"
    and spec :: "'o \<Rightarrow> string \<Rightarrow> string"
    and need :: "'o \<Rightarrow> nat"
    and safe :: "'o \<Rightarrow> string \<Rightarrow> bool"
  assumes step_ok: "doc_ok d \<Longrightarrow> length (doc_text d) + need op < size_max \<Longrightarrow> step d op = (d', b) \<Longrightarrow>
      doc_ok d' \<and> doc_text d' = spec op (doc_text d) \<and> (b \<or> doc_text d' = doc_text d)
      \<and> mVersion d' = mVersion d \<and> mDocumentId d' = mDocumentId d"
    and step_index: "doc_ok d \<Longrightarrow> length (doc_text d) + need op < size_max \<Longrightarrow> step d op = (d', b) \<Longrightarrow>
      index_ok d \<Longrightarrow> safe op (doc_text d) \<Longrightarrow> index_ok d'"
    and spec_length: "length (spec op s) \<le> length s + need op"
begin

primrec run :: "'o list \<Rightarrow> string \<Rightarrow> string" where
  "run [] s = s"
| "run (op # ops) s = run ops (spec op s)"

primrec run_safe :: "'o list \<Rightarrow> string \<Rightarrow> bool" where
  "run_safe [] s \<longleftrightarrow> True"
| "run_safe (op # ops) s \<longleftrightarrow> safe op s \<and> run_safe ops (spec op s)"

lemma loop_ok:
  "doc_ok d \<Longrightarrow> length (doc_text d) + sum_list (map need ops) < size_max \<Longrightarrow>
   applyOperations_loop step d m ops = (d', b) \<Longrightarrow>
   doc_ok d' \<and> doc_text d' = run ops (doc_text d) \<and> (m \<longrightarrow> b) \<and> (b \<or> doc_text d' = doc_text d)
   \<and> mVersion d' = mVersion d \<and> mDocumentId d' = mDocumentId d
   \<and> (index_ok d \<longrightarrow> run_safe ops (doc_text d) \<longrightarrow> index_ok d')"
proof (induction ops arbitrary: d m)
  case Nil
  then show ?case by auto
next
  case (Cons op ops)
  obtain d1 b1 where s: "step d op = (d1, b1)" by (metis surj_pair)
  have "length (doc_text d) + need op < size_max" using Cons.prems(2) by simp
  note so = step_ok [OF Cons.prems(1) this s] step_index [OF Cons.prems(1) this s]
  have "length (doc_text d1) + sum_list (map need ops) < size_max"
    using so(1) spec_length [of op "doc_text d"] Cons.prems(2) by simp
  with Cons.IH [of d1 "b1 \<or> m"] Cons.prems(3) so s show ?case by auto
qed

lemma commit_conflict:
  "expected \<noteq> mVersion d \<Longrightarrow> commit_operations step shape d expected ops
     = (d, (mkCommitResult expected (mVersion d))\<lparr>status := VersionConflict\<rparr>)"
  by (simp add: commit_operations_def matchesVersion_def)

lemma commit_ok:
  assumes "doc_ok d" "length (doc_text d) + sum_list (map need ops) < size_max"
    and "commit_operations step shape d (mVersion d) ops = (d', r)"
  shows "doc_ok d'" "doc_text d' = run ops (doc_text d)" "mDocumentId d' = mDocumentId d"
    "index_ok d \<Longrightarrow> run_safe ops (doc_text d) \<Longrightarrow> index_ok d'"
    "status r = Applied \<and> mVersion d' = wrap64 (mVersion d + 1) \<and> changed (change r)
       \<and> oldLength (change r) = length (doc_text d) \<and> newLength (change r) = length (doc_text d')
       \<and> oldVersion (change r) = mVersion d \<and> newVersion (change r) = mVersion d'
     \<or> status r = NoOp \<and> mVersion d' = mVersion d \<and> \<not> changed (change r) \<and> doc_text d' = doc_text d"
    "actualVersion r = mVersion d'"
proof -
  obtain d1 b where l: "applyOperations_loop step d False ops = (d1, b)" by (metis surj_pair)
  note lo = loop_ok [OF assms(1,2) l]
  have len: "mLength d = length (doc_text d)" "mLength d1 = length (doc_text d1)"
    using assms(1) lo by (auto simp: doc_ok_def)
  define result where "result = mkCommitResult (mVersion d) (mVersion d)"
  define tch where "tch = touch_operations shape (mLength d) \<lparr>touchStart = mLength d, touchEnd = 0, touched = False\<rparr> ops"
  define rng where "rng = (if touched tch then Range_normalized (mkRange (touchStart tch) (touchEnd tch)) else mkRange 0 0)"
  have res: "(d', r) = (if \<not> b then (d1, result\<lparr>status := NoOp\<rparr>)
      else (bumpVersion d1, result\<lparr>status := Applied, actualVersion := mVersion (bumpVersion d1),
             change := \<lparr>changed = True, touchedRange = rng, oldLength = mLength d, newLength = mLength (bumpVersion d1),
               oldVersion = mVersion d, newVersion = mVersion (bumpVersion d1)\<rparr>\<rparr>))"
    using assms(3) l unfolding commit_operations_def result_def [symmetric] tch_def [symmetric]
    by (cases b) (auto simp: matchesVersion_def Let_def simp flip: rng_def)
  show "doc_ok d'" "doc_text d' = run ops (doc_text d)" "mDocumentId d' = mDocumentId d"
    "index_ok d \<Longrightarrow> run_safe ops (doc_text d) \<Longrightarrow> index_ok d'"
    using lo res by (auto simp: frame_simps split: if_splits)
  show "status r = Applied \<and> mVersion d' = wrap64 (mVersion d + 1) \<and> changed (change r)
       \<and> oldLength (change r) = length (doc_text d) \<and> newLength (change r) = length (doc_text d')
       \<and> oldVersion (change r) = mVersion d \<and> newVersion (change r) = mVersion d'
     \<or> status r = NoOp \<and> mVersion d' = mVersion d \<and> \<not> changed (change r) \<and> doc_text d' = doc_text d"
    and "actualVersion r = mVersion d'"
    using res lo len
    by (cases b; simp add: bumpVersion_version result_def mkCommitResult_def emptyChangeSet_def frame_simps)+
qed

end

definition op_spec :: "EditOperation \<Rightarrow> string \<Rightarrow> string" where
  "op_spec op s =
     (case op_kind op of
        SetText \<Rightarrow> op_text op
      | Insert \<Rightarrow> clamped_insert s (range_start (op_range op)) (op_text op)
      | Erase \<Rightarrow> clamped_erase s (op_range op)
      | Replace \<Rightarrow> clamped_replace s (op_range op) (op_text op))"

definition op_safe :: "EditOperation \<Rightarrow> string \<Rightarrow> bool" where
  "op_safe op s =
     (case op_kind op of
        SetText \<Rightarrow> True
      | Insert \<Rightarrow> insert_safe s (min (range_start (op_range op)) (length s)) (op_text op)
      | Erase \<Rightarrow> clamped_erase_safe s (op_range op)
      | Replace \<Rightarrow> clamped_replace_safe s (op_range op) (op_text op))"

lemma clamped_insert_Nil [simp]: "clamped_insert s p [] = s"
  by (simp add: clamped_insert_def insert_text_def)

lemma length_clamped_replace: "length (clamped_replace s rng t) \<le> length s + length t"
  using length_clamped_erase [of s rng]
  unfolding clamped_replace_def clamped_erase_def replace_text_def erase_text_def Let_def length_append by linarith

lemma clamped_replace_noop:
  "Range_empty (Range_clamped rng (length s)) \<Longrightarrow> clamped_replace s rng [] = s"
  by (simp add: clamped_replace_def replace_text_def Range_empty_def Let_def)

lemma op_spec_length: "length (op_spec op s) \<le> length s + length (op_text op)"
  using length_clamped_erase [of s "op_range op"] length_clamped_replace [of s "op_range op" "op_text op"]
  by (cases "op_kind op") (auto simp: op_spec_def clamped_insert_def insert_text_def)

lemma applyOperation_ok:
  assumes "doc_ok d" "length (doc_text d) + length (op_text op) < size_max"
    "applyOperationNoVersionBump d op = (d', b)"
  shows "doc_ok d' \<and> doc_text d' = op_spec op (doc_text d) \<and> (b \<or> doc_text d' = doc_text d)
      \<and> mVersion d' = mVersion d \<and> mDocumentId d' = mDocumentId d"
    and "index_ok d \<Longrightarrow> op_safe op (doc_text d) \<Longrightarrow> index_ok d'"
proof -
  have len: "mLength d = length (doc_text d)" using assms(1) by (simp add: doc_ok_def)
  have small: "length (op_text op) < size_max" using assms(2) by simp
  have "(doc_ok d' \<and> doc_text d' = op_spec op (doc_text d) \<and> (b \<or> doc_text d' = doc_text d)
      \<and> mVersion d' = mVersion d \<and> mDocumentId d' = mDocumentId d)
      \<and> (index_ok d \<longrightarrow> op_safe op (doc_text d) \<longrightarrow> index_ok d')"
  proof (cases "op_kind op")
    case SetText
    with assms(3) have "setTextNoVersionBump d (op_text op) = (d', b)" by (simp add: applyOperationNoVersionBump_def)
    from setTextNoVersionBump_spec [OF assms(1) small this] SetText show ?thesis by (auto simp: op_spec_def)
  next
    case Insert
    show ?thesis
    proof (cases "op_text op = []")
      case True
      with Insert assms show ?thesis by (auto simp: applyOperationNoVersionBump_def op_spec_def)
    next
      case False
      with Insert assms(3) have "appendAndInsert d (range_start (op_range op)) (op_text op) = (d', b)"
        by (simp add: applyOperationNoVersionBump_def)
      from appendAndInsert_spec [OF assms(1) False assms(2) this] Insert show ?thesis
        by (simp add: op_spec_def op_safe_def)
    qed
  next
    case Erase
    with assms(3) have "eraseNoVersionBump d (op_range op) = (d', b)" by (simp add: applyOperationNoVersionBump_def)
    from eraseNoVersionBump_spec [OF assms(1) this] Erase len clamped_erase_id [of "op_range op" "doc_text d"]
    show ?thesis by (auto simp: op_spec_def op_safe_def)
  next
    case Replace
    with assms(3) have "replaceNoVersionBump d (op_range op) (op_text op) = (d', b)"
      by (simp add: applyOperationNoVersionBump_def)
    from replaceNoVersionBump_spec [OF assms(1,2) this] Replace len clamped_replace_noop [of "op_range op" "doc_text d"]
    show ?thesis by (auto simp: op_spec_def op_safe_def)
  qed
  then show "doc_ok d' \<and> doc_text d' = op_spec op (doc_text d) \<and> (b \<or> doc_text d' = doc_text d)
      \<and> mVersion d' = mVersion d \<and> mDocumentId d' = mDocumentId d"
    and "index_ok d \<Longrightarrow> op_safe op (doc_text d) \<Longrightarrow> index_ok d'" by auto
qed

interpretation plain: edit_engine applyOperationNoVersionBump op_shape op_spec "\<lambda>op. length (op_text op)" op_safe
  by unfold_locales (blast intro: applyOperation_ok op_spec_length dest: applyOperation_ok)+

subsection \<open>Staged operations\<close>

text \<open>The operation a staged operation stands for.\<close>

definition unstage :: "StagedAddBuffer \<Rightarrow> StagedEditOperation \<Rightarrow> EditOperation" where
  "unstage buffer op =
     \<lparr>op_kind = sop_kind op, op_range = sop_range op, op_text = StagedAddBuffer_sliceText buffer (sop_span op)\<rparr>"

definition staged_span_ok :: "StagedAddBuffer \<Rightarrow> StagedEditOperation \<Rightarrow> bool" where
  "staged_span_ok buffer op \<longleftrightarrow> TextSpan_end (sop_span op) \<le> length buffer"

lemma unstage_length: "staged_span_ok buffer op \<Longrightarrow> length (op_text (unstage buffer op)) = span_length (sop_span op)"
  by (simp add: unstage_def staged_span_ok_def StagedAddBuffer_sliceText_eq TextSpan_end_def)

lemma applyStaged_unstage:
  "staged_span_ok buffer op \<Longrightarrow>
   applyStagedOperationNoVersionBump buffer d op = applyOperationNoVersionBump d (unstage buffer op)"
  using unstage_length [of buffer op]
  by (auto simp: applyStagedOperationNoVersionBump_def applyOperationNoVersionBump_def TextSpan_empty_def
      unstage_def split: EditKind.splits)

lemma staged_loop:
  "list_all (staged_span_ok buffer) ops \<Longrightarrow>
   applyOperations_loop (applyStagedOperationNoVersionBump buffer) d m ops
   = applyOperations_loop applyOperationNoVersionBump d m (map (unstage buffer) ops)"
  by (induction ops arbitrary: d m) (auto simp: applyStaged_unstage split: prod.splits)

lemma staged_touch:
  "list_all (staged_span_ok buffer) ops \<Longrightarrow>
   touch_operations sop_shape len t ops = touch_operations op_shape len t (map (unstage buffer) ops)"
proof (induction ops arbitrary: t)
  case (Cons op ops)
  have "op_shape (unstage buffer op) = sop_shape op"
    using Cons.prems unstage_length [of buffer op] by (simp add: op_shape_def sop_shape_def) (simp add: unstage_def)
  with Cons show ?case by (simp split: prod.splits)
qed simp

lemma staged_commit:
  assumes "list_all (staged_span_ok (st_addBuffer st)) (st_operations st)"
    and "et_operations tr = map (unstage (st_addBuffer st)) (st_operations st)"
  shows "tryApplyStaged d st = tryApply d tr (st_baseVersion st)"
  unfolding tryApplyStaged_def tryApply_def commit_operations_def staged_loop [OF assms(1)] staged_touch [OF assms(1)] assms(2)
  by (rule refl)

text \<open>A producer issues the same calls on either kind of transaction.\<close>

datatype EditRequest =
    ReqSetText string
  | ReqInsert Offset string
  | ReqErase Range
  | ReqReplace Range string

fun record_plain :: "EditTransaction \<Rightarrow> EditRequest \<Rightarrow> EditTransaction" where
  "record_plain tr (ReqSetText t) = EditTransaction_setText tr t"
| "record_plain tr (ReqInsert p t) = EditTransaction_insert tr p t"
| "record_plain tr (ReqErase r) = EditTransaction_erase tr r"
| "record_plain tr (ReqReplace r t) = EditTransaction_replace tr r t"

fun record_staged :: "StagedEditTransaction \<Rightarrow> EditRequest \<Rightarrow> StagedEditTransaction" where
  "record_staged st (ReqSetText t) = StagedEditTransaction_setText st t"
| "record_staged st (ReqInsert p t) = StagedEditTransaction_insert st p t"
| "record_staged st (ReqErase r) = StagedEditTransaction_erase st r"
| "record_staged st (ReqReplace r t) = StagedEditTransaction_replace st r t"

definition staged_matches :: "StagedEditTransaction \<Rightarrow> EditTransaction \<Rightarrow> bool" where
  "staged_matches st tr \<longleftrightarrow> list_all (staged_span_ok (st_addBuffer st)) (st_operations st)
     \<and> et_operations tr = map (unstage (st_addBuffer st)) (st_operations st)"

lemma staged_span_ok_grow: "staged_span_ok b op \<Longrightarrow> staged_span_ok (b @ t) op"
  by (simp add: staged_span_ok_def)

lemma unstage_grow: "staged_span_ok b op \<Longrightarrow> unstage (b @ t) op = unstage b op"
  by (simp add: unstage_def staged_span_ok_def StagedAddBuffer_sliceText_eq TextSpan_end_def substr_append_left)

lemma staged_push_matches:
  assumes "staged_matches st tr"
  shows "staged_matches (StagedEditTransaction_push st k r t) (EditTransaction_push tr \<lparr>op_kind = k, op_range = r, op_text = t\<rparr>)"
proof -
  have "unstage (st_addBuffer st @ t) \<lparr>sop_kind = k, sop_range = r, sop_span = mkSpan (length (st_addBuffer st)) (length t)\<rparr>
      = \<lparr>op_kind = k, op_range = r, op_text = t\<rparr>"
    by (simp add: unstage_def StagedAddBuffer_sliceText_eq substr_def)
  moreover have "map (unstage (st_addBuffer st @ t)) (st_operations st) = map (unstage (st_addBuffer st)) (st_operations st)"
    using assms by (auto simp: staged_matches_def list_all_iff unstage_grow)
  ultimately show ?thesis
    using assms by (auto simp: staged_matches_def StagedEditTransaction_push_def EditTransaction_push_def
        StagedAddBuffer_append_def list_all_iff staged_span_ok_grow) (simp add: staged_span_ok_def TextSpan_end_def)
qed

lemma record_matches:
  "staged_matches st tr \<Longrightarrow> staged_matches (record_staged st req) (record_plain tr req)"
proof (cases req)
  case (ReqErase r)
  assume "staged_matches st tr"
  then show ?thesis
    by (auto simp: ReqErase staged_matches_def StagedEditTransaction_erase_def EditTransaction_erase_def
        EditTransaction_push_def unstage_def StagedAddBuffer_sliceText_eq staged_span_ok_def TextSpan_end_def)
qed (auto simp: StagedEditTransaction_setText_def StagedEditTransaction_insert_def StagedEditTransaction_replace_def
    EditTransaction_setText_def EditTransaction_insert_def EditTransaction_replace_def staged_push_matches)

lemma record_all_matches:
  "staged_matches st tr \<Longrightarrow> staged_matches (foldl record_staged st reqs) (foldl record_plain tr reqs)"
  by (induction reqs arbitrary: st tr) (auto simp: record_matches)

lemma record_baseVersion: "st_baseVersion (foldl record_staged st reqs) = st_baseVersion st"
proof (induction reqs arbitrary: st)
  case (Cons req reqs)
  then show ?case
    by (cases req) (auto simp: StagedEditTransaction_setText_def StagedEditTransaction_insert_def
        StagedEditTransaction_replace_def StagedEditTransaction_erase_def StagedEditTransaction_push_def
        StagedAddBuffer_append_def)
qed simp

subsection \<open>Replacements\<close>

text \<open>The reference: copy up to each range, put the replacement, go on behind it.\<close>

fun replace_ranges :: "string \<Rightarrow> string \<Rightarrow> Offset \<Rightarrow> Range list \<Rightarrow> string" where
  "replace_ranges s t pos [] = drop pos s"
| "replace_ranges s t pos (rng # rngs) =
     substr s pos (range_start rng - pos) @ t @ replace_ranges s t (range_end rng) rngs"

text \<open>Ascending ranges inside a text of the given length, none before \<open>pos\<close>.\<close>

fun ranges_ok :: "Offset \<Rightarrow> Offset \<Rightarrow> Range list \<Rightarrow> bool" where
  "ranges_ok len pos [] \<longleftrightarrow> True"
| "ranges_ok len pos (rng # rngs) \<longleftrightarrow>
     pos \<le> range_start rng \<and> range_start rng \<le> range_end rng \<and> range_end rng \<le> len \<and> ranges_ok len (range_end rng) rngs"

definition cursor_at :: "PieceChunkView list \<Rightarrow> nat \<Rightarrow> Offset \<Rightarrow> Offset \<Rightarrow> bool" where
  "cursor_at chunks i po so \<longleftrightarrow>
     so = length (chunks_text (take i chunks)) + po
     \<and> (if i < length chunks then po \<le> length (chunk_text (chunks ! i)) else po = 0)"

lemma chunks_text_at:
  assumes "i < length chunks" "list_all chunk_valid chunks" "po + n \<le> length (chunk_text (chunks ! i))"
  shows "substr (chunks_text chunks) (length (chunks_text (take i chunks)) + po) n = substr (chunk_text (chunks ! i)) po n"
proof -
  have "chunks_text chunks = chunks_text (take i chunks) @ chunk_text (chunks ! i) @ chunks_text (drop (Suc i) chunks)"
    using assms(1) by (metis append_take_drop_id chunks_text_simps(2,3) Cons_nth_drop_Suc)
  with assms(3) show ?thesis by (simp add: substr_def)
qed

lemma copy_loop_spec:
  assumes "list_all chunk_valid chunks" "cursor_at chunks i po so" "so \<le> target" "target \<le> length (chunks_text chunks)"
  shows "\<exists>i' po'. copy_loop chunks target emit (i, po, so, out)
       = Some (i', po', target, if emit then out @ substr (chunks_text chunks) so (target - so) else out)
     \<and> cursor_at chunks i' po' target"
  using assms
proof (induction chunks target emit "(i, po, so, out)" arbitrary: i po so out rule: copy_loop.induct)
  case (1 chunks target emit i po so out)
  show ?case
  proof (cases "so < target")
    case False
    with "1.prems" show ?thesis by (subst copy_loop.simps) auto
  next
    case True
    have i: "i < length chunks"
    proof (rule ccontr)
      assume "\<not> i < length chunks"
      then have "so = length (chunks_text chunks)" using "1.prems"(2) by (simp add: cursor_at_def)
      with True "1.prems"(4) show False by simp
    qed
    let ?c = "chunks ! i"
    have valid: "chunk_valid ?c" using "1.prems"(1) i by (simp add: list_all_length)
    show ?thesis
    proof (cases "chunk_data ?c = None \<or> po \<ge> chunk_length ?c")
      case skip: True
      have le: "po \<le> length (chunk_text ?c)" using "1.prems"(2) i by (simp add: cursor_at_def)
      have po: "po = length (chunk_text ?c)"
      proof (cases "chunk_skip ?c")
        case True
        with le show ?thesis by simp
      next
        case False
        from chunk_text_keep(1,2) [OF False valid] skip le show ?thesis by simp
      qed
      have "cursor_at chunks (i + 1) 0 so"
        using "1.prems"(2) i po by (simp add: cursor_at_def take_Suc_conv_app_nth)
      with "1.hyps"(1) [OF True _ refl skip] i "1.prems" show ?thesis
        by (subst copy_loop.simps) (simp add: True skip Let_def)
    next
      case False
      then have c: "\<not> chunk_skip ?c" by (auto simp: chunk_skip_def)
      note k = chunk_text_keep [OF c valid]
      define n where "n = min (target - so) (chunk_length ?c - po)"
      have n: "0 < n" "po + n \<le> length (chunk_text ?c)" "so + n \<le> target"
        using False True k by (auto simp: n_def)
      define out' where "out' = (if emit then out @ substr (chunk_bytes ?c) po n else out)"
      have sub: "substr (chunks_text chunks) so n = substr (chunk_bytes ?c) po n"
      proof -
        have "substr (chunks_text chunks) so n = substr (chunk_text ?c) po n"
          using "1.prems"(2) chunks_text_at [OF i "1.prems"(1) n(2)] by (simp add: cursor_at_def)
        also have "\<dots> = substr (chunk_bytes ?c) po (min n (chunk_length ?c - po))"
          using k by (simp add: substr_of_take)
        finally show ?thesis by (simp add: n_def)
      qed
      have at: "cursor_at chunks i (po + n) (so + n)" using "1.prems"(2) i n by (simp add: cursor_at_def)
      have eq: "copy_loop chunks target emit (i, po, so, out) = copy_loop chunks target emit (i, po + n, so + n, out')"
        using True i False by (subst copy_loop.simps) (auto simp: Let_def n_def out'_def)
      have join: "substr (chunks_text chunks) so (target - so)
          = substr (chunks_text chunks) so n @ substr (chunks_text chunks) (so + n) (target - (so + n))"
        using n substr_append [of "chunks_text chunks" so n "target - (so + n)"] by simp
      have "\<exists>i' po'. copy_loop chunks target emit (i, po + n, so + n, out') =
          Some (i', po', target, if emit then out' @ substr (chunks_text chunks) (so + n) (target - (so + n)) else out')
          \<and> cursor_at chunks i' po' target"
        using i at n "1.prems" unfolding out'_def by (intro "1.hyps"(2) [OF True _ refl False n_def]) simp_all
      with eq join sub show ?thesis by (auto simp: out'_def)
    qed
  qed
qed

lemma copyRanges_spec:
  assumes "list_all chunk_valid chunks" "s = chunks_text chunks"
  shows "cursor_at chunks i po pos \<Longrightarrow> pos \<le> length s \<Longrightarrow> ranges_ok (length s) pos rngs \<Longrightarrow>
    \<exists>i' po' so out'. copyRanges_loop chunks t rngs (i, po, pos, out) = Some (i', po', so, out')
      \<and> cursor_at chunks i' po' so \<and> so \<le> length s \<and> out' @ drop so s = out @ replace_ranges s t pos rngs"
proof (induction rngs arbitrary: i po pos out)
  case Nil
  then show ?case by simp
next
  case (Cons rng rngs)
  let ?a = "range_start rng" and ?e = "range_end rng"
  have r: "pos \<le> ?a" "?a \<le> ?e" "?e \<le> length s" "ranges_ok (length s) ?e rngs" using Cons.prems(3) by auto
  obtain i1 po1 where c1: "copy_loop chunks ?a True (i, po, pos, out) = Some (i1, po1, ?a, out @ substr s pos (?a - pos))"
    "cursor_at chunks i1 po1 ?a"
    using copy_loop_spec [OF assms(1) Cons.prems(1) r(1), of True out] r assms(2) by auto
  obtain i2 po2 where c2: "copy_loop chunks ?e False (i1, po1, ?a, out @ substr s pos (?a - pos))
      = Some (i2, po2, ?e, out @ substr s pos (?a - pos))" "cursor_at chunks i2 po2 ?e"
    using copy_loop_spec [OF assms(1) c1(2) r(2), of False "out @ substr s pos (?a - pos)"] r(3) assms(2) by auto
  from Cons.IH [OF c2(2) r(3,4), of "out @ substr s pos (?a - pos) @ t"] c1 c2 show ?case by auto
qed

lemma checkReplacements_spec:
  "checkReplacements_loop len n rngs newLen prev ch = Some (newLen', ch') \<Longrightarrow> ranges_ok len prev rngs
   \<and> (\<not> ch' \<longrightarrow> \<not> ch \<and> (\<forall>r \<in> set rngs. Range_empty r) \<and> (rngs = [] \<or> n = 0))
   \<and> (newLen \<le> size_max \<longrightarrow> newLen' \<le> size_max)"
proof (induction rngs arbitrary: newLen prev ch)
  case (Cons r rngs)
  from Cons.prems Cons.IH [of "newLen - Range_length r + n" "range_end r" "ch \<or> \<not> Range_empty r \<or> n \<noteq> 0"] show ?case
    by (auto simp: Let_def not_less split: if_splits)
qed simp

lemma length_replace_ranges:
  "ranges_ok (length s) pos rngs \<Longrightarrow> pos \<le> length s \<Longrightarrow>
   length (replace_ranges s t pos rngs) + sum_list (map Range_length rngs) = length s - pos + length rngs * length t"
proof (induction rngs arbitrary: pos)
  case (Cons r rngs)
  then have r: "pos \<le> range_start r" "range_start r \<le> range_end r" "range_end r \<le> length s" by auto
  then have "length (substr s pos (range_start r - pos)) = range_start r - pos" by auto
  with Cons.IH [of "range_end r"] Cons.prems r Range_length_normal [OF r(2)] show ?case by simp
qed simp

lemma check_newLength:
  "checkReplacements_loop len n rngs newLen prev ch = Some (newLen', ch') \<Longrightarrow> len - prev \<le> newLen \<Longrightarrow> prev \<le> len \<Longrightarrow>
   newLen' + sum_list (map Range_length rngs) = newLen + length rngs * n"
proof (induction rngs arbitrary: newLen prev ch)
  case (Cons r rngs)
  have r: "range_start r \<le> range_end r" "range_end r \<le> len" "prev \<le> range_start r"
    and rec: "checkReplacements_loop len n rngs (newLen - Range_length r + n) (range_end r)
      (ch \<or> \<not> Range_empty r \<or> n \<noteq> 0) = Some (newLen', ch')"
    using Cons.prems(1) by (auto simp: Let_def split: if_splits)
  have le: "Range_length r \<le> newLen" "len - range_end r \<le> newLen - Range_length r + n"
    using r Cons.prems(2,3) by (auto simp: Range_length_def)
  from Cons.IH [OF rec le(2) r(2)] le(1) show ?case by simp
qed simp

lemma replacedText_spec:
  assumes "doc_ok d" "ranges_ok (length (doc_text d)) 0 rngs"
  shows "replacedText d rngs t = Some (replace_ranges (doc_text d) t 0 rngs)"
proof -
  let ?cs = "dv_chunks (doc_view d)" and ?s = "doc_text d"
  have cs: "list_all chunk_valid ?cs" "?s = chunks_text ?cs" "mLength d = length ?s"
    using doc_view_ok [OF assms(1)] assms(1) by (auto simp: view_ok_def doc_ok_def)
  have "cursor_at ?cs 0 0 0" by (simp add: cursor_at_def)
  from copyRanges_spec [OF cs(1,2) this _ assms(2), of t "[]"]
  obtain i po so out where c: "copyRanges_loop ?cs t rngs (0, 0, 0, []) = Some (i, po, so, out)"
    "cursor_at ?cs i po so" "so \<le> length ?s" "out @ drop so ?s = replace_ranges ?s t 0 rngs" by auto
  from copy_loop_spec [OF cs(1) c(2), of "length ?s" True out] c(3) cs(2)
  obtain i' po' where "copy_loop ?cs (length ?s) True (i, po, so, out) = Some (i', po', length ?s, out @ drop so ?s)"
    by (auto simp: substr_def)
  with c cs(3) show ?thesis by (simp add: replacedText_def)
qed

lemma adoptText_spec:
  assumes "length t < size_max"
  shows "doc_ok (adoptText d t)" "doc_text (adoptText d t) = t" "index_ok (adoptText d t)"
    "mVersion (adoptText d t) = wrap64 (mVersion d + 1)" "mDocumentId (adoptText d t) = mDocumentId d"
    "mLength (adoptText d t) = length t"
proof -
  let ?a = "adoptText d t"
  have orig: "doc_orig ?a = t"
    by (simp add: adoptText_def Let_def TextDocument_resetLazyLineIndex_def bumpVersion_def doc_orig_def originalData_def
        MappedFileSource_mapped_def MappedFileSource_reset_def)
  have fields: "mapped_ok (mMappedOriginal ?a)" "mAddBuffer ?a \<noteq> None"
    "mPieces ?a = Some (if t \<noteq> [] then [mkPiece Original (mkSpan 0 (length t))] else [])"
    "mLength ?a = length t" "\<not> mCacheDirty ?a \<longrightarrow> mMaterializedText ?a = t"
    by (simp_all add: adoptText_def Let_def TextDocument_resetLazyLineIndex_def bumpVersion_def
        MappedFileSource_reset_def mapped_ok_def AppendBuffer_clear_def)
  note ok = whole_original_ok [OF orig assms fields]
  then show "doc_ok ?a" "doc_text ?a = t" "mLength ?a = length t" using fields by auto
  show "mVersion ?a = wrap64 (mVersion d + 1)" "mDocumentId ?a = mDocumentId d"
    by (simp_all add: adoptText_def Let_def TextDocument_resetLazyLineIndex_def bumpVersion_def)
  have "mLazyIndex ?a = resetLazyLineIndex (length t)" "mEditedLineStarts ?a = None"
    by (simp_all add: adoptText_def Let_def TextDocument_resetLazyLineIndex_def bumpVersion_def)
  with ok show "index_ok ?a" by (simp add: index_ok_def edited_ok_def hasEditedLineStartIndex_def)
qed

text \<open>On well-formed ranges the replacements are applied, unless they change nothing.\<close>

lemma tryApplyReplacements_applied:
  assumes "doc_ok d" "expected = mVersion d" "rngs \<noteq> []"
    and "checkReplacements_loop (mLength d) (length t) rngs (mLength d) 0 False = Some (n, True)"
    and "length (replace_ranges (doc_text d) t 0 rngs) < size_max"
  shows "fst (tryApplyReplacements d rngs t expected) = adoptText d (replace_ranges (doc_text d) t 0 rngs)"
    "status (snd (tryApplyReplacements d rngs t expected)) = Applied"
proof -
  have len: "mLength d = length (doc_text d)" using assms(1) by (simp add: doc_ok_def)
  have ok: "ranges_ok (length (doc_text d)) 0 rngs" using checkReplacements_spec [OF assms(4)] len by simp
  have "length (replace_ranges (doc_text d) t 0 rngs) = n"
    using check_newLength [OF assms(4)] length_replace_ranges [OF ok, of t] len by simp
  then show "fst (tryApplyReplacements d rngs t expected) = adoptText d (replace_ranges (doc_text d) t 0 rngs)"
    "status (snd (tryApplyReplacements d rngs t expected)) = Applied"
    using assms(2,3,4) replacedText_spec [OF assms(1) ok, of t]
    by (simp_all add: tryApplyReplacements_def matchesVersion_def Let_def adoptedResult_def)
qed

end
