(* ===== verification/Doc_Queries.thy ===== *)
theory Doc_Queries
  imports Transactions
begin

text \<open>
  The query members of \<open>TextDocument\<close> (\<open>src/piecetable/MRTextDocumentLineIndex.cpp\<close>) over the shared
  bodies of \<open>Lazy_Index\<close> and \<open>Line_Lookup\<close>. The locale \<open>line_queries\<close> is the contract between a
  document class and its line index: what the class promises about the data the queries read gives
  the exact result of every query. It is interpreted here on \<open>TextDocument\<close> and in
  \<open>Read_Snapshot\<close> on \<open>ReadSnapshot\<close>.
\<close>

text \<open>
  A query may extend the mutable index; seeding an empty index goes through
  \<open>TextDocument::resetLazyLineIndex\<close>, which also clears the scan ledger.
\<close>

definition td_query :: "TextDocument \<Rightarrow> (LazyIndex \<Rightarrow> LazyIndex \<times> 'r) \<Rightarrow> TextDocument \<times> 'r" where
  "td_query d f =
     (let (li, r) = f (mLazyIndex d);
          d1 = (if \<not> hasEditedLineStartIndex (mEditedLineStarts d) \<and> mLineIndexCheckpoints (mLazyIndex d) = []
                then clearLineIndexScanLedger d else d)
      in (d1\<lparr>mLazyIndex := li\<rparr>, r))"

definition TextDocument_clampOffset :: "TextDocument \<Rightarrow> Offset \<Rightarrow> Offset" where
  "TextDocument_clampOffset d pos = min pos (mLength d)"

definition TextDocument_charAt :: "TextDocument \<Rightarrow> Offset \<Rightarrow> char" where
  "TextDocument_charAt d pos = charAt (doc_source d) pos"

definition TextDocument_lineCount :: "TextDocument \<Rightarrow> TextDocument \<times> nat" where
  "TextDocument_lineCount d = td_query d (lineCount (doc_source d) (mEditedLineStarts d))"

definition TextDocument_lineStart :: "TextDocument \<Rightarrow> Offset \<Rightarrow> Offset" where
  "TextDocument_lineStart d pos = lineStart (doc_source d) (mEditedLineStarts d) pos"

definition TextDocument_lineEnd :: "TextDocument \<Rightarrow> Offset \<Rightarrow> Offset" where
  "TextDocument_lineEnd d pos = lineEnd (doc_source d) pos"

definition TextDocument_nextLine :: "TextDocument \<Rightarrow> Offset \<Rightarrow> Offset" where
  "TextDocument_nextLine d pos = nextLine (doc_source d) (mEditedLineStarts d) pos"

definition TextDocument_prevLine :: "TextDocument \<Rightarrow> Offset \<Rightarrow> Offset" where
  "TextDocument_prevLine d pos = prevLine (doc_source d) (mEditedLineStarts d) pos"

definition TextDocument_lineIndex :: "TextDocument \<Rightarrow> Offset \<Rightarrow> TextDocument \<times> nat" where
  "TextDocument_lineIndex d pos = td_query d (\<lambda>li. lineIndex (doc_source d) (mEditedLineStarts d) li pos)"

definition TextDocument_estimatedLineIndex :: "'f LongDouble \<Rightarrow> TextDocument \<Rightarrow> Offset \<Rightarrow> TextDocument \<times> nat" where
  "TextDocument_estimatedLineIndex ld d pos =
     td_query d (\<lambda>li. estimatedLineIndex ld (doc_source d) (mEditedLineStarts d) li pos)"

definition TextDocument_lineStartByIndex :: "'f LongDouble \<Rightarrow> TextDocument \<Rightarrow> nat \<Rightarrow> TextDocument \<times> Offset" where
  "TextDocument_lineStartByIndex ld d index0 =
     td_query d (\<lambda>li0.
       if hasEditedLineStartIndex (mEditedLineStarts d)
       then (li0, lineStartFromExactStarts (the (mEditedLineStarts d)) index0)
       else
         (let li = ensureLazyIndexSeeded (mLength d) li0;
              total = mLazyTotalLineCount li;
              index = (if mLazyLineIndexComplete li \<and> index0 \<ge> total then (if total > 0 then total - 1 else 0) else index0)
          in (li, if mLineIndexCheckpoints li = [] then 0
                  else localInterpolatedLineStartByIndex ld (doc_source d) (mEditedLineStarts d) li index)))"

definition TextDocument_lineStartByIndexKnown :: "TextDocument \<Rightarrow> nat \<Rightarrow> TextDocument \<times> bool" where
  "TextDocument_lineStartByIndexKnown d index =
     td_query d (\<lambda>li. lineStartByIndexKnown (mLength d) (mEditedLineStarts d) li index)"

definition TextDocument_estimatedLineCount :: "'f LongDouble \<Rightarrow> TextDocument \<Rightarrow> TextDocument \<times> nat" where
  "TextDocument_estimatedLineCount ld d = td_query d (estimatedLineCount ld (doc_source d) (mEditedLineStarts d))"

definition TextDocument_exactLineCountKnown :: "TextDocument \<Rightarrow> bool" where
  "TextDocument_exactLineCountKnown d = exactLineCountKnown (mEditedLineStarts d) (mLazyIndex d)"

definition TextDocument_column :: "TextDocument \<Rightarrow> Offset \<Rightarrow> nat" where
  "TextDocument_column d pos = column (doc_source d) (mEditedLineStarts d) pos"

definition TextDocument_lineText :: "TextDocument \<Rightarrow> Offset \<Rightarrow> string" where
  "TextDocument_lineText d pos = lineText (doc_source d) (mEditedLineStarts d) pos"

subsection \<open>The contract of a document class\<close>

locale line_queries =
  fixes source_of :: "'d \<Rightarrow> TextSource" and text_of :: "'d \<Rightarrow> string"
    and edited_of :: "'d \<Rightarrow> Offset list option" and lazy_of :: "'d \<Rightarrow> LazyIndex"
    and inv :: "'d \<Rightarrow> bool"
  assumes source: "inv d \<Longrightarrow> source_ok (source_of d) (text_of d)"
    and edited: "inv d \<Longrightarrow> edited_ok (text_of d) (edited_of d)"
    and lazy: "inv d \<Longrightarrow> lazy_ok (text_of d) (lazy_of d)"
begin

lemma char_query: "inv d \<Longrightarrow> p < length (text_of d) \<Longrightarrow> charAt (source_of d) p = text_of d ! p"
  by (simp add: charAt_spec [OF source])

lemma line_start_query: "inv d \<Longrightarrow> lineStart (source_of d) (edited_of d) p = line_start_at (text_of d) (min p (length (text_of d)))"
  by (rule lineStart_spec [OF source edited])

lemma line_end_query: "inv d \<Longrightarrow> lineEnd (source_of d) p = next_break (text_of d) (length (text_of d)) (min p (length (text_of d)))"
  by (rule lineEnd_spec [OF source])

lemma next_line_query: "inv d \<Longrightarrow> nextLine (source_of d) (edited_of d) p = next_line_or_end (text_of d) (min p (length (text_of d)))"
  by (rule nextLine_spec [OF source edited])

lemma prev_line_query: "inv d \<Longrightarrow> prevLine (source_of d) (edited_of d) p = prev_line_start (text_of d) (min p (length (text_of d)))"
  by (rule prevLine_spec [OF source edited])

lemma line_index_query:
  "inv d \<Longrightarrow> lazy_ok (text_of d) (fst (lineIndex (source_of d) (edited_of d) (lazy_of d) p))
   \<and> snd (lineIndex (source_of d) (edited_of d) (lazy_of d) p) = breaks_before (text_of d) (min p (length (text_of d)))"
  by (rule lineIndex_spec [OF source edited lazy])

lemma line_count_query:
  "inv d \<Longrightarrow> lazy_ok (text_of d) (fst (lineCount (source_of d) (edited_of d) (lazy_of d)))
   \<and> snd (lineCount (source_of d) (edited_of d) (lazy_of d)) = line_count (text_of d)"
  by (rule lineCount_spec [OF source edited lazy])

lemma line_by_index_query:
  "inv d \<Longrightarrow> index < line_count (text_of d) \<Longrightarrow>
   lineStartByIndex ld (source_of d) (edited_of d) (lazy_of d) index = (lazy_of d, line_starts (text_of d) ! index)"
  by (rule lineStartByIndex_spec [OF source edited lazy])

text \<open>A line found by its number contains the positions that report that number.\<close>

lemma index_of_start:
  assumes "inv d" "index < line_count (text_of d)"
  shows "snd (lineIndex (source_of d) (edited_of d) (lazy_of d)
           (snd (lineStartByIndex ld (source_of d) (edited_of d) (lazy_of d) index))) = index"
proof -
  have "line_starts (text_of d) ! index \<le> length (text_of d)"
    using nth_mem [of index "line_starts (text_of d)"] assms(2)
    by (auto simp: length_line_starts set_line_starts dest: is_line_start_le)
  with assms show ?thesis
    by (simp add: line_by_index_query line_index_query breaks_before_nth_start min_absorb1)
qed

lemma start_of_index:
  assumes "inv d"
  shows "snd (lineStartByIndex ld (source_of d) (edited_of d) (lazy_of d)
           (snd (lineIndex (source_of d) (edited_of d) (lazy_of d) p))) = lineStart (source_of d) (edited_of d) p"
  using assms by (simp add: line_index_query line_start_query line_by_index_query breaks_before_less_count nth_line_start_at)

end

interpretation doc: line_queries doc_source doc_text mEditedLineStarts mLazyIndex "\<lambda>d. doc_ok d \<and> index_ok d"
  by unfold_locales (auto simp: doc_source_ok index_ok_def)

subsection \<open>Queries leave the document as it is\<close>

lemma index_update_ok:
  assumes "doc_ok d"
  shows "doc_ok (d\<lparr>mLazyIndex := li\<rparr>)" "doc_text (d\<lparr>mLazyIndex := li\<rparr>) = doc_text d"
proof -
  have s: "same_buffers d (d\<lparr>mLazyIndex := li\<rparr>)" "td_pieces (d\<lparr>mLazyIndex := li\<rparr>) = td_pieces d"
    by (simp_all add: same_buffers_def td_pieces_def)
  show "doc_text (d\<lparr>mLazyIndex := li\<rparr>) = doc_text d" by (rule doc_text_same [OF s])
  show "doc_ok (d\<lparr>mLazyIndex := li\<rparr>)" using doc_ok_same [OF s _ _ assms] assms by (simp add: doc_ok_def)
qed

lemma td_query_ok:
  assumes "doc_ok d" "index_ok d" "lazy_ok (doc_text d) (fst (f (mLazyIndex d)))"
  shows "doc_ok (fst (td_query d f))" "doc_text (fst (td_query d f)) = doc_text d" "index_ok (fst (td_query d f))"
    "snd (td_query d f) = snd (f (mLazyIndex d))"
proof -
  have "mLineIndexCheckpoints (mLazyIndex d) \<noteq> []" using assms(2) by (simp add: index_ok_def lazy_ok_def)
  then have q: "td_query d f = (d\<lparr>mLazyIndex := fst (f (mLazyIndex d))\<rparr>, snd (f (mLazyIndex d)))"
    by (simp add: td_query_def split: prod.splits)
  show "doc_ok (fst (td_query d f))" "doc_text (fst (td_query d f)) = doc_text d"
    "snd (td_query d f) = snd (f (mLazyIndex d))"
    using index_update_ok [OF assms(1)] by (simp_all add: q)
  then show "index_ok (fst (td_query d f))" using assms(2,3) by (simp add: q index_ok_def)
qed

lemma TextDocument_lineIndex_spec:
  assumes "doc_ok d" "index_ok d"
  shows "snd (TextDocument_lineIndex d p) = breaks_before (doc_text d) (min p (length (doc_text d)))"
    "doc_ok (fst (TextDocument_lineIndex d p))" "index_ok (fst (TextDocument_lineIndex d p))"
    "doc_text (fst (TextDocument_lineIndex d p)) = doc_text d"
  using doc.line_index_query [of d p] td_query_ok [OF assms, of "\<lambda>li. lineIndex (doc_source d) (mEditedLineStarts d) li p"] assms
  by (simp_all add: TextDocument_lineIndex_def)

lemma TextDocument_lineCount_spec:
  assumes "doc_ok d" "index_ok d"
  shows "snd (TextDocument_lineCount d) = line_count (doc_text d)"
    "doc_ok (fst (TextDocument_lineCount d))" "index_ok (fst (TextDocument_lineCount d))"
    "doc_text (fst (TextDocument_lineCount d)) = doc_text d"
  using doc.line_count_query [of d] td_query_ok [OF assms, of "lineCount (doc_source d) (mEditedLineStarts d)"] assms
  by (simp_all add: TextDocument_lineCount_def)

lemma TextDocument_lineCount_index:
  assumes "doc_ok d" "index_ok d"
  shows "if hasEditedLineStartIndex (mEditedLineStarts d) then mLazyIndex (fst (TextDocument_lineCount d)) = mLazyIndex d
    else mLazyLineIndexComplete (mLazyIndex (fst (TextDocument_lineCount d)))
      \<and> mLazyTotalLineCount (mLazyIndex (fst (TextDocument_lineCount d))) = line_count (doc_text d)"
  using ensureLazyIndexComplete_ok(2,3) [OF doc_source_ok [OF assms(1)], of "mLazyIndex d"] assms(2)
  by (simp add: TextDocument_lineCount_def td_query_def lineCount_def Let_def index_ok_def)

lemma TextDocument_lineStartByIndex_spec:
  assumes "doc_ok d" "index_ok d" "index < line_count (doc_text d)"
  shows "snd (TextDocument_lineStartByIndex ld d index) = line_starts (doc_text d) ! index"
    "doc_ok (fst (TextDocument_lineStartByIndex ld d index))" "index_ok (fst (TextDocument_lineStartByIndex ld d index))"
proof -
  let ?f = "\<lambda>li. lineStartByIndex ld (doc_source d) (mEditedLineStarts d) li index"
  have len: "ts_length (doc_source d) = mLength d" by (simp add: doc_source_def doc_view_def)
  have lz: "lazy_ok (doc_text d) (mLazyIndex d)" using assms(2) by (simp add: index_ok_def)
  then have "\<not> (mLazyLineIndexComplete (mLazyIndex d) \<and> index \<ge> mLazyTotalLineCount (mLazyIndex d))"
    using assms(3) by (auto simp: lazy_ok_def)
  then have "TextDocument_lineStartByIndex ld d index = td_query d ?f"
    using lz unfolding TextDocument_lineStartByIndex_def td_query_def
    by (auto simp: lineStartByIndex_def len Let_def split: prod.splits)
  with td_query_ok [OF assms(1,2), of ?f] doc.line_by_index_query [of d index ld] assms lz
  show "snd (TextDocument_lineStartByIndex ld d index) = line_starts (doc_text d) ! index"
    "doc_ok (fst (TextDocument_lineStartByIndex ld d index))" "index_ok (fst (TextDocument_lineStartByIndex ld d index))"
    by simp_all
qed

end
