(* ===== verification/Read_Snapshot.thy ===== *)
theory Read_Snapshot
  imports Doc_Queries
begin

text \<open>
  The class \<open>ReadSnapshot\<close> of \<open>src/piecetable\<close>: an immutable view of a document with its own copy of
  the lazy index, taken by \<open>TextDocument::readSnapshot\<close>, put back by \<open>restoreFromSnapshot\<close>, compacted
  for undo, and used by the background warm-up whose result \<open>adoptLineIndexWarmup\<close> brings home.
\<close>

record ReadSnapshot =
  rs_documentId :: nat
  rs_version :: nat
  rs_mappedOriginal :: MappedFileSource
  rs_originalBuffer :: "string option"
  rs_addBuffer :: "string option"
  rs_pieces :: "Piece list option"
  rs_length :: Offset
  rs_cacheDirty :: bool
  rs_materializedText :: string
  rs_lazyIndex :: LazyIndex
  rs_editedLineStarts :: "Offset list option"

definition newReadSnapshot :: ReadSnapshot where
  "newReadSnapshot =
     \<lparr>rs_documentId = 0, rs_version = 0, rs_mappedOriginal = None, rs_originalBuffer = None, rs_addBuffer = None,
      rs_pieces = None, rs_length = 0, rs_cacheDirty = False, rs_materializedText = [],
      rs_lazyIndex = resetLazyLineIndex 0, rs_editedLineStarts = None\<rparr>"

subsection \<open>Reading\<close>

definition ReadSnapshot_empty :: "ReadSnapshot \<Rightarrow> bool" where
  "ReadSnapshot_empty r \<longleftrightarrow> rs_length r = 0"

definition ReadSnapshot_addBufferLength :: "ReadSnapshot \<Rightarrow> nat" where
  "ReadSnapshot_addBufferLength r = (case rs_addBuffer r of None \<Rightarrow> 0 | Some b \<Rightarrow> length b)"

definition ReadSnapshot_pieceCount :: "ReadSnapshot \<Rightarrow> nat" where
  "ReadSnapshot_pieceCount r = (case rs_pieces r of None \<Rightarrow> 0 | Some ps \<Rightarrow> length ps)"

definition ReadSnapshot_originalData :: "ReadSnapshot \<Rightarrow> string option" where
  "ReadSnapshot_originalData r =
     (if MappedFileSource_mapped (rs_mappedOriginal r) then MappedFileSource_data (rs_mappedOriginal r)
      else rs_originalBuffer r)"

definition ReadSnapshot_pieceChunk :: "ReadSnapshot \<Rightarrow> nat \<Rightarrow> PieceChunkView" where
  "ReadSnapshot_pieceChunk r index =
     (case rs_pieces r of
        None \<Rightarrow> emptyChunk
      | Some ps \<Rightarrow>
          if index \<ge> length ps then emptyChunk
          else
            (let piece = ps ! index in
             if Piece_empty piece then emptyChunk
             else if source piece = Original then
               (case ReadSnapshot_originalData r of
                  None \<Rightarrow> emptyChunk
                | Some base \<Rightarrow> \<lparr>chunk_data = Some (drop (span_start (span piece)) base),
                                chunk_length = span_length (span piece)\<rparr>)
             else
               (case rs_addBuffer r of
                  None \<Rightarrow> emptyChunk
                | Some b \<Rightarrow>
                    if span_start (span piece) \<ge> length b then emptyChunk
                    else \<lparr>chunk_data = Some (drop (span_start (span piece)) b),
                          chunk_length = span_length (span piece)\<rparr>)))"

definition ReadSnapshot_hasDirectOriginalView :: "ReadSnapshot \<Rightarrow> bool" where
  "ReadSnapshot_hasDirectOriginalView r \<longleftrightarrow>
     (case rs_pieces r of
        None \<Rightarrow> False
      | Some ps \<Rightarrow>
          length ps = 1
          \<and> (let piece = ps ! 0 in
             span_start (span piece) = 0 \<and> span_length (span piece) = rs_length r
             \<and> (case source piece of
                  Original \<Rightarrow> ReadSnapshot_originalData r \<noteq> None
                | Add \<Rightarrow> rs_addBuffer r \<noteq> None)))"

definition ReadSnapshot_directTextData :: "ReadSnapshot \<Rightarrow> string option" where
  "ReadSnapshot_directTextData r =
     (if \<not> ReadSnapshot_hasDirectOriginalView r then None
      else if source (the (rs_pieces r) ! 0) = Original then ReadSnapshot_originalData r
      else rs_addBuffer r)"

definition snap_source :: "ReadSnapshot \<Rightarrow> TextSource" where
  "snap_source r =
     \<lparr>ts_view = \<lparr>dv_length = rs_length r, dv_chunks = map (ReadSnapshot_pieceChunk r) [0..<ReadSnapshot_pieceCount r]\<rparr>,
      ts_direct = ReadSnapshot_directTextData r\<rparr>"

definition ReadSnapshot_pieceText :: "ReadSnapshot \<Rightarrow> Piece \<Rightarrow> string" where
  "ReadSnapshot_pieceText r piece =
     (if source piece = Original then
        (if MappedFileSource_mapped (rs_mappedOriginal r) then MappedFileSource_sliceText (rs_mappedOriginal r) (span piece)
         else (case rs_originalBuffer r of
                 None \<Rightarrow> []
               | Some b \<Rightarrow> substr b (span_start (span piece)) (span_length (span piece))))
      else (case rs_addBuffer r of
              None \<Rightarrow> []
            | Some b \<Rightarrow> substr b (span_start (span piece)) (span_length (span piece))))"

definition ReadSnapshot_ensureMaterialized :: "ReadSnapshot \<Rightarrow> ReadSnapshot" where
  "ReadSnapshot_ensureMaterialized r =
     (if \<not> rs_cacheDirty r then r
      else r\<lparr>rs_materializedText :=
               (case rs_pieces r of None \<Rightarrow> [] | Some ps \<Rightarrow> concat (map (ReadSnapshot_pieceText r) ps)),
             rs_cacheDirty := False\<rparr>)"

definition ReadSnapshot_text :: "ReadSnapshot \<Rightarrow> ReadSnapshot \<times> string" where
  "ReadSnapshot_text r = (let r' = ReadSnapshot_ensureMaterialized r in (r', rs_materializedText r'))"

definition ReadSnapshot_charAt :: "ReadSnapshot \<Rightarrow> Offset \<Rightarrow> char" where
  "ReadSnapshot_charAt r pos = charAt (snap_source r) pos"

subsection \<open>Line queries\<close>

definition rs_query :: "ReadSnapshot \<Rightarrow> (LazyIndex \<Rightarrow> LazyIndex \<times> 'r) \<Rightarrow> ReadSnapshot \<times> 'r" where
  "rs_query r f = (let (li, x) = f (rs_lazyIndex r) in (r\<lparr>rs_lazyIndex := li\<rparr>, x))"

definition ReadSnapshot_resetLazyLineIndex :: "ReadSnapshot \<Rightarrow> ReadSnapshot" where
  "ReadSnapshot_resetLazyLineIndex r = r\<lparr>rs_lazyIndex := resetLazyLineIndex (rs_length r)\<rparr>"

definition ReadSnapshot_lineCount :: "ReadSnapshot \<Rightarrow> ReadSnapshot \<times> nat" where
  "ReadSnapshot_lineCount r = rs_query r (lineCount (snap_source r) (rs_editedLineStarts r))"

definition ReadSnapshot_lineStart :: "ReadSnapshot \<Rightarrow> Offset \<Rightarrow> Offset" where
  "ReadSnapshot_lineStart r pos = lineStart (snap_source r) (rs_editedLineStarts r) pos"

definition ReadSnapshot_lineEnd :: "ReadSnapshot \<Rightarrow> Offset \<Rightarrow> Offset" where
  "ReadSnapshot_lineEnd r pos = lineEnd (snap_source r) pos"

definition ReadSnapshot_nextLine :: "ReadSnapshot \<Rightarrow> Offset \<Rightarrow> Offset" where
  "ReadSnapshot_nextLine r pos = nextLine (snap_source r) (rs_editedLineStarts r) pos"

definition ReadSnapshot_prevLine :: "ReadSnapshot \<Rightarrow> Offset \<Rightarrow> Offset" where
  "ReadSnapshot_prevLine r pos = prevLine (snap_source r) (rs_editedLineStarts r) pos"

definition ReadSnapshot_lineIndex :: "ReadSnapshot \<Rightarrow> Offset \<Rightarrow> ReadSnapshot \<times> nat" where
  "ReadSnapshot_lineIndex r pos = rs_query r (\<lambda>li. lineIndex (snap_source r) (rs_editedLineStarts r) li pos)"

definition ReadSnapshot_estimatedLineIndex :: "'f LongDouble \<Rightarrow> ReadSnapshot \<Rightarrow> Offset \<Rightarrow> ReadSnapshot \<times> nat" where
  "ReadSnapshot_estimatedLineIndex ld r pos =
     rs_query r (\<lambda>li. estimatedLineIndex ld (snap_source r) (rs_editedLineStarts r) li pos)"

definition ReadSnapshot_lineStartByIndex :: "'f LongDouble \<Rightarrow> ReadSnapshot \<Rightarrow> nat \<Rightarrow> ReadSnapshot \<times> Offset" where
  "ReadSnapshot_lineStartByIndex ld r index =
     rs_query r (\<lambda>li. lineStartByIndex ld (snap_source r) (rs_editedLineStarts r) li index)"

definition ReadSnapshot_estimatedLineCount :: "'f LongDouble \<Rightarrow> ReadSnapshot \<Rightarrow> ReadSnapshot \<times> nat" where
  "ReadSnapshot_estimatedLineCount ld r = rs_query r (estimatedLineCount ld (snap_source r) (rs_editedLineStarts r))"

definition ReadSnapshot_exactLineCountKnown :: "ReadSnapshot \<Rightarrow> bool" where
  "ReadSnapshot_exactLineCountKnown r = exactLineCountKnown (rs_editedLineStarts r) (rs_lazyIndex r)"

definition ReadSnapshot_column :: "ReadSnapshot \<Rightarrow> Offset \<Rightarrow> nat" where
  "ReadSnapshot_column r pos = column (snap_source r) (rs_editedLineStarts r) pos"

definition ReadSnapshot_lineText :: "ReadSnapshot \<Rightarrow> Offset \<Rightarrow> string" where
  "ReadSnapshot_lineText r pos = lineText (snap_source r) (rs_editedLineStarts r) pos"

definition compactLineIndexForUndo :: "ReadSnapshot \<Rightarrow> Offset \<Rightarrow> ReadSnapshot" where
  "compactLineIndexForUndo r focusOffset0 =
     (if \<not> hasEditedLineStartIndex (rs_editedLineStarts r) then r
      else
        (let starts = the (rs_editedLineStarts r);
             focusOffset = min focusOffset0 (rs_length r);
             lookupOffset = (if focusOffset = rs_length r \<and> rs_length r > 0 then rs_length r - 1 else focusOffset);
             focusLine = lineIndexFromExactStarts starts lookupOffset;
             anchorLine = (if focusLine > kLazyLineIndexStride then focusLine - kLazyLineIndexStride else 0);
             anchorOffset = lineStartFromExactStarts starts anchorLine
         in r\<lparr>rs_editedLineStarts := None,
              rs_lazyIndex :=
                \<lparr>mLineIndexCheckpoints =
                   (if anchorOffset \<noteq> 0 \<or> anchorLine \<noteq> 0 then [mkCheckpoint 0 0, mkCheckpoint anchorOffset anchorLine]
                    else [mkCheckpoint 0 0]),
                 mLazyIndexedOffset = anchorOffset, mLazyIndexedLine = anchorLine,
                 mLazyLineIndexComplete = (rs_length r = 0),
                 mLazyTotalLineCount = max 1 (anchorLine + 1)\<rparr>\<rparr>))"

subsection \<open>Taking and restoring a snapshot\<close>

definition readSnapshot :: "TextDocument \<Rightarrow> ReadSnapshot" where
  "readSnapshot d =
     (let r = newReadSnapshot
           \<lparr>rs_documentId := mDocumentId d, rs_version := mVersion d, rs_mappedOriginal := mMappedOriginal d,
            rs_originalBuffer := mOriginalBuffer d, rs_addBuffer := mAddBuffer d, rs_pieces := mPieces d,
            rs_length := mLength d, rs_cacheDirty := (mLength d \<noteq> 0), rs_lazyIndex := mLazyIndex d,
            rs_editedLineStarts := mEditedLineStarts d\<rparr>
      in if mLineIndexCheckpoints (rs_lazyIndex r) = [] then ReadSnapshot_resetLazyLineIndex r else r)"

definition restoreFromSnapshot :: "TextDocument \<Rightarrow> ReadSnapshot \<Rightarrow> TextDocument" where
  "restoreFromSnapshot d r =
     (if ReadSnapshot_empty r \<and> rs_length r = 0 then fst (setTextNoVersionBump d [])
      else
        (let d1 = d\<lparr>mDocumentId := rs_documentId r, mVersion := rs_version r, mMappedOriginal := rs_mappedOriginal r,
                    mOriginalBuffer := Some (case rs_originalBuffer r of None \<Rightarrow> [] | Some b \<Rightarrow> b),
                    mAddBuffer := AppendBuffer_setSharedText (mAddBuffer d) (rs_addBuffer r),
                    mPieces := Some (case rs_pieces r of None \<Rightarrow> [] | Some ps \<Rightarrow> ps),
                    mLength := rs_length r, mCacheDirty := rs_cacheDirty r, mMaterializedText := rs_materializedText r,
                    mLazyIndex := rs_lazyIndex r\<rparr>;
             d2 = (clearLineIndexScanLedger d1)\<lparr>mEditedLineStarts := rs_editedLineStarts r\<rparr>
         in if mLength d2 \<noteq> 0 \<and> td_pieces d2 = []
            then (initializeFromOriginal d2 (snd (ReadSnapshot_text r)) False)
                   \<lparr>mDocumentId := mDocumentId d2, mVersion := mVersion d2\<rparr>
            else d2))"

definition StagedEditTransaction_fromSnapshot :: "ReadSnapshot \<Rightarrow> string \<Rightarrow> StagedEditTransaction" where
  "StagedEditTransaction_fromSnapshot r label = mkStagedEditTransaction (rs_version r) label"

subsection \<open>Background warm-up\<close>

text \<open>
  The cancel flag is an atomic another thread may set: \<open>cancel k\<close> is what the \<open>k\<close>-th load
  returns. The loop returns the index it reached and whether it was cancelled.
\<close>

function warm_loop ::
  "TextSource \<Rightarrow> (nat \<Rightarrow> bool) \<Rightarrow> nat \<Rightarrow> nat \<Rightarrow> nat \<Rightarrow> LazyIndex \<Rightarrow> LazyIndex \<times> nat \<times> bool" where
  "warm_loop src cancel loads strideIndex maxStrides li =
     (if strideIndex < maxStrides \<and> \<not> mLazyLineIndexComplete li then
        if cancel loads then (li, loads + 1, True)
        else warm_loop src cancel (loads + 1) (strideIndex + 1) maxStrides (advanceLazyIndexByStride src li)
      else (li, loads, False))"
  by pat_completeness auto
termination
  by (relation "measure (\<lambda>(src, cancel, loads, i, n, li). n - i)") auto

declare warm_loop.simps [simp del]

definition warmLineIndexChunk ::
  "ReadSnapshot \<Rightarrow> LineIndexWarmupData \<Rightarrow> nat \<Rightarrow> (nat \<Rightarrow> bool) \<Rightarrow> ReadSnapshot \<times> LineIndexWarmupData \<times> bool" where
  "warmLineIndexChunk r warmup maxStrides0 cancel =
     (let li0 = ensureLazyIndexSeeded (rs_length r) (rs_lazyIndex r);
          maxStrides = (if maxStrides0 = 0 then 1 else maxStrides0);
          (li, loads, stopped) = warm_loop (snap_source r) cancel 0 0 maxStrides li0;
          r' = r\<lparr>rs_lazyIndex := li\<rparr>
      in if stopped \<or> cancel loads then (r', warmup, False)
         else (r', \<lparr>wu_checkpoints = mLineIndexCheckpoints li, wu_lazyIndexedOffset = mLazyIndexedOffset li,
                    wu_lazyIndexedLine = mLazyIndexedLine li, wu_lazyLineIndexComplete = mLazyLineIndexComplete li,
                    wu_lazyTotalLineCount = mLazyTotalLineCount li\<rparr>, True))"

definition completeLineIndexWarmup ::
  "ReadSnapshot \<Rightarrow> LineIndexWarmupData \<Rightarrow> (nat \<Rightarrow> bool) \<Rightarrow> ReadSnapshot \<times> LineIndexWarmupData \<times> bool" where
  "completeLineIndexWarmup r warmup cancel = warmLineIndexChunk r warmup size_max cancel"

definition adoptLineIndexWarmup :: "TextDocument \<Rightarrow> LineIndexWarmupData \<Rightarrow> nat \<Rightarrow> TextDocument \<times> bool" where
  "adoptLineIndexWarmup d warmup expected =
     (if \<not> matchesVersion d expected then (d, False)
      else if wu_checkpoints warmup = [] then (d, False)
      else
        (let incomingBetter = (\<not> mLazyLineIndexComplete (mLazyIndex d) \<and> wu_lazyLineIndexComplete warmup);
             incomingFurther = (wu_lazyIndexedOffset warmup > mLazyIndexedOffset (mLazyIndex d));
             incomingDenser = (length (wu_checkpoints warmup) > length (mLineIndexCheckpoints (mLazyIndex d)))
         in if \<not> incomingBetter \<and> \<not> incomingFurther \<and> \<not> incomingDenser then (d, False)
            else
              (clearLineIndexScanLedger
                 (d\<lparr>mLazyIndex := \<lparr>mLineIndexCheckpoints = wu_checkpoints warmup,
                     mLazyIndexedOffset = wu_lazyIndexedOffset warmup, mLazyIndexedLine = wu_lazyIndexedLine warmup,
                     mLazyLineIndexComplete = wu_lazyLineIndexComplete warmup,
                     mLazyTotalLineCount = wu_lazyTotalLineCount warmup\<rparr>\<rparr>), True)))"

subsection \<open>A snapshot shows the document it was taken from\<close>

definition snap_text_of :: "ReadSnapshot \<Rightarrow> string" where
  "snap_text_of r = pieces_text (case ReadSnapshot_originalData r of None \<Rightarrow> [] | Some b \<Rightarrow> b)
     (case rs_addBuffer r of None \<Rightarrow> [] | Some b \<Rightarrow> b) (case rs_pieces r of None \<Rightarrow> [] | Some ps \<Rightarrow> ps)"

text \<open>The document a snapshot is the view of, without its ledger.\<close>

definition snap_doc :: "ReadSnapshot \<Rightarrow> TextDocument" where
  "snap_doc r =
     \<lparr>mOriginalBuffer = rs_originalBuffer r, mMappedOriginal = rs_mappedOriginal r, mAddBuffer = rs_addBuffer r,
      mPieces = rs_pieces r, mLength = rs_length r, mDocumentId = rs_documentId r, mVersion = rs_version r,
      mCacheDirty = rs_cacheDirty r, mMaterializedText = rs_materializedText r, mLazyIndex = rs_lazyIndex r,
      mPendingLineIndexScanPackets = [], mLineIndexScanReservations = [], mNextLineIndexScanReservationId = 1,
      mEditedLineStarts = rs_editedLineStarts r\<rparr>"

definition snap_ok :: "ReadSnapshot \<Rightarrow> bool" where
  "snap_ok r \<longleftrightarrow> doc_ok (snap_doc r) \<and> index_ok (snap_doc r)"

lemma snap_doc_sel [simp]:
  "mOriginalBuffer (snap_doc r) = rs_originalBuffer r" "mMappedOriginal (snap_doc r) = rs_mappedOriginal r"
  "mAddBuffer (snap_doc r) = rs_addBuffer r" "mPieces (snap_doc r) = rs_pieces r" "mLength (snap_doc r) = rs_length r"
  "mDocumentId (snap_doc r) = rs_documentId r" "mVersion (snap_doc r) = rs_version r"
  "mCacheDirty (snap_doc r) = rs_cacheDirty r" "mMaterializedText (snap_doc r) = rs_materializedText r"
  "mLazyIndex (snap_doc r) = rs_lazyIndex r" "mEditedLineStarts (snap_doc r) = rs_editedLineStarts r"
  by (simp_all add: snap_doc_def)

lemma snap_originalData: "originalData (snap_doc r) = ReadSnapshot_originalData r"
  by (simp add: originalData_def ReadSnapshot_originalData_def)

lemma snap_text_doc: "snap_text_of r = doc_text (snap_doc r)"
  by (simp add: snap_text_of_def doc_text_def doc_orig_def doc_add_def td_pieces_def snap_originalData
      AppendBuffer_text_def)

text \<open>
  The two classes differ in the guards of \<open>pieceChunk\<close> and \<open>hasDirectOriginalView\<close>; on a well-formed
  snapshot they read the same data.
\<close>

lemma snap_pieceChunk:
  assumes "rs_addBuffer r \<noteq> None" shows "ReadSnapshot_pieceChunk r i = pieceChunk (snap_doc r) i"
proof -
  obtain b where "rs_addBuffer r = Some b" using assms by auto
  then show ?thesis
    unfolding ReadSnapshot_pieceChunk_def pieceChunk_def snap_originalData snap_doc_sel Let_def
    by (simp split: option.split)
qed

lemma snap_direct:
  assumes "doc_ok (snap_doc r)" shows "ReadSnapshot_directTextData r = directTextData (snap_doc r)"
proof -
  obtain b where b: "rs_addBuffer r = Some b" using assms by (auto simp: doc_ok_def)
  have "length b \<ge> span_length (span p)" if "rs_pieces r = Some [p]" "source p = Add" for p
    using assms that b by (auto simp: doc_ok_def td_pieces_def piece_ok_def piece_buffer_def doc_add_def TextSpan_end_def)
  then have view: "ReadSnapshot_hasDirectOriginalView r = hasDirectOriginalView (snap_doc r)"
    unfolding ReadSnapshot_hasDirectOriginalView_def hasDirectOriginalView_def snap_originalData snap_doc_sel Let_def
    using b by (auto simp: length_Suc_conv split: option.splits BufferKind.splits)
  show ?thesis
    unfolding ReadSnapshot_directTextData_def directTextData_def view snap_originalData snap_doc_sel
    using b by simp
qed

lemma snap_source_doc:
  assumes "doc_ok (snap_doc r)" shows "snap_source r = doc_source (snap_doc r)"
proof -
  have "rs_addBuffer r \<noteq> None" using assms by (simp add: doc_ok_def)
  then have "ReadSnapshot_pieceChunk r = pieceChunk (snap_doc r)" by (auto simp: snap_pieceChunk)
  with snap_direct [OF assms] show ?thesis
    by (simp add: snap_source_def doc_source_def doc_view_def ReadSnapshot_pieceCount_def pieceCount_def)
qed

interpretation snap: line_queries snap_source snap_text_of rs_editedLineStarts rs_lazyIndex snap_ok
  by unfold_locales (auto simp: snap_ok_def snap_source_doc doc_source_ok snap_text_doc index_ok_def)

lemma snap_materialize:
  assumes "doc_ok (snap_doc r)"
  shows "snd (ReadSnapshot_text r) = snap_text_of r" "rs_lazyIndex (fst (ReadSnapshot_text r)) = rs_lazyIndex r"
proof -
  have "ReadSnapshot_pieceText r = pieceText (snap_doc r)"
    unfolding fun_eq_iff ReadSnapshot_pieceText_def pieceText_def snap_doc_sel
    by (auto simp: AppendBuffer_text_def substr_def split: option.splits)
  then have "rs_materializedText (ReadSnapshot_ensureMaterialized r) = mMaterializedText (ensureMaterialized (snap_doc r))"
    by (simp add: ReadSnapshot_ensureMaterialized_def ensureMaterialized_def split: option.split)
  then show "snd (ReadSnapshot_text r) = snap_text_of r"
    using ensureMaterialized_spec(3) [OF assms] by (simp add: ReadSnapshot_text_def snap_text_doc Let_def)
  show "rs_lazyIndex (fst (ReadSnapshot_text r)) = rs_lazyIndex r"
    by (simp add: ReadSnapshot_text_def ReadSnapshot_ensureMaterialized_def Let_def)
qed

lemma readSnapshot_ok:
  assumes "doc_ok d" "index_ok d"
  shows "snap_ok (readSnapshot d)" "snap_text_of (readSnapshot d) = doc_text d"
    "rs_version (readSnapshot d) = mVersion d" "rs_documentId (readSnapshot d) = mDocumentId d"
proof -
  let ?r = "readSnapshot d"
  have r: "mLineIndexCheckpoints (mLazyIndex d) \<noteq> []" using assms(2) by (simp add: index_ok_def lazy_ok_def)
  then have f: "rs_originalBuffer ?r = mOriginalBuffer d" "rs_mappedOriginal ?r = mMappedOriginal d"
    "rs_addBuffer ?r = mAddBuffer d" "rs_pieces ?r = mPieces d" "rs_length ?r = mLength d"
    "rs_cacheDirty ?r = (mLength d \<noteq> 0)" "rs_materializedText ?r = []" "rs_lazyIndex ?r = mLazyIndex d"
    "rs_editedLineStarts ?r = mEditedLineStarts d" "rs_version ?r = mVersion d" "rs_documentId ?r = mDocumentId d"
    by (simp_all add: readSnapshot_def newReadSnapshot_def)
  show "rs_version ?r = mVersion d" "rs_documentId ?r = mDocumentId d" using f by auto
  have s: "same_buffers d (snap_doc ?r)" "td_pieces (snap_doc ?r) = td_pieces d"
    by (simp_all add: same_buffers_def td_pieces_def f)
  have tx: "doc_text (snap_doc ?r) = doc_text d" by (rule doc_text_same [OF s])
  show "snap_text_of ?r = doc_text d" by (simp add: snap_text_doc tx)
  have "doc_ok (snap_doc ?r)"
    using doc_ok_same [OF s _ _ assms(1)] assms(1) by (auto simp: f doc_ok_def)
  moreover have "index_ok (snap_doc ?r)" using assms(2) by (simp add: index_ok_def f tx)
  ultimately show "snap_ok ?r" by (simp add: snap_ok_def)
qed

lemma restoreFromSnapshot_ok:
  assumes "doc_ok d" "index_ok d" "snap_ok r"
  shows "doc_ok (restoreFromSnapshot d r)" "index_ok (restoreFromSnapshot d r)"
    "doc_text (restoreFromSnapshot d r) = snap_text_of r"
    "rs_length r \<noteq> 0 \<Longrightarrow> mVersion (restoreFromSnapshot d r) = rs_version r
       \<and> mDocumentId (restoreFromSnapshot d r) = rs_documentId r"
proof -
  let ?s = "snap_doc r" and ?d = "restoreFromSnapshot d r"
  have ok: "doc_ok ?s" "index_ok ?s" using assms(3) by (auto simp: snap_ok_def)
  have len: "rs_length r = length (doc_text ?s)" using ok(1) by (simp add: doc_ok_def)
  have "doc_ok ?d \<and> index_ok ?d \<and> doc_text ?d = doc_text ?s
      \<and> (rs_length r \<noteq> 0 \<longrightarrow> mVersion ?d = rs_version r \<and> mDocumentId ?d = rs_documentId r)"
  proof (cases "rs_length r = 0")
    case True
    obtain d' b where st: "setTextNoVersionBump d [] = (d', b)" by (metis surj_pair)
    from setTextNoVersionBump_spec [OF assms(1) _ st] assms(2) True len st show ?thesis
      by (simp add: restoreFromSnapshot_def ReadSnapshot_empty_def size_max_def)
  next
    case False
    then have ps: "td_pieces ?s \<noteq> []" using len by (auto simp: doc_text_def)
    then obtain qs where qs: "rs_pieces r = Some qs" "qs \<noteq> []" by (auto simp: td_pieces_def split: option.splits)
    obtain b where b: "rs_addBuffer r = Some b" using ok(1) by (auto simp: doc_ok_def)
    have f: "mMappedOriginal ?d = rs_mappedOriginal r" "mAddBuffer ?d = rs_addBuffer r" "mPieces ?d = rs_pieces r"
      "mOriginalBuffer ?d = Some (case rs_originalBuffer r of None \<Rightarrow> [] | Some b \<Rightarrow> b)"
      "mLength ?d = rs_length r" "mCacheDirty ?d = rs_cacheDirty r" "mMaterializedText ?d = rs_materializedText r"
      "mLazyIndex ?d = rs_lazyIndex r" "mEditedLineStarts ?d = rs_editedLineStarts r"
      "mVersion ?d = rs_version r" "mDocumentId ?d = rs_documentId r"
      using False qs b by (simp_all add: restoreFromSnapshot_def ReadSnapshot_empty_def Let_def td_pieces_def
          AppendBuffer_setSharedText_def)
    have eq: "doc_orig ?d = doc_orig ?s" "doc_add ?d = doc_add ?s" "td_pieces ?d = td_pieces ?s"
      by (auto simp: doc_orig_def originalData_def f doc_add_def td_pieces_def split: option.splits)
    then have tx: "doc_text ?d = doc_text ?s" by (simp add: doc_text_def)
    then have "doc_ok ?d" using ok(1) eq by (simp add: doc_ok_def f)
    moreover have "index_ok ?d" using ok(2) tx by (simp add: index_ok_def f)
    ultimately show ?thesis using tx f by simp
  qed
  then show "doc_ok ?d" "index_ok ?d" "doc_text ?d = snap_text_of r"
    "rs_length r \<noteq> 0 \<Longrightarrow> mVersion ?d = rs_version r \<and> mDocumentId ?d = rs_documentId r"
    by (simp_all add: snap_text_doc)
qed

subsection \<open>Compaction and warm-up keep the index right\<close>

lemma compactLineIndexForUndo_ok:
  assumes "snap_ok r"
  shows "snap_ok (compactLineIndexForUndo r p)" "snap_text_of (compactLineIndexForUndo r p) = snap_text_of r"
proof -
  let ?c = "compactLineIndexForUndo r p" and ?t = "snap_text_of r"
  have ok: "doc_ok (snap_doc r)" "edited_ok ?t (rs_editedLineStarts r)" "rs_length r = length ?t"
    using assms by (auto simp: snap_ok_def index_ok_def snap_text_doc doc_ok_def)
  have same: "same_buffers (snap_doc r) (snap_doc ?c)" "td_pieces (snap_doc ?c) = td_pieces (snap_doc r)"
    by (simp_all add: compactLineIndexForUndo_def Let_def same_buffers_def td_pieces_def)
  have tx: "doc_text (snap_doc ?c) = ?t" using doc_text_same [OF same] by (simp add: snap_text_doc)
  then show "snap_text_of ?c = ?t" by (simp add: snap_text_doc)
  have doc: "doc_ok (snap_doc ?c)"
    by (rule doc_ok_same [OF same _ _ ok(1)]) (use ok(1) in \<open>auto simp: compactLineIndexForUndo_def Let_def doc_ok_def\<close>)
  have "index_ok (snap_doc ?c)"
  proof (cases "hasEditedLineStartIndex (rs_editedLineStarts r)")
    case False
    with assms show ?thesis by (simp add: compactLineIndexForUndo_def snap_ok_def)
  next
    case True
    then have es: "the (rs_editedLineStarts r) = line_starts ?t" using ok(2) by (simp add: edited_ok_def)
    define q where "q = (if min p (rs_length r) = rs_length r \<and> rs_length r > 0 then rs_length r - 1 else min p (rs_length r))"
    define a where "a = (if breaks_before ?t q > kLazyLineIndexStride then breaks_before ?t q - kLazyLineIndexStride else 0)"
    have a: "a < line_count ?t" using breaks_before_less_count [of ?t q] by (auto simp: a_def)
    define off where "off = line_starts ?t ! a"
    have off: "is_line_start ?t off" "breaks_before ?t off = a" "off \<le> length ?t"
      using a nth_mem [of a "line_starts ?t"] breaks_before_nth_start [OF a] is_line_start_le
      by (auto simp: off_def length_line_starts set_line_starts)
    have look: "lineStartFromExactStarts (line_starts ?t) a = off"
      using a by (simp add: lineStartFromExactStarts_def length_line_starts off_def) (simp add: line_starts_def)
    have li: "rs_lazyIndex ?c = \<lparr>mLineIndexCheckpoints =
          (if off \<noteq> 0 \<or> a \<noteq> 0 then [mkCheckpoint 0 0, mkCheckpoint off a] else [mkCheckpoint 0 0]),
        mLazyIndexedOffset = off, mLazyIndexedLine = a, mLazyLineIndexComplete = (rs_length r = 0),
        mLazyTotalLineCount = max 1 (a + 1)\<rparr>" and es': "rs_editedLineStarts ?c = None"
      using True unfolding compactLineIndexForUndo_def Let_def es lineIndexFromExactStarts_spec
        q_def [symmetric] a_def [symmetric] look by simp_all
    have "rs_length r = 0 \<Longrightarrow> a = 0 \<and> line_count ?t = 1"
      using ok(3) off by (simp add: line_count_def)
    then have "lazy_ok ?t (rs_lazyIndex ?c)" using off by (simp add: li lazy_ok_def checkpoint_ok_def)
    then show ?thesis using tx es' by (simp add: index_ok_def edited_ok_def hasEditedLineStartIndex_def)
  qed
  with doc show "snap_ok ?c" by (simp add: snap_ok_def)
qed

lemma warm_loop_ok:
  "source_ok src s \<Longrightarrow> lazy_ok s li \<Longrightarrow> lazy_ok s (fst (warm_loop src cancel loads i n li))"
proof (induction src cancel loads i n li rule: warm_loop.induct)
  case (1 src cancel loads i n li)
  then show ?case
    by (cases "i < n \<and> \<not> mLazyLineIndexComplete li \<and> \<not> cancel loads")
      (subst warm_loop.simps, auto simp: advanceLazyIndexByStride_ok)+
qed

definition warmup_index :: "LineIndexWarmupData \<Rightarrow> LazyIndex" where
  "warmup_index w = \<lparr>mLineIndexCheckpoints = wu_checkpoints w, mLazyIndexedOffset = wu_lazyIndexedOffset w,
     mLazyIndexedLine = wu_lazyIndexedLine w, mLazyLineIndexComplete = wu_lazyLineIndexComplete w,
     mLazyTotalLineCount = wu_lazyTotalLineCount w\<rparr>"

lemma snap_index_update:
  assumes "snap_ok r" "lazy_ok (snap_text_of r) li"
  shows "snap_ok (r\<lparr>rs_lazyIndex := li\<rparr>)" "snap_text_of (r\<lparr>rs_lazyIndex := li\<rparr>) = snap_text_of r"
proof -
  have sd: "snap_doc (r\<lparr>rs_lazyIndex := li\<rparr>) = (snap_doc r)\<lparr>mLazyIndex := li\<rparr>" by (simp add: snap_doc_def)
  have ok: "doc_ok (snap_doc r)" using assms(1) by (simp add: snap_ok_def)
  show "snap_text_of (r\<lparr>rs_lazyIndex := li\<rparr>) = snap_text_of r"
    using index_update_ok(2) [OF ok] by (simp add: snap_text_doc sd)
  then show "snap_ok (r\<lparr>rs_lazyIndex := li\<rparr>)"
    using index_update_ok [OF ok] assms by (simp add: snap_ok_def sd index_ok_def snap_text_doc)
qed

lemma warmLineIndexChunk_ok:
  assumes "snap_ok r" "warmLineIndexChunk r w n cancel = (r', w', done')"
  shows "snap_ok r'" "snap_text_of r' = snap_text_of r" "done' \<Longrightarrow> lazy_ok (snap_text_of r) (warmup_index w')"
    "\<not> done' \<Longrightarrow> w' = w"
proof -
  have ok: "source_ok (snap_source r) (snap_text_of r)" "lazy_ok (snap_text_of r) (rs_lazyIndex r)"
    using snap.source snap.lazy assms(1) by auto
  define li where "li = fst (warm_loop (snap_source r) cancel 0 0 (if n = 0 then 1 else n) (rs_lazyIndex r))"
  have li: "lazy_ok (snap_text_of r) li" unfolding li_def by (rule warm_loop_ok [OF ok])
  have r': "r' = r\<lparr>rs_lazyIndex := li\<rparr>" and w': "if done' then warmup_index w' = li else w' = w"
    using assms(2) ok(2) by (auto simp: warmLineIndexChunk_def Let_def li_def warmup_index_def split: prod.splits if_splits)
  from snap_index_update [OF assms(1) li] show "snap_ok r'" "snap_text_of r' = snap_text_of r" by (auto simp: r')
  show "done' \<Longrightarrow> lazy_ok (snap_text_of r) (warmup_index w')" "\<not> done' \<Longrightarrow> w' = w" using w' li by auto
qed

lemma adoptLineIndexWarmup_ok:
  assumes "doc_ok d" "index_ok d" "adoptLineIndexWarmup d w expected = (d', b)"
    and "expected = mVersion d \<Longrightarrow> lazy_ok (doc_text d) (warmup_index w)"
  shows "doc_ok d'" "index_ok d'" "doc_text d' = doc_text d" "mVersion d' = mVersion d"
proof -
  have "d' = d \<or> expected = mVersion d \<and> d' = clearLineIndexScanLedger (d\<lparr>mLazyIndex := warmup_index w\<rparr>)"
    using assms(3) by (auto simp: adoptLineIndexWarmup_def Let_def warmup_index_def matchesVersion_def split: if_splits)
  then have "doc_ok d' \<and> index_ok d' \<and> doc_text d' = doc_text d \<and> mVersion d' = mVersion d"
  proof
    assume "d' = d"
    then show ?thesis using assms by simp
  next
    assume e: "expected = mVersion d \<and> d' = clearLineIndexScanLedger (d\<lparr>mLazyIndex := warmup_index w\<rparr>)"
    have s: "same_buffers d d'" "td_pieces d' = td_pieces d" using e by (simp_all add: same_buffers_def td_pieces_def)
    have "doc_ok d'" using doc_ok_same [OF s _ _ assms(1)] assms(1) e by (simp add: doc_ok_def)
    with doc_text_same [OF s] e assms(2,4) show ?thesis by (simp add: index_ok_def)
  qed
  then show "doc_ok d'" "index_ok d'" "doc_text d' = doc_text d" "mVersion d' = mVersion d" by auto
qed

end
