(* ===== verification/Span_Scanner.thy ===== *)
theory Span_Scanner
  imports Read_Snapshot
begin

text \<open>
  The scan of one span of a snapshot for line breaks (\<open>LineIndexSpanScanner\<close> and
  \<open>ReadSnapshot::scanLineIndexSpan\<close> in \<open>src/piecetable/MRTextDocumentDirectLineIndex.cpp\<close>). A span may
  begin or end inside a CR LF pair and a pair may be split over two chunks; a packet that was not
  cancelled is proved to count exactly the line breaks that end in its span.
\<close>

record LineIndexSpanScanner =
  scn_packet :: LineIndexScanPacket
  scn_previousWasCr :: bool
  scn_pendingCr :: bool
  scn_pendingCrOffset :: Offset
  scn_firstByte :: bool
  scn_cancelled :: bool
  scn_nextCancelCheckOffset :: Offset
  scn_loads :: nat

text \<open>\<open>scn_loads\<close> counts the loads of the cancel flag; \<open>cancel k\<close> is what the \<open>k\<close>-th one returns.\<close>

definition newScanner :: "LineIndexScanPacket \<Rightarrow> bool \<Rightarrow> LineIndexSpanScanner" where
  "newScanner packet previousByteWasCr =
     \<lparr>scn_packet = packet, scn_previousWasCr = previousByteWasCr, scn_pendingCr = False, scn_pendingCrOffset = 0,
      scn_firstByte = True, scn_cancelled = False, scn_nextCancelCheckOffset = pk_startOffset packet, scn_loads = 0\<rparr>"

definition rememberLineBreak :: "LineIndexSpanScanner \<Rightarrow> Offset \<Rightarrow> LineIndexSpanScanner" where
  "rememberLineBreak sc lineStartOffset =
     (let p = scn_packet sc; n = pk_lineBreakCount p + 1; p1 = p\<lparr>pk_lineBreakCount := n\<rparr>
      in sc\<lparr>scn_packet :=
              (if n mod kLazyLineIndexStride = 0
               then p1\<lparr>pk_checkpoints := pk_checkpoints p1 @ [\<lparr>sc_offset = lineStartOffset, sc_lineBreakCount = n\<rparr>]\<rparr>
               else p1)\<rparr>)"

definition kScanWindow :: Offset where
  "kScanWindow = 256 * 1024"

lemma break_found_ge: "b = directFindNextLineBreak data n p \<Longrightarrow> \<not> n \<le> b \<Longrightarrow> p \<le> b"
  using directFindNextLineBreak_ge [of data n p] by simp

function consume_loop ::
  "(nat \<Rightarrow> bool) \<Rightarrow> string \<Rightarrow> Offset \<Rightarrow> Offset \<Rightarrow> LineIndexSpanScanner \<Rightarrow> Offset \<Rightarrow> LineIndexSpanScanner" where
  "consume_loop cancel data len globalOffset sc cursor =
     (if cursor < len then
        (let absoluteCursor = globalOffset + cursor;
             check = (absoluteCursor \<ge> scn_nextCancelCheckOffset sc);
             sc1 = (if check then sc\<lparr>scn_loads := scn_loads sc + 1\<rparr> else sc)
         in if check \<and> cancel (scn_loads sc) then sc1\<lparr>scn_cancelled := True\<rparr>
            else
              (let sc2 = (if check then sc1\<lparr>scn_nextCancelCheckOffset := absoluteCursor + kScanWindow\<rparr> else sc1);
                   searchEnd = min len (cursor + kScanWindow);
                   breakOffset = directFindNextLineBreak (Some data) searchEnd cursor
               in if breakOffset \<ge> searchEnd then consume_loop cancel data len globalOffset sc2 searchEnd
                  else if data ! breakOffset = CR then
                    if breakOffset + 1 < len then
                      if data ! (breakOffset + 1) = LF
                      then consume_loop cancel data len globalOffset
                             (rememberLineBreak sc2 (globalOffset + breakOffset + 2)) (breakOffset + 2)
                      else consume_loop cancel data len globalOffset
                             (rememberLineBreak sc2 (globalOffset + breakOffset + 1)) (breakOffset + 1)
                    else consume_loop cancel data len globalOffset
                           (sc2\<lparr>scn_pendingCr := True, scn_pendingCrOffset := globalOffset + breakOffset\<rparr>) len
                  else consume_loop cancel data len globalOffset
                         (rememberLineBreak sc2 (globalOffset + breakOffset + 1)) (breakOffset + 1)))
      else sc)"
  by pat_completeness auto
termination
proof (relation "measure (\<lambda>(cancel, data, len, g, sc, cursor). len - cursor)", goal_cases)
  case (2 cancel data len g sc cursor x xa xb xc xd xe)
  then show ?case by (simp add: kScanWindow_def)
next
  case (3 cancel data len g sc cursor x xa xb xc xd xe)
  have "cursor \<le> xe" by (rule break_found_ge [of xe "Some data" xd cursor]; fact 3)
  with 3(1) show ?case by auto
next
  case (4 cancel data len g sc cursor x xa xb xc xd xe)
  have "cursor \<le> xe" by (rule break_found_ge [of xe "Some data" xd cursor]; fact 4)
  with 4(1) show ?case by auto
next
  case (6 cancel data len g sc cursor x xa xb xc xd xe)
  have "cursor \<le> xe" by (rule break_found_ge [of xe "Some data" xd cursor]; fact 6)
  with 6(1) show ?case by auto
qed auto

declare consume_loop.simps [simp del]

definition consume ::
  "(nat \<Rightarrow> bool) \<Rightarrow> LineIndexSpanScanner \<Rightarrow> string option \<Rightarrow> Offset \<Rightarrow> Offset \<Rightarrow> LineIndexSpanScanner" where
  "consume cancel sc data len globalOffset =
     (case data of
        None \<Rightarrow> sc
      | Some d \<Rightarrow>
          if len = 0 \<or> scn_cancelled sc then sc
          else
            (let first = (scn_firstByte sc \<and> scn_previousWasCr sc \<and> d ! 0 = LF);
                 cursor = (if first then 1 else 0);
                 sc1 = (if first then rememberLineBreak sc (globalOffset + 1) else sc)\<lparr>scn_firstByte := False\<rparr>;
                 joined = (scn_pendingCr sc1 \<and> cursor < len \<and> d ! cursor = LF);
                 cursor2 = (if joined then cursor + 1 else cursor);
                 sc2 = (if scn_pendingCr sc1
                        then (rememberLineBreak sc1 (if joined then globalOffset + cursor + 1 else scn_pendingCrOffset sc1 + 1))
                               \<lparr>scn_pendingCr := False\<rparr>
                        else sc1)
             in consume_loop cancel d len globalOffset sc2 cursor2))"

definition finish :: "LineIndexSpanScanner \<Rightarrow> bool \<Rightarrow> LineIndexSpanScanner" where
  "finish sc nextByteIsLf =
     (if scn_pendingCr sc \<and> \<not> nextByteIsLf then rememberLineBreak sc (scn_pendingCrOffset sc + 1) else sc)
       \<lparr>scn_pendingCr := False\<rparr>"

definition succeeded :: "(nat \<Rightarrow> bool) \<Rightarrow> LineIndexSpanScanner \<Rightarrow> LineIndexSpanScanner \<times> bool" where
  "succeeded cancel sc =
     (if scn_cancelled sc then (sc, False)
      else (sc\<lparr>scn_loads := scn_loads sc + 1\<rparr>, \<not> cancel (scn_loads sc)))"

fun scanPieces_loop ::
  "(nat \<Rightarrow> bool) \<Rightarrow> PieceChunkView list \<Rightarrow> Offset \<Rightarrow> Offset \<Rightarrow> Offset \<Rightarrow> LineIndexSpanScanner \<Rightarrow> LineIndexSpanScanner \<times> bool" where
  "scanPieces_loop cancel [] startOffset endOffset logicalOffset sc = (sc, True)"
| "scanPieces_loop cancel (c # cs) startOffset endOffset logicalOffset sc =
     (if \<not> logicalOffset < endOffset then (sc, True)
      else if chunk_skip c then scanPieces_loop cancel cs startOffset endOffset logicalOffset sc
      else
        (let chunkStart = logicalOffset; chunkEnd = logicalOffset + chunk_length c in
         if chunkEnd \<le> startOffset then scanPieces_loop cancel cs startOffset endOffset chunkEnd sc
         else
           (let takeStart = max startOffset chunkStart; takeEnd = min endOffset chunkEnd;
                sc1 = (if takeEnd > takeStart
                       then consume cancel sc (Some (drop (takeStart - chunkStart) (chunk_bytes c))) (takeEnd - takeStart) takeStart
                       else sc);
                (sc2, ok) = succeeded cancel sc1
            in if \<not> ok then (sc2, False) else scanPieces_loop cancel cs startOffset endOffset chunkEnd sc2)))"

definition scanLineIndexSpan ::
  "ReadSnapshot \<Rightarrow> nat \<Rightarrow> Offset \<Rightarrow> Offset \<Rightarrow> (nat \<Rightarrow> bool) \<Rightarrow> LineIndexScanPacket \<times> bool" where
  "scanLineIndexSpan r reservationId start0 end0 cancel =
     (let a = min start0 (rs_length r); b = min end0 (rs_length r);
          startOffset = min a b; endOffset = max a b;
          packet = emptyScanPacket\<lparr>pk_reservationId := reservationId, pk_startOffset := startOffset, pk_endOffset := endOffset\<rparr>
      in if endOffset \<le> startOffset then (packet, True)
         else
           (let src = snap_source r;
                sc = newScanner packet (startOffset > 0 \<and> charAt src (startOffset - 1) = CR);
                (sc1, ok) =
                  (case ts_direct src of
                     Some d \<Rightarrow> (consume cancel sc (Some (drop startOffset d)) (endOffset - startOffset) startOffset, True)
                   | None \<Rightarrow> scanPieces_loop cancel (dv_chunks (ts_view src)) startOffset endOffset 0 sc)
            in if \<not> ok then (scn_packet sc1, False)
               else
                 (let nextByteIsLf = (endOffset < rs_length r \<and> charAt src endOffset = LF);
                      (sc2, ok2) = succeeded cancel (finish sc1 nextByteIsLf)
                  in (scn_packet sc2, ok2))))"

subsection \<open>What a packet says about the text\<close>

definition scan_checkpoint_ok :: "string \<Rightarrow> Offset \<Rightarrow> Offset \<Rightarrow> LineIndexScanCheckpoint \<Rightarrow> bool" where
  "scan_checkpoint_ok s a g c \<longleftrightarrow> a < sc_offset c \<and> sc_offset c \<le> g \<and> is_line_start s (sc_offset c)
     \<and> breaks_before s (sc_offset c) = breaks_before s a + sc_lineBreakCount c"

definition packet_ok :: "string \<Rightarrow> LineIndexScanPacket \<Rightarrow> bool" where
  "packet_ok s p \<longleftrightarrow> pk_startOffset p \<le> pk_endOffset p \<and> pk_endOffset p \<le> length s
     \<and> breaks_before s (pk_endOffset p) = breaks_before s (pk_startOffset p) + pk_lineBreakCount p
     \<and> list_all (scan_checkpoint_ok s (pk_startOffset p) (pk_endOffset p)) (pk_checkpoints p)
     \<and> sorted (map sc_offset (pk_checkpoints p))"

text \<open>
  The scanner has read \<open>[a, g)\<close>. A CR as the last byte is pending until the next byte is known.
\<close>

definition scanner_at :: "string \<Rightarrow> Offset \<Rightarrow> Offset \<Rightarrow> LineIndexSpanScanner \<Rightarrow> bool" where
  "scanner_at s a g sc \<longleftrightarrow>
     (let p = scn_packet sc; h = (if scn_pendingCr sc then g - 1 else g) in
      a \<le> h \<and> g \<le> length s
      \<and> breaks_before s h = breaks_before s a + pk_lineBreakCount p
      \<and> list_all (scan_checkpoint_ok s a h) (pk_checkpoints p)
      \<and> sorted (map sc_offset (pk_checkpoints p))
      \<and> (if scn_pendingCr sc then 0 < g \<and> s ! (g - 1) = CR \<and> scn_pendingCrOffset sc = g - 1
         else h = a \<or> \<not> mid_crlf s g))"

lemma scan_checkpoint_mono: "scan_checkpoint_ok s a g c \<Longrightarrow> g \<le> h \<Longrightarrow> scan_checkpoint_ok s a h c"
  by (simp add: scan_checkpoint_ok_def)

lemma scanner_skip:
  assumes "scanner_at s a g sc" "\<not> scn_pendingCr sc" "g \<le> h" "h \<le> length s"
    and "\<And>i. g \<le> i \<Longrightarrow> i < h \<Longrightarrow> \<not> isLineBreakByte (s ! i)"
  shows "scanner_at s a h sc"
proof -
  have "breaks_before s h = breaks_before s g"
    using assms(3,5) lb_end_byte by (intro breaks_before_eqI) blast+
  moreover have "\<not> mid_crlf s h" if "g < h"
    using assms(5) [of "h - 1"] that by (auto simp: mid_crlf_def isLineBreakByte_def)
  moreover have "list_all (scan_checkpoint_ok s a h) (pk_checkpoints (scn_packet sc))"
    using assms(1,2,3) scan_checkpoint_mono by (auto simp: scanner_at_def Let_def list_all_iff)
  ultimately show ?thesis
    using assms by (cases "g = h") (auto simp: scanner_at_def Let_def)
qed

text \<open>Recording the break that ends at \<open>e - 1\<close>, the first one at or after \<open>h\<close>.\<close>

lemma scanner_remember:
  assumes "scanner_at s a g sc" "h = (if scn_pendingCr sc then g - 1 else g)" "h < e" "e \<le> length s"
    and "lb_end s (e - 1)" "\<And>i. h \<le> i \<Longrightarrow> i < e - 1 \<Longrightarrow> \<not> lb_end s i"
  shows "scanner_at s a e ((rememberLineBreak sc e)\<lparr>scn_pendingCr := False\<rparr>)"
proof -
  have h: "a \<le> h" "breaks_before s h = breaks_before s a + pk_lineBreakCount (scn_packet sc)"
    "list_all (scan_checkpoint_ok s a h) (pk_checkpoints (scn_packet sc))"
    "sorted (map sc_offset (pk_checkpoints (scn_packet sc)))"
    using assms(1,2) by (simp_all add: scanner_at_def Let_def)
  have "breaks_before s (e - 1) = breaks_before s h" using assms(3,6) by (intro breaks_before_eqI) auto
  then have bb: "breaks_before s e = breaks_before s a + (pk_lineBreakCount (scn_packet sc) + 1)"
    using assms(3,5) h(2) breaks_before_Suc [of s "e - 1"] by simp
  have start: "is_line_start s e" using assms(5) by (simp add: is_line_start_def)
  then have mid: "\<not> mid_crlf s e" by (rule is_line_start_not_mid)
  have old: "list_all (scan_checkpoint_ok s a e) (pk_checkpoints (scn_packet sc))"
    using h(3) assms(3) scan_checkpoint_mono by (auto simp: list_all_iff)
  have le: "\<forall>c \<in> set (pk_checkpoints (scn_packet sc)). sc_offset c \<le> e"
    using old by (auto simp: list_all_iff scan_checkpoint_ok_def)
  show ?thesis
    using h(1,4) bb start mid old le assms(3,4)
    by (simp add: scanner_at_def rememberLineBreak_def Let_def sorted_append scan_checkpoint_ok_def)
qed

lemma rememberLineBreak_frame [simp]:
  "scn_pendingCr (rememberLineBreak sc e) = scn_pendingCr sc" "scn_cancelled (rememberLineBreak sc e) = scn_cancelled sc"
  "scn_firstByte (rememberLineBreak sc e) = scn_firstByte sc" "scn_previousWasCr (rememberLineBreak sc e) = scn_previousWasCr sc"
  "scn_loads (rememberLineBreak sc e) = scn_loads sc"
  "pk_startOffset (scn_packet (rememberLineBreak sc e)) = pk_startOffset (scn_packet sc)"
  "pk_endOffset (scn_packet (rememberLineBreak sc e)) = pk_endOffset (scn_packet sc)"
  by (simp_all add: rememberLineBreak_def Let_def)

lemma scanner_at_cong:
  "scn_packet sc' = scn_packet sc \<Longrightarrow> scn_pendingCr sc' = scn_pendingCr sc \<Longrightarrow>
   scn_pendingCrOffset sc' = scn_pendingCrOffset sc \<Longrightarrow> scanner_at s a g sc' = scanner_at s a g sc"
  by (simp add: scanner_at_def)

lemma scanner_remember_plain:
  assumes "scanner_at s a g sc" "\<not> scn_pendingCr sc" "g < e" "e \<le> length s"
    and "lb_end s (e - 1)" "\<And>i. g \<le> i \<Longrightarrow> i < e - 1 \<Longrightarrow> \<not> lb_end s i"
  shows "scanner_at s a e (rememberLineBreak sc e)"
  using scanner_remember [OF assms(1) refl, of e] assms
  by (subst scanner_at_cong [of _ "(rememberLineBreak sc e)\<lparr>scn_pendingCr := False\<rparr>"]) auto

lemma scanner_pend:
  assumes "scanner_at s a h sc" "\<not> scn_pendingCr sc" "h < length s" "s ! h = CR"
  shows "scanner_at s a (Suc h) (sc\<lparr>scn_pendingCr := True, scn_pendingCrOffset := h\<rparr>)"
  using assms unfolding scanner_at_def Let_def by simp

text \<open>The bytes the pointer shows are bytes of the text.\<close>

definition shows_text :: "string \<Rightarrow> string \<Rightarrow> Offset \<Rightarrow> Offset \<Rightarrow> bool" where
  "shows_text s data len g \<longleftrightarrow> len \<le> length data \<and> g + len \<le> length s \<and> (\<forall>i < len. data ! i = s ! (g + i))"

lemma consume_loop_end: "consume_loop cancel data len g sc len = sc"
  by (subst consume_loop.simps) simp

lemma consume_loop_ok:
  assumes "shows_text s data len g" "cursor \<le> len" "scanner_at s a (g + cursor) sc" "\<not> scn_pendingCr sc"
    and "\<not> scn_cancelled (consume_loop cancel data len g sc cursor)"
  shows "scanner_at s a (g + len) (consume_loop cancel data len g sc cursor)"
  using assms
proof (induction cancel data len g sc cursor rule: consume_loop.induct)
  case (1 cancel data len g sc cursor)
  show ?case
  proof (cases "cursor < len")
    case False
    with "1.prems" show ?thesis by (subst consume_loop.simps) simp
  next
    case True
    define check where "check = (g + cursor \<ge> scn_nextCancelCheckOffset sc)"
    define sc1 where "sc1 = (if check then sc\<lparr>scn_loads := scn_loads sc + 1\<rparr> else sc)"
    define sc2 where "sc2 = (if check then sc1\<lparr>scn_nextCancelCheckOffset := g + cursor + kScanWindow\<rparr> else sc1)"
    define se where "se = min len (cursor + kScanWindow)"
    define b where "b = directFindNextLineBreak (Some data) se cursor"
    have go: "\<not> (check \<and> cancel (scn_loads sc))"
      using "1.prems"(5) True by (subst (asm) consume_loop.simps) (auto simp: Let_def check_def)
    have sc2: "scanner_at s a (g + cursor) sc2" "\<not> scn_pendingCr sc2"
      using "1.prems"(3,4) by (auto simp: sc2_def sc1_def scanner_at_def)
    note IH = "1.IH" [OF True refl check_def sc1_def go sc2_def se_def b_def]
    note eq = consume_loop.simps [of cancel data len g sc cursor, unfolded Let_def, folded check_def, folded sc1_def,
        folded sc2_def, folded se_def, folded b_def]
    have sh: "len \<le> length data" "g + len \<le> length s" "\<And>i. i < len \<Longrightarrow> data ! i = s ! (g + i)"
      using "1.prems"(1) by (auto simp: shows_text_def)
    have se: "cursor < se" "se \<le> len" using True by (auto simp: se_def kScanWindow_def)
    have nb: "b = next_break data se cursor" using se sh by (simp add: b_def directFindNextLineBreak_spec)
    note props = next_break_props [of cursor se data, folded nb]
    have b: "cursor \<le> b" "b \<le> se" and none: "\<And>i. cursor \<le> i \<Longrightarrow> i < b \<Longrightarrow> \<not> isLineBreakByte (data ! i)"
      and byte: "b < se \<Longrightarrow> isLineBreakByte (data ! b)"
      using props se sh by auto
    have none': "\<not> isLineBreakByte (s ! i)" if "g + cursor \<le> i" "i < g + b" for i
      using none [of "i - g"] sh(3) [of "i - g"] that b se by auto
    then have nolb: "\<not> lb_end s i" if "g + cursor \<le> i" "i < g + b" for i using that lb_end_byte by blast
    show ?thesis
    proof (cases "b < se")
      case False
      with b have "b = se" by simp
      have "scanner_at s a (g + se) sc2"
        using sc2 se sh none' \<open>b = se\<close> by (intro scanner_skip [OF sc2]) auto
      with IH(1) False "1.prems" sc2 se eq True go show ?thesis by simp
    next
      case less: True
      have blen: "b < len" using less se by simp
      have sb: "s ! (g + b) = data ! b" using sh(3) blen by simp
      show ?thesis
      proof (cases "data ! b = CR")
        case cr: True
        show ?thesis
        proof (cases "b + 1 < len")
          case last: False
          then have "b + 1 = len" using blen by simp
          have "scanner_at s a (g + b) sc2"
            using sc2 b sh none' blen by (intro scanner_skip [OF sc2]) auto
          then have "scanner_at s a (Suc (g + b)) (sc2\<lparr>scn_pendingCr := True, scn_pendingCrOffset := g + b\<rparr>)"
            by (rule scanner_pend) (use sc2 sh(2) blen cr sb in auto)
          then have at: "scanner_at s a (g + len) (sc2\<lparr>scn_pendingCr := True, scn_pendingCrOffset := g + b\<rparr>)"
            using \<open>b + 1 = len\<close> by auto
          have "consume_loop cancel data len g sc cursor = sc2\<lparr>scn_pendingCr := True, scn_pendingCrOffset := g + b\<rparr>"
            using eq True go less cr last by (simp add: consume_loop_end)
          with at show ?thesis by simp
        next
          case next_in: True
          have nx: "s ! (g + b + 1) = data ! (b + 1)" using sh(3) [OF next_in] by simp
          show ?thesis
          proof (cases "data ! (b + 1) = LF")
            case True
            have "scanner_at s a (g + b + 2) (rememberLineBreak sc2 (g + b + 2))"
            proof (rule scanner_remember_plain [OF sc2])
              show "lb_end s (g + b + 2 - 1)" using nx True sh next_in by (simp add: lb_end_def)
              fix i assume i: "g + cursor \<le> i" "i < g + b + 2 - 1"
              then show "\<not> lb_end s i"
                using nolb [of i] sb cr nx True sh next_in by (cases "i = g + b") (auto simp: lb_end_def)
            qed (use b sh next_in in auto)
            with IH(2) [OF _ cr next_in True] less "1.prems" sc2 eq \<open>cursor < len\<close> go cr next_in True show ?thesis
              by (simp add: add.assoc)
          next
            case False
            have "scanner_at s a (g + b + 1) (rememberLineBreak sc2 (g + b + 1))"
              using nolb sb cr nx False sh next_in b by (intro scanner_remember_plain [OF sc2]) (auto simp: lb_end_def)
            with IH(3) [OF _ cr next_in False] less "1.prems" sc2 eq \<open>cursor < len\<close> go cr next_in False show ?thesis
              by (simp add: add.assoc)
          qed
        qed
      next
        case lf: False
        have "s ! (g + b) = LF" using byte [OF less] lf sb by (auto simp: isLineBreakByte_def)
        then have "scanner_at s a (g + b + 1) (rememberLineBreak sc2 (g + b + 1))"
          using nolb sh blen b by (intro scanner_remember_plain [OF sc2]) (auto simp: lb_end_def)
        with IH(5) [OF _ lf] less "1.prems" sc2 eq \<open>cursor < len\<close> go lf blen show ?thesis
          by (simp add: add.assoc)
      qed
    qed
  qed
qed

definition same_span :: "LineIndexSpanScanner \<Rightarrow> LineIndexSpanScanner \<Rightarrow> bool" where
  "same_span sc sc' \<longleftrightarrow> scn_firstByte sc' = scn_firstByte sc
     \<and> pk_startOffset (scn_packet sc') = pk_startOffset (scn_packet sc)
     \<and> pk_endOffset (scn_packet sc') = pk_endOffset (scn_packet sc)"

lemma same_span_simps [simp]:
  "same_span sc sc" "same_span (rememberLineBreak sc e) sc' = same_span sc sc'"
  "same_span (sc\<lparr>scn_loads := n\<rparr>) sc' = same_span sc sc'"
  "same_span (sc\<lparr>scn_nextCancelCheckOffset := n\<rparr>) sc' = same_span sc sc'"
  "same_span (sc\<lparr>scn_pendingCr := b, scn_pendingCrOffset := n\<rparr>) sc' = same_span sc sc'"
  "same_span sc (sc'\<lparr>scn_cancelled := b\<rparr>) = same_span sc sc'" "same_span sc (sc'\<lparr>scn_loads := n\<rparr>) = same_span sc sc'"
  by (simp_all add: same_span_def)

lemma consume_loop_frame: "same_span sc (consume_loop cancel data len g sc cursor)"
proof (induction cancel data len g sc cursor rule: consume_loop.induct)
  case (1 cancel data len g sc cursor)
  show ?case
  proof (cases "cursor < len")
    case False
    then show ?thesis by (subst consume_loop.simps) simp
  next
    case True
    define check where "check = (g + cursor \<ge> scn_nextCancelCheckOffset sc)"
    define sc1 where "sc1 = (if check then sc\<lparr>scn_loads := scn_loads sc + 1\<rparr> else sc)"
    define sc2 where "sc2 = (if check then sc1\<lparr>scn_nextCancelCheckOffset := g + cursor + kScanWindow\<rparr> else sc1)"
    define se where "se = min len (cursor + kScanWindow)"
    define b where "b = directFindNextLineBreak (Some data) se cursor"
    have sc: "same_span sc2 x = same_span sc x" "same_span sc sc1" for x by (auto simp: sc2_def sc1_def)
    note IH = "1.IH" [OF True refl check_def sc1_def _ sc2_def se_def b_def]
    note eq = consume_loop.simps [of cancel data len g sc cursor, unfolded Let_def, folded check_def, folded sc1_def,
        folded sc2_def, folded se_def, folded b_def]
    show ?thesis unfolding eq using IH True sc by simp
  qed
qed

lemma consume_ok:
  assumes "shows_text s d len g" "0 < len" "scanner_at s a g sc" "\<not> scn_cancelled sc"
    and "scn_firstByte sc \<longrightarrow> g = a \<and> \<not> scn_pendingCr sc" "\<not> scn_cancelled (consume cancel sc (Some d) len g)"
  shows "scanner_at s a (g + len) (consume cancel sc (Some d) len g)"
    "\<not> scn_firstByte (consume cancel sc (Some d) len g)"
    "pk_startOffset (scn_packet (consume cancel sc (Some d) len g)) = pk_startOffset (scn_packet sc)"
    "pk_endOffset (scn_packet (consume cancel sc (Some d) len g)) = pk_endOffset (scn_packet sc)"
proof -
  define first where "first = (scn_firstByte sc \<and> scn_previousWasCr sc \<and> d ! 0 = LF)"
  define cursor where "cursor = (if first then 1 else 0 :: nat)"
  define sc1 where "sc1 = (if first then rememberLineBreak sc (g + 1) else sc)\<lparr>scn_firstByte := False\<rparr>"
  define joined where "joined = (scn_pendingCr sc1 \<and> cursor < len \<and> d ! cursor = LF)"
  define cursor2 where "cursor2 = (if joined then cursor + 1 else cursor)"
  define sc2 where "sc2 = (if scn_pendingCr sc1
      then (rememberLineBreak sc1 (if joined then g + cursor + 1 else scn_pendingCrOffset sc1 + 1))\<lparr>scn_pendingCr := False\<rparr>
      else sc1)"
  have eq: "consume cancel sc (Some d) len g = consume_loop cancel d len g sc2 cursor2"
    using assms(2,4) unfolding consume_def option.case(2) Let_def first_def [symmetric] cursor_def [symmetric] sc1_def [symmetric]
      joined_def [symmetric] cursor2_def [symmetric] sc2_def [symmetric] by simp
  have d0: "d ! 0 = s ! g" and len: "len \<le> length d" "g + len \<le> length s"
    using assms(1,2) by (auto simp: shows_text_def)
  have s1: "scanner_at s a (g + cursor) sc1" "scn_pendingCr sc1 = scn_pendingCr sc" "cursor \<le> len"
  proof -
    show "scn_pendingCr sc1 = scn_pendingCr sc" "cursor \<le> len" using assms(2) by (auto simp: sc1_def cursor_def)
    show "scanner_at s a (g + cursor) sc1"
    proof (cases first)
      case True
      have "scanner_at s a (g + 1) (rememberLineBreak sc (g + 1))"
        using True assms(3,5) d0 len assms(2)
        by (intro scanner_remember_plain [OF assms(3)]) (auto simp: first_def lb_end_def)
      moreover have "scanner_at s a (g + 1) sc1 = scanner_at s a (g + 1) (rememberLineBreak sc (g + 1))"
        using True by (intro scanner_at_cong) (simp_all add: sc1_def)
      ultimately show ?thesis using True by (simp add: cursor_def)
    next
      case False
      have "scanner_at s a g sc1 = scanner_at s a g sc" using False by (intro scanner_at_cong) (simp_all add: sc1_def)
      with assms(3) False show ?thesis by (simp add: cursor_def)
    qed
  qed
  have s2: "scanner_at s a (g + cursor2) sc2" "\<not> scn_pendingCr sc2" "cursor2 \<le> len"
  proof -
    show "\<not> scn_pendingCr sc2" "cursor2 \<le> len" using s1(3) by (auto simp: sc2_def cursor2_def joined_def)
    show "scanner_at s a (g + cursor2) sc2"
    proof (cases "scn_pendingCr sc1")
      case False
      with s1(1) show ?thesis by (simp add: sc2_def cursor2_def joined_def)
    next
      case True
      then have c0: "cursor = 0" "\<not> first" using s1(2) assms(5) by (auto simp: first_def cursor_def)
      have p: "0 < g" "s ! (g - 1) = CR" "scn_pendingCrOffset sc1 = g - 1"
        using s1(1) True c0 by (auto simp: scanner_at_def Let_def)
      have at: "scanner_at s a g sc1" using s1(1) c0 by simp
      show ?thesis
      proof (cases "d ! 0 = LF")
        case lf: True
        then have j: joined "cursor2 = 1" using True assms(2) c0 by (auto simp: joined_def cursor2_def)
        have "scanner_at s a (g + 1) ((rememberLineBreak sc1 (g + 1))\<lparr>scn_pendingCr := False\<rparr>)"
        proof (rule scanner_remember [OF at refl])
          show "lb_end s (g + 1 - 1)" using lf d0 len assms(2) by (simp add: lb_end_def)
          fix i assume "(if scn_pendingCr sc1 then g - 1 else g) \<le> i" "i < g + 1 - 1"
          then have "i = g - 1" using True by simp
          then show "\<not> lb_end s i" using p lf d0 len assms(2) by (simp add: lb_end_def)
        qed (use True p len assms(2) in auto)
        with j True c0 show ?thesis by (simp add: sc2_def)
      next
        case False
        then have j: "\<not> joined" "cursor2 = 0" using c0 by (auto simp: joined_def cursor2_def)
        have "scanner_at s a g ((rememberLineBreak sc1 g)\<lparr>scn_pendingCr := False\<rparr>)"
        proof (rule scanner_remember [OF at refl])
          show "lb_end s (g - 1)" using False d0 p len assms(2) by (simp add: lb_end_def)
        qed (use True p len in auto)
        with j True p show ?thesis by (simp add: sc2_def)
      qed
    qed
  qed
  show "scanner_at s a (g + len) (consume cancel sc (Some d) len g)"
    using consume_loop_ok [OF assms(1) s2(3,1,2)] assms(6) by (simp add: eq)
  show "\<not> scn_firstByte (consume cancel sc (Some d) len g)"
    "pk_startOffset (scn_packet (consume cancel sc (Some d) len g)) = pk_startOffset (scn_packet sc)"
    "pk_endOffset (scn_packet (consume cancel sc (Some d) len g)) = pk_endOffset (scn_packet sc)"
    using consume_loop_frame [of sc2 cancel d len g cursor2] by (auto simp: eq same_span_def sc2_def sc1_def)
qed

subsection \<open>The whole span\<close>

lemma shows_text_drop:
  assumes "take n d = s" "n \<le> length d" "a + k \<le> n" shows "shows_text s (drop a d) k a"
  using assms by (auto simp: shows_text_def)

lemma shows_text_chunk:
  assumes "\<not> chunk_skip c" "chunk_valid c" "length pre + chunk_length c \<ge> t + k" "length pre \<le> t"
  shows "shows_text (pre @ chunk_text c @ rest) (drop (t - length pre) (chunk_bytes c)) k t"
proof -
  have len: "chunk_length c \<le> length (chunk_bytes c)" "chunk_text c = take (chunk_length c) (chunk_bytes c)"
    using assms(1,2) by (auto simp: chunk_valid_def chunk_skip_def chunk_bytes_def chunk_text_def)
  then show ?thesis using assms(3,4) by (auto simp: shows_text_def nth_append)
qed

lemma succeeded_True:
  assumes "succeeded cancel sc = (sc', True)"
  shows "\<not> scn_cancelled sc" "sc' = sc\<lparr>scn_loads := scn_loads sc + 1\<rparr>" "\<not> cancel (scn_loads sc)"
  using assms by (auto simp: succeeded_def split: if_splits)

text \<open>The state between two chunks, \<open>m\<close> the end of what has been read.\<close>

definition scan_inv :: "string \<Rightarrow> Offset \<Rightarrow> LineIndexScanPacket \<Rightarrow> Offset \<Rightarrow> LineIndexSpanScanner \<Rightarrow> bool" where
  "scan_inv s a p m sc \<longleftrightarrow> scanner_at s a m sc \<and> \<not> scn_cancelled sc
     \<and> (scn_firstByte sc \<longrightarrow> m = a \<and> \<not> scn_pendingCr sc)
     \<and> pk_startOffset (scn_packet sc) = pk_startOffset p \<and> pk_endOffset (scn_packet sc) = pk_endOffset p"

lemma consume_inv:
  assumes "scan_inv s a p m sc" "shows_text s d len m" "0 < len" "\<not> scn_cancelled (consume cancel sc (Some d) len m)"
  shows "scan_inv s a p (m + len) (consume cancel sc (Some d) len m)"
  using assms consume_ok [of s d len m a sc cancel] by (simp add: scan_inv_def)

lemma scan_inv_loads [simp]: "scan_inv s a p m (sc\<lparr>scn_loads := n\<rparr>) = scan_inv s a p m sc"
  by (simp add: scan_inv_def scanner_at_cong [of "sc\<lparr>scn_loads := n\<rparr>" sc])

lemma scanPieces_loop_ok:
  assumes "scanPieces_loop cancel cs a b logical sc = (sc', True)" "list_all chunk_valid cs"
    and "s = pre @ chunks_text cs" "logical = length pre" "a < b" "b \<le> length s"
    and "scan_inv s a p (max a (min logical b)) sc"
  shows "scan_inv s a p b sc'"
  using assms
proof (induction cs arbitrary: logical sc pre)
  case Nil
  then show ?case by simp
next
  case (Cons c cs)
  show ?case
  proof (cases "logical < b")
    case False
    with Cons.prems show ?thesis by simp
  next
    case more: True
    show ?thesis
    proof (cases "chunk_skip c")
      case True
      with Cons.IH [of logical sc pre] Cons.prems more show ?thesis by simp
    next
      case keep: False
      define e where "e = logical + chunk_length c"
      have cv: "chunk_valid c" "list_all chunk_valid cs" using Cons.prems(2) by auto
      have tl: "length (chunk_text c) = chunk_length c" using keep cv(1) chunk_text_keep by simp
      have s': "s = (pre @ chunk_text c) @ chunks_text cs" "e = length (pre @ chunk_text c)"
        using Cons.prems(3,4) tl by (auto simp: e_def)
      show ?thesis
      proof (cases "e \<le> a")
        case True
        have m: "max a (min e b) = a" "max a (min logical b) = a" using True more by (auto simp: e_def)
        have "scanPieces_loop cancel cs a b e sc = (sc', True)"
          using Cons.prems(1) more keep True by (simp add: e_def)
        then show ?thesis
          using Cons.IH [OF _ cv(2) s' Cons.prems(5,6)] Cons.prems(7) m by simp
      next
        case False
        define ts te where "ts = max a logical" and "te = min b e"
        have m: "max a (min logical b) = ts" "max a (min e b) = te" "ts < te" "logical \<le> ts" "te \<le> e"
          using more False Cons.prems(5) keep by (auto simp: ts_def te_def e_def chunk_skip_def)
        define sc1 where "sc1 = consume cancel sc (Some (drop (ts - logical) (chunk_bytes c))) (te - ts) ts"
        obtain sc2 ok where sc2: "succeeded cancel sc1 = (sc2, ok)" by (metis surj_pair)
        have unf: "scanPieces_loop cancel (c # cs) a b logical sc
            = (if \<not> ok then (sc2, False) else scanPieces_loop cancel cs a b e sc2)"
          using more keep False m(3) sc2
          unfolding scanPieces_loop.simps Let_def e_def [symmetric] ts_def [symmetric] te_def [symmetric] sc1_def [symmetric]
          by simp
        then have ok: ok and rest: "scanPieces_loop cancel cs a b e sc2 = (sc', True)"
          using Cons.prems(1) by (simp_all split: if_splits)
        note suc = succeeded_True [OF sc2 [simplified ok]]
        have "shows_text s (drop (ts - logical) (chunk_bytes c)) (te - ts) ts"
          using shows_text_chunk [OF keep cv(1), where pre = pre and t = ts and k = "te - ts" and rest = "chunks_text cs"] m Cons.prems(3,4)
          by (simp add: e_def)
        then have "scan_inv s a p te sc1"
          using consume_inv [of s a p ts sc _ "te - ts" cancel] Cons.prems(7) [unfolded m(1)] m(3) suc(1) by (simp add: sc1_def)
        then have inv: "scan_inv s a p (max a (min e b)) sc2" by (simp add: m suc(2))
        show ?thesis by (rule Cons.IH [OF rest cv(2) s' Cons.prems(5,6) inv])
      qed
    qed
  qed
qed

lemma finish_ok:
  assumes "scan_inv s a p b sc" "a < b" "b \<le> length s" "nx \<longleftrightarrow> b < length s \<and> s ! b = LF"
  shows "breaks_before s b = breaks_before s a + pk_lineBreakCount (scn_packet (finish sc nx))"
    "list_all (scan_checkpoint_ok s a b) (pk_checkpoints (scn_packet (finish sc nx)))"
    "sorted (map sc_offset (pk_checkpoints (scn_packet (finish sc nx))))"
    "pk_startOffset (scn_packet (finish sc nx)) = pk_startOffset p" "pk_endOffset (scn_packet (finish sc nx)) = pk_endOffset p"
proof -
  have at: "scanner_at s a b sc" and pk: "pk_startOffset (scn_packet sc) = pk_startOffset p" "pk_endOffset (scn_packet sc) = pk_endOffset p"
    using assms(1) by (auto simp: scan_inv_def)
  show "pk_startOffset (scn_packet (finish sc nx)) = pk_startOffset p" "pk_endOffset (scn_packet (finish sc nx)) = pk_endOffset p"
    using pk by (auto simp: finish_def)
  have "breaks_before s b = breaks_before s a + pk_lineBreakCount (scn_packet (finish sc nx))
    \<and> list_all (scan_checkpoint_ok s a b) (pk_checkpoints (scn_packet (finish sc nx)))
    \<and> sorted (map sc_offset (pk_checkpoints (scn_packet (finish sc nx))))"
  proof (cases "scn_pendingCr sc")
    case False
    with at show ?thesis by (simp add: finish_def scanner_at_def Let_def)
  next
    case True
    then have p: "0 < b" "s ! (b - 1) = CR" "scn_pendingCrOffset sc = b - 1" "a \<le> b - 1"
      and q: "breaks_before s (b - 1) = breaks_before s a + pk_lineBreakCount (scn_packet sc)"
        "list_all (scan_checkpoint_ok s a (b - 1)) (pk_checkpoints (scn_packet sc))"
        "sorted (map sc_offset (pk_checkpoints (scn_packet sc)))"
      using at by (auto simp: scanner_at_def Let_def)
    show ?thesis
    proof (cases nx)
      case nl: True
      then have "\<not> lb_end s (b - 1)" using p assms(4) by (simp add: lb_end_def)
      then have "breaks_before s b = breaks_before s (b - 1)" using breaks_before_Suc [of s "b - 1"] p(1) by simp
      moreover have "list_all (scan_checkpoint_ok s a b) (pk_checkpoints (scn_packet sc))"
        using q(2) scan_checkpoint_mono [of s a "b - 1" _ b] by (auto simp: list_all_iff)
      ultimately show ?thesis using q nl by (simp add: finish_def)
    next
      case no: False
      have "scanner_at s a b ((rememberLineBreak sc b)\<lparr>scn_pendingCr := False\<rparr>)"
        by (rule scanner_remember [OF at refl]) (use True no p assms(3,4) in \<open>auto simp: lb_end_def\<close>)
      then show ?thesis using True no p(1,3) by (simp add: finish_def scanner_at_def Let_def)
    qed
  qed
  then show "breaks_before s b = breaks_before s a + pk_lineBreakCount (scn_packet (finish sc nx))"
    "list_all (scan_checkpoint_ok s a b) (pk_checkpoints (scn_packet (finish sc nx)))"
    "sorted (map sc_offset (pk_checkpoints (scn_packet (finish sc nx))))" by auto
qed

lemma scanner_at_new [simp]: "a \<le> length s \<Longrightarrow> pk_lineBreakCount p = 0 \<Longrightarrow> pk_checkpoints p = [] \<Longrightarrow> scan_inv s a p a (newScanner p c)"
  by (simp add: scan_inv_def scanner_at_def newScanner_def)

lemma scanLineIndexSpan_ok:
  assumes "snap_ok r" "scanLineIndexSpan r rid x y cancel = (p, True)"
  shows "packet_ok (snap_text_of r) p"
    "pk_startOffset p = min (min x y) (rs_length r)" "pk_endOffset p = min (max x y) (rs_length r)"
proof -
  define a b where "a = min (min x (rs_length r)) (min y (rs_length r))" and "b = max (min x (rs_length r)) (min y (rs_length r))"
  define pk where "pk = emptyScanPacket\<lparr>pk_reservationId := rid, pk_startOffset := a, pk_endOffset := b\<rparr>"
  define s where "s = snap_text_of r"
  have src: "source_ok (snap_source r) s" unfolding s_def by (rule snap.source [OF assms(1)])
  have len: "rs_length r = length s" using source_ok_length [OF src] by (simp add: snap_source_def)
  have ab: "a \<le> b" "b \<le> length s" using len by (auto simp: a_def b_def)
  have pk: "pk_startOffset pk = a" "pk_endOffset pk = b" "pk_lineBreakCount pk = 0" "pk_checkpoints pk = []"
    by (simp_all add: pk_def emptyScanPacket_def)
  note eq = assms(2) [unfolded scanLineIndexSpan_def Let_def, folded a_def b_def, folded pk_def]
  have "packet_ok s p \<and> pk_startOffset p = a \<and> pk_endOffset p = b"
  proof (cases "b \<le> a")
    case True
    with eq pk ab show ?thesis by (auto simp: packet_ok_def)
  next
    case False
    define sc where "sc = newScanner pk (a > 0 \<and> charAt (snap_source r) (a - 1) = CR)"
    define nx where "nx = (b < rs_length r \<and> charAt (snap_source r) b = LF)"
    obtain sc1 ok where run: "(case ts_direct (snap_source r) of
          Some d \<Rightarrow> (consume cancel sc (Some (drop a d)) (b - a) a, True)
        | None \<Rightarrow> scanPieces_loop cancel (dv_chunks (ts_view (snap_source r))) a b 0 sc) = (sc1, ok)" by (metis surj_pair)
    obtain sc2 ok2 where fin: "succeeded cancel (finish sc1 nx) = (sc2, ok2)" by (metis surj_pair)
    have res: ok "p = scn_packet sc2" ok2
      using eq False run fin unfolding sc_def [symmetric] nx_def [symmetric] by (auto split: if_splits)
    note suc = succeeded_True [OF fin [simplified res(3)]]
    have inv: "scan_inv s a pk a sc" using ab pk by (simp add: sc_def)
    have "scan_inv s a pk b sc1"
    proof (cases "ts_direct (snap_source r)")
      case (Some d)
      then have sc1: "sc1 = consume cancel sc (Some (drop a d)) (b - a) a" using run by simp
      have "shows_text s (drop a d) (b - a) a"
        using source_direct [OF src Some] ab by (intro shows_text_drop [of "length s"]) auto
      from consume_inv [OF inv this] False suc(1) show ?thesis by (simp add: sc1 finish_def split: if_splits)
    next
      case None
      have v: "chunks_text (dv_chunks (ts_view (snap_source r))) = s" "list_all chunk_valid (dv_chunks (ts_view (snap_source r)))"
        using src by (auto simp: source_ok_def view_ok_def)
      show ?thesis
        by (rule scanPieces_loop_ok [where pre = "[]"]) (use run None res(1) v inv False ab in auto)
    qed
    moreover have "nx \<longleftrightarrow> b < length s \<and> s ! b = LF" using charAt_spec [OF src] len by (simp add: nx_def)
    ultimately have "packet_ok s (scn_packet (finish sc1 nx)) \<and> pk_startOffset (scn_packet (finish sc1 nx)) = a
        \<and> pk_endOffset (scn_packet (finish sc1 nx)) = b"
      using finish_ok [of s a pk b sc1 nx] False ab pk by (simp add: packet_ok_def)
    then show ?thesis using res(2) suc(2) by simp
  qed
  then show "packet_ok (snap_text_of r) p" "pk_startOffset p = min (min x y) (rs_length r)"
    "pk_endOffset p = min (max x y) (rs_length r)" by (auto simp: s_def a_def b_def)
qed

subsection \<open>A scan that is not cancelled succeeds\<close>

lemma remember_cancelled [simp]: "scn_cancelled (rememberLineBreak sc p) = scn_cancelled sc"
  by (simp add: rememberLineBreak_def Let_def)

lemma consume_loop_runs:
  assumes "\<not> scn_cancelled sc" "cancel = (\<lambda>_. False)"
  shows "\<not> scn_cancelled (consume_loop cancel data len g sc cursor)"
  using assms
proof (induction cancel data len g sc cursor rule: consume_loop.induct)
  case (1 cancel data len g sc cursor)
  show ?case
  proof (cases "cursor < len")
    case False
    with "1.prems" show ?thesis by (subst consume_loop.simps) simp
  next
    case True
    define check where "check = (g + cursor \<ge> scn_nextCancelCheckOffset sc)"
    define sc1 where "sc1 = (if check then sc\<lparr>scn_loads := scn_loads sc + 1\<rparr> else sc)"
    define sc2 where "sc2 = (if check then sc1\<lparr>scn_nextCancelCheckOffset := g + cursor + kScanWindow\<rparr> else sc1)"
    define se where "se = min len (cursor + kScanWindow)"
    define b where "b = directFindNextLineBreak (Some data) se cursor"
    have go: "\<not> (check \<and> cancel (scn_loads sc))" using "1.prems"(2) by simp
    have sc2: "\<not> scn_cancelled sc2" using "1.prems"(1) by (simp add: sc2_def sc1_def)
    note IH = "1.IH" [OF True refl check_def sc1_def go sc2_def se_def b_def]
    note eq = consume_loop.simps [of cancel data len g sc cursor, unfolded Let_def, folded check_def, folded sc1_def,
        folded sc2_def, folded se_def, folded b_def]
    consider "se \<le> b" | "\<not> se \<le> b" "data ! b = CR" "b + 1 < len" "data ! (b + 1) = LF"
      | "\<not> se \<le> b" "data ! b = CR" "b + 1 < len" "data ! (b + 1) \<noteq> LF"
      | "\<not> se \<le> b" "data ! b = CR" "\<not> b + 1 < len" | "\<not> se \<le> b" "data ! b \<noteq> CR" by blast
    then show ?thesis
    proof cases
      case 1
      with IH(1) sc2 eq True go "1.prems"(2) show ?thesis by simp
    next
      case 2
      with IH(2) [OF 2] sc2 eq True go "1.prems"(2) show ?thesis by simp
    next
      case 3
      with IH(3) [OF 3] sc2 eq True go "1.prems"(2) show ?thesis by simp
    next
      case 4
      with IH(4) [OF 4] sc2 eq True go "1.prems"(2) show ?thesis by simp
    next
      case 5
      with IH(5) [OF 5] sc2 eq True go "1.prems"(2) show ?thesis by simp
    qed
  qed
qed

lemma consume_runs:
  assumes "\<not> scn_cancelled sc" "cancel = (\<lambda>_. False)"
  shows "\<not> scn_cancelled (consume cancel sc data len g)"
  using assms(1) consume_loop_runs [OF _ refl] unfolding assms(2) by (simp add: consume_def Let_def split: option.split)

lemma succeeded_runs: "\<not> scn_cancelled sc \<Longrightarrow> cancel = (\<lambda>_. False) \<Longrightarrow> succeeded cancel sc = (sc\<lparr>scn_loads := scn_loads sc + 1\<rparr>, True)"
  by (simp add: succeeded_def)

lemma scanPieces_runs:
  assumes "cancel = (\<lambda>_. False)"
  shows "\<not> scn_cancelled sc \<Longrightarrow> \<exists>sc'. scanPieces_loop cancel cs a b logical sc = (sc', True) \<and> \<not> scn_cancelled sc'"
proof (induction cs arbitrary: logical sc)
  case (Cons c cs)
  then show ?case using assms by (simp add: Let_def succeeded_runs consume_runs)
qed simp

lemma scanLineIndexSpan_runs:
  assumes "cancel = (\<lambda>_. False)"
  shows "snd (scanLineIndexSpan r rid x y cancel)"
proof -
  have new: "\<not> scn_cancelled (newScanner p b)" for p b by (simp add: newScanner_def)
  have fin: "\<not> scn_cancelled sc \<Longrightarrow> snd (succeeded cancel (finish sc b))" for sc b
    using assms by (simp add: succeeded_def finish_def)
  define a where "a = min (min x (rs_length r)) (min y (rs_length r))"
  define b where "b = max (min x (rs_length r)) (min y (rs_length r))"
  define sc where "sc = newScanner (emptyScanPacket\<lparr>pk_reservationId := rid, pk_startOffset := a, pk_endOffset := b\<rparr>)
    (a > 0 \<and> charAt (snap_source r) (a - 1) = CR)"
  obtain sc1 where sc1: "(case ts_direct (snap_source r) of
        Some d \<Rightarrow> (consume cancel sc (Some (drop a d)) (b - a) a, True)
      | None \<Rightarrow> scanPieces_loop cancel (dv_chunks (ts_view (snap_source r))) a b 0 sc) = (sc1, True)" "\<not> scn_cancelled sc1"
    using scanPieces_runs [OF assms, of sc "dv_chunks (ts_view (snap_source r))" a b 0] consume_runs [OF _ assms, of sc] new [folded sc_def]
    by (cases "ts_direct (snap_source r)") (auto simp: sc_def new)
  note eq = scanLineIndexSpan_def [of r rid x y cancel, unfolded Let_def, folded a_def b_def, folded sc_def]
  show ?thesis unfolding eq using sc1 fin [OF sc1(2)] by (simp split: prod.split) (metis snd_conv)
qed

end
