(* ===== verification/Scan_Ledger.thy ===== *)
theory Scan_Ledger
  imports Span_Scanner "HOL-Library.Product_Lexorder"
begin

text \<open>
  The ledger of background line scans (\<open>src/piecetable/MRTextDocumentLineIndex.cpp\<close>): spans of the
  document are reserved outwards from a focus offset, scanned elsewhere, and their packets adopted
  in any order; a packet that continues the indexed prefix is folded into the index, others wait.
  Reservations are proved disjoint from all that is indexed, pending or reserved, and adopting a
  packet is proved to keep the index exact.
\<close>

subsection \<open>Spans\<close>

record LineIndexOffsetSpan =
  os_start :: Offset
  os_end :: Offset

definition mkOffsetSpan :: "Offset \<Rightarrow> Offset \<Rightarrow> LineIndexOffsetSpan" where
  "mkOffsetSpan a b = \<lparr>os_start = a, os_end = b\<rparr>"

definition clampSpan :: "Offset \<Rightarrow> LineIndexOffsetSpan \<Rightarrow> LineIndexOffsetSpan" where
  "clampSpan len sp =
     (let a = min (os_start sp) len; b = min (os_end sp) len
      in if b < a then mkOffsetSpan b a else mkOffsetSpan a b)"

text \<open>The compaction loop; the elements written so far are \<open>acc\<close>.\<close>

fun mergeSpans_loop :: "LineIndexOffsetSpan list \<Rightarrow> LineIndexOffsetSpan list \<Rightarrow> LineIndexOffsetSpan list" where
  "mergeSpans_loop acc [] = acc"
| "mergeSpans_loop acc (sp # sps) =
     (if acc = [] \<or> os_end (last acc) < os_start sp then mergeSpans_loop (acc @ [sp]) sps
      else if os_end sp > os_end (last acc)
      then mergeSpans_loop (butlast acc @ [(last acc)\<lparr>os_end := os_end sp\<rparr>]) sps
      else mergeSpans_loop acc sps)"

definition normalizeLineIndexSpans :: "LineIndexOffsetSpan list \<Rightarrow> Offset \<Rightarrow> LineIndexOffsetSpan list" where
  "normalizeLineIndexSpans spans len =
     (let clamped = map (clampSpan len) spans;
          kept = filter (\<lambda>sp. \<not> os_end sp \<le> os_start sp) clamped;
          sorted = sort_key (\<lambda>sp. (os_start sp, os_end sp)) kept
      in mergeSpans_loop [] sorted)"

fun gaps_loop :: "LineIndexOffsetSpan list \<Rightarrow> Offset \<Rightarrow> Offset \<Rightarrow> LineIndexOffsetSpan list" where
  "gaps_loop [] len cursor = (if cursor < len then [mkOffsetSpan cursor len] else [])"
| "gaps_loop (sp # sps) len cursor =
     (if os_start sp > cursor then [mkOffsetSpan cursor (os_start sp)] else [])
       @ gaps_loop sps len (if os_end sp > cursor then os_end sp else cursor)"

definition availableLineIndexGaps :: "LineIndexOffsetSpan list \<Rightarrow> Offset \<Rightarrow> LineIndexOffsetSpan list" where
  "availableLineIndexGaps blocked len = gaps_loop blocked len 0"

fun nextEofLineIndexGap :: "LineIndexOffsetSpan list \<Rightarrow> Offset \<Rightarrow> Offset \<Rightarrow> LineIndexOffsetSpan option" where
  "nextEofLineIndexGap [] cursor targetLength = None"
| "nextEofLineIndexGap (gap # gaps) cursor targetLength =
     (if os_end gap \<le> cursor then nextEofLineIndexGap gaps cursor targetLength
      else
        (let a = max (os_start gap) cursor; b = min (os_end gap) (wrap64 (a + targetLength))
         in if b > a then Some (mkOffsetSpan a b) else None))"

text \<open>The loop runs from the last gap to the first.\<close>

fun bofGap_loop :: "LineIndexOffsetSpan list \<Rightarrow> Offset \<Rightarrow> Offset \<Rightarrow> LineIndexOffsetSpan option" where
  "bofGap_loop [] cursor targetLength = None"
| "bofGap_loop (gap # gaps) cursor targetLength =
     (if os_start gap \<ge> cursor then bofGap_loop gaps cursor targetLength
      else
        (let b = min (os_end gap) cursor;
             a = (if b > targetLength then max (os_start gap) (b - targetLength) else os_start gap)
         in if b > a then Some (mkOffsetSpan a b) else None))"

definition nextBofLineIndexGap :: "LineIndexOffsetSpan list \<Rightarrow> Offset \<Rightarrow> Offset \<Rightarrow> LineIndexOffsetSpan option" where
  "nextBofLineIndexGap gaps cursor targetLength = bofGap_loop (rev gaps) cursor targetLength"

subsection \<open>Reservations\<close>

definition blockedSpans :: "TextDocument \<Rightarrow> LineIndexOffsetSpan list" where
  "blockedSpans d =
     (if mLazyIndexedOffset (mLazyIndex d) > 0 then [mkOffsetSpan 0 (min (mLazyIndexedOffset (mLazyIndex d)) (mLength d))] else [])
     @ map (\<lambda>p. mkOffsetSpan (pk_startOffset p) (pk_endOffset p)) (mPendingLineIndexScanPackets d)
     @ map (\<lambda>r. mkOffsetSpan (rv_startOffset r) (rv_endOffset r)) (mLineIndexScanReservations d)"

definition findGap ::
  "LineIndexScanDirection \<Rightarrow> LineIndexOffsetSpan list \<Rightarrow> Offset \<Rightarrow> Offset \<Rightarrow> Offset \<Rightarrow> LineIndexOffsetSpan option" where
  "findGap direction gaps eofCursor bofCursor target =
     (if direction = Eof then nextEofLineIndexGap gaps eofCursor target else nextBofLineIndexGap gaps bofCursor target)"

definition opposite :: "LineIndexScanDirection \<Rightarrow> LineIndexScanDirection" where
  "opposite direction = (if direction = Eof then Bof else Eof)"

text \<open>One round per reservation that may still be made.\<close>

fun reserve_loop ::
  "nat \<Rightarrow> Offset \<Rightarrow> LineIndexOffsetSpan list \<Rightarrow> Offset \<Rightarrow> Offset \<Rightarrow> bool \<Rightarrow> TextDocument \<Rightarrow> LineIndexScanReservation list
   \<Rightarrow> TextDocument \<times> LineIndexScanReservation list" where
  "reserve_loop 0 target blocked bofCursor eofCursor preferEof d reserved = (d, reserved)"
| "reserve_loop (Suc k) target blocked bofCursor eofCursor preferEof d reserved =
     (let gaps = availableLineIndexGaps blocked (mLength d);
          direction0 = (if preferEof then Eof else Bof);
          first = findGap direction0 gaps eofCursor bofCursor target;
          direction = (if first = None then opposite direction0 else direction0);
          found = (if first = None then findGap direction gaps eofCursor bofCursor target else first)
      in case found of
           None \<Rightarrow> (d, reserved)
         | Some sp \<Rightarrow>
             (let n = (if mNextLineIndexScanReservationId d = 0 then 1 else mNextLineIndexScanReservationId d);
                  reservation = \<lparr>rv_reservationId = n, rv_startOffset = os_start sp, rv_endOffset = os_end sp,
                                 rv_direction = direction\<rparr>;
                  d' = d\<lparr>mNextLineIndexScanReservationId := wrap64 (n + 1),
                         mLineIndexScanReservations := mLineIndexScanReservations d @ [reservation]\<rparr>
              in reserve_loop k target (normalizeLineIndexSpans (blocked @ [sp]) (mLength d))
                   (if direction = Eof then bofCursor else os_start sp)
                   (if direction = Eof then os_end sp else eofCursor)
                   (\<not> preferEof) d' (reserved @ [reservation])))"

definition reserveLineIndexScanSpans ::
  "TextDocument \<Rightarrow> Offset \<Rightarrow> nat \<Rightarrow> Offset \<Rightarrow> TextDocument \<times> LineIndexScanReservation list" where
  "reserveLineIndexScanSpans d focus0 maximumCount target0 =
     (if maximumCount = 0 \<or> mLength d = 0 \<or> mLazyLineIndexComplete (mLazyIndex d) then (d, [])
      else
        (let target = (if target0 = 0 then 1 else target0);
             focus = min focus0 (mLength d);
             blocked = normalizeLineIndexSpans (blockedSpans d) (mLength d)
         in reserve_loop maximumCount target blocked focus focus True d []))"

definition releaseLineIndexScanReservation :: "TextDocument \<Rightarrow> nat \<Rightarrow> TextDocument" where
  "releaseLineIndexScanReservation d reservationId =
     (if reservationId = 0 then d
      else d\<lparr>mLineIndexScanReservations :=
               filter (\<lambda>r. \<not> rv_reservationId r = reservationId) (mLineIndexScanReservations d)\<rparr>)"

subsection \<open>Adopting a packet\<close>

text \<open>The overlap test against the pending packets: an early return value, or \<open>None\<close>.\<close>

fun pendingVerdict :: "LineIndexScanPacket \<Rightarrow> LineIndexScanPacket list \<Rightarrow> bool option" where
  "pendingVerdict packet [] = None"
| "pendingVerdict packet (p # ps) =
     (if pk_startOffset packet = pk_startOffset p \<and> pk_endOffset packet = pk_endOffset p then Some True
      else if pk_startOffset packet < pk_endOffset p \<and> pk_endOffset packet > pk_startOffset p then Some False
      else pendingVerdict packet ps)"

text \<open>The first pending packet that starts where the index ends, and the list without it.\<close>

fun takeReady :: "Offset \<Rightarrow> LineIndexScanPacket list \<Rightarrow> (LineIndexScanPacket \<times> LineIndexScanPacket list) option" where
  "takeReady off [] = None"
| "takeReady off (p # ps) =
     (if pk_startOffset p \<noteq> off then map_option (\<lambda>(q, qs). (q, p # qs)) (takeReady off ps)
      else Some (p, ps))"

fun appendScanCheckpoints :: "nat \<Rightarrow> LineIndexCheckpoint list \<Rightarrow> LineIndexScanCheckpoint list \<Rightarrow> LineIndexCheckpoint list" where
  "appendScanCheckpoints baseLine cps [] = cps"
| "appendScanCheckpoints baseLine cps (c # cs) =
     (let absolute = mkCheckpoint (sc_offset c) (baseLine + sc_lineBreakCount c)
      in appendScanCheckpoints baseLine
           (if cps = [] \<or> cp_offset absolute > cp_offset (last cps) then cps @ [absolute] else cps) cs)"

definition absorbPacket :: "LazyIndex \<Rightarrow> LineIndexScanPacket \<Rightarrow> LazyIndex" where
  "absorbPacket li ready =
     li\<lparr>mLineIndexCheckpoints := appendScanCheckpoints (mLazyIndexedLine li) (mLineIndexCheckpoints li) (pk_checkpoints ready),
        mLazyIndexedOffset := pk_endOffset ready, mLazyIndexedLine := mLazyIndexedLine li + pk_lineBreakCount ready\<rparr>"

lemma takeReady_length: "takeReady off ps = Some (q, qs) \<Longrightarrow> length ps = Suc (length qs)"
  by (induction ps arbitrary: q qs) (auto split: if_splits)

function adopt_loop :: "LazyIndex \<Rightarrow> LineIndexScanPacket list \<Rightarrow> LazyIndex \<times> LineIndexScanPacket list" where
  "adopt_loop li pending =
     (case takeReady (mLazyIndexedOffset li) pending of
        None \<Rightarrow> (li, pending)
      | Some (ready, rest) \<Rightarrow> adopt_loop (absorbPacket li ready) rest)"
  by pat_completeness auto
termination
  by (relation "measure (\<lambda>(li, pending). length pending)") (auto dest!: takeReady_length)

declare adopt_loop.simps [simp del]

definition adoptLineIndexScanPacket :: "TextDocument \<Rightarrow> LineIndexScanPacket \<Rightarrow> nat \<Rightarrow> TextDocument \<times> bool" where
  "adoptLineIndexScanPacket d packet expected =
     (if \<not> matchesVersion d expected then (d, False)
      else if pk_endOffset packet \<le> pk_startOffset packet \<or> pk_endOffset packet > mLength d then (d, False)
      else
        (let d1 = releaseLineIndexScanReservation d (pk_reservationId packet) in
         if pk_endOffset packet \<le> mLazyIndexedOffset (mLazyIndex d1) then (d1, True)
         else if pk_startOffset packet < mLazyIndexedOffset (mLazyIndex d1) then (d1, False)
         else
           (case pendingVerdict packet (mPendingLineIndexScanPackets d1) of
              Some verdict \<Rightarrow> (d1, verdict)
            | None \<Rightarrow>
                (let pending = sort_key (\<lambda>p. (pk_startOffset p, pk_endOffset p)) (mPendingLineIndexScanPackets d1 @ [packet]);
                     (li, rest) = adopt_loop (mLazyIndex d1) pending;
                     d2 = d1\<lparr>mLazyIndex := li, mPendingLineIndexScanPackets := rest\<rparr>
                 in if mLazyIndexedOffset li = mLength d2
                    then (d2\<lparr>mLazyIndex := li\<lparr>mLazyLineIndexComplete := True, mLazyTotalLineCount := mLazyIndexedLine li + 1\<rparr>,
                             mPendingLineIndexScanPackets := []\<rparr>, True)
                    else (d2, True)))))"

subsection \<open>What the span arithmetic computes\<close>

definition covered :: "LineIndexOffsetSpan list \<Rightarrow> Offset set" where
  "covered spans = (\<Union>sp \<in> set spans. {os_start sp..<os_end sp})"

definition span_proper :: "Offset \<Rightarrow> LineIndexOffsetSpan \<Rightarrow> bool" where
  "span_proper len sp \<longleftrightarrow> os_start sp < os_end sp \<and> os_end sp \<le> len"

definition spans_normal :: "Offset \<Rightarrow> LineIndexOffsetSpan list \<Rightarrow> bool" where
  "spans_normal len spans \<longleftrightarrow> sorted_wrt (\<lambda>x y. os_end x < os_start y) spans \<and> list_all (span_proper len) spans"

lemma covered_simps [simp]:
  "covered [] = {}" "covered (sp # sps) = {os_start sp..<os_end sp} \<union> covered sps"
  "covered (xs @ ys) = covered xs \<union> covered ys"
  by (auto simp: covered_def)

lemma mergeSpans_loop_spec:
  assumes "spans_normal len acc" "list_all (span_proper len) sps" "sorted (map os_start sps)"
    and "acc \<noteq> [] \<Longrightarrow> sps \<noteq> [] \<Longrightarrow> os_start (last acc) \<le> os_start (hd sps)"
  shows "spans_normal len (mergeSpans_loop acc sps) \<and> covered (mergeSpans_loop acc sps) = covered acc \<union> covered sps"
  using assms
proof (induction acc sps rule: mergeSpans_loop.induct)
  case (2 acc sp sps)
  have p: "span_proper len sp" "list_all (span_proper len) sps" "sorted (map os_start sps)"
    "\<And>x. x \<in> set sps \<Longrightarrow> os_start sp \<le> os_start x" using "2.prems" by auto
  show ?case
  proof (cases "acc = [] \<or> os_end (last acc) < os_start sp")
    case True
    have "os_end x < os_start sp" if "x \<in> set acc" for x
    proof -
      from that obtain ys y where a: "acc = ys @ [y]" by (cases acc rule: rev_cases) auto
      have "os_end y < os_start sp" "os_start y < os_end y" using True a "2.prems"(1) by (auto simp: spans_normal_def span_proper_def)
      then show ?thesis using that a "2.prems"(1) by (force simp: spans_normal_def sorted_wrt_append)
    qed
    then have "spans_normal len (acc @ [sp])" using "2.prems"(1) p(1) by (auto simp: spans_normal_def sorted_wrt_append)
    with "2.IH"(1) [OF True] p True show ?thesis by (cases sps) auto
  next
    case ov: False
    then obtain ys y where a: "acc = ys @ [y]" by (metis rev_exhaust)
    have y: "os_start y \<le> os_start sp" "os_start sp \<le> os_end y" "os_start y < os_end y"
      using "2.prems"(1,4) ov a by (auto simp: spans_normal_def span_proper_def)
    show ?thesis
    proof (cases "os_end sp > os_end y")
      case True
      let ?acc = "ys @ [y\<lparr>os_end := os_end sp\<rparr>]"
      have n: "spans_normal len ?acc"
        using "2.prems"(1) p(1) y True a by (auto simp: spans_normal_def sorted_wrt_append span_proper_def)
      have "os_start y \<le> os_start (hd sps)" if "sps \<noteq> []" using p(4) [of "hd sps"] y that by auto
      with "2.IH"(2) ov True p n a
      have "spans_normal len (mergeSpans_loop ?acc sps) \<and> covered (mergeSpans_loop ?acc sps) = covered ?acc \<union> covered sps" by simp
      moreover have "covered ?acc = covered acc \<union> {os_start sp..<os_end sp}" using a y True by auto
      ultimately show ?thesis using ov True a by (auto simp: Un_assoc)
    next
      case False
      have "os_start y \<le> os_start (hd sps)" if "sps \<noteq> []" using p(4) [of "hd sps"] y that by auto
      with "2.IH"(3) ov False p "2.prems"(1) a
      have "spans_normal len (mergeSpans_loop acc sps) \<and> covered (mergeSpans_loop acc sps) = covered acc \<union> covered sps" by simp
      moreover have "{os_start sp..<os_end sp} \<subseteq> covered acc" using a y False by auto
      ultimately show ?thesis using ov False a by auto
    qed
  qed
qed simp

lemma normalizeLineIndexSpans_spec:
  "spans_normal len (normalizeLineIndexSpans spans len)"
  "covered (normalizeLineIndexSpans spans len)
     = (\<Union>sp \<in> set spans. {min (os_start sp) (os_end sp)..<max (os_start sp) (os_end sp)}) \<inter> {..<len}"
proof -
  define ks where "ks = sort_key (\<lambda>sp. (os_start sp, os_end sp)) (filter (\<lambda>sp. \<not> os_end sp \<le> os_start sp) (map (clampSpan len) spans))"
  have st: "set ks = {sp \<in> clampSpan len ` set spans. os_start sp < os_end sp}" by (auto simp: ks_def)
  have "sorted (map (\<lambda>sp. (os_start sp, os_end sp)) ks)" by (simp add: ks_def)
  then have so: "sorted (map os_start ks)" by (auto simp: sorted_map sorted_wrt_iff_nth_less less_eq_prod_def less_le)
  have pr: "list_all (span_proper len) ks"
    by (auto simp: list_all_iff st span_proper_def clampSpan_def mkOffsetSpan_def Let_def split: if_splits)
  have eq: "normalizeLineIndexSpans spans len = mergeSpans_loop [] ks"
    by (simp add: normalizeLineIndexSpans_def ks_def Let_def)
  note spec = mergeSpans_loop_spec [of len "[]" ks, OF _ pr so]
  show "spans_normal len (normalizeLineIndexSpans spans len)" using spec by (simp add: eq spans_normal_def)
  have "covered ks = (\<Union>sp \<in> set spans. {min (os_start sp) (os_end sp)..<max (os_start sp) (os_end sp)}) \<inter> {..<len}"
  proof -
    have "{os_start (clampSpan len sp)..<os_end (clampSpan len sp)}
        = {min (os_start sp) (os_end sp)..<max (os_start sp) (os_end sp)} \<inter> {..<len}" for sp
      by (auto simp: clampSpan_def mkOffsetSpan_def Let_def)
    moreover have "covered ks = (\<Union>sp \<in> set spans. {os_start (clampSpan len sp)..<os_end (clampSpan len sp)})"
      unfolding covered_def st by fastforce
    ultimately show ?thesis by auto
  qed
  then show "covered (normalizeLineIndexSpans spans len)
     = (\<Union>sp \<in> set spans. {min (os_start sp) (os_end sp)..<max (os_start sp) (os_end sp)}) \<inter> {..<len}"
    using spec by (simp add: eq spans_normal_def)
qed

lemma gaps_loop_spec:
  assumes "spans_normal len sps"
  shows "covered (gaps_loop sps len cursor) = {cursor..<len} - covered sps
     \<and> list_all (span_proper len) (gaps_loop sps len cursor)"
  using assms
proof (induction sps arbitrary: cursor)
  case (Cons sp sps)
  have n: "spans_normal len sps" and p: "os_start sp < os_end sp" "os_end sp \<le> len"
    and later: "\<And>i. i \<in> covered sps \<Longrightarrow> os_end sp < i"
    using Cons.prems by (auto simp: spans_normal_def span_proper_def covered_def)
  have "covered (gaps_loop (sp # sps) len cursor) =
      {cursor..<os_start sp} \<union> ({max cursor (os_end sp)..<len} - covered sps)"
    using Cons.IH [OF n] by (auto simp: mkOffsetSpan_def max_def)
  also have "\<dots> = {cursor..<len} - covered (sp # sps)" using p later by fastforce
  finally show ?case using Cons.IH [OF n] p by (simp add: mkOffsetSpan_def span_proper_def)
qed (auto simp: mkOffsetSpan_def span_proper_def)

lemma availableLineIndexGaps_spec:
  assumes "spans_normal len sps"
  shows "covered (availableLineIndexGaps sps len) = {..<len} - covered sps"
    "list_all (span_proper len) (availableLineIndexGaps sps len)"
  using gaps_loop_spec [OF assms, of 0] by (auto simp: availableLineIndexGaps_def)

lemma nextEof_Some:
  assumes "nextEofLineIndexGap gaps cursor target = Some sp"
  shows "os_start sp < os_end sp \<and> {os_start sp..<os_end sp} \<subseteq> covered gaps"
  using assms by (induction gaps) (auto simp: Let_def mkOffsetSpan_def split: if_splits)

lemma nextBof_Some:
  assumes "nextBofLineIndexGap gaps cursor target = Some sp"
  shows "os_start sp < os_end sp \<and> {os_start sp..<os_end sp} \<subseteq> covered gaps"
proof -
  have "os_start sp < os_end sp \<and> {os_start sp..<os_end sp} \<subseteq> covered gs" if "bofGap_loop gs cursor target = Some sp" for gs
    using that by (induction gs) (auto simp: Let_def mkOffsetSpan_def split: if_splits)
  from this [of "rev gaps"] assms show ?thesis by (simp add: nextBofLineIndexGap_def covered_def)
qed

lemma findGap_Some:
  "findGap dir gaps e b target = Some sp \<Longrightarrow> os_start sp < os_end sp \<and> {os_start sp..<os_end sp} \<subseteq> covered gaps"
  by (auto simp: findGap_def nextEof_Some nextBof_Some split: if_splits)

subsection \<open>Reservations never overlap\<close>

definition rv_bytes :: "LineIndexScanReservation \<Rightarrow> Offset set" where
  "rv_bytes r = {rv_startOffset r..<rv_endOffset r}"

definition fresh_reservation :: "Offset \<Rightarrow> Offset set \<Rightarrow> LineIndexScanReservation \<Rightarrow> bool" where
  "fresh_reservation len blocked r \<longleftrightarrow> rv_bytes r \<noteq> {} \<and> rv_bytes r \<subseteq> {..<len} - blocked \<and> rv_reservationId r \<noteq> 0"

definition disjoint_reservations :: "LineIndexScanReservation list \<Rightarrow> bool" where
  "disjoint_reservations rs \<longleftrightarrow> sorted_wrt (\<lambda>r r'. rv_bytes r \<inter> rv_bytes r' = {}) rs"

definition ledger_only :: "TextDocument \<Rightarrow> TextDocument \<Rightarrow> bool" where
  "ledger_only d d' \<longleftrightarrow> (\<exists>n rs. d' = d\<lparr>mNextLineIndexScanReservationId := n, mLineIndexScanReservations := rs\<rparr>)"

lemma ledger_only_refl [simp]: "ledger_only d d"
  unfolding ledger_only_def
  by (intro exI [of _ "mNextLineIndexScanReservationId d"] exI [of _ "mLineIndexScanReservations d"]) simp

lemma ledger_only_trans: "ledger_only d d1 \<Longrightarrow> ledger_only d1 d2 \<Longrightarrow> ledger_only d d2"
  unfolding ledger_only_def by (elim exE) (simp, blast)

lemma reserve_loop_ok:
  assumes "spans_normal len blocked" "len = mLength d"
    and "reserve_loop k target blocked bc ec pe d reserved = (d', reserved')"
  shows "\<exists>new. reserved' = reserved @ new \<and> mLineIndexScanReservations d' = mLineIndexScanReservations d @ new
     \<and> ledger_only d d' \<and> length new \<le> k \<and> disjoint_reservations new \<and> list_all (fresh_reservation len (covered blocked)) new"
  using assms
proof (induction k arbitrary: blocked bc ec pe d reserved)
  case 0
  then show ?case by (intro exI [of _ "[]"]) (simp add: disjoint_reservations_def)
next
  case (Suc k)
  define gaps where "gaps = availableLineIndexGaps blocked len"
  define dir0 where "dir0 = (if pe then Eof else Bof)"
  define fst_gap where "fst_gap = findGap dir0 gaps ec bc target"
  define dir where "dir = (if fst_gap = None then opposite dir0 else dir0)"
  define found where "found = (if fst_gap = None then findGap dir gaps ec bc target else fst_gap)"
  note eq = Suc.prems(3) [unfolded reserve_loop.simps Let_def, folded Suc.prems(2), folded gaps_def, folded dir0_def,
      folded fst_gap_def, folded dir_def, folded found_def]
  show ?case
  proof (cases found)
    case None
    with eq show ?thesis by (intro exI [of _ "[]"]) (simp add: disjoint_reservations_def)
  next
    case (Some sp)
    have sp: "os_start sp < os_end sp" "{os_start sp..<os_end sp} \<subseteq> {..<len} - covered blocked"
      using Some findGap_Some [of dir gaps ec bc target sp] findGap_Some [of dir0 gaps ec bc target sp]
        availableLineIndexGaps_spec(1) [OF Suc.prems(1)]
      by (auto simp: found_def fst_gap_def gaps_def split: if_splits)
    define n where "n = (if mNextLineIndexScanReservationId d = 0 then 1 else mNextLineIndexScanReservationId d)"
    define r where "r = \<lparr>rv_reservationId = n, rv_startOffset = os_start sp, rv_endOffset = os_end sp, rv_direction = dir\<rparr>"
    define d1 where "d1 = d\<lparr>mNextLineIndexScanReservationId := wrap64 (n + 1),
        mLineIndexScanReservations := mLineIndexScanReservations d @ [r]\<rparr>"
    define bl where "bl = normalizeLineIndexSpans (blocked @ [sp]) len"
    have step: "reserve_loop k target bl (if dir = Eof then bc else os_start sp) (if dir = Eof then os_end sp else ec) (\<not> pe) d1
        (reserved @ [r]) = (d', reserved')"
      using eq Some unfolding n_def [symmetric] by (simp add: r_def d1_def bl_def)
    have bl: "spans_normal len bl" "covered bl = covered blocked \<union> rv_bytes r"
    proof -
      show "spans_normal len bl" unfolding bl_def by (rule normalizeLineIndexSpans_spec)
      have "(\<Union>x \<in> set blocked. {min (os_start x) (os_end x)..<max (os_start x) (os_end x)}) = covered blocked"
        using Suc.prems(1) by (auto simp: covered_def spans_normal_def list_all_iff span_proper_def)
      moreover have "covered blocked \<subseteq> {..<len}"
        using Suc.prems(1) by (fastforce simp: covered_def spans_normal_def list_all_iff span_proper_def)
      ultimately show "covered bl = covered blocked \<union> rv_bytes r"
        using sp by (auto simp: bl_def normalizeLineIndexSpans_spec(2) r_def rv_bytes_def)
    qed
    have d1: "len = mLength d1" "ledger_only d d1" using Suc.prems(2) by (auto simp: d1_def ledger_only_def)
    obtain new where new: "reserved' = (reserved @ [r]) @ new" "mLineIndexScanReservations d' = mLineIndexScanReservations d1 @ new"
      "ledger_only d1 d'" "length new \<le> k" "disjoint_reservations new" "list_all (fresh_reservation len (covered bl)) new"
      using Suc.IH [OF bl(1) d1(1) step] by blast
    have "fresh_reservation len (covered blocked) r"
      using sp by (auto simp: fresh_reservation_def r_def rv_bytes_def n_def)
    moreover have "list_all (fresh_reservation len (covered blocked)) new" "\<forall>r' \<in> set new. rv_bytes r \<inter> rv_bytes r' = {}"
      using new(6) by (auto simp: list_all_iff fresh_reservation_def bl(2))
    ultimately show ?thesis using new ledger_only_trans [OF d1(2) new(3)]
      by (intro exI [of _ "r # new"]) (simp add: disjoint_reservations_def d1_def)
  qed
qed

definition ledger_blocked :: "TextDocument \<Rightarrow> Offset set" where
  "ledger_blocked d = {..<mLazyIndexedOffset (mLazyIndex d)}
     \<union> (\<Union>p \<in> set (mPendingLineIndexScanPackets d). {pk_startOffset p..<pk_endOffset p})
     \<union> (\<Union>r \<in> set (mLineIndexScanReservations d). rv_bytes r)"

lemma blocked_covers:
  "{..<mLength d} \<inter> ledger_blocked d \<subseteq> covered (normalizeLineIndexSpans (blockedSpans d) (mLength d))"
  unfolding normalizeLineIndexSpans_spec(2) ledger_blocked_def blockedSpans_def rv_bytes_def
  by (auto simp: mkOffsetSpan_def)

lemma reserveLineIndexScanSpans_ok:
  assumes "reserveLineIndexScanSpans d focus n target = (d', new)"
  shows "mLineIndexScanReservations d' = mLineIndexScanReservations d @ new" "ledger_only d d'" "length new \<le> n"
    "disjoint_reservations new" "list_all (fresh_reservation (mLength d) (ledger_blocked d)) new"
proof -
  let ?b = "normalizeLineIndexSpans (blockedSpans d) (mLength d)"
  have "mLineIndexScanReservations d' = mLineIndexScanReservations d @ new \<and> ledger_only d d' \<and> length new \<le> n
    \<and> disjoint_reservations new \<and> list_all (fresh_reservation (mLength d) (covered ?b)) new"
    using assms reserve_loop_ok [OF normalizeLineIndexSpans_spec(1) refl, of n _ "blockedSpans d" d "min focus (mLength d)" "min focus (mLength d)" True "[]" d' new]
    by (auto simp: reserveLineIndexScanSpans_def Let_def disjoint_reservations_def split: if_splits)
  then have r: "mLineIndexScanReservations d' = mLineIndexScanReservations d @ new" "ledger_only d d'" "length new \<le> n"
    "disjoint_reservations new" "list_all (fresh_reservation (mLength d) (covered ?b)) new" by auto
  show "mLineIndexScanReservations d' = mLineIndexScanReservations d @ new" "ledger_only d d'" "length new \<le> n"
    "disjoint_reservations new" by (fact r)+
  show "list_all (fresh_reservation (mLength d) (ledger_blocked d)) new"
    using r(5) blocked_covers [of d] by (fastforce simp: list_all_iff fresh_reservation_def)
qed

text \<open>While a byte is free and the sum of lengths does not wrap, a reservation is made.\<close>

lemma nextEof_exists:
  assumes "list_all (span_proper len) gaps" "\<exists>g \<in> set gaps. cursor < os_end g" "0 < target" "len + target \<le> size_max"
  shows "nextEofLineIndexGap gaps cursor target \<noteq> None"
  using assms
proof (induction gaps)
  case (Cons g gs)
  show ?case
  proof (cases "os_end g \<le> cursor")
    case True
    with Cons show ?thesis by auto
  next
    case False
    then have "max (os_start g) cursor + target \<le> size_max" using Cons.prems by (auto simp: span_proper_def)
    with False Cons.prems(1,3) show ?thesis by (simp add: Let_def span_proper_def)
  qed
qed simp

lemma nextBof_exists:
  assumes "list_all (span_proper len) gaps" "\<exists>g \<in> set gaps. os_start g < cursor" "0 < target"
  shows "nextBofLineIndexGap gaps cursor target \<noteq> None"
proof -
  have "bofGap_loop gs cursor target \<noteq> None" if "list_all (span_proper len) gs" "\<exists>g \<in> set gs. os_start g < cursor" for gs
    using that assms(3)
  proof (induction gs)
    case (Cons g gs)
    then show ?case by (cases "cursor \<le> os_start g") (auto simp: Let_def span_proper_def)
  qed simp
  from this [of "rev gaps"] assms show ?thesis by (simp add: nextBofLineIndexGap_def)
qed

lemma reserve_loop_progress:
  assumes "spans_normal (mLength d) blocked" "i < mLength d" "i \<notin> covered blocked" "0 < target" "mLength d + target \<le> size_max"
    and "reserve_loop (Suc k) target blocked focus focus True d reserved = (d', reserved')"
  shows "length reserved < length reserved'"
proof -
  let ?gaps = "availableLineIndexGaps blocked (mLength d)"
  note gs = availableLineIndexGaps_spec [OF assms(1)]
  have "i \<in> covered ?gaps" using gs(1) assms(2,3) by simp
  then obtain g where g: "g \<in> set ?gaps" "os_start g \<le> i" "i < os_end g" by (auto simp: covered_def)
  have "nextEofLineIndexGap ?gaps focus target \<noteq> None \<or> nextBofLineIndexGap ?gaps focus target \<noteq> None"
  proof (cases "focus < os_end g")
    case True
    with nextEof_exists [OF gs(2) _ assms(4,5)] g show ?thesis by blast
  next
    case False
    then have "os_start g < focus" using g by simp
    with nextBof_exists [OF gs(2) _ assms(4)] g show ?thesis by blast
  qed
  then obtain sp where sp: "(if findGap Eof ?gaps focus focus target = None then findGap (opposite Eof) ?gaps focus focus target
      else findGap Eof ?gaps focus focus target) = Some sp"
    by (cases "nextEofLineIndexGap ?gaps focus target") (auto simp: findGap_def opposite_def)
  have grow: "length rs < length rs'" if "reserve_loop k target b x y p e (rs @ [r]) = (e', rs')" "spans_normal (mLength e) b" for b x y p e r rs rs' e'
    using reserve_loop_ok [OF that(2) refl that(1)] by auto
  show ?thesis
    using assms(6) sp by (auto simp: Let_def opposite_def normalizeLineIndexSpans_spec(1) dest!: grow split: if_splits option.splits)
qed

lemma reserveLineIndexScanSpans_progress:
  assumes "i < mLength d" "mLazyIndexedOffset (mLazyIndex d) \<le> i" "\<not> mLazyLineIndexComplete (mLazyIndex d)" "0 < n"
    and "\<And>p. p \<in> set (mPendingLineIndexScanPackets d) \<Longrightarrow> i < min (pk_startOffset p) (pk_endOffset p) \<or> max (pk_startOffset p) (pk_endOffset p) \<le> i"
    and "\<And>r. r \<in> set (mLineIndexScanReservations d) \<Longrightarrow> i < min (rv_startOffset r) (rv_endOffset r) \<or> max (rv_startOffset r) (rv_endOffset r) \<le> i"
    and "mLength d + max 1 target \<le> size_max"
  shows "snd (reserveLineIndexScanSpans d focus n target) \<noteq> []"
proof -
  obtain d' new where r: "reserveLineIndexScanSpans d focus n target = (d', new)" by (metis surj_pair)
  obtain k where k: "n = Suc k" using assms(4) by (cases n) auto
  have free: "i \<notin> covered (normalizeLineIndexSpans (blockedSpans d) (mLength d))"
    using assms(1,2,5,6) unfolding normalizeLineIndexSpans_spec(2) blockedSpans_def by (fastforce simp: mkOffsetSpan_def)
  have "reserve_loop (Suc k) (if target = 0 then 1 else target) (normalizeLineIndexSpans (blockedSpans d) (mLength d))
      (min focus (mLength d)) (min focus (mLength d)) True d [] = (d', new)"
    using r assms(1,3) unfolding reserveLineIndexScanSpans_def Let_def k by simp
  from reserve_loop_progress [OF normalizeLineIndexSpans_spec(1) assms(1) free _ _ this] assms(7) have "new \<noteq> []"
    by (cases target) simp_all
  then show ?thesis by (simp add: r)
qed

subsection \<open>Adopting keeps the index exact\<close>

definition ledger_ok :: "TextDocument \<Rightarrow> bool" where
  "ledger_ok d \<longleftrightarrow> list_all (packet_ok (doc_text d)) (mPendingLineIndexScanPackets d)"

lemma takeReady_Some:
  assumes "takeReady off ps = Some (q, qs)" shows "pk_startOffset q = off \<and> set ps = insert q (set qs)"
  using assms by (induction ps arbitrary: q qs) (auto split: if_splits)

lemma appendScanCheckpoints_ok:
  assumes "lazy_ok s li" "list_all (scan_checkpoint_ok s (mLazyIndexedOffset li) e) cs"
    and "cps \<noteq> []" "hd cps = mkCheckpoint 0 0" "sorted (map cp_offset cps)" "list_all (checkpoint_ok s) cps"
    and "list_all (\<lambda>c. cp_offset c \<le> e) cps"
  shows "let r = appendScanCheckpoints (mLazyIndexedLine li) cps cs in
     r \<noteq> [] \<and> hd r = mkCheckpoint 0 0 \<and> sorted (map cp_offset r) \<and> list_all (checkpoint_ok s) r
       \<and> list_all (\<lambda>c. cp_offset c \<le> e) r"
  using assms(2-)
proof (induction cs arbitrary: cps)
  case (Cons c cs)
  define a where "a = mkCheckpoint (sc_offset c) (mLazyIndexedLine li + sc_lineBreakCount c)"
  define acc where "acc = (if cps = [] \<or> cp_offset a > cp_offset (last cps) then cps @ [a] else cps)"
  have a: "checkpoint_ok s a" "cp_offset a \<le> e"
    using Cons.prems(1) assms(1) by (auto simp: a_def scan_checkpoint_ok_def checkpoint_ok_def mkCheckpoint_def lazy_ok_def)
  have le: "\<forall>x \<in> set cps. cp_offset x \<le> cp_offset (last cps)"
    using Cons.prems(2,4) by (cases cps rule: rev_cases) (auto simp: sorted_append)
  have "acc \<noteq> []" "hd acc = mkCheckpoint 0 0" "list_all (checkpoint_ok s) acc" "list_all (\<lambda>c. cp_offset c \<le> e) acc"
    using Cons.prems a by (auto simp: acc_def)
  moreover have "sorted (map cp_offset acc)" using Cons.prems(4) le by (force simp: acc_def sorted_append)
  ultimately have "let r = appendScanCheckpoints (mLazyIndexedLine li) acc cs in
     r \<noteq> [] \<and> hd r = mkCheckpoint 0 0 \<and> sorted (map cp_offset r) \<and> list_all (checkpoint_ok s) r
       \<and> list_all (\<lambda>c. cp_offset c \<le> e) r"
    using Cons.IH [of acc] Cons.prems(1) by simp
  moreover have "appendScanCheckpoints (mLazyIndexedLine li) cps (c # cs) = appendScanCheckpoints (mLazyIndexedLine li) acc cs"
    by (simp add: acc_def a_def Let_def)
  ultimately show ?case by simp
qed simp

lemma absorbPacket_ok:
  assumes "lazy_ok s li" "packet_ok s p" "pk_startOffset p = mLazyIndexedOffset li"
  shows "lazy_ok s (absorbPacket li p)"
proof -
  have p: "mLazyIndexedOffset li \<le> pk_endOffset p" "pk_endOffset p \<le> length s"
    "breaks_before s (pk_endOffset p) = mLazyIndexedLine li + pk_lineBreakCount p"
    "list_all (scan_checkpoint_ok s (mLazyIndexedOffset li) (pk_endOffset p)) (pk_checkpoints p)"
    using assms by (auto simp: packet_ok_def lazy_ok_def)
  have li: "list_all (\<lambda>c. cp_offset c \<le> pk_endOffset p) (mLineIndexCheckpoints li)"
    using assms(1) p(1) by (auto simp: lazy_ok_def list_all_iff)
  have "mLazyIndexedLine li + pk_lineBreakCount p + 1 \<le> line_count s"
    using breaks_before_less_count [of s "pk_endOffset p"] p(3) by simp
  then have "mLazyLineIndexComplete li \<Longrightarrow> pk_lineBreakCount p = 0" using assms(1) by (simp add: lazy_ok_def)
  then show ?thesis
    using appendScanCheckpoints_ok [OF assms(1) p(4) _ _ _ _ li] assms(1) p(2,3)
    by (auto simp: lazy_ok_def absorbPacket_def Let_def)
qed

lemma adopt_loop_ok:
  assumes "lazy_ok s li" "list_all (packet_ok s) ps" "adopt_loop li ps = (li', ps')"
  shows "lazy_ok s li' \<and> list_all (packet_ok s) ps'"
  using assms
proof (induction li ps rule: adopt_loop.induct)
  case (1 li ps)
  show ?case
  proof (cases "takeReady (mLazyIndexedOffset li) ps")
    case None
    with "1.prems" show ?thesis by (subst (asm) adopt_loop.simps) simp
  next
    case (Some rq)
    then obtain q qs where rq: "takeReady (mLazyIndexedOffset li) ps = Some (q, qs)" by (cases rq) auto
    have q: "packet_ok s q" "pk_startOffset q = mLazyIndexedOffset li" "list_all (packet_ok s) qs"
      using takeReady_Some [OF rq] "1.prems"(2) by (auto simp: list_all_iff)
    have "adopt_loop (absorbPacket li q) qs = (li', ps')" using "1.prems"(3) rq by (subst (asm) adopt_loop.simps) simp
    from "1.IH" [OF rq refl absorbPacket_ok [OF "1.prems"(1) q(1,2)] q(3) this] show ?thesis .
  qed
qed

lemma releaseLineIndexScanReservation_only: "ledger_only d (releaseLineIndexScanReservation d rid)"
  unfolding releaseLineIndexScanReservation_def ledger_only_def
  by (rule exI [of _ "mNextLineIndexScanReservationId d"]) (auto intro: exI [of _ "mLineIndexScanReservations d"])

lemma ledger_only_frame:
  assumes "ledger_only d d'"
  shows "same_buffers d d'" "mPieces d' = mPieces d" "mLength d' = mLength d" "mLazyIndex d' = mLazyIndex d" "mVersion d' = mVersion d"
    "mEditedLineStarts d' = mEditedLineStarts d" "mPendingLineIndexScanPackets d' = mPendingLineIndexScanPackets d"
    "mCacheDirty d' = mCacheDirty d" "mMaterializedText d' = mMaterializedText d"
  using assms by (auto simp: ledger_only_def same_buffers_def)

lemma indexed_doc_ok:
  assumes "doc_ok d" "index_ok d" "same_buffers d d'" "mPieces d' = mPieces d" "mLength d' = mLength d"
    "mCacheDirty d' = mCacheDirty d" "mMaterializedText d' = mMaterializedText d" "mEditedLineStarts d' = mEditedLineStarts d"
    and "lazy_ok (doc_text d) (mLazyIndex d')"
  shows "doc_ok d'" "index_ok d'" "doc_text d' = doc_text d"
proof -
  have ps: "td_pieces d' = td_pieces d" by (rule td_pieces_eq [OF assms(4)])
  show tx: "doc_text d' = doc_text d" by (rule doc_text_same [OF assms(3) ps])
  show "doc_ok d'" by (rule doc_ok_same [OF assms(3) ps _ _ assms(1)]) (use assms in \<open>auto simp: doc_ok_def\<close>)
  show "index_ok d'" using assms(2,8,9) tx by (simp add: index_ok_def)
qed

lemma adoptLineIndexScanPacket_ok:
  assumes "doc_ok d" "index_ok d" "ledger_ok d" "adoptLineIndexScanPacket d packet expected = (d', b)"
    and "expected = mVersion d \<Longrightarrow> packet_ok (doc_text d) packet"
  shows "doc_ok d'" "index_ok d'" "ledger_ok d'" "doc_text d' = doc_text d" "mVersion d' = mVersion d"
proof -
  define d1 where "d1 = releaseLineIndexScanReservation d (pk_reservationId packet)"
  define pending where "pending = sort_key (\<lambda>p. (pk_startOffset p, pk_endOffset p)) (mPendingLineIndexScanPackets d1 @ [packet])"
  obtain li rest where run: "adopt_loop (mLazyIndex d1) pending = (li, rest)" by (metis surj_pair)
  define d2 where "d2 = (if mLazyIndexedOffset li = mLength d
    then d1\<lparr>mLazyIndex := li\<lparr>mLazyLineIndexComplete := True, mLazyTotalLineCount := mLazyIndexedLine li + 1\<rparr>, mPendingLineIndexScanPackets := []\<rparr>
    else d1\<lparr>mLazyIndex := li, mPendingLineIndexScanPackets := rest\<rparr>)"
  have "ledger_only d d1" unfolding d1_def by (rule releaseLineIndexScanReservation_only)
  note fr = ledger_only_frame [OF this]
  have lz: "lazy_ok (doc_text d) (mLazyIndex d)" using assms(2) by (simp add: index_ok_def)
  have cases: "d' = d \<or> d' = d1 \<or> expected = mVersion d \<and> d' = d2"
    using assms(4) run fr(3)
    unfolding adoptLineIndexScanPacket_def Let_def d1_def [symmetric] pending_def [symmetric] d2_def
    by (auto simp: matchesVersion_def split: if_splits option.splits prod.splits)
  have "doc_ok d' \<and> index_ok d' \<and> ledger_ok d' \<and> doc_text d' = doc_text d \<and> mVersion d' = mVersion d"
    using cases
  proof (elim disjE conjE)
    assume "d' = d" then show ?thesis using assms by simp
  next
    assume "d' = d1"
    with indexed_doc_ok [OF assms(1,2) fr(1,2,3,8,9,6)] fr lz assms(3) show ?thesis by (simp add: ledger_ok_def)
  next
    assume e: "expected = mVersion d" "d' = d2"
    have "list_all (packet_ok (doc_text d)) pending"
      using assms(3) assms(5) [OF e(1)] fr(7) by (auto simp: pending_def list_all_iff ledger_ok_def)
    from adopt_loop_ok [OF _ this run] lz fr(4)
    have li: "lazy_ok (doc_text d) li" "list_all (packet_ok (doc_text d)) rest" by auto
    have len: "mLength d = length (doc_text d)" using assms(1) by (simp add: doc_ok_def)
    have l2: "lazy_ok (doc_text d) (mLazyIndex d2)"
      using li(1) len by (auto simp: d2_def lazy_ok_def line_count_def)
    have f2: "same_buffers d d2" "mPieces d2 = mPieces d" "mLength d2 = mLength d" "mCacheDirty d2 = mCacheDirty d"
      "mMaterializedText d2 = mMaterializedText d" "mEditedLineStarts d2 = mEditedLineStarts d" "mVersion d2 = mVersion d"
      using fr by (auto simp: d2_def same_buffers_def)
    have "list_all (packet_ok (doc_text d)) (mPendingLineIndexScanPackets d2)" using li(2) by (simp add: d2_def)
    with indexed_doc_ok [OF assms(1,2) f2(1-6) l2] f2(7) e show ?thesis by (simp add: ledger_ok_def)
  qed
  then show "doc_ok d'" "index_ok d'" "ledger_ok d'" "doc_text d' = doc_text d" "mVersion d' = mVersion d" by auto
qed

end
