(* ===== verification/Buffer_Model.thy ===== *)
theory Buffer_Model
  imports Scan_Ledger
begin

text \<open>
  The editor's buffer (\<open>MRTextBufferModel\<close>, \<open>src/ui/MRTextBufferModel.hpp\<close>): one document with its
  cursor, selection, modified flag and the two stacks of undo records, and
  \<open>MRFileEditor::pushUndoSnapshot\<close>, which fills a record. The buffer is proved to refine a history
  of views: undo and redo move a view between two stacks and change nothing else.
\<close>

record CustomUndoRecord =
  ur_preSnapshot :: ReadSnapshot
  ur_cursor :: Offset
  ur_selAnchor :: Offset
  ur_selCursor :: Offset
  ur_modifiedState :: bool
  ur_changeSet :: DocumentChangeSet
  ur_blockMode :: int
  ur_blockAnchor :: Offset
  ur_blockEnd :: Offset
  ur_blockAnchorColumn :: int
  ur_blockEndColumn :: int
  ur_blockMarkingOn :: bool

text \<open>The shared content state of one buffer, and the cursor and selection of one view on it.\<close>

record TextBuffer =
  document :: TextDocument
  modified :: bool
  undoStack :: "CustomUndoRecord list"
  redoStack :: "CustomUndoRecord list"
  mCursor :: Cursor
  mSelection :: Selection

definition newTextBuffer :: "nat \<Rightarrow> TextBuffer" where
  "newTextBuffer documentId =
     \<lparr>document = newTextDocument documentId, modified = False, undoStack = [], redoStack = [],
      mCursor = \<lparr>cursor_offset = 0\<rparr>, mSelection = \<lparr>sel_anchor = 0, sel_cursor = 0\<rparr>\<rparr>"

definition clampState :: "TextBuffer \<Rightarrow> TextBuffer" where
  "clampState m =
     m\<lparr>mCursor := Cursor_clamp (mCursor m) (mLength (document m)),
       mSelection := Selection_clamp (mSelection m) (mLength (document m))\<rparr>"

definition Buffer_setText :: "TextBuffer \<Rightarrow> string \<Rightarrow> TextBuffer" where
  "Buffer_setText m t = clampState (m\<lparr>document := TextDocument_setText (document m) t\<rparr>)"

definition applyEditTransaction :: "TextBuffer \<Rightarrow> EditTransaction \<Rightarrow> TextBuffer" where
  "applyEditTransaction m t = clampState (m\<lparr>document := TextDocument_apply (document m) t, modified := True\<rparr>)"

definition clearUndoRedo :: "TextBuffer \<Rightarrow> TextBuffer" where
  "clearUndoRedo m = m\<lparr>undoStack := [], redoStack := []\<rparr>"

definition tryApplyEditTransaction :: "TextBuffer \<Rightarrow> EditTransaction \<Rightarrow> nat \<Rightarrow> TextBuffer \<times> CommitResult" where
  "tryApplyEditTransaction m t expected =
     (let (d, result) = tryApply (document m) t expected; m1 = m\<lparr>document := d\<rparr>
      in (if CommitResult_applied result then clampState (m1\<lparr>modified := True\<rparr>) else m1, result))"

definition tryApplyStagedTransaction :: "TextBuffer \<Rightarrow> StagedEditTransaction \<Rightarrow> TextBuffer \<times> CommitResult" where
  "tryApplyStagedTransaction m t =
     (let (d, result) = tryApplyStaged (document m) t; m1 = m\<lparr>document := d\<rparr>
      in (if CommitResult_applied result then clampState (m1\<lparr>modified := True\<rparr>) else m1, result))"

definition Buffer_adoptReadOnlyProjectionText ::
  "TextBuffer \<Rightarrow> string option \<Rightarrow> nat \<Rightarrow> nat \<Rightarrow> TextBuffer \<times> CommitResult" where
  "Buffer_adoptReadOnlyProjectionText m t expectedDocumentId expected =
     (let (d, result) = adoptReadOnlyProjectionText (document m) t expectedDocumentId expected; m1 = m\<lparr>document := d\<rparr>
      in (if CommitResult_applied result then clampState (clearUndoRedo (m1\<lparr>modified := False\<rparr>)) else m1, result))"

definition Buffer_adoptLineIndexWarmup :: "TextBuffer \<Rightarrow> LineIndexWarmupData \<Rightarrow> nat \<Rightarrow> TextBuffer \<times> bool" where
  "Buffer_adoptLineIndexWarmup m w expected =
     (let (d, ok) = adoptLineIndexWarmup (document m) w expected in (m\<lparr>document := d\<rparr>, ok))"

definition Buffer_reserveLineIndexScanSpans ::
  "TextBuffer \<Rightarrow> Offset \<Rightarrow> nat \<Rightarrow> Offset \<Rightarrow> TextBuffer \<times> LineIndexScanReservation list" where
  "Buffer_reserveLineIndexScanSpans m focus n target =
     (let (d, rs) = reserveLineIndexScanSpans (document m) focus n target in (m\<lparr>document := d\<rparr>, rs))"

definition Buffer_releaseLineIndexScanReservation :: "TextBuffer \<Rightarrow> nat \<Rightarrow> TextBuffer" where
  "Buffer_releaseLineIndexScanReservation m rid = m\<lparr>document := releaseLineIndexScanReservation (document m) rid\<rparr>"

definition Buffer_adoptLineIndexScanPacket :: "TextBuffer \<Rightarrow> LineIndexScanPacket \<Rightarrow> nat \<Rightarrow> TextBuffer \<times> bool" where
  "Buffer_adoptLineIndexScanPacket m p expected =
     (let (d, ok) = adoptLineIndexScanPacket (document m) p expected in (m\<lparr>document := d\<rparr>, ok))"

definition setCursor :: "TextBuffer \<Rightarrow> Offset \<Rightarrow> TextBuffer" where
  "setCursor m pos = m\<lparr>mCursor := (mCursor m)\<lparr>cursor_offset := TextDocument_clampOffset (document m) pos\<rparr>\<rparr>"

definition setSelection :: "TextBuffer \<Rightarrow> Offset \<Rightarrow> Offset \<Rightarrow> TextBuffer" where
  "setSelection m a b =
     m\<lparr>mSelection := (mSelection m)\<lparr>sel_anchor := TextDocument_clampOffset (document m) a,
                                    sel_cursor := TextDocument_clampOffset (document m) b\<rparr>\<rparr>"

definition setCursorAndSelection :: "TextBuffer \<Rightarrow> Offset \<Rightarrow> Offset \<Rightarrow> Offset \<Rightarrow> TextBuffer" where
  "setCursorAndSelection m c a b = setSelection (setCursor m c) a b"

definition setModified :: "TextBuffer \<Rightarrow> bool \<Rightarrow> TextBuffer" where
  "setModified m b = m\<lparr>modified := b\<rparr>"

definition markSaved :: "TextBuffer \<Rightarrow> TextBuffer" where
  "markSaved m =
     m\<lparr>modified := False, undoStack := map (\<lambda>r. r\<lparr>ur_modifiedState := True\<rparr>) (undoStack m),
       redoStack := map (\<lambda>r. r\<lparr>ur_modifiedState := True\<rparr>) (redoStack m)\<rparr>"

subsection \<open>The undo stacks\<close>

definition pushUndoSnapshot :: "TextBuffer \<Rightarrow> CustomUndoRecord \<Rightarrow> TextBuffer" where
  "pushUndoSnapshot m r = m\<lparr>undoStack := undoStack m @ [r], redoStack := []\<rparr>"

definition popUndoSnapshot :: "TextBuffer \<Rightarrow> TextBuffer" where
  "popUndoSnapshot m = (if undoStack m \<noteq> [] then m\<lparr>undoStack := butlast (undoStack m)\<rparr> else m)"

definition copyBlockState :: "CustomUndoRecord \<Rightarrow> CustomUndoRecord \<Rightarrow> CustomUndoRecord" where
  "copyBlockState target src =
     target\<lparr>ur_blockMode := ur_blockMode src, ur_blockAnchor := ur_blockAnchor src, ur_blockEnd := ur_blockEnd src,
            ur_blockAnchorColumn := ur_blockAnchorColumn src, ur_blockEndColumn := ur_blockEndColumn src,
            ur_blockMarkingOn := ur_blockMarkingOn src\<rparr>"

definition updateUndoTopBlockState :: "TextBuffer \<Rightarrow> CustomUndoRecord \<Rightarrow> TextBuffer" where
  "updateUndoTopBlockState m r =
     (if undoStack m = [] then m
      else m\<lparr>undoStack := butlast (undoStack m) @ [copyBlockState (last (undoStack m)) r]\<rparr>)"

definition updateUndoTopChangeSet :: "TextBuffer \<Rightarrow> DocumentChangeSet \<Rightarrow> TextBuffer" where
  "updateUndoTopChangeSet m c =
     (if undoStack m = [] then m
      else m\<lparr>undoStack := butlast (undoStack m) @ [(last (undoStack m))\<lparr>ur_changeSet := c\<rparr>]\<rparr>)"

definition updateRedoTopBlockState :: "TextBuffer \<Rightarrow> CustomUndoRecord \<Rightarrow> TextBuffer" where
  "updateRedoTopBlockState m r =
     (if redoStack m = [] then m
      else m\<lparr>redoStack := butlast (redoStack m) @ [copyBlockState (last (redoStack m)) r]\<rparr>)"

text \<open>Putting a record back: the document, the cursor, the selection and the modified flag.\<close>

definition restoreRecord :: "TextBuffer \<Rightarrow> CustomUndoRecord \<Rightarrow> TextBuffer" where
  "restoreRecord m r =
     m\<lparr>document := restoreFromSnapshot (document m) (ur_preSnapshot r),
       mCursor := (mCursor m)\<lparr>cursor_offset := ur_cursor r\<rparr>,
       mSelection := (mSelection m)\<lparr>sel_anchor := ur_selAnchor r, sel_cursor := ur_selCursor r\<rparr>,
       modified := ur_modifiedState r\<rparr>"

text \<open>The record of the present state that \<open>undo\<close> and \<open>redo\<close> push on the other stack.\<close>

definition currentRecord :: "TextBuffer \<Rightarrow> DocumentChangeSet \<Rightarrow> CustomUndoRecord" where
  "currentRecord m c =
     \<lparr>ur_preSnapshot = compactLineIndexForUndo (readSnapshot (document m)) (cursor_offset (mCursor m)),
      ur_cursor = cursor_offset (mCursor m), ur_selAnchor = sel_anchor (mSelection m), ur_selCursor = sel_cursor (mSelection m),
      ur_modifiedState = modified m, ur_changeSet = c, ur_blockMode = 0, ur_blockAnchor = 0, ur_blockEnd = 0,
      ur_blockAnchorColumn = -1, ur_blockEndColumn = -1, ur_blockMarkingOn = False\<rparr>"

definition revertUndoSuffix :: "TextBuffer \<Rightarrow> nat \<Rightarrow> TextBuffer \<times> CustomUndoRecord option" where
  "revertUndoSuffix m baseDepth =
     (if baseDepth \<ge> length (undoStack m) then (m, None)
      else
        (let r = undoStack m ! baseDepth
         in (clampState ((restoreRecord m r)\<lparr>undoStack := take baseDepth (undoStack m), redoStack := []\<rparr>), Some r)))"

definition undo :: "TextBuffer \<Rightarrow> TextBuffer \<times> CustomUndoRecord option" where
  "undo m =
     (if undoStack m = [] then (m, None)
      else
        (let undoRecord = last (undoStack m);
             redoRecord = currentRecord m (ur_changeSet undoRecord);
             m1 = restoreRecord (m\<lparr>redoStack := redoStack m @ [redoRecord]\<rparr>) undoRecord
         in (clampState (m1\<lparr>undoStack := butlast (undoStack m1)\<rparr>), Some undoRecord)))"

definition redo :: "TextBuffer \<Rightarrow> TextBuffer \<times> CustomUndoRecord option" where
  "redo m =
     (if redoStack m = [] then (m, None)
      else
        (let redoRecord = last (redoStack m);
             undoRecord = currentRecord m (ur_changeSet redoRecord);
             m1 = restoreRecord (m\<lparr>undoStack := undoStack m @ [undoRecord]\<rparr>) redoRecord
         in (clampState (m1\<lparr>redoStack := butlast (redoStack m1)\<rparr>), Some redoRecord)))"

text \<open>
  \<open>MRFileEditor::pushUndoSnapshot\<close>; \<open>block\<close> carries what \<open>captureCurrentBlockStateForUndo\<close> reads from
  the owning window.
\<close>

definition editor_pushUndoSnapshot :: "TextBuffer \<Rightarrow> CustomUndoRecord \<Rightarrow> TextBuffer" where
  "editor_pushUndoSnapshot m block =
     (let has = (\<not> Selection_empty (mSelection m));
          r = (currentRecord m emptyChangeSet)
                \<lparr>ur_selAnchor := (if has then range_start (Selection_range (mSelection m)) else 0),
                 ur_selCursor := (if has then range_end (Selection_range (mSelection m)) else 0)\<rparr>
      in pushUndoSnapshot m (copyBlockState r block))"

subsection \<open>The history a buffer stands for\<close>

record View =
  vw_text :: string
  vw_cursor :: Offset
  vw_anchor :: Offset
  vw_selCursor :: Offset
  vw_modified :: bool

record History =
  hs_past :: "View list"
  hs_now :: View
  hs_future :: "View list"

definition hist_undo :: "History \<Rightarrow> History" where
  "hist_undo h = (if hs_past h = [] then h
     else \<lparr>hs_past = butlast (hs_past h), hs_now = last (hs_past h), hs_future = hs_future h @ [hs_now h]\<rparr>)"

definition hist_redo :: "History \<Rightarrow> History" where
  "hist_redo h = (if hs_future h = [] then h
     else \<lparr>hs_past = hs_past h @ [hs_now h], hs_now = last (hs_future h), hs_future = butlast (hs_future h)\<rparr>)"

definition hist_revert :: "nat \<Rightarrow> History \<Rightarrow> History" where
  "hist_revert n h = (if n \<ge> length (hs_past h) then h
     else \<lparr>hs_past = take n (hs_past h), hs_now = hs_past h ! n, hs_future = []\<rparr>)"

definition hist_push :: "View \<Rightarrow> History \<Rightarrow> History" where
  "hist_push v h = h\<lparr>hs_past := hs_past h @ [v], hs_future := []\<rparr>"

definition hist_saved :: "History \<Rightarrow> History" where
  "hist_saved h = \<lparr>hs_past = map (vw_modified_update (\<lambda>_. True)) (hs_past h), hs_now = (hs_now h)\<lparr>vw_modified := False\<rparr>,
     hs_future = map (vw_modified_update (\<lambda>_. True)) (hs_future h)\<rparr>"

lemma hist_redo_undo: "hs_past h \<noteq> [] \<Longrightarrow> hist_redo (hist_undo h) = h"
  by (simp add: hist_undo_def hist_redo_def)

lemma hist_undo_redo: "hs_future h \<noteq> [] \<Longrightarrow> hist_undo (hist_redo h) = h"
  by (simp add: hist_undo_def hist_redo_def)

lemma hist_undo_depth: "hs_past h \<noteq> [] \<Longrightarrow> length (hs_past (hist_undo h)) = length (hs_past h) - 1"
  by (simp add: hist_undo_def)

lemma hist_undos_redos: "n \<le> length (hs_past h) \<Longrightarrow> (hist_redo ^^ n) ((hist_undo ^^ n) h) = h"
proof (induction n arbitrary: h)
  case (Suc n)
  then have ne: "hs_past h \<noteq> []" by auto
  have "(hist_redo ^^ n) ((hist_undo ^^ n) (hist_undo h)) = hist_undo h"
    using Suc.prems by (intro Suc.IH) (simp add: hist_undo_depth [OF ne])
  then show ?case using hist_redo_undo [OF ne] by (simp add: funpow_swap1)
qed simp

text \<open>Reverting to depth \<open>n\<close> shows what \<open>length - n\<close> undos show.\<close>

lemma hist_revert_undos:
  "n < length (hs_past h) \<Longrightarrow>
     hs_now (hist_revert n h) = hs_now ((hist_undo ^^ (length (hs_past h) - n)) h)
     \<and> hs_past (hist_revert n h) = hs_past ((hist_undo ^^ (length (hs_past h) - n)) h)"
proof (induction "length (hs_past h) - n" arbitrary: h)
  case (Suc k)
  obtain ps p where ps: "hs_past h = ps @ [p]" using Suc.prems by (cases "hs_past h" rule: rev_cases) auto
  have u: "hist_undo h = \<lparr>hs_past = ps, hs_now = p, hs_future = hs_future h @ [hs_now h]\<rparr>" by (simp add: hist_undo_def ps)
  have k: "length (hs_past h) - n = Suc (length ps - n)" using Suc.prems ps by simp
  show ?case
  proof (cases "n < length ps")
    case True
    then have "hs_now (hist_revert n h) = hs_now (hist_revert n (hist_undo h))"
      "hs_past (hist_revert n h) = hs_past (hist_revert n (hist_undo h))"
      by (simp_all add: hist_revert_def u ps nth_append)
    moreover have "(hist_undo ^^ (length (hs_past h) - n)) h = (hist_undo ^^ (length (hs_past (hist_undo h)) - n)) (hist_undo h)"
      by (simp add: k u) (simp add: funpow_swap1 u)
    moreover have "k = length (hs_past (hist_undo h)) - n" "n < length (hs_past (hist_undo h))"
      using Suc.hyps(2) k True by (simp_all add: u)
    ultimately show ?thesis using Suc.hyps(1) [of "hist_undo h"] by simp
  next
    case False
    then have "n = length ps" using Suc.prems ps by simp
    then show ?thesis by (simp add: hist_revert_def u ps)
  qed
qed simp

subsection \<open>The buffer refines it\<close>

definition buffer_view :: "TextBuffer \<Rightarrow> View" where
  "buffer_view m = \<lparr>vw_text = doc_text (document m), vw_cursor = cursor_offset (mCursor m),
     vw_anchor = sel_anchor (mSelection m), vw_selCursor = sel_cursor (mSelection m), vw_modified = modified m\<rparr>"

definition record_view :: "CustomUndoRecord \<Rightarrow> View" where
  "record_view r = \<lparr>vw_text = snap_text_of (ur_preSnapshot r), vw_cursor = ur_cursor r, vw_anchor = ur_selAnchor r,
     vw_selCursor = ur_selCursor r, vw_modified = ur_modifiedState r\<rparr>"

definition buffer_history :: "TextBuffer \<Rightarrow> History" where
  "buffer_history m = \<lparr>hs_past = map record_view (undoStack m), hs_now = buffer_view m,
     hs_future = map record_view (redoStack m)\<rparr>"

definition record_ok :: "CustomUndoRecord \<Rightarrow> bool" where
  "record_ok r \<longleftrightarrow> doc_ok (snap_doc (ur_preSnapshot r)) \<and> ur_cursor r \<le> rs_length (ur_preSnapshot r)
     \<and> ur_selAnchor r \<le> rs_length (ur_preSnapshot r) \<and> ur_selCursor r \<le> rs_length (ur_preSnapshot r)"

definition buffer_ok :: "TextBuffer \<Rightarrow> bool" where
  "buffer_ok m \<longleftrightarrow> doc_ok (document m) \<and> cursor_offset (mCursor m) \<le> mLength (document m)
     \<and> sel_anchor (mSelection m) \<le> mLength (document m) \<and> sel_cursor (mSelection m) \<le> mLength (document m)
     \<and> list_all record_ok (undoStack m) \<and> list_all record_ok (redoStack m)"

lemma readSnapshot_frame:
  "rs_originalBuffer (readSnapshot d) = mOriginalBuffer d" "rs_mappedOriginal (readSnapshot d) = mMappedOriginal d"
  "rs_addBuffer (readSnapshot d) = mAddBuffer d" "rs_pieces (readSnapshot d) = mPieces d" "rs_length (readSnapshot d) = mLength d"
  "rs_cacheDirty (readSnapshot d) = (mLength d \<noteq> 0)" "rs_materializedText (readSnapshot d) = []"
  "rs_version (readSnapshot d) = mVersion d" "rs_documentId (readSnapshot d) = mDocumentId d"
  by (simp_all add: readSnapshot_def newReadSnapshot_def ReadSnapshot_resetLazyLineIndex_def Let_def)

lemma compact_frame [simp]:
  "rs_originalBuffer (compactLineIndexForUndo r p) = rs_originalBuffer r" "rs_mappedOriginal (compactLineIndexForUndo r p) = rs_mappedOriginal r"
  "rs_addBuffer (compactLineIndexForUndo r p) = rs_addBuffer r" "rs_pieces (compactLineIndexForUndo r p) = rs_pieces r"
  "rs_length (compactLineIndexForUndo r p) = rs_length r" "rs_cacheDirty (compactLineIndexForUndo r p) = rs_cacheDirty r"
  "rs_materializedText (compactLineIndexForUndo r p) = rs_materializedText r"
  "rs_version (compactLineIndexForUndo r p) = rs_version r" "rs_documentId (compactLineIndexForUndo r p) = rs_documentId r"
  by (simp_all add: compactLineIndexForUndo_def Let_def)

lemma undo_snapshot_doc:
  assumes "doc_ok d"
  shows "doc_ok (snap_doc (compactLineIndexForUndo (readSnapshot d) p))"
    "snap_text_of (compactLineIndexForUndo (readSnapshot d) p) = doc_text d"
    "rs_length (compactLineIndexForUndo (readSnapshot d) p) = mLength d"
proof -
  let ?r = "compactLineIndexForUndo (readSnapshot d) p"
  have s: "same_buffers d (snap_doc ?r)" "td_pieces (snap_doc ?r) = td_pieces d"
    by (simp_all add: same_buffers_def td_pieces_def readSnapshot_frame)
  show "snap_text_of ?r = doc_text d" by (simp add: snap_text_doc doc_text_same [OF s])
  show "rs_length ?r = mLength d" by (simp add: readSnapshot_frame)
  show "doc_ok (snap_doc ?r)"
    by (rule doc_ok_same [OF s _ _ assms]) (use assms in \<open>auto simp: readSnapshot_frame doc_ok_def\<close>)
qed

lemma restore_doc:
  assumes "doc_ok d" "doc_ok (snap_doc r)"
  shows "doc_ok (restoreFromSnapshot d r)" "doc_text (restoreFromSnapshot d r) = snap_text_of r"
    "mLength (restoreFromSnapshot d r) = rs_length r"
    "rs_length r \<noteq> 0 \<Longrightarrow> mVersion (restoreFromSnapshot d r) = rs_version r"
proof -
  let ?d = "restoreFromSnapshot d r" and ?s = "snap_doc r"
  have len: "rs_length r = length (doc_text ?s)" using assms(2) by (simp add: doc_ok_def)
  have "doc_ok ?d \<and> doc_text ?d = doc_text ?s \<and> (rs_length r \<noteq> 0 \<longrightarrow> mVersion ?d = rs_version r)"
  proof (cases "rs_length r = 0")
    case True
    obtain d' b where st: "setTextNoVersionBump d [] = (d', b)" by (metis surj_pair)
    from setTextNoVersionBump_spec [OF assms(1) _ st] True len st show ?thesis
      by (simp add: restoreFromSnapshot_def ReadSnapshot_empty_def size_max_def)
  next
    case False
    then have "td_pieces ?s \<noteq> []" using len by (auto simp: doc_text_def)
    then obtain qs where qs: "rs_pieces r = Some qs" "qs \<noteq> []" by (auto simp: td_pieces_def split: option.splits)
    obtain b where b: "rs_addBuffer r = Some b" using assms(2) by (auto simp: doc_ok_def)
    have f: "mMappedOriginal ?d = rs_mappedOriginal r" "mAddBuffer ?d = rs_addBuffer r" "mPieces ?d = rs_pieces r"
      "mOriginalBuffer ?d = Some (case rs_originalBuffer r of None \<Rightarrow> [] | Some b \<Rightarrow> b)"
      "mLength ?d = rs_length r" "mCacheDirty ?d = rs_cacheDirty r" "mMaterializedText ?d = rs_materializedText r"
      "mVersion ?d = rs_version r"
      using False qs b by (simp_all add: restoreFromSnapshot_def ReadSnapshot_empty_def Let_def td_pieces_def
          AppendBuffer_setSharedText_def)
    have eq: "doc_orig ?d = doc_orig ?s" "doc_add ?d = doc_add ?s" "td_pieces ?d = td_pieces ?s"
      by (auto simp: doc_orig_def originalData_def f doc_add_def td_pieces_def split: option.splits)
    then have tx: "doc_text ?d = doc_text ?s" by (simp add: doc_text_def)
    then show ?thesis using assms(2) eq f by (simp add: doc_ok_def)
  qed
  then show "doc_ok ?d" "doc_text ?d = snap_text_of r" "rs_length r \<noteq> 0 \<Longrightarrow> mVersion ?d = rs_version r"
    by (simp_all add: snap_text_doc)
  then show "mLength ?d = rs_length r" using len by (simp add: doc_ok_def snap_text_doc)
qed

lemma currentRecord_ok:
  assumes "buffer_ok m" shows "record_ok (currentRecord m c)" "record_view (currentRecord m c) = buffer_view m"
  using assms undo_snapshot_doc [of "document m" "cursor_offset (mCursor m)"]
  by (simp_all add: buffer_ok_def record_ok_def record_view_def buffer_view_def currentRecord_def)

lemma clampState_id:
  assumes "cursor_offset (mCursor m) \<le> mLength (document m)" "sel_anchor (mSelection m) \<le> mLength (document m)"
    "sel_cursor (mSelection m) \<le> mLength (document m)"
  shows "clampState m = m"
  using assms by (simp add: clampState_def Cursor_clamp_def Selection_clamp_def)

lemma restoreRecord_ok:
  assumes "buffer_ok m" "record_ok r" "list_all record_ok us" "list_all record_ok rs"
  defines "m' \<equiv> (restoreRecord m r)\<lparr>undoStack := us, redoStack := rs\<rparr>"
  shows "buffer_ok m'" "clampState m' = m'" "buffer_view m' = record_view r"
proof -
  have d: "doc_ok (document m)" "doc_ok (snap_doc (ur_preSnapshot r))" using assms(1,2) by (auto simp: buffer_ok_def record_ok_def)
  note rd = restore_doc [OF d]
  show ok: "buffer_ok m'" using assms(2-4) rd by (simp add: m'_def buffer_ok_def record_ok_def restoreRecord_def)
  show "clampState m' = m'" using ok by (intro clampState_id) (auto simp: buffer_ok_def)
  show "buffer_view m' = record_view r" using rd by (simp add: m'_def buffer_view_def record_view_def restoreRecord_def)
qed

lemma undo_refines:
  assumes "buffer_ok m"
  shows "buffer_history (fst (undo m)) = hist_undo (buffer_history m)" "buffer_ok (fst (undo m))"
proof -
  have "buffer_history (fst (undo m)) = hist_undo (buffer_history m) \<and> buffer_ok (fst (undo m))"
  proof (cases "undoStack m = []")
    case True
    with assms show ?thesis by (simp add: undo_def hist_undo_def buffer_history_def)
  next
    case False
    let ?r = "last (undoStack m)" and ?us = "butlast (undoStack m)"
    let ?rs = "redoStack m @ [currentRecord m (ur_changeSet ?r)]"
    define m' where "m' = (restoreRecord m ?r)\<lparr>undoStack := ?us, redoStack := ?rs\<rparr>"
    have ok: "record_ok ?r" "list_all record_ok ?us" "list_all record_ok ?rs"
      using assms False currentRecord_ok(1) [OF assms] by (auto simp: buffer_ok_def list_all_iff dest: in_set_butlastD)
    note rr = restoreRecord_ok [OF assms ok, folded m'_def]
    have "fst (undo m) = clampState m'" using False by (cases m) (simp add: undo_def Let_def m'_def restoreRecord_def)
    with rr have m': "fst (undo m) = m'" by simp
    show ?thesis
      using rr(1,3) False currentRecord_ok(2) [OF assms, of "ur_changeSet ?r"] unfolding m'
      by (simp add: buffer_history_def hist_undo_def map_butlast last_map) (simp add: m'_def map_butlast)
  qed
  then show "buffer_history (fst (undo m)) = hist_undo (buffer_history m)" "buffer_ok (fst (undo m))" by auto
qed

lemma redo_refines:
  assumes "buffer_ok m"
  shows "buffer_history (fst (redo m)) = hist_redo (buffer_history m)" "buffer_ok (fst (redo m))"
proof -
  have "buffer_history (fst (redo m)) = hist_redo (buffer_history m) \<and> buffer_ok (fst (redo m))"
  proof (cases "redoStack m = []")
    case True
    with assms show ?thesis by (simp add: redo_def hist_redo_def buffer_history_def)
  next
    case False
    let ?r = "last (redoStack m)" and ?rs = "butlast (redoStack m)"
    let ?us = "undoStack m @ [currentRecord m (ur_changeSet ?r)]"
    define m' where "m' = (restoreRecord m ?r)\<lparr>undoStack := ?us, redoStack := ?rs\<rparr>"
    have ok: "record_ok ?r" "list_all record_ok ?us" "list_all record_ok ?rs"
      using assms False currentRecord_ok(1) [OF assms] by (auto simp: buffer_ok_def list_all_iff dest: in_set_butlastD)
    note rr = restoreRecord_ok [OF assms ok, folded m'_def]
    have "fst (redo m) = clampState m'" using False by (cases m) (simp add: redo_def Let_def m'_def restoreRecord_def)
    with rr have m': "fst (redo m) = m'" by simp
    show ?thesis
      using rr(1,3) False currentRecord_ok(2) [OF assms, of "ur_changeSet ?r"] unfolding m'
      by (simp add: buffer_history_def hist_redo_def map_butlast last_map) (simp add: m'_def map_butlast)
  qed
  then show "buffer_history (fst (redo m)) = hist_redo (buffer_history m)" "buffer_ok (fst (redo m))" by auto
qed

lemma revert_refines:
  assumes "buffer_ok m"
  shows "buffer_history (fst (revertUndoSuffix m n)) = hist_revert n (buffer_history m)" "buffer_ok (fst (revertUndoSuffix m n))"
proof -
  have "buffer_history (fst (revertUndoSuffix m n)) = hist_revert n (buffer_history m) \<and> buffer_ok (fst (revertUndoSuffix m n))"
  proof (cases "n \<ge> length (undoStack m)")
    case True
    with assms show ?thesis by (simp add: revertUndoSuffix_def hist_revert_def buffer_history_def)
  next
    case False
    define m' where "m' = (restoreRecord m (undoStack m ! n))\<lparr>undoStack := take n (undoStack m), redoStack := []\<rparr>"
    have ok: "record_ok (undoStack m ! n)" "list_all record_ok (take n (undoStack m))" "list_all record_ok []"
      using assms False by (auto simp: buffer_ok_def list_all_iff dest: in_set_takeD)
    note rr = restoreRecord_ok [OF assms ok, folded m'_def]
    have "fst (revertUndoSuffix m n) = m'" using False rr(2) by (simp add: revertUndoSuffix_def Let_def m'_def)
    then show ?thesis
      using rr(1,3) False by (simp add: buffer_history_def hist_revert_def take_map) (simp add: m'_def)
  qed
  then show "buffer_history (fst (revertUndoSuffix m n)) = hist_revert n (buffer_history m)" "buffer_ok (fst (revertUndoSuffix m n))" by auto
qed

text \<open>Iterated, over the refinement.\<close>

lemma undos_refine:
  assumes "buffer_ok m"
  shows "buffer_ok (((fst \<circ> undo) ^^ n) m) \<and> buffer_history (((fst \<circ> undo) ^^ n) m) = (hist_undo ^^ n) (buffer_history m)"
  by (induction n) (simp_all add: assms undo_refines)

lemma redos_refine:
  assumes "buffer_ok m"
  shows "buffer_ok (((fst \<circ> redo) ^^ n) m) \<and> buffer_history (((fst \<circ> redo) ^^ n) m) = (hist_redo ^^ n) (buffer_history m)"
  by (induction n) (simp_all add: assms redo_refines)

lemma undos_redos:
  assumes "buffer_ok m" "n \<le> length (undoStack m)"
  shows "buffer_history (((fst \<circ> redo) ^^ n) (((fst \<circ> undo) ^^ n) m)) = buffer_history m"
  using undos_refine [OF assms(1), of n] redos_refine [of "((fst \<circ> undo) ^^ n) m" n] hist_undos_redos [of n "buffer_history m"] assms(2)
  by (simp add: buffer_history_def)

lemma markSaved_refines:
  assumes "buffer_ok m"
  shows "buffer_history (markSaved m) = hist_saved (buffer_history m)" "buffer_ok (markSaved m)"
  using assms
  by (auto simp: markSaved_def buffer_history_def hist_saved_def buffer_view_def record_view_def buffer_ok_def record_ok_def list_all_iff)

lemma editor_push_refines:
  assumes "buffer_ok m"
  defines "v \<equiv> (buffer_view m)\<lparr>vw_anchor := (if Selection_empty (mSelection m) then 0 else range_start (Selection_range (mSelection m))),
     vw_selCursor := (if Selection_empty (mSelection m) then 0 else range_end (Selection_range (mSelection m)))\<rparr>"
  shows "buffer_history (editor_pushUndoSnapshot m block) = hist_push v (buffer_history m)" "buffer_ok (editor_pushUndoSnapshot m block)"
proof -
  note c = currentRecord_ok [OF assms(1), of emptyChangeSet]
  have len: "rs_length (ur_preSnapshot (currentRecord m emptyChangeSet)) = mLength (document m)"
    using assms(1) undo_snapshot_doc(3) by (simp add: currentRecord_def buffer_ok_def)
  show "buffer_history (editor_pushUndoSnapshot m block) = hist_push v (buffer_history m)"
    using c(2) by (simp add: editor_pushUndoSnapshot_def pushUndoSnapshot_def copyBlockState_def buffer_history_def hist_push_def
        v_def record_view_def buffer_view_def Let_def)
  show "buffer_ok (editor_pushUndoSnapshot m block)"
    using c(1) len assms(1)
    by (auto simp: editor_pushUndoSnapshot_def pushUndoSnapshot_def copyBlockState_def buffer_ok_def record_ok_def Let_def
        Selection_range_def Range_normalized_def Range_normalize_def mkRange_def)
qed

end
