(* ===== verification/Editor_Commits.thy ===== *)
theory Editor_Commits
  imports Buffer_Model
begin

text \<open>
  What the editor does with its buffer around a commit (\<open>src/ui/MRFileEditor\<close>): the synchronization of
  cursor and selection after the document has changed, the adoption of a loaded document, staged and
  multi-range edits with their undo record, undo, redo and revert of the editor, and loading a mapped
  file. The caches, warm-up tasks, markers and drawing that these functions also touch are left out;
  none of them reads back into the buffer.
\<close>

subsection \<open>After a commit\<close>

definition canonicalCursorOffset :: "TextBuffer \<Rightarrow> Offset \<Rightarrow> Offset" where
  "canonicalCursorOffset m pos0 =
     (let len = mLength (document m); pos = min pos0 len in
      if pos > 0 \<and> pos < len \<and> TextDocument_charAt (document m) pos = LF \<and> TextDocument_charAt (document m) (pos - 1) = CR
      then pos - 1 else pos)"

definition syncAfterCommittedDocument :: "TextBuffer \<Rightarrow> Offset \<Rightarrow> Offset \<Rightarrow> Offset \<Rightarrow> bool \<Rightarrow> TextBuffer" where
  "syncAfterCommittedDocument m cursorPos selStart selEnd modifiedState =
     (let len = mLength (document m);
          cursorPos = min cursorPos len;
          selStart = min selStart len;
          selEnd = min selEnd len;
          (selStart, selEnd) = (if selEnd < selStart then (selEnd, selStart) else (selStart, selEnd))
      in setModified (setCursorAndSelection m (canonicalCursorOffset m cursorPos) (canonicalCursorOffset m selStart)
           (canonicalCursorOffset m selEnd)) modifiedState)"

text \<open>
  The document that is adopted is another one, or with \<open>None\<close> that of the buffer itself, whose assignment
  to itself does nothing.
\<close>

definition adoptCommittedDocument ::
  "TextBuffer \<Rightarrow> TextDocument option \<Rightarrow> Offset \<Rightarrow> Offset \<Rightarrow> Offset \<Rightarrow> bool \<Rightarrow> TextBuffer" where
  "adoptCommittedDocument m adopted cursorPos selStart selEnd modifiedState =
     (let m1 = (case adopted of None \<Rightarrow> m | Some d \<Rightarrow> m\<lparr>document := assignTextDocument (document m) d\<rparr>)
      in syncAfterCommittedDocument m1 cursorPos selStart selEnd modifiedState)"

definition editor_adoptReadOnlyProjectionText :: "TextBuffer \<Rightarrow> string option \<Rightarrow> nat \<Rightarrow> nat \<Rightarrow> TextBuffer \<times> bool" where
  "editor_adoptReadOnlyProjectionText m t expectedDocumentId expected =
     (let (m1, result) = Buffer_adoptReadOnlyProjectionText m t expectedDocumentId expected
      in if \<not> CommitResult_applied result then (m1, False) else (syncAfterCommittedDocument m1 0 0 0 False, True))"

subsection \<open>Edits with an undo record\<close>

definition editor_applyStagedTransaction ::
  "TextBuffer \<Rightarrow> CustomUndoRecord \<Rightarrow> StagedEditTransaction \<Rightarrow> Offset \<Rightarrow> Offset \<Rightarrow> Offset \<Rightarrow> bool \<Rightarrow> TextBuffer \<times> CommitResult" where
  "editor_applyStagedTransaction m block transaction cursorPos selStart selEnd modifiedState =
     (let (m1, result) = tryApplyStagedTransaction (editor_pushUndoSnapshot m block) transaction
      in (if CommitResult_applied result
          then syncAfterCommittedDocument (updateUndoTopChangeSet m1 (change result)) cursorPos selStart selEnd modifiedState
          else popUndoSnapshot m1, result))"

definition replaceRangeAndSelect ::
  "bool \<Rightarrow> TextBuffer \<Rightarrow> CustomUndoRecord \<Rightarrow> Offset \<Rightarrow> Offset \<Rightarrow> string \<Rightarrow> TextBuffer \<times> bool" where
  "replaceRangeAndSelect readOnly m block start0 end0 text =
     (let transaction = StagedEditTransaction_fromSnapshot (readSnapshot (document m)) ''replace-range-select'' in
      if readOnly then (m, False)
      else
        (let (start, end') = (if end0 < start0 then (end0, start0) else (start0, end0));
             rng = Range_clamped (mkRange start end') (mLength (document m));
             (m1, result) = editor_applyStagedTransaction m block (StagedEditTransaction_replace transaction rng text)
               (range_start rng) (range_start rng) (range_start rng + length text) True
         in (m1, CommitResult_applied result)))"

text \<open>\<open>data\<close> is \<open>None\<close> for a null pointer with a length; with length 0 the replacement is empty either way.\<close>

definition replaceRangesAndCollapse ::
  "bool \<Rightarrow> TextBuffer \<Rightarrow> CustomUndoRecord \<Rightarrow> Range list \<Rightarrow> string option \<Rightarrow> TextBuffer \<times> bool" where
  "replaceRangesAndCollapse readOnly m block rngs data =
     (if readOnly \<or> rngs = [] then (m, False)
      else
        (case data of
           None \<Rightarrow> (m, False)
         | Some replacement \<Rightarrow>
             (let expectedVersion = mVersion (document m);
                  m1 = editor_pushUndoSnapshot m block;
                  (d, result) = tryApplyReplacements (document m1) rngs replacement expectedVersion;
                  m2 = m1\<lparr>document := d\<rparr>
              in if \<not> CommitResult_applied result then (popUndoSnapshot m2, False)
                 else
                   (let cursorEnd = wrap64 (range_start (hd rngs) + length replacement)
                    in (syncAfterCommittedDocument (updateUndoTopChangeSet m2 (change result)) cursorEnd cursorEnd cursorEnd True, True)))))"

subsection \<open>Undo, redo and revert of the editor\<close>

definition editor_undo :: "TextBuffer \<Rightarrow> CustomUndoRecord \<Rightarrow> TextBuffer" where
  "editor_undo m redoBlockState =
     (let (m1, undone) = undo m in
      case undone of
        None \<Rightarrow> m1
      | Some r \<Rightarrow>
          (let m2 = updateRedoTopBlockState m1 redoBlockState; sel = Selection_range (mSelection m2)
           in adoptCommittedDocument m2 None (cursor_offset (mCursor m2)) (range_start sel) (range_end sel) (modified m2)))"

definition editor_redo :: "TextBuffer \<Rightarrow> CustomUndoRecord \<Rightarrow> TextBuffer" where
  "editor_redo m undoBlockState =
     (let (m1, redone) = redo m in
      case redone of
        None \<Rightarrow> m1
      | Some r \<Rightarrow>
          (let m2 = updateUndoTopBlockState m1 undoBlockState; sel = Selection_range (mSelection m2)
           in adoptCommittedDocument m2 None (cursor_offset (mCursor m2)) (range_start sel) (range_end sel) (modified m2)))"

definition editor_revertUndoSuffix :: "TextBuffer \<Rightarrow> nat \<Rightarrow> TextBuffer \<times> bool" where
  "editor_revertUndoSuffix m baseDepth =
     (let (m1, reverted) = revertUndoSuffix m baseDepth in
      case reverted of
        None \<Rightarrow> (m1, False)
      | Some r \<Rightarrow>
          (let sel = Selection_range (mSelection m1)
           in (syncAfterCommittedDocument m1 (cursor_offset (mCursor m1)) (range_start sel) (range_end sel) (modified m1), True)))"

subsection \<open>Loading a mapped file\<close>

text \<open>
  A file that cannot be opened is asked of the privileged file broker, when there is one: \<open>broker\<close> is
  its open call. The new document has a number of its own.
\<close>

definition openMappedDocument ::
  "OsCalls \<Rightarrow> (string \<Rightarrow> int) option \<Rightarrow> nat \<Rightarrow> string \<Rightarrow> TextDocument option" where
  "openMappedDocument os broker documentId path =
     (let (ok, err, d) = loadMappedFile os (newTextDocument documentId) path in
      if ok then Some d
      else
        (case broker of
           None \<Rightarrow> None
         | Some brokerOpen \<Rightarrow>
             (let fileDescriptor = brokerOpen path in
              if fileDescriptor < 0 then None
              else (let (ok', err', d') = loadMappedFileFd os d fileDescriptor path in if ok' then Some d' else None))))"

definition editor_loadMappedFile ::
  "OsCalls \<Rightarrow> 'f LongDouble \<Rightarrow> (string \<Rightarrow> int) option \<Rightarrow> nat \<Rightarrow> TextBuffer \<Rightarrow> string \<Rightarrow> TextBuffer \<times> bool" where
  "editor_loadMappedFile os ld broker documentId m path =
     (case openMappedDocument os broker documentId path of
        None \<Rightarrow> (m, False)
      | Some d \<Rightarrow>
          (let (d1, lines) = TextDocument_estimatedLineCount ld d
           in (clearUndoRedo (adoptCommittedDocument m (Some d1) 0 0 0 False), True)))"

subsection \<open>They keep the buffer well formed\<close>

text \<open>What a buffer needs for the synchronization to bring cursor and selection into the text.\<close>

definition content_ok :: "TextBuffer \<Rightarrow> bool" where
  "content_ok m \<longleftrightarrow> doc_ok (document m) \<and> list_all record_ok (undoStack m) \<and> list_all record_ok (redoStack m)"

lemma buffer_content: "buffer_ok m \<Longrightarrow> content_ok m"
  by (simp add: buffer_ok_def content_ok_def)

lemma sync_ok: "content_ok m \<Longrightarrow> buffer_ok (syncAfterCommittedDocument m c a b f)"
  by (auto simp: content_ok_def buffer_ok_def syncAfterCommittedDocument_def setModified_def setCursorAndSelection_def
      setSelection_def setCursor_def TextDocument_clampOffset_def Let_def)

lemma assign_ok:
  assumes "doc_ok d" shows "doc_ok (assignTextDocument d0 d)"
proof -
  have s: "same_buffers d (assignTextDocument d0 d)" "td_pieces (assignTextDocument d0 d) = td_pieces d"
    by (simp_all add: assignTextDocument_def clearLineIndexScanLedger_def same_buffers_def td_pieces_def)
  show ?thesis by (rule doc_ok_same [OF s _ _ assms])
      (use assms in \<open>auto simp: doc_ok_def assignTextDocument_def clearLineIndexScanLedger_def\<close>)
qed

lemma adopt_ok:
  assumes "content_ok m" "case adopted of None \<Rightarrow> True | Some d \<Rightarrow> doc_ok d"
  shows "buffer_ok (adoptCommittedDocument m adopted c a b f)"
  using assms by (auto simp: adoptCommittedDocument_def Let_def content_ok_def assign_ok intro!: sync_ok split: option.splits)

lemma records_ok:
  "list_all record_ok (butlast rs)" if "list_all record_ok rs"
  using that by (auto simp: list_all_iff dest: in_set_butlastD)

lemma content_records:
  assumes "content_ok m"
  shows "content_ok (popUndoSnapshot m)" "content_ok (updateUndoTopChangeSet m cs)"
    "content_ok (updateUndoTopBlockState m r)" "content_ok (updateRedoTopBlockState m r)"
proof -
  have top: "record_ok (copyBlockState x r) = record_ok x" "record_ok (x\<lparr>ur_changeSet := cs\<rparr>) = record_ok x" for x
    by (simp_all add: record_ok_def copyBlockState_def)
  have l: "undoStack m \<noteq> [] \<Longrightarrow> record_ok (last (undoStack m))" "redoStack m \<noteq> [] \<Longrightarrow> record_ok (last (redoStack m))"
    using assms by (auto simp: content_ok_def list_all_iff)
  show "content_ok (popUndoSnapshot m)" "content_ok (updateUndoTopChangeSet m cs)"
    "content_ok (updateUndoTopBlockState m r)" "content_ok (updateRedoTopBlockState m r)"
    using assms l by (auto simp: content_ok_def popUndoSnapshot_def updateUndoTopBlockState_def updateUndoTopChangeSet_def
        updateRedoTopBlockState_def top records_ok)
qed

lemma push_document [simp]: "document (editor_pushUndoSnapshot m block) = document m"
  by (simp add: editor_pushUndoSnapshot_def pushUndoSnapshot_def Let_def)

text \<open>Pushing and popping a record, with the document kept, leaves all but the redo records as they were.\<close>

lemma push_pop: "popUndoSnapshot (editor_pushUndoSnapshot m block) = m\<lparr>redoStack := []\<rparr>"
  by (simp add: popUndoSnapshot_def editor_pushUndoSnapshot_def pushUndoSnapshot_def Let_def)

lemma editor_history_ok:
  assumes "buffer_ok m"
  shows "buffer_ok (editor_undo m block)" "buffer_ok (editor_redo m block)" "buffer_ok (fst (editor_revertUndoSuffix m depth))"
proof -
  note ok = undo_refines(2) [OF assms] redo_refines(2) [OF assms] revert_refines(2) [OF assms, of depth]
  obtain mu ru mr rr mv rv where e: "undo m = (mu, ru)" "redo m = (mr, rr)" "revertUndoSuffix m depth = (mv, rv)" by (metis surj_pair)
  note c = ok [unfolded e fst_conv, THEN buffer_content]
  show "buffer_ok (editor_undo m block)" "buffer_ok (editor_redo m block)" "buffer_ok (fst (editor_revertUndoSuffix m depth))"
    using ok e c by (auto simp: editor_undo_def editor_redo_def editor_revertUndoSuffix_def Let_def
        intro!: adopt_ok sync_ok content_records split: option.splits)
qed

lemma loadMappedFileFd_ok:
  assumes "mmap_sound os" "\<And>bytes. fd_bytes os fd bytes \<Longrightarrow> length bytes < size_max"
    and "loadMappedFileFd os d fd path = (True, err, d')"
  shows "doc_ok d'" "index_ok d'"
proof -
  obtain e src where o: "openReadOnlyFd os None fd path = (True, e, src)" "d' = initializeFromMappedSource d src True"
    using assms(3) by (auto simp: loadMappedFileFd_def split: prod.splits if_splits)
  from openReadOnlyFd_bytes [OF assms(1), of fd None path] assms(2) o
  have "MappedFileSource_size src < size_max" by auto
  with initializeFromMappedSource_spec [OF _ _ this refl] openReadOnlyFd_ok [OF assms(1) o(1)] o(2)
  show "doc_ok d'" "index_ok d'" by auto
qed

lemma openMapped_ok:
  assumes "mmap_sound os" "\<And>fd bytes. fd_bytes os fd bytes \<Longrightarrow> length bytes < size_max"
    and "openMappedDocument os broker n path = Some d"
  shows "doc_ok d" "index_ok d"
proof -
  obtain ok err d1 where l: "loadMappedFile os (newTextDocument n) path = (ok, err, d1)" by (metis prod_cases3)
  have "doc_ok d \<and> index_ok d"
  proof (cases ok)
    case True
    with l assms(3) have "d = d1" by (simp add: openMappedDocument_def)
    with loadMappedFile_spec [OF assms(1) l] True assms(2) show ?thesis by (auto simp: file_bytes_def)
  next
    case False
    then obtain fd err' where "loadMappedFileFd os d1 fd path = (True, err', d)"
      using l assms(3) by (auto simp: openMappedDocument_def Let_def split: option.splits if_splits prod.splits)
    with loadMappedFileFd_ok [of os fd d1 path err' d] assms(1,2) show ?thesis by blast
  qed
  then show "doc_ok d" "index_ok d" by auto
qed

end
