(* ===== verification/Doc_Session.thy ===== *)
theory Doc_Session
  imports Editor_Commits
begin

text \<open>
  A document under edits, queries and background line-index jobs, as a step relation. A job works on
  a snapshot taken at some version; its result may come back after any number of edits and is
  offered with the version of its snapshot. As long as no step puts an old version back, every
  reachable document has an exact line index, whatever the interleaving.
\<close>

subsection \<open>Edits drop the scan ledger\<close>

abbreviation pending :: "TextDocument \<Rightarrow> LineIndexScanPacket list" where
  "pending \<equiv> mPendingLineIndexScanPackets"

lemma tail_ledger:
  "\<not> Range_empty rng \<Longrightarrow> range_start rng \<le> range_end rng \<Longrightarrow> pending (erase_tail d pr rng) = []"
  "0 < span_length sp \<Longrightarrow> pending (insert_tail d p sp) = []"
  by (auto simp: erase_tail_def insert_tail_def Let_def markDirty_def shiftIndexForErase_def shiftIndexForInsert_def
      invalidateIndexFrom_def clearLineIndexScanLedger_def Range_length_def Range_empty_def)

lemma erase_ledger:
  assumes "doc_ok d" "eraseNoVersionBump d rng = (d', b)"
  shows "if b then pending d' = [] else d' = d"
proof (cases "Range_empty (Range_clamped rng (mLength d))")
  case True
  with assms(2) show ?thesis by (simp add: eraseNoVersionBump_def)
next
  case False
  then obtain d2 where "eraseNoVersionBump d rng
      = (erase_tail d2 (preservesLazyIndex d (Range_clamped rng (mLength d))) (Range_clamped rng (mLength d)), True)"
    using eraseNoVersionBump_tail [OF assms(1) refl] by metis
  with assms(2) tail_ledger(1) [OF False] Range_clamped_le [of rng "mLength d"] show ?thesis by auto
qed

lemma append_ledger:
  assumes "doc_ok d" "t \<noteq> []" "length (doc_text d) + length t < size_max" "appendAndInsert d off t = (d', b)"
  shows "b \<and> pending d' = []"
proof -
  obtain d2 where "appendAndInsert d off t = (insert_tail d2 (min off (mLength d)) (mkSpan (length (doc_add d)) (length t)), True)"
    using appendAndInsert_tail [OF assms(1-3) refl refl] by metis
  with assms(2,4) tail_ledger(2) [of "mkSpan (length (doc_add d)) (length t)"] show ?thesis by (auto simp: mkSpan_def)
qed

lemma setText_ledger:
  "setTextNoVersionBump d t = (d', b) \<Longrightarrow> if b then pending d' = [] else pending d' = pending d"
  by (auto simp: setTextNoVersionBump_def TextDocument_text_def ensureMaterialized_def initializeFromOriginal_def
      TextDocument_resetLazyLineIndex_def clearLineIndexScanLedger_def Let_def split: if_splits)

lemma operation_ledger:
  assumes "doc_ok d" "length (doc_text d) + length (op_text op) < size_max" "applyOperationNoVersionBump d op = (d', b)"
  shows "if b then pending d' = [] else pending d' = pending d"
proof (cases "op_kind op")
  case Replace
  obtain d1 b1 where e: "eraseNoVersionBump d (Range_clamped (op_range op) (mLength d)) = (d1, b1)" by (metis surj_pair)
  obtain d2 b2 where i: "appendAndInsert d1 (range_start (Range_clamped (op_range op) (mLength d))) (op_text op) = (d2, b2)"
    by (metis surj_pair)
  note es = eraseNoVersionBump_spec [OF assms(1) e]
  have "length (doc_text d1) + length (op_text op) < size_max"
    using assms(2) es(2) length_clamped_erase [of "doc_text d" "Range_clamped (op_range op) (mLength d)"] by simp
  with assms(3) Replace e i erase_ledger [OF assms(1) e] append_ledger [OF es(1) _ _ i] show ?thesis
    by (auto simp: applyOperationNoVersionBump_def replaceNoVersionBump_def Let_def split: if_splits)
next
  case Erase
  with assms erase_ledger [OF assms(1), of "op_range op" d' b] show ?thesis by (auto simp: applyOperationNoVersionBump_def)
next
  case SetText
  with assms setText_ledger [of d "op_text op" d' b] show ?thesis by (auto simp: applyOperationNoVersionBump_def)
next
  case Insert
  with assms append_ledger [OF assms(1) _ assms(2), of "range_start (op_range op)" d' b] show ?thesis
    by (auto simp: applyOperationNoVersionBump_def split: if_splits)
qed

lemma loop_ledger:
  "doc_ok d \<Longrightarrow> length (doc_text d) + sum_list (map (\<lambda>op. length (op_text op)) ops) < size_max \<Longrightarrow>
   applyOperations_loop applyOperationNoVersionBump d m ops = (d', b) \<Longrightarrow> (m \<longrightarrow> pending d = []) \<Longrightarrow>
   (m \<longrightarrow> b) \<and> (if b then pending d' = [] else pending d' = pending d)"
proof (induction ops arbitrary: d m)
  case (Cons op ops)
  obtain d1 b1 where s: "applyOperationNoVersionBump d op = (d1, b1)" by (metis surj_pair)
  with Cons.prems(3) have rest: "applyOperations_loop applyOperationNoVersionBump d1 (b1 \<or> m) ops = (d', b)" by simp
  have fit: "length (doc_text d) + length (op_text op) < size_max" using Cons.prems(2) by simp
  note ok = applyOperation_ok(1) [OF Cons.prems(1) fit s]
  have "length (doc_text d1) + sum_list (map (\<lambda>op. length (op_text op)) ops) < size_max"
    using Cons.prems(2) ok op_spec_length [of op "doc_text d"] by simp
  with operation_ledger [OF Cons.prems(1) fit s] Cons.prems(4) Cons.IH [OF _ _ rest] ok show ?case by (cases b1) auto
qed auto

text \<open>
  What every editing call keeps: the document stays well formed with an exact index and sound packets,
  and the version counts the changes of the text.
\<close>

definition kept :: "TextDocument \<Rightarrow> TextDocument \<Rightarrow> bool" where
  "kept d d' \<longleftrightarrow> doc_ok d' \<and> index_ok d' \<and> ledger_ok d'
     \<and> (mVersion d' = mVersion d \<and> doc_text d' = doc_text d \<or> mVersion d' = mVersion d + 1)"

definition live :: "TextDocument \<Rightarrow> bool" where
  "live d \<longleftrightarrow> doc_ok d \<and> index_ok d \<and> ledger_ok d \<and> mVersion d < size_max"

lemma kept_refl: "doc_ok d \<Longrightarrow> index_ok d \<Longrightarrow> ledger_ok d \<Longrightarrow> kept d d"
  by (simp add: kept_def)

text \<open>A call that reports whether it changed the text, with the bump of the version that follows it.\<close>

lemma kept_bumpIf:
  assumes "live d" "doc_ok d'" "index_ok d'" "mVersion d' = mVersion d" "b \<or> doc_text d' = doc_text d"
    and "if b then pending d' = [] else pending d' = pending d"
  shows "kept d (bumpIf (d', b))"
proof -
  have "pending (bumpVersion d') = pending d'" by (simp add: bumpVersion_def)
  with assms show ?thesis by (auto simp: kept_def live_def bumpIf_def ledger_ok_def bumpVersion_version frame_simps split: if_splits)
qed

lemma kept_operation:
  assumes "live d" "length (doc_text d) + length (op_text op) < size_max" "op_safe op (doc_text d)"
  shows "kept d (bumpIf (applyOperationNoVersionBump d op))"
proof -
  obtain d' b where s: "applyOperationNoVersionBump d op = (d', b)" by (metis surj_pair)
  have d: "doc_ok d" "index_ok d" using assms(1) by (auto simp: live_def)
  from applyOperation_ok(1) [OF d(1) assms(2) s] applyOperation_ok(2) [OF d(1) assms(2) s d(2) assms(3)]
    operation_ledger [OF d(1) assms(2) s] show ?thesis unfolding s by (intro kept_bumpIf [OF assms(1)]) auto
qed

lemma kept_calls:
  assumes "live d"
  shows "length t < size_max \<Longrightarrow> kept d (TextDocument_setText d t)"
    "length (doc_text d) + length t < size_max \<Longrightarrow> insert_safe (doc_text d) (min p (length (doc_text d))) t \<Longrightarrow> kept d (TextDocument_insert d p t)"
    "clamped_erase_safe (doc_text d) rng \<Longrightarrow> kept d (TextDocument_erase d rng)"
    "length (doc_text d) + length t < size_max \<Longrightarrow> clamped_replace_safe (doc_text d) rng t \<Longrightarrow> kept d (TextDocument_replace d rng t)"
proof -
  have d: "doc_ok d" "index_ok d" "ledger_ok d" "length (doc_text d) < size_max" using assms by (auto simp: live_def doc_ok_def)
  show "kept d (TextDocument_setText d t)" if "length t < size_max"
  proof -
    obtain d' b where s: "setTextNoVersionBump d t = (d', b)" by (metis surj_pair)
    from setTextNoVersionBump_spec [OF d(1) that s] setText_ledger [OF s] d(2) show ?thesis
      unfolding TextDocument_setText_def s by (intro kept_bumpIf [OF assms]) auto
  qed
  show "kept d (TextDocument_insert d p t)"
    if "length (doc_text d) + length t < size_max" "insert_safe (doc_text d) (min p (length (doc_text d))) t"
    using kept_operation [OF assms, of "\<lparr>op_kind = EditKind.Insert, op_range = mkRange p p, op_text = t\<rparr>"] that kept_refl [OF d(1-3)]
    by (simp add: TextDocument_insert_def applyOperationNoVersionBump_def op_safe_def mkRange_def bumpIf_def split: if_splits)
  show "kept d (TextDocument_erase d rng)" if "clamped_erase_safe (doc_text d) rng"
    using kept_operation [OF assms, of "\<lparr>op_kind = EditKind.Erase, op_range = rng, op_text = []\<rparr>"] that d(4)
    by (simp add: TextDocument_erase_def applyOperationNoVersionBump_def op_safe_def)
  show "kept d (TextDocument_replace d rng t)"
    if "length (doc_text d) + length t < size_max" "clamped_replace_safe (doc_text d) rng t"
    using kept_operation [OF assms, of "\<lparr>op_kind = EditKind.Replace, op_range = rng, op_text = t\<rparr>"] that
    by (simp add: TextDocument_replace_def applyOperationNoVersionBump_def op_safe_def)
qed

text \<open>The text an edit may add keeps offsets below the \<open>size_t\<close> sentinel.\<close>

definition ops_fit :: "TextDocument \<Rightarrow> EditOperation list \<Rightarrow> bool" where
  "ops_fit d ops \<longleftrightarrow> length (doc_text d) + sum_list (map (\<lambda>op. length (op_text op)) ops) < size_max"

lemma kept_apply:
  assumes "live d" "ops_fit d (et_operations tr)" "plain.run_safe (et_operations tr) (doc_text d)"
  shows "kept d (TextDocument_apply d tr)"
proof -
  obtain d' b where l: "applyOperations_loop applyOperationNoVersionBump d False (et_operations tr) = (d', b)" by (metis surj_pair)
  have d: "doc_ok d" "index_ok d" "ledger_ok d" using assms(1) by (auto simp: live_def)
  note fit = assms(2) [unfolded ops_fit_def]
  from plain.loop_ok [OF d(1) fit l] loop_ledger [OF d(1) fit l] d(2) assms(3) show ?thesis
    unfolding TextDocument_apply_def l by (intro kept_bumpIf [OF assms(1)]) auto
qed

lemma kept_commit:
  assumes "live d" "ops_fit d (et_operations tr)" "plain.run_safe (et_operations tr) (doc_text d)" "tryApply d tr expected = (d', r)"
  shows "kept d d'"
proof (cases "expected = mVersion d")
  case False
  with plain.commit_conflict [of expected d "et_operations tr"] assms(1,4) show ?thesis by (simp add: tryApply_def kept_def live_def)
next
  case True
  then have "d' = TextDocument_apply d tr" using assms(4)
    by (auto simp: tryApply_def commit_operations_def matchesVersion_def TextDocument_apply_def bumpIf_def Let_def split: prod.splits if_splits)
  with kept_apply [OF assms(1-3)] show ?thesis by simp
qed

lemma kept_staged:
  assumes "live d" "staged_matches st tr" "ops_fit d (et_operations tr)" "plain.run_safe (et_operations tr) (doc_text d)"
    "tryApplyStaged d st = (d', r)"
  shows "kept d d'"
proof -
  have "tryApplyStaged d st = tryApply d tr (st_baseVersion st)"
    using assms(2) by (intro staged_commit) (auto simp: staged_matches_def)
  with kept_commit [OF assms(1,3,4)] assms(5) show ?thesis by metis
qed

text \<open>A text put in whole, by replacements, a projection or a mapped file, starts over with index and ledger.\<close>

lemma kept_adopt:
  assumes "live d" "length t < size_max" shows "kept d (adoptText d t)"
proof -
  have "pending (adoptText d t) = []"
    by (simp add: adoptText_def Let_def TextDocument_resetLazyLineIndex_def clearLineIndexScanLedger_def bumpVersion_def)
  with adoptText_spec [OF assms(2), of d] assms(1) show ?thesis by (simp add: kept_def ledger_ok_def live_def)
qed

lemma replacements_doc:
  assumes "doc_ok d" "length (replace_ranges (doc_text d) t 0 rngs) < size_max" "tryApplyReplacements d rngs t expected = (d', r)"
  shows "if status r = Applied then d' = adoptText d (replace_ranges (doc_text d) t 0 rngs) else d' = d"
proof (cases "expected = mVersion d \<and> rngs \<noteq> [] \<and> (\<exists>n. checkReplacements_loop (mLength d) (length t) rngs (mLength d) 0 False = Some (n, True))")
  case True
  then obtain n where "expected = mVersion d" "rngs \<noteq> []"
    "checkReplacements_loop (mLength d) (length t) rngs (mLength d) 0 False = Some (n, True)" by blast
  from tryApplyReplacements_applied [OF assms(1) this assms(2)] assms(3) show ?thesis by simp
next
  case False
  then have "d' = d \<and> status r \<noteq> Applied" using assms(3)
    by (auto simp: tryApplyReplacements_def mkCommitResult_def matchesVersion_def Let_def split: if_splits option.splits prod.splits)
  then show ?thesis by simp
qed

lemma kept_replacements:
  assumes "live d" "length (replace_ranges (doc_text d) t 0 rngs) < size_max" "tryApplyReplacements d rngs t expected = (d', r)"
  shows "kept d d'"
  using replacements_doc [OF _ assms(2,3)] kept_adopt [OF assms(1,2)] assms(1) kept_refl [of d] by (auto simp: live_def split: if_splits)

lemma kept_projection:
  assumes "live d" "case t of None \<Rightarrow> True | Some s \<Rightarrow> length s < size_max" "adoptReadOnlyProjectionText d t expectedId expected = (d', r)"
  shows "kept d d'"
  using assms kept_adopt [OF assms(1)] kept_refl [of d]
  by (auto simp: adoptReadOnlyProjectionText_def live_def Let_def split: option.splits if_splits)

lemma kept_load:
  assumes "live d" "mmap_sound os" "\<And>bytes. file_bytes os path bytes \<Longrightarrow> length bytes < size_max" "loadMappedFile os d path = (ok, err, d')"
  shows "kept d d'"
proof -
  have "pending d' = [] \<or> d' = d" using assms(4)
    by (auto simp: loadMappedFile_def initializeFromMappedSource_def Let_def TextDocument_resetLazyLineIndex_def
        clearLineIndexScanLedger_def bumpVersion_def split: prod.splits if_splits)
  with loadMappedFile_spec [OF assms(2,4)] assms(1,3) show ?thesis by (auto simp: kept_def live_def ledger_ok_def)
qed

text \<open>A restore also drops the ledger, or leaves the text.\<close>

lemma restore_ledger:
  assumes "doc_ok d" "index_ok d" "ledger_ok d" "snap_ok r" shows "ledger_ok (restoreFromSnapshot d r)"
proof (cases "ReadSnapshot_empty r \<and> rs_length r = 0")
  case True
  obtain d' b where s: "setTextNoVersionBump d [] = (d', b)" by (metis surj_pair)
  have "length [] < size_max" by (simp add: size_max_def)
  from setTextNoVersionBump_spec(2,3) [OF assms(1) this s] setText_ledger [OF s] assms(3) True s show ?thesis
    by (auto simp: restoreFromSnapshot_def ledger_ok_def split: if_splits)
next
  case False
  then have "pending (restoreFromSnapshot d r) = []"
    by (auto simp: restoreFromSnapshot_def initializeFromOriginal_def TextDocument_resetLazyLineIndex_def clearLineIndexScanLedger_def Let_def)
  then show ?thesis by (simp add: ledger_ok_def)
qed

subsection \<open>The session\<close>

text \<open>
  A session has the document, the snapshots that background jobs work on and those the undo history
  keeps. The version of a document counts up with every change of its text, but a restore puts an old
  one back; a job that is still out must then be of an older version, or of this version and this text
  (\<open>job_current\<close>). The source does not check that: \<open>version_reused\<close> in \<open>Findings\<close> shows what happens
  otherwise.
\<close>

record Session =
  ss_doc :: TextDocument
  ss_jobs :: "ReadSnapshot list"
  ss_saved :: "ReadSnapshot list"

definition job_current :: "TextDocument \<Rightarrow> ReadSnapshot \<Rightarrow> bool" where
  "job_current d r \<longleftrightarrow> rs_version r \<le> mVersion d \<and> (rs_version r = mVersion d \<longrightarrow> snap_text_of r = doc_text d)"

inductive session_edit :: "TextDocument \<Rightarrow> TextDocument \<Rightarrow> bool" where
  commit: "ops_fit d (et_operations tr) \<Longrightarrow> plain.run_safe (et_operations tr) (doc_text d) \<Longrightarrow>
           tryApply d tr expected = (d', r) \<Longrightarrow> session_edit d d'"
| staged: "staged_matches st tr \<Longrightarrow> ops_fit d (et_operations tr) \<Longrightarrow> plain.run_safe (et_operations tr) (doc_text d) \<Longrightarrow>
           tryApplyStaged d st = (d', r) \<Longrightarrow> session_edit d d'"
| run: "ops_fit d (et_operations tr) \<Longrightarrow> plain.run_safe (et_operations tr) (doc_text d) \<Longrightarrow>
        session_edit d (TextDocument_apply d tr)"
| setText: "length t < size_max \<Longrightarrow> session_edit d (TextDocument_setText d t)"
| insert: "length (doc_text d) + length t < size_max \<Longrightarrow> insert_safe (doc_text d) (min p (length (doc_text d))) t \<Longrightarrow>
           session_edit d (TextDocument_insert d p t)"
| erase: "clamped_erase_safe (doc_text d) rng \<Longrightarrow> session_edit d (TextDocument_erase d rng)"
| replace: "length (doc_text d) + length t < size_max \<Longrightarrow> clamped_replace_safe (doc_text d) rng t \<Longrightarrow>
            session_edit d (TextDocument_replace d rng t)"
| replacements: "length (replace_ranges (doc_text d) t 0 rngs) < size_max \<Longrightarrow>
                 tryApplyReplacements d rngs t expected = (d', r) \<Longrightarrow> session_edit d d'"
| projection: "(case t of None \<Rightarrow> True | Some s \<Rightarrow> length s < size_max) \<Longrightarrow>
               adoptReadOnlyProjectionText d t expectedId expected = (d', r) \<Longrightarrow> session_edit d d'"
| load: "mmap_sound os \<Longrightarrow> (\<And>bytes. file_bytes os path bytes \<Longrightarrow> length bytes < size_max) \<Longrightarrow>
         loadMappedFile os d path = (ok, err, d') \<Longrightarrow> session_edit d d'"

lemma session_edit_kept: "session_edit d d' \<Longrightarrow> live d \<Longrightarrow> kept d d'"
  by (induction rule: session_edit.induct)
    (auto intro: kept_commit kept_staged kept_apply kept_calls kept_replacements kept_projection kept_load)

inductive session_step :: "Session \<Rightarrow> Session \<Rightarrow> bool" where
  edit: "session_edit (ss_doc s) d' \<Longrightarrow> mVersion (ss_doc s) < size_max \<Longrightarrow> session_step s (s\<lparr>ss_doc := d'\<rparr>)"
| save: "session_step s (s\<lparr>ss_saved := compactLineIndexForUndo (readSnapshot (ss_doc s)) focus # ss_saved s\<rparr>)"
| restore: "r \<in> set (ss_saved s) \<Longrightarrow> list_all (job_current (restoreFromSnapshot (ss_doc s) r)) (ss_jobs s) \<Longrightarrow>
            session_step s (s\<lparr>ss_doc := restoreFromSnapshot (ss_doc s) r\<rparr>)"
| spawn: "session_step s (s\<lparr>ss_jobs := readSnapshot (ss_doc s) # ss_jobs s\<rparr>)"
| finish: "set jobs \<subseteq> set (ss_jobs s) \<Longrightarrow> session_step s (s\<lparr>ss_jobs := jobs\<rparr>)"
| warm: "r \<in> set (ss_jobs s) \<Longrightarrow> warmLineIndexChunk r w n cancel = (r', w', True) \<Longrightarrow>
         adoptLineIndexWarmup (ss_doc s) w' (rs_version r) = (d', b) \<Longrightarrow>
         session_step s (s\<lparr>ss_doc := d', ss_jobs := r' # ss_jobs s\<rparr>)"
| scan: "r \<in> set (ss_jobs s) \<Longrightarrow> scanLineIndexSpan r rid x y cancel = (p, True) \<Longrightarrow>
         adoptLineIndexScanPacket (ss_doc s) p (rs_version r) = (d', b) \<Longrightarrow> session_step s (s\<lparr>ss_doc := d'\<rparr>)"
| reserve: "reserveLineIndexScanSpans (ss_doc s) focus n target = (d', new) \<Longrightarrow> session_step s (s\<lparr>ss_doc := d'\<rparr>)"
| release: "session_step s (s\<lparr>ss_doc := releaseLineIndexScanReservation (ss_doc s) rid\<rparr>)"
| count: "session_step s (s\<lparr>ss_doc := fst (TextDocument_lineCount (ss_doc s))\<rparr>)"
| index: "session_step s (s\<lparr>ss_doc := fst (TextDocument_lineIndex (ss_doc s) pos)\<rparr>)"
| read: "session_step s (s\<lparr>ss_doc := fst (TextDocument_text (ss_doc s))\<rparr>)"

inductive_cases session_stepE: "session_step s s'"

inductive session_reachable :: "Session \<Rightarrow> bool" where
  start: "length t < size_max \<Longrightarrow> session_reachable \<lparr>ss_doc = newTextDocumentFrom n t, ss_jobs = [], ss_saved = []\<rparr>"
| step: "session_reachable s \<Longrightarrow> session_step s s' \<Longrightarrow> session_reachable s'"

text \<open>The other queries leave the document alone, or do to it what \<open>lineIndex\<close> does.\<close>

lemma td_query_unchanged: "index_ok d \<Longrightarrow> fst (f (mLazyIndex d)) = mLazyIndex d \<Longrightarrow> fst (td_query d f) = d"
  by (auto simp: td_query_def index_ok_def lazy_ok_def split: prod.splits)

lemma td_query_cong: "fst (f (mLazyIndex d)) = fst (g (mLazyIndex d)) \<Longrightarrow> fst (td_query d f) = fst (td_query d g)"
  by (cases "f (mLazyIndex d)"; cases "g (mLazyIndex d)") (simp add: td_query_def)

lemma other_queries:
  assumes "index_ok d"
  shows "fst (TextDocument_lineStartByIndex ld d i) = d" "fst (TextDocument_lineStartByIndexKnown d i) = d"
    "fst (TextDocument_estimatedLineCount ld d) = d"
    "fst (TextDocument_estimatedLineIndex ld d pos) \<in> {d, fst (TextDocument_lineIndex d (min pos (mLength d)))}"
proof -
  have lz: "lazy_ok (doc_text d) (mLazyIndex d)" using assms by (simp add: index_ok_def)
  show "fst (TextDocument_lineStartByIndex ld d i) = d" "fst (TextDocument_lineStartByIndexKnown d i) = d"
    "fst (TextDocument_estimatedLineCount ld d) = d"
    unfolding TextDocument_lineStartByIndex_def TextDocument_lineStartByIndexKnown_def TextDocument_estimatedLineCount_def
    using lz by (intro td_query_unchanged [OF assms]; simp add: lineStartByIndexKnown_def estimatedLineCount_def Let_def)+
  have "fst (estimatedLineIndex ld (doc_source d) (mEditedLineStarts d) (mLazyIndex d) pos)
      \<in> {mLazyIndex d, fst (lineIndex (doc_source d) (mEditedLineStarts d) (mLazyIndex d) (min pos (mLength d)))}"
    using lz by (auto simp: estimatedLineIndex_def estimatedLineCount_def doc_source_def doc_view_def Let_def)
  then show "fst (TextDocument_estimatedLineIndex ld d pos) \<in> {d, fst (TextDocument_lineIndex d (min pos (mLength d)))}"
    using td_query_unchanged [OF assms] td_query_cong unfolding TextDocument_estimatedLineIndex_def TextDocument_lineIndex_def
    by (metis (no_types, lifting) insert_iff singletonD)
qed

text \<open>A job whose snapshot has the version of the document has its text.\<close>

definition job_ok :: "TextDocument \<Rightarrow> ReadSnapshot \<Rightarrow> bool" where
  "job_ok d r \<longleftrightarrow> snap_ok r \<and> job_current d r"

definition session_ok :: "Session \<Rightarrow> bool" where
  "session_ok s \<longleftrightarrow> doc_ok (ss_doc s) \<and> index_ok (ss_doc s) \<and> ledger_ok (ss_doc s)
     \<and> list_all (job_ok (ss_doc s)) (ss_jobs s) \<and> list_all snap_ok (ss_saved s)"

lemma session_doc_update:
  assumes "session_ok s" "kept (ss_doc s) d'" "list_all (job_ok (ss_doc s)) jobs"
  shows "session_ok (s\<lparr>ss_doc := d', ss_jobs := jobs\<rparr>)" "session_ok (s\<lparr>ss_doc := d'\<rparr>)"
  using assms by (auto simp: session_ok_def job_ok_def job_current_def list_all_iff kept_def)

lemma ledger_only_ok:
  assumes "doc_ok d" "index_ok d" "ledger_ok d" "ledger_only d d'"
  shows "doc_ok d'" "index_ok d'" "ledger_ok d'" "mVersion d' = mVersion d \<and> doc_text d' = doc_text d"
proof -
  note fr = ledger_only_frame [OF assms(4)]
  have lz: "lazy_ok (doc_text d) (mLazyIndex d')" using assms(2) by (simp add: index_ok_def fr(4))
  note i = indexed_doc_ok [OF assms(1,2) fr(1,2,3,8,9,6) lz]
  show "doc_ok d'" "index_ok d'" "ledger_ok d'" "mVersion d' = mVersion d \<and> doc_text d' = doc_text d"
    using i assms(3) fr by (auto simp: ledger_ok_def)
qed

lemma query_ledger:
  assumes "index_ok d"
  shows "pending (fst (td_query d f)) = pending d" "mVersion (fst (td_query d f)) = mVersion d"
  using assms by (auto simp: td_query_def index_ok_def lazy_ok_def split: prod.splits)

lemma warm_version: "warmLineIndexChunk r w n cancel = (r', w', b) \<Longrightarrow> rs_version r' = rs_version r"
  by (auto simp: warmLineIndexChunk_def Let_def split: prod.splits if_splits)

lemma session_step_ok:
  assumes "session_step s s'" "session_ok s" shows "session_ok s'"
proof -
  have ok: "doc_ok (ss_doc s)" "index_ok (ss_doc s)" "ledger_ok (ss_doc s)" "list_all (job_ok (ss_doc s)) (ss_jobs s)"
    "list_all snap_ok (ss_saved s)"
    using assms(2) by (auto simp: session_ok_def)
  note upd = session_doc_update [OF assms(2) _ ok(4)]
  from assms(1) show ?thesis
  proof cases
    case (edit d')
    from session_edit_kept [OF edit(2)] edit(3) ok show ?thesis unfolding edit(1) by (intro upd) (simp add: live_def)
  next
    case (save focus)
    from compactLineIndexForUndo_ok(1) [OF readSnapshot_ok(1) [OF ok(1,2)]] ok show ?thesis unfolding save by (simp add: session_ok_def)
  next
    case (restore r)
    have r: "snap_ok r" using restore(2) ok(5) by (auto simp: list_all_iff)
    have "list_all (job_ok (restoreFromSnapshot (ss_doc s) r)) (ss_jobs s)"
      using restore(3) ok(4) by (auto simp: list_all_iff job_ok_def)
    with restoreFromSnapshot_ok(1,2) [OF ok(1,2) r] restore_ledger [OF ok(1-3) r] ok show ?thesis
      unfolding restore(1) by (simp add: session_ok_def)
  next
    case spawn
    from readSnapshot_ok [OF ok(1,2)] ok show ?thesis unfolding spawn by (simp add: session_ok_def job_ok_def job_current_def)
  next
    case (finish jobs)
    with ok show ?thesis by (auto simp: session_ok_def list_all_iff)
  next
    case (warm r w n cancel r' w' d' b)
    have j: "job_ok (ss_doc s) r" using warm(2) ok(4) by (auto simp: list_all_iff)
    have "snap_ok r" using j by (simp add: job_ok_def)
    note wk = warmLineIndexChunk_ok [OF this warm(3)]
    have "lazy_ok (doc_text (ss_doc s)) (warmup_index w')" if "rs_version r = mVersion (ss_doc s)"
      using wk(3) j that by (simp add: job_ok_def job_current_def)
    note a = adoptLineIndexWarmup_ok [OF ok(1,2) warm(4) this]
    have "pending d' = [] \<or> d' = ss_doc s" using warm(4)
      by (auto simp: adoptLineIndexWarmup_def clearLineIndexScanLedger_def Let_def split: if_splits)
    then have "ledger_ok d'" using ok(3) by (auto simp: ledger_ok_def)
    with a have "kept (ss_doc s) d'" by (simp add: kept_def)
    moreover have "list_all (job_ok (ss_doc s)) (r' # ss_jobs s)"
      using j wk(1,2) warm_version [OF warm(3)] ok(4) by (simp add: job_ok_def job_current_def)
    ultimately show ?thesis unfolding warm(1) by (rule session_doc_update(1) [OF assms(2)])
  next
    case (scan r rid x y cancel p d' b)
    have j: "job_ok (ss_doc s) r" using scan(2) ok(4) by (auto simp: list_all_iff)
    have "packet_ok (doc_text (ss_doc s)) p" if "rs_version r = mVersion (ss_doc s)"
      using scanLineIndexSpan_ok(1) [OF _ scan(3)] j that by (simp add: job_ok_def job_current_def)
    note a = adoptLineIndexScanPacket_ok [OF ok(1-3) scan(4) this]
    then show ?thesis unfolding scan(1) by (intro upd) (simp add: kept_def)
  next
    case (reserve focus n target d' new)
    from ledger_only_ok [OF ok(1-3) reserveLineIndexScanSpans_ok(2) [OF reserve(2)]] show ?thesis
      unfolding reserve(1) by (intro upd) (simp add: kept_def)
  next
    case (release rid)
    from ledger_only_ok [OF ok(1-3) releaseLineIndexScanReservation_only] show ?thesis unfolding release by (intro upd) (simp add: kept_def)
  next
    case count
    from TextDocument_lineCount_spec [OF ok(1,2)] ok(3)
      query_ledger [OF ok(2), of "lineCount (doc_source (ss_doc s)) (mEditedLineStarts (ss_doc s))"] show ?thesis
      unfolding count by (intro upd) (simp add: kept_def ledger_ok_def TextDocument_lineCount_def)
  next
    case (index pos)
    from TextDocument_lineIndex_spec [OF ok(1,2)] ok(3)
      query_ledger [OF ok(2), of "\<lambda>li. lineIndex (doc_source (ss_doc s)) (mEditedLineStarts (ss_doc s)) li pos"] show ?thesis
      unfolding index by (intro upd) (simp add: kept_def ledger_ok_def TextDocument_lineIndex_def)
  next
    case read
    have "pending (ensureMaterialized (ss_doc s)) = pending (ss_doc s)" by (simp add: ensureMaterialized_def)
    with ensureMaterialized_spec [OF ok(1)] ok(2,3) show ?thesis
      unfolding read by (intro upd) (simp add: kept_def ledger_ok_def index_ok_def TextDocument_text_def Let_def)
  qed
qed

lemma session_reachable_ok: "session_reachable s \<Longrightarrow> session_ok s"
proof (induction rule: session_reachable.induct)
  case (start t n)
  note i = initializeFromOriginal_spec [OF start, of "newTextDocument n" True]
  then show ?case
    by (simp add: session_ok_def newTextDocumentFrom_def ledger_ok_def)
      (simp add: initializeFromOriginal_def TextDocument_resetLazyLineIndex_def clearLineIndexScanLedger_def bumpVersion_def Let_def)
next
  case (step s s')
  then show ?case by (blast intro: session_step_ok)
qed

subsection \<open>The buffer as a state machine\<close>

inductive buffer_step :: "TextBuffer \<Rightarrow> TextBuffer \<Rightarrow> bool" where
  setText: "length t < size_max \<Longrightarrow> buffer_step m (Buffer_setText m t)"
| transact: "ops_fit (document m) (et_operations tr) \<Longrightarrow> buffer_step m (applyEditTransaction m tr)"
| commit: "ops_fit (document m) (et_operations tr) \<Longrightarrow> buffer_step m (fst (tryApplyEditTransaction m tr expected))"
| staged: "staged_matches st tr \<Longrightarrow> ops_fit (document m) (et_operations tr) \<Longrightarrow> buffer_step m (fst (tryApplyStagedTransaction m st))"
| project: "(\<forall>s. t = Some s \<longrightarrow> length s < size_max) \<Longrightarrow>
            buffer_step m (fst (Buffer_adoptReadOnlyProjectionText m t expectedId expected))"
| warmup: "buffer_step m (fst (Buffer_adoptLineIndexWarmup m w expected))"
| reserve: "buffer_step m (fst (Buffer_reserveLineIndexScanSpans m focus n target))"
| release: "buffer_step m (Buffer_releaseLineIndexScanReservation m rid)"
| packet: "buffer_step m (fst (Buffer_adoptLineIndexScanPacket m p expected))"
| cursor: "buffer_step m (setCursor m pos)"
| selection: "buffer_step m (setSelection m a b)"
| cursorSelection: "buffer_step m (setCursorAndSelection m pos a b)"
| modified: "buffer_step m (setModified m flag)"
| saved: "buffer_step m (markSaved m)"
| clear: "buffer_step m (clearUndoRedo m)"
| push: "buffer_step m (editor_pushUndoSnapshot m block)"
| pop: "buffer_step m (popUndoSnapshot m)"
| undoBlock: "buffer_step m (updateUndoTopBlockState m r)"
| undoChange: "buffer_step m (updateUndoTopChangeSet m c)"
| redoBlock: "buffer_step m (updateRedoTopBlockState m r)"
| revert: "buffer_step m (fst (revertUndoSuffix m depth))"
| undo: "buffer_step m (fst (undo m))"
| redo: "buffer_step m (fst (redo m))"
| sync: "buffer_step m (syncAfterCommittedDocument m pos a b flag)"
| adopt: "(case adopted of None \<Rightarrow> True | Some d \<Rightarrow> doc_ok d) \<Longrightarrow> buffer_step m (adoptCommittedDocument m adopted pos a b flag)"
| editorProject: "(\<forall>s. t = Some s \<longrightarrow> length s < size_max) \<Longrightarrow>
                  buffer_step m (fst (editor_adoptReadOnlyProjectionText m t expectedId expected))"
| editorStaged: "staged_matches st tr \<Longrightarrow> ops_fit (document m) (et_operations tr) \<Longrightarrow>
                 buffer_step m (fst (editor_applyStagedTransaction m block st pos a b flag))"
| editorSelect: "length (doc_text (document m)) + length text < size_max \<Longrightarrow>
                 buffer_step m (fst (replaceRangeAndSelect readOnly m block a b text))"
| editorRanges: "(\<forall>t. data = Some t \<longrightarrow> length (replace_ranges (doc_text (document m)) t 0 rngs) < size_max) \<Longrightarrow>
                 buffer_step m (fst (replaceRangesAndCollapse readOnly m block rngs data))"
| editorUndo: "buffer_step m (editor_undo m block)"
| editorRedo: "buffer_step m (editor_redo m block)"
| editorRevert: "buffer_step m (fst (editor_revertUndoSuffix m depth))"
| load: "mmap_sound os \<Longrightarrow> (\<And>fd bytes. fd_bytes os fd bytes \<Longrightarrow> length bytes < size_max) \<Longrightarrow>
         openMappedDocument os broker n path = Some d \<Longrightarrow>
         buffer_step m (clearUndoRedo (adoptCommittedDocument m (Some d) 0 0 0 False))"

inductive buffer_reachable :: "TextBuffer \<Rightarrow> bool" where
  start: "buffer_reachable (newTextBuffer n)"
| step: "buffer_reachable m \<Longrightarrow> buffer_step m m' \<Longrightarrow> buffer_reachable m'"

lemma clampState_ok:
  "doc_ok (document m) \<Longrightarrow> list_all record_ok (undoStack m) \<Longrightarrow> list_all record_ok (redoStack m) \<Longrightarrow> buffer_ok (clampState m)"
  by (simp add: buffer_ok_def clampState_def Cursor_clamp_def Selection_clamp_def Let_def)

lemma buffer_clamped:
  assumes "buffer_ok m" "doc_ok d" shows "buffer_ok (clampState (m\<lparr>document := d, modified := b\<rparr>))" "buffer_ok (clampState (m\<lparr>document := d\<rparr>))"
  using assms by (auto simp: buffer_ok_def [of m] intro: clampState_ok)

lemma buffer_same_length:
  assumes "buffer_ok m" "doc_ok d" "mLength d = mLength (document m)" shows "buffer_ok (m\<lparr>document := d\<rparr>)"
  using assms by (simp add: buffer_ok_def)

lemma buffer_record_updates:
  assumes "buffer_ok m"
  shows "buffer_ok (popUndoSnapshot m)" "buffer_ok (updateUndoTopBlockState m r)" "buffer_ok (updateUndoTopChangeSet m c)"
    "buffer_ok (updateRedoTopBlockState m r)" "buffer_ok (clearUndoRedo m)"
proof -
  have top: "record_ok (copyBlockState x r) = record_ok x" "record_ok (x\<lparr>ur_changeSet := c\<rparr>) = record_ok x" for x
    by (simp_all add: record_ok_def copyBlockState_def)
  have us: "list_all record_ok (undoStack m)" "list_all record_ok (redoStack m)" using assms by (auto simp: buffer_ok_def)
  have l: "list_all record_ok (butlast (undoStack m))" "list_all record_ok (butlast (redoStack m))"
    "undoStack m \<noteq> [] \<Longrightarrow> record_ok (last (undoStack m))" "redoStack m \<noteq> [] \<Longrightarrow> record_ok (last (redoStack m))"
    using us by (auto simp: list_all_iff dest: in_set_butlastD)
  show "buffer_ok (popUndoSnapshot m)" "buffer_ok (updateUndoTopBlockState m r)" "buffer_ok (updateUndoTopChangeSet m c)"
    "buffer_ok (updateRedoTopBlockState m r)" "buffer_ok (clearUndoRedo m)"
    using assms l by (auto simp: buffer_ok_def popUndoSnapshot_def updateUndoTopBlockState_def updateUndoTopChangeSet_def
        updateRedoTopBlockState_def clearUndoRedo_def top)
qed

lemma index_only_doc_ok:
  assumes "doc_ok d" "same_buffers d d'" "mPieces d' = mPieces d" "mLength d' = mLength d" "mCacheDirty d' = mCacheDirty d"
    "mMaterializedText d' = mMaterializedText d"
  shows "doc_ok d' \<and> mLength d' = mLength d"
  using doc_ok_same [OF assms(2) td_pieces_eq [OF assms(3)] assms(4) _ assms(1)] assms by (auto simp: doc_ok_def)

lemma background_doc_ok:
  assumes "doc_ok d"
  shows "doc_ok (fst (adoptLineIndexWarmup d w e)) \<and> mLength (fst (adoptLineIndexWarmup d w e)) = mLength d"
    "doc_ok (fst (reserveLineIndexScanSpans d f n t)) \<and> mLength (fst (reserveLineIndexScanSpans d f n t)) = mLength d"
    "doc_ok (releaseLineIndexScanReservation d rid) \<and> mLength (releaseLineIndexScanReservation d rid) = mLength d"
    "doc_ok (fst (adoptLineIndexScanPacket d p e)) \<and> mLength (fst (adoptLineIndexScanPacket d p e)) = mLength d"
proof -
  show "doc_ok (fst (adoptLineIndexWarmup d w e)) \<and> mLength (fst (adoptLineIndexWarmup d w e)) = mLength d"
    by (rule index_only_doc_ok [OF assms]) (simp_all add: adoptLineIndexWarmup_def Let_def same_buffers_def)
  obtain d1 rs where r: "reserveLineIndexScanSpans d f n t = (d1, rs)" by (metis surj_pair)
  note fr = ledger_only_frame [OF reserveLineIndexScanSpans_ok(2) [OF r]]
  show "doc_ok (fst (reserveLineIndexScanSpans d f n t)) \<and> mLength (fst (reserveLineIndexScanSpans d f n t)) = mLength d"
    using index_only_doc_ok [OF assms fr(1,2,3,8,9)] by (simp add: r)
  note fl = ledger_only_frame [OF releaseLineIndexScanReservation_only, of d]
  show "doc_ok (releaseLineIndexScanReservation d rid) \<and> mLength (releaseLineIndexScanReservation d rid) = mLength d"
    by (rule index_only_doc_ok [OF assms fl(1,2,3,8,9)])
  show "doc_ok (fst (adoptLineIndexScanPacket d p e)) \<and> mLength (fst (adoptLineIndexScanPacket d p e)) = mLength d"
    by (rule index_only_doc_ok [OF assms]) (use fl in \<open>auto simp: adoptLineIndexScanPacket_def Let_def same_buffers_def
        split: option.split prod.split\<close>)
qed

lemma commit_doc_ok:
  assumes "doc_ok d" "ops_fit d (et_operations tr)"
  shows "doc_ok (fst (tryApply d tr e))" "status (snd (tryApply d tr e)) \<noteq> Applied \<Longrightarrow> mLength (fst (tryApply d tr e)) = mLength d"
proof -
  obtain d' r where c: "tryApply d tr e = (d', r)" by (metis surj_pair)
  have "doc_ok d' \<and> (status r \<noteq> Applied \<longrightarrow> mLength d' = mLength d)"
  proof (cases "e = mVersion d")
    case False
    with plain.commit_conflict [of e d "et_operations tr"] c assms(1) show ?thesis by (simp add: tryApply_def)
  next
    case True
    with plain.commit_ok [OF assms(1) _, of "et_operations tr" d' r] c assms
    show ?thesis by (auto simp: tryApply_def ops_fit_def doc_ok_def)
  qed
  with c show "doc_ok (fst (tryApply d tr e))" "status (snd (tryApply d tr e)) \<noteq> Applied \<Longrightarrow> mLength (fst (tryApply d tr e)) = mLength d" by auto
qed

lemma buffer_commit_ok:
  assumes "buffer_ok m" "doc_ok d'" "status r \<noteq> Applied \<Longrightarrow> mLength d' = mLength (document m)"
  shows "buffer_ok (if CommitResult_applied r then clampState (m\<lparr>document := d', modified := b\<rparr>) else m\<lparr>document := d'\<rparr>)"
  using buffer_clamped(1) [OF assms(1,2)] buffer_same_length [OF assms(1,2)] assms(3) by (simp add: CommitResult_applied_def)

lemma TextDocument_apply_ok:
  assumes "doc_ok d" "ops_fit d (et_operations tr)" shows "doc_ok (TextDocument_apply d tr)"
proof -
  obtain d1 b where l: "applyOperations_loop applyOperationNoVersionBump d False (et_operations tr) = (d1, b)" by (metis surj_pair)
  from plain.loop_ok [OF assms(1) _ l] assms(2) l show ?thesis by (simp add: TextDocument_apply_def bumpIf_def ops_fit_def)
qed

lemma buffer_staged_ok:
  assumes "buffer_ok m" "staged_matches st tr" "ops_fit (document m) (et_operations tr)"
  shows "buffer_ok (fst (tryApplyStagedTransaction m st))"
proof -
  have d: "doc_ok (document m)" using assms(1) by (simp add: buffer_ok_def)
  have eq: "tryApplyStaged (document m) st = tryApply (document m) tr (st_baseVersion st)"
    using assms(2) by (intro staged_commit) (auto simp: staged_matches_def)
  obtain d' r where c: "tryApply (document m) tr (st_baseVersion st) = (d', r)" by (metis surj_pair)
  from buffer_commit_ok [OF assms(1), of d' r True] commit_doc_ok [OF d assms(3), of "st_baseVersion st"] c eq show ?thesis
    by (simp add: tryApplyStagedTransaction_def Let_def)
qed

lemma buffer_project_ok:
  assumes "buffer_ok m" "\<forall>s. t = Some s \<longrightarrow> length s < size_max"
  shows "buffer_ok (fst (Buffer_adoptReadOnlyProjectionText m t expectedId expected))"
proof (cases "CommitResult_applied (snd (adoptReadOnlyProjectionText (document m) t expectedId expected))")
  case True
  then obtain s where s: "t = Some s" "fst (adoptReadOnlyProjectionText (document m) t expectedId expected) = adoptText (document m) s"
    by (auto simp: adoptReadOnlyProjectionText_def mkCommitResult_def CommitResult_applied_def Let_def split: option.splits if_splits)
  have "doc_ok (adoptText (document m) s)" using assms(2) s(1) by (simp add: adoptText_spec(1))
  then show ?thesis using True s(2)
    by (auto simp: Buffer_adoptReadOnlyProjectionText_def Let_def clearUndoRedo_def split: prod.splits intro: clampState_ok)
next
  case False
  then have "fst (adoptReadOnlyProjectionText (document m) t expectedId expected) = document m"
    by (auto simp: adoptReadOnlyProjectionText_def adoptedResult_def CommitResult_applied_def Let_def split: option.splits if_splits)
  with False assms(1) show ?thesis by (auto simp: Buffer_adoptReadOnlyProjectionText_def Let_def split: prod.splits)
qed

lemma editor_project_ok:
  assumes "buffer_ok m" "\<forall>s. t = Some s \<longrightarrow> length s < size_max"
  shows "buffer_ok (fst (editor_adoptReadOnlyProjectionText m t expectedId expected))"
  using buffer_project_ok [OF assms, of expectedId expected]
  by (auto simp: editor_adoptReadOnlyProjectionText_def split: prod.split intro!: sync_ok buffer_content)

text \<open>The edits of the editor push a record, and pop it when the commit does not apply.\<close>

lemma editor_staged_ok:
  assumes "buffer_ok m" "staged_matches st tr" "ops_fit (document m) (et_operations tr)"
  shows "buffer_ok (fst (editor_applyStagedTransaction m block st pos a b flag))"
proof -
  obtain m1 r where t: "tryApplyStagedTransaction (editor_pushUndoSnapshot m block) st = (m1, r)" by (metis surj_pair)
  have "buffer_ok m1"
    using buffer_staged_ok [OF editor_push_refines(2) [OF assms(1)] assms(2)] assms(3) t by (metis fst_conv push_document)
  with buffer_record_updates(1) [OF this] buffer_content [OF this] show ?thesis
    by (auto simp: editor_applyStagedTransaction_def t intro!: sync_ok content_records(2))
qed

lemma editor_select_ok:
  assumes "buffer_ok m" "length (doc_text (document m)) + length text < size_max"
  shows "buffer_ok (fst (replaceRangeAndSelect readOnly m block a b text))"
proof -
  let ?st = "\<lambda>rng. StagedEditTransaction_replace (StagedEditTransaction_fromSnapshot (readSnapshot (document m)) ''replace-range-select'') rng text"
  have "staged_matches (StagedEditTransaction_fromSnapshot (readSnapshot (document m)) ''replace-range-select'') (mkEditTransaction [])"
    by (simp add: staged_matches_def StagedEditTransaction_fromSnapshot_def mkStagedEditTransaction_def mkEditTransaction_def)
  from record_matches [OF this, of "ReqReplace rng text" for rng]
  have "staged_matches (?st rng) (EditTransaction_replace (mkEditTransaction []) rng text)" for rng by simp
  moreover have "ops_fit (document m) (et_operations (EditTransaction_replace (mkEditTransaction []) rng text))" for rng
    using assms(2) by (simp add: ops_fit_def EditTransaction_replace_def EditTransaction_push_def mkEditTransaction_def)
  ultimately have "buffer_ok (fst (editor_applyStagedTransaction m block (?st rng) pos a' b' True))" for rng pos a' b'
    by (rule editor_staged_ok [OF assms(1)])
  then show ?thesis using assms(1) by (auto simp: replaceRangeAndSelect_def Let_def split: prod.split) (metis fst_conv)+
qed

lemma editor_ranges_ok:
  assumes "buffer_ok m" "\<forall>t. data = Some t \<longrightarrow> length (replace_ranges (doc_text (document m)) t 0 rngs) < size_max"
  shows "buffer_ok (fst (replaceRangesAndCollapse readOnly m block rngs data))"
proof (cases "readOnly \<or> rngs = [] \<or> data = None")
  case True
  with assms(1) show ?thesis by (auto simp: replaceRangesAndCollapse_def split: option.split)
next
  case False
  then obtain t where t: "data = Some t" "\<not> readOnly" "rngs \<noteq> []" by auto
  let ?m = "editor_pushUndoSnapshot m block"
  have p: "buffer_ok ?m" by (rule editor_push_refines(2) [OF assms(1)])
  have fit: "length (replace_ranges (doc_text (document m)) t 0 rngs) < size_max" using assms(2) t by simp
  have d: "doc_ok (document m)" using assms(1) by (simp add: buffer_ok_def)
  obtain d' r where e: "tryApplyReplacements (document m) rngs t (mVersion (document m)) = (d', r)" by (metis surj_pair)
  note rd = replacements_doc [OF d fit e]
  have "content_ok (?m\<lparr>document := d'\<rparr>)" using p rd adoptText_spec(1) [OF fit] d
    by (auto simp: content_ok_def buffer_ok_def split: if_splits)
  moreover have "buffer_ok (?m\<lparr>document := d'\<rparr>)" if "status r \<noteq> Applied"
    using that rd p buffer_same_length [OF p, of "document ?m"] by (simp add: buffer_ok_def)
  ultimately show ?thesis using t e
    by (auto simp: replaceRangesAndCollapse_def Let_def CommitResult_applied_def
        intro!: sync_ok content_records(2) buffer_record_updates(1))
qed

lemma buffer_step_ok:
  assumes "buffer_step m m'" "buffer_ok m" shows "buffer_ok m'"
proof -
  have d: "doc_ok (document m)" using assms(2) by (simp add: buffer_ok_def)
  note bg = background_doc_ok [OF d]
  from assms(1) show ?thesis
  proof cases
    case (setText t)
    obtain d' b where st: "setTextNoVersionBump (document m) t = (d', b)" by (metis surj_pair)
    from setTextNoVersionBump_spec(1) [OF d setText(2) st] st buffer_clamped(2) [OF assms(2)] show ?thesis
      unfolding setText by (simp add: Buffer_setText_def TextDocument_setText_def bumpIf_def)
  next
    case (transact tr)
    from buffer_clamped(1) [OF assms(2) TextDocument_apply_ok [OF d transact(2)]] show ?thesis
      unfolding transact by (simp add: applyEditTransaction_def)
  next
    case (commit tr expected)
    obtain d' r where c: "tryApply (document m) tr expected = (d', r)" by (metis surj_pair)
    from buffer_commit_ok [OF assms(2), of d' r True] commit_doc_ok [OF d commit(2), of expected] c show ?thesis
      unfolding commit by (simp add: tryApplyEditTransaction_def Let_def)
  next
    case (staged st tr)
    from buffer_staged_ok [OF assms(2) staged(2,3)] show ?thesis unfolding staged(1) .
  next
    case (project t expectedId expected)
    from buffer_project_ok [OF assms(2) project(2)] show ?thesis unfolding project(1) .
  next
    case (warmup w expected)
    with bg(1) [of w expected] buffer_same_length [OF assms(2)] show ?thesis by (auto simp: Buffer_adoptLineIndexWarmup_def split: prod.splits)
  next
    case (reserve focus n target)
    with bg(2) [of focus n target] buffer_same_length [OF assms(2)] show ?thesis by (auto simp: Buffer_reserveLineIndexScanSpans_def split: prod.splits)
  next
    case (release rid)
    with bg(3) buffer_same_length [OF assms(2)] show ?thesis by (simp add: Buffer_releaseLineIndexScanReservation_def)
  next
    case (packet p expected)
    with bg(4) [of p expected] buffer_same_length [OF assms(2)] show ?thesis by (auto simp: Buffer_adoptLineIndexScanPacket_def split: prod.splits)
  next
    case saved
    with markSaved_refines(2) [OF assms(2)] show ?thesis by simp
  next
    case (push block)
    with editor_push_refines(2) [OF assms(2)] show ?thesis by simp
  next
    case (revert depth)
    with revert_refines(2) [OF assms(2)] show ?thesis by simp
  next
    case undo
    with undo_refines(2) [OF assms(2)] show ?thesis by simp
  next
    case redo
    with redo_refines(2) [OF assms(2)] show ?thesis by simp
  next
    case (editorStaged st tr block pos a b flag)
    from editor_staged_ok [OF assms(2) editorStaged(2,3)] show ?thesis unfolding editorStaged(1) .
  next
    case (load os broker n path d)
    from openMapped_ok(1) [OF load(2-4)] adopt_ok [OF buffer_content [OF assms(2)], of "Some d" 0 0 0 False] show ?thesis
      unfolding load(1) by (simp add: buffer_record_updates(5))
  next
    case (sync pos a b flag)
    show ?thesis unfolding sync by (rule sync_ok [OF buffer_content [OF assms(2)]])
  next
    case (adopt adopted pos a b flag)
    show ?thesis unfolding adopt(1) by (rule adopt_ok [OF buffer_content [OF assms(2)] adopt(2)])
  next
    case (editorProject t expectedId expected)
    from editor_project_ok [OF assms(2) editorProject(2)] show ?thesis unfolding editorProject(1) .
  next
    case (editorSelect t readOnly block a b)
    from editor_select_ok [OF assms(2) editorSelect(2)] show ?thesis unfolding editorSelect(1) .
  next
    case (editorRanges data rngs readOnly block)
    from editor_ranges_ok [OF assms(2) editorRanges(2)] show ?thesis unfolding editorRanges(1) .
  qed (use assms(2) buffer_record_updates [OF assms(2)] editor_history_ok [OF assms(2)] in \<open>auto simp: setCursorAndSelection_def
      setCursor_def setSelection_def setModified_def TextDocument_clampOffset_def buffer_ok_def\<close>)
qed

lemma newTextBuffer_ok: "buffer_ok (newTextBuffer n)"
  by (simp add: newTextBuffer_def newTextDocument_def buffer_ok_def doc_ok_def doc_text_def td_pieces_def pieces_text_def
      mapped_ok_def size_max_def)

lemma buffer_reachable_ok: "buffer_reachable m \<Longrightarrow> buffer_ok m"
  by (induction rule: buffer_reachable.induct) (auto intro: newTextBuffer_ok buffer_step_ok)

text \<open>Loading a mapped file in the editor is such a step, or none.\<close>

lemma editor_load_step:
  assumes "buffer_reachable m" "mmap_sound os" "\<And>fd bytes. fd_bytes os fd bytes \<Longrightarrow> length bytes < size_max"
  shows "buffer_reachable (fst (editor_loadMappedFile os ld broker n m path))"
proof (cases "openMappedDocument os broker n path")
  case None
  with assms(1) show ?thesis by (simp add: editor_loadMappedFile_def)
next
  case (Some d)
  have "fst (TextDocument_estimatedLineCount ld d) = d" by (rule other_queries(3) [OF openMapped_ok(2) [OF assms(2,3) Some]])
  with Some have "fst (editor_loadMappedFile os ld broker n m path) = clearUndoRedo (adoptCommittedDocument m (Some d) 0 0 0 False)"
    by (cases "TextDocument_estimatedLineCount ld d") (simp add: editor_loadMappedFile_def)
  with buffer_reachable.step [OF assms(1) buffer_step.load [OF assms(2,3) Some]] show ?thesis by simp
qed

end
