(* ===== verification/Findings.thy ===== *)
theory Findings
  imports Doc_Session
begin

text \<open>
  Behaviour the exactness results have to leave out, each shown on a small input: edits that join or
  split a CR LF pair leave a line index that does not describe the text, a restored snapshot brings an
  old version number back, and a failed commit drops the redo history.
\<close>

subsection \<open>Edits at a CR LF seam\<close>

lemma text_line_starts:
  "line_starts [CHR ''a'', CR, CHR ''b''] = [0, 2]" "line_starts [CHR ''a'', CR, LF, CHR ''b''] = [0, 3]"
  "line_count [CHR ''a'', CR, LF, CHR ''b''] = 2" "line_count [CHR ''a'', CR, CHR ''x'', LF, CHR ''b''] = 3"
  by (simp_all add: line_starts_def line_count_def breaks_before_def lb_end_def upt_rec)

text \<open>Inserting an LF behind a lone CR: the edited line-start index gets a line more than the text has.\<close>

theorem insert_joins_crlf:
  "updateEditedLineStartIndexForInsert src (Some (line_starts [CHR ''a'', CR, CHR ''b''])) 2 [LF] = Some [0, 2, 3]
   \<and> line_starts [CHR ''a'', CR, LF, CHR ''b''] = [0, 3]"
  unfolding text_line_starts
  by (simp add: updateEditedLineStartIndexForInsert_def hasEditedLineStartIndex_def appendLineStarts_spec upper_bound_def lb_end_def)

text \<open>Inserting plain text between CR and LF: a complete lazy index keeps its total, the text gains a line.\<close>

theorem insert_splits_crlf:
  assumes "lazy_ok [CHR ''a'', CR, LF, CHR ''b''] li" "mLazyLineIndexComplete li"
  shows "mLazyTotalLineCount (shiftLazyLineIndexForInsertWithoutLineBreak 5 li 2 1) = 2
    \<and> line_count [CHR ''a'', CR, CHR ''x'', LF, CHR ''b''] = 3"
  using assms text_line_starts(3,4)
  by (simp add: shiftLazyLineIndexForInsertWithoutLineBreak_def lazy_ok_def Let_def)

text \<open>Erasing what stands between CR and LF: the start behind the CR survives.\<close>

theorem erase_joins_crlf:
  "mLazyIndexedOffset (invalidateLazyLineIndexFrom 4
     \<lparr>mLineIndexCheckpoints = [mkCheckpoint 0 0, mkCheckpoint 2 1, mkCheckpoint 5 2], mLazyIndexedOffset = 6, mLazyIndexedLine = 2,
      mLazyLineIndexComplete = True, mLazyTotalLineCount = 3\<rparr> 2) = 2
   \<and> \<not> is_line_start [CHR ''a'', CR, LF, CHR ''b''] 2"
  by (simp add: invalidateLazyLineIndexFrom_def upper_bound_def mkCheckpoint_def is_line_start_def lb_end_def Let_def)

subsection \<open>Versions after a restore\<close>

lemma insert_doc:
  assumes "doc_ok d" "t \<noteq> []" "length (doc_text d) + length t < size_max"
  shows "doc_ok (TextDocument_insert d 0 t)" "doc_text (TextDocument_insert d 0 t) = t @ doc_text d"
    "mVersion (TextDocument_insert d 0 t) = wrap64 (mVersion d + 1)" "mDocumentId (TextDocument_insert d 0 t) = mDocumentId d"
proof -
  obtain d' b where a: "appendAndInsert d 0 t = (d', b)" by (metis surj_pair)
  have "mDocumentId (bumpVersion d') = mDocumentId d'" by (simp add: bumpVersion_def)
  with appendAndInsert_spec [OF assms a] a assms(2)
  show "doc_ok (TextDocument_insert d 0 t)" "doc_text (TextDocument_insert d 0 t) = t @ doc_text d"
    "mVersion (TextDocument_insert d 0 t) = wrap64 (mVersion d + 1)" "mDocumentId (TextDocument_insert d 0 t) = mDocumentId d"
    by (simp_all add: TextDocument_insert_def bumpIf_def bumpVersion_version clamped_insert_def insert_text_def)
qed

text \<open>
  Edit, undo, edit differently: two documents with the same id and version and different texts. A
  commit, warm-up or packet computed on the first one passes the version check of the second.
\<close>

theorem version_reused:
  assumes "doc_ok d0" "doc_text d0 \<noteq> []" "length (doc_text d0) + 1 < size_max"
  defines "d1 \<equiv> TextDocument_insert d0 0 ''x''"
  defines "d2 \<equiv> TextDocument_insert (restoreFromSnapshot d1 (readSnapshot d0)) 0 ''y''"
  shows "mVersion d2 = mVersion d1 \<and> doc_text d1 = ''x'' @ doc_text d0 \<and> doc_text d2 = ''y'' @ doc_text d0"
proof -
  note i1 = insert_doc [OF assms(1), of "''x''", folded d1_def]
  let ?r = "readSnapshot d0" and ?d = "restoreFromSnapshot d1 (readSnapshot d0)"
  have s: "same_buffers d0 (snap_doc ?r)" "td_pieces (snap_doc ?r) = td_pieces d0"
    by (simp_all add: same_buffers_def td_pieces_def readSnapshot_frame)
  have ok: "doc_ok (snap_doc ?r)"
    by (rule doc_ok_same [OF s _ _ assms(1)]) (use assms(1) in \<open>auto simp: readSnapshot_frame doc_ok_def\<close>)
  have tx: "snap_text_of ?r = doc_text d0" by (simp add: snap_text_doc doc_text_same [OF s])
  have d1: "doc_ok d1" using i1(1) assms(3) by simp
  have "rs_length ?r \<noteq> 0" using assms(1,2) by (simp add: readSnapshot_frame doc_ok_def)
  with restore_doc [OF d1 ok] tx have r: "doc_ok ?d" "doc_text ?d = doc_text d0" "mVersion ?d = mVersion d0"
    by (simp_all add: readSnapshot_frame)
  from insert_doc [OF r(1), of "''y''", folded d2_def] i1 r assms(3) show ?thesis by simp
qed

subsection \<open>The redo history and a commit that fails\<close>

text \<open>The editor pushes its undo snapshot before it tries to commit and pops it when the commit fails.\<close>

theorem failed_commit_drops_redo:
  "redoStack (popUndoSnapshot (editor_pushUndoSnapshot m block)) = []
   \<and> undoStack (popUndoSnapshot (editor_pushUndoSnapshot m block)) = undoStack m"
  by (simp add: popUndoSnapshot_def editor_pushUndoSnapshot_def pushUndoSnapshot_def Let_def)

end
