(* ===== verification/Myers_Diff.thy ===== *)
theory Myers_Diff
  imports MR_Prelude
begin

text \<open>
  The line diff of \<open>src/diff/MRMyersDiff.cpp\<close>: the linear-space Myers algorithm that splits a box of
  lines at a middle point found by a forward and a reverse search, and the coalescing of single edits
  into hunks. A diff that succeeds is proved to be an edit script from the left lines to the right
  lines with maximal hunks; the recursion is proved to end because the split lies in its box.
\<close>

datatype MRDiffOp = Equal | Delete | Insert

record MRDiffHunk =
  hk_op :: MRDiffOp
  hk_leftStart :: nat
  hk_rightStart :: nat
  hk_count :: nat

record MRElementEdit =
  ee_op :: MRDiffOp
  ee_leftIndex :: int
  ee_rightIndex :: int

definition mkEdit :: "MRDiffOp \<Rightarrow> int \<Rightarrow> int \<Rightarrow> MRElementEdit" where
  "mkEdit op l r = \<lparr>ee_op = op, ee_leftIndex = l, ee_rightIndex = r\<rparr>"

datatype DiffError = DiffCancelled | DiffNoScript | DiffNoProgress | DiffTooLarge

definition vectorIndex :: "int \<Rightarrow> int \<Rightarrow> nat" where
  "vectorIndex k offset = nat (k + offset)"

definition hunkCanExtend :: "MRDiffHunk \<Rightarrow> MRElementEdit \<Rightarrow> bool" where
  "hunkCanExtend hunk edit =
     (let leftIndex = (if ee_leftIndex edit \<ge> 0 then nat (ee_leftIndex edit) else 0);
          rightIndex = (if ee_rightIndex edit \<ge> 0 then nat (ee_rightIndex edit) else 0)
      in if hk_op hunk \<noteq> ee_op edit then False
         else (case ee_op edit of
                 Equal \<Rightarrow> leftIndex = hk_leftStart hunk + hk_count hunk \<and> rightIndex = hk_rightStart hunk + hk_count hunk
               | Delete \<Rightarrow> leftIndex = hk_leftStart hunk + hk_count hunk \<and> rightIndex = hk_rightStart hunk
               | Insert \<Rightarrow> leftIndex = hk_leftStart hunk \<and> rightIndex = hk_rightStart hunk + hk_count hunk))"

definition appendElementEdit :: "MRDiffHunk list \<Rightarrow> MRElementEdit \<Rightarrow> MRDiffHunk list" where
  "appendElementEdit hunks edit =
     (let leftIndex = (if ee_leftIndex edit \<ge> 0 then nat (ee_leftIndex edit) else 0);
          rightIndex = (if ee_rightIndex edit \<ge> 0 then nat (ee_rightIndex edit) else 0)
      in if hunks \<noteq> [] \<and> hunkCanExtend (last hunks) edit
         then butlast hunks @ [(last hunks)\<lparr>hk_count := hk_count (last hunks) + 1\<rparr>]
         else hunks @ [\<lparr>hk_op = ee_op edit, hk_leftStart = leftIndex, hk_rightStart = rightIndex, hk_count = 1\<rparr>])"

subsection \<open>The middle split\<close>

text \<open>
  The two passes differ only in the lines they compare: \<open>same x y\<close> is the comparison. The vectors are
  refilled for every box and only their first \<open>vectorSize\<close> entries are read, so each box starts with
  fresh ones.
\<close>

function snake :: "(int \<Rightarrow> int \<Rightarrow> bool) \<Rightarrow> int \<Rightarrow> int \<Rightarrow> int \<Rightarrow> int \<Rightarrow> int \<times> int" where
  "snake same leftCount rightCount x y =
     (if x < leftCount \<and> y < rightCount \<and> same x y then snake same leftCount rightCount (x + 1) (y + 1) else (x, y))"
  by pat_completeness auto
termination
  by (relation "measure (\<lambda>(same, l, r, x, y). nat (l - x))") auto

declare snake.simps [simp del]

definition chooseX :: "int list \<Rightarrow> int \<Rightarrow> int \<Rightarrow> int \<Rightarrow> int" where
  "chooseX vec offset distance diagonal =
     (let down = vec ! vectorIndex (diagonal + 1) offset; right = vec ! vectorIndex (diagonal - 1) offset
      in if diagonal = - distance \<or> (diagonal \<noteq> distance \<and> (right < 0 \<or> (down \<ge> 0 \<and> right < down))) then down
         else if right \<ge> 0 then right + 1
         else -1)"

text \<open>The point a pass reaches on one diagonal, \<open>None\<close> when it leaves the box.\<close>

definition reach :: "(int \<Rightarrow> int \<Rightarrow> bool) \<Rightarrow> int \<Rightarrow> int \<Rightarrow> int list \<Rightarrow> int \<Rightarrow> int \<Rightarrow> int \<Rightarrow> (int \<times> int) option" where
  "reach same leftCount rightCount vec offset distance diagonal =
     (let x = chooseX vec offset distance diagonal in
      if x < 0 then None
      else
        (let y = x - diagonal in
         if x > leftCount \<or> y < 0 \<or> y > rightCount then None
         else Some (snake same leftCount rightCount x y)))"

function forwardPass ::
  "(int \<Rightarrow> int \<Rightarrow> bool) \<Rightarrow> int \<Rightarrow> int \<Rightarrow> int \<Rightarrow> int \<Rightarrow> int list \<Rightarrow> int \<Rightarrow> int list \<Rightarrow> int list \<times> (int \<times> int) option" where
  "forwardPass same leftCount rightCount offset distance reverse diagonal forward =
     (if diagonal \<le> distance then
        (case reach same leftCount rightCount forward offset distance diagonal of
           None \<Rightarrow> forwardPass same leftCount rightCount offset distance reverse (diagonal + 2)
                     (forward[vectorIndex diagonal offset := -1])
         | Some (x, y) \<Rightarrow>
             (let forward' = forward[vectorIndex diagonal offset := x];
                  delta = leftCount - rightCount;
                  reverseDiagonal = delta - diagonal
              in if odd delta \<and> distance > 0 \<and> reverseDiagonal \<ge> 1 - distance \<and> reverseDiagonal \<le> distance - 1
                    \<and> reverse ! vectorIndex reverseDiagonal offset \<ge> 0
                    \<and> x \<ge> leftCount - reverse ! vectorIndex reverseDiagonal offset
                 then (forward', Some (x, y))
                 else forwardPass same leftCount rightCount offset distance reverse (diagonal + 2) forward'))
      else (forward, None))"
  by pat_completeness auto
termination
  by (relation "measure (\<lambda>(same, l, r, offset, distance, rev, diagonal, fwd). nat (distance + 2 - diagonal))") auto

declare forwardPass.simps [simp del]

function reversePass ::
  "(int \<Rightarrow> int \<Rightarrow> bool) \<Rightarrow> int \<Rightarrow> int \<Rightarrow> int \<Rightarrow> int \<Rightarrow> int list \<Rightarrow> int \<Rightarrow> int list \<Rightarrow> int list \<times> (int \<times> int) option" where
  "reversePass same leftCount rightCount offset distance forward diagonal reverse =
     (if diagonal \<le> distance then
        (case reach same leftCount rightCount reverse offset distance diagonal of
           None \<Rightarrow> reversePass same leftCount rightCount offset distance forward (diagonal + 2)
                     (reverse[vectorIndex diagonal offset := -1])
         | Some (x, y) \<Rightarrow>
             (let reverse' = reverse[vectorIndex diagonal offset := x];
                  delta = leftCount - rightCount;
                  forwardDiagonal = delta - diagonal;
                  fx = forward ! vectorIndex forwardDiagonal offset
              in if \<not> odd delta \<and> forwardDiagonal \<ge> - distance \<and> forwardDiagonal \<le> distance \<and> fx \<ge> 0 \<and> fx \<ge> leftCount - x
                 then (reverse', Some (fx, fx - forwardDiagonal))
                 else reversePass same leftCount rightCount offset distance forward (diagonal + 2) reverse'))
      else (reverse, None))"
  by pat_completeness auto
termination
  by (relation "measure (\<lambda>(same, l, r, offset, distance, fwd, diagonal, rev). nat (distance + 2 - diagonal))") auto

declare reversePass.simps [simp del]

text \<open>\<open>cancel k\<close> is what the \<open>k\<close>-th load of the cancel flag returns; the number of loads is threaded through.\<close>

function split_loop ::
  "(nat \<Rightarrow> bool) \<Rightarrow> (int \<Rightarrow> int \<Rightarrow> bool) \<Rightarrow> (int \<Rightarrow> int \<Rightarrow> bool) \<Rightarrow> int \<Rightarrow> int \<Rightarrow> int \<Rightarrow> int \<Rightarrow> nat \<Rightarrow> int \<Rightarrow> int list \<Rightarrow> int list
   \<Rightarrow> nat \<times> (DiffError + int \<times> int)" where
  "split_loop cancel sameF sameR leftCount rightCount maxDistance offset loads distance forward reverse =
     (if distance \<le> maxDistance then
        if cancel loads then (loads + 1, Inl DiffCancelled)
        else
          (case forwardPass sameF leftCount rightCount offset distance reverse (- distance) forward of
             (forward', Some p) \<Rightarrow> (loads + 1, Inr p)
           | (forward', None) \<Rightarrow>
               (case reversePass sameR leftCount rightCount offset distance forward' (- distance) reverse of
                  (reverse', Some p) \<Rightarrow> (loads + 1, Inr p)
                | (reverse', None) \<Rightarrow>
                    split_loop cancel sameF sameR leftCount rightCount maxDistance offset (loads + 1) (distance + 1) forward' reverse'))
      else (loads, Inl DiffNoScript))"
  by pat_completeness auto
termination
  by (relation "measure (\<lambda>(c, sf, sr, l, r, md, off, loads, distance, fwd, rev). nat (md + 1 - distance))") auto

declare split_loop.simps [simp del]

definition findMiddleSplit ::
  "(nat \<Rightarrow> bool) \<Rightarrow> nat \<Rightarrow> string list \<Rightarrow> string list \<Rightarrow> int \<Rightarrow> int \<Rightarrow> int \<Rightarrow> int \<Rightarrow> nat \<times> (DiffError + int \<times> int)" where
  "findMiddleSplit cancel loads leftLines rightLines leftStart leftEnd rightStart rightEnd =
     (let leftCount = leftEnd - leftStart; rightCount = rightEnd - rightStart;
          maxDistance = (leftCount + rightCount + 1) div 2;
          offset = maxDistance + 1;
          vectorSize = nat (2 * maxDistance + 3);
          start = (replicate vectorSize (-1))[vectorIndex 1 offset := 0];
          sameF = (\<lambda>x y. leftLines ! nat (leftStart + x) = rightLines ! nat (rightStart + y));
          sameR = (\<lambda>x y. leftLines ! nat (leftEnd - x - 1) = rightLines ! nat (rightEnd - y - 1))
      in case split_loop cancel sameF sameR leftCount rightCount maxDistance offset loads 0 start start of
           (loads', Inl e) \<Rightarrow> (loads', Inl e)
         | (loads', Inr (x, y)) \<Rightarrow> (loads', Inr (leftStart + x, rightStart + y)))"

subsection \<open>The split lies in its box\<close>

definition in_box :: "int \<Rightarrow> int \<Rightarrow> int \<Rightarrow> int \<Rightarrow> bool" where
  "in_box l r x y \<longleftrightarrow> 0 \<le> x \<and> x \<le> l \<and> 0 \<le> y \<and> y \<le> r"

lemma snake_props:
  "x \<le> l \<Longrightarrow> y \<le> r \<Longrightarrow> snake same l r x y = (x', y') \<Longrightarrow> x \<le> x' \<and> x' \<le> l \<and> y' \<le> r \<and> x' - y' = x - y"
proof (induction same l r x y rule: snake.induct)
  case (1 same l r x y)
  show ?case
  proof (cases "x < l \<and> y < r \<and> same x y")
    case True
    then have "snake same l r (x + 1) (y + 1) = (x', y')" using "1.prems"(3) by (subst (asm) snake.simps) simp
    with "1.IH" [OF True] True show ?thesis by simp
  next
    case False
    with "1.prems" show ?thesis by (subst (asm) snake.simps) auto
  qed
qed

lemma reach_Some:
  assumes "reach same l r vec off d k = Some (x, y)" shows "in_box l r x y" "x - y = k"
  using assms snake_props [of "chooseX vec off d k" l "chooseX vec off d k - k" r same x y]
  by (auto simp: reach_def Let_def in_box_def split: if_splits)

text \<open>After a pass, the entries of its diagonals are \<open>-1\<close> or points of the box.\<close>

definition entries_ok :: "int \<Rightarrow> int \<Rightarrow> int \<Rightarrow> int \<Rightarrow> int \<Rightarrow> int list \<Rightarrow> bool" where
  "entries_ok l r off d limit vec \<longleftrightarrow>
     (\<forall>k. - d \<le> k \<longrightarrow> k < limit \<longrightarrow> even (k + d) \<longrightarrow> vec ! vectorIndex k off \<ge> 0 \<longrightarrow>
          in_box l r (vec ! vectorIndex k off) (vec ! vectorIndex k off - k))"

lemma entries_update:
  assumes "entries_ok l r off d k vec" "d < off" "- d \<le> k" "k \<le> d" "length vec = nat (2 * off + 1)"
    and "x \<ge> 0 \<Longrightarrow> in_box l r x (x - k)" "even (k + d)"
  shows "entries_ok l r off d (k + 2) (vec[vectorIndex k off := x])"
  unfolding entries_ok_def
proof (intro allI impI)
  fix i assume i: "- d \<le> i" "i < k + 2" "even (i + d)" "vec[vectorIndex k off := x] ! vectorIndex i off \<ge> 0"
  have lt: "vectorIndex k off < length vec" using assms(2-5) by (simp add: vectorIndex_def)
  show "in_box l r (vec[vectorIndex k off := x] ! vectorIndex i off) (vec[vectorIndex k off := x] ! vectorIndex i off - i)"
  proof (cases "i = k")
    case True
    with i lt assms(6) show ?thesis by simp
  next
    case False
    have "i \<noteq> k + 1" using i(3) assms(7) by auto
    then have "i < k" using False i by simp
    then have "vectorIndex i off \<noteq> vectorIndex k off" using i(1) assms(2) by (simp add: vectorIndex_def)
    with i \<open>i < k\<close> assms(1) show ?thesis by (simp add: entries_ok_def)
  qed
qed

lemma entries_ok_start: "entries_ok l r off d (- d) vec"
  by (simp add: entries_ok_def)

lemma forwardPass_ok:
  assumes "forwardPass same l r off d bwd k fwd = (fwd', res)" "entries_ok l r off d k fwd" "d < off" "- d \<le> k" "even (k + d)"
    and "length fwd = nat (2 * off + 1)" "k \<le> d + 2"
  shows "length fwd' = length fwd \<and> (case res of None \<Rightarrow> entries_ok l r off d (d + 1) fwd' | Some (x, y) \<Rightarrow> in_box l r x y)"
  using assms
proof (induction same l r off d bwd k fwd rule: forwardPass.induct)
  case (1 same l r off d bwd k fwd)
  show ?case
  proof (cases "k \<le> d")
    case False
    then have "entries_ok l r off d (d + 1) fwd" using "1.prems"(2) by (simp add: entries_ok_def)
    with False "1.prems"(1) show ?thesis by (subst (asm) forwardPass.simps) auto
  next
    case True
    show ?thesis
    proof (cases "reach same l r fwd off d k")
      case None
      have "forwardPass same l r off d bwd (k + 2) (fwd[vectorIndex k off := -1]) = (fwd', res)"
        using "1.prems"(1) True None by (subst (asm) forwardPass.simps) simp
      from "1.IH"(1) [OF True None this] entries_update [OF "1.prems"(2,3,4) True "1.prems"(6) _ "1.prems"(5), of "-1"] "1.prems" True
      show ?thesis by simp
    next
      case (Some p)
      obtain x y where p: "p = (x, y)" by (cases p) auto
      note rs = reach_Some [OF Some [unfolded p]]
      define f1 where "f1 = fwd[vectorIndex k off := x]"
      define hit where "hit = (odd (l - r) \<and> d > 0 \<and> l - r - k \<ge> 1 - d \<and> l - r - k \<le> d - 1
          \<and> bwd ! vectorIndex (l - r - k) off \<ge> 0 \<and> x \<ge> l - bwd ! vectorIndex (l - r - k) off)"
      have eq: "forwardPass same l r off d bwd k fwd = (if hit then (f1, Some (x, y)) else forwardPass same l r off d bwd (k + 2) f1)"
        using True Some p unfolding f1_def hit_def by (subst forwardPass.simps) (simp add: Let_def)
      show ?thesis
      proof (cases hit)
        case True
        with eq "1.prems"(1) rs show ?thesis by (auto simp: f1_def)
      next
        case False
        have "y = x - k" using rs(2) by simp
        then have e: "entries_ok l r off d (k + 2) f1"
          unfolding f1_def using rs(1) by (intro entries_update [OF "1.prems"(2,3,4) True "1.prems"(6) _ "1.prems"(5)]) simp
        have "forwardPass same l r off d bwd (k + 2) f1 = (fwd', res)" using eq False "1.prems"(1) by simp
        from "1.IH"(2) [OF True Some p [symmetric] f1_def refl refl False [unfolded hit_def] this e] "1.prems" True show ?thesis
          by (simp add: f1_def)
      qed
    qed
  qed
qed

lemma reversePass_ok:
  assumes "reversePass same l r off d fwd k bwd = (bwd', res)" "entries_ok l r off d (d + 1) fwd" "even (k + d)"
  shows "length bwd' = length bwd \<and> (case res of None \<Rightarrow> True | Some (x, y) \<Rightarrow> in_box l r x y)"
  using assms
proof (induction same l r off d fwd k bwd rule: reversePass.induct)
  case (1 same l r off d fwd k bwd)
  show ?case
  proof (cases "k \<le> d")
    case False
    with "1.prems"(1) show ?thesis by (subst (asm) reversePass.simps) auto
  next
    case True
    show ?thesis
    proof (cases "reach same l r bwd off d k")
      case None
      have "reversePass same l r off d fwd (k + 2) (bwd[vectorIndex k off := -1]) = (bwd', res)"
        using "1.prems"(1) True None by (subst (asm) reversePass.simps) simp
      from "1.IH"(1) [OF True None this] "1.prems" show ?thesis by simp
    next
      case (Some p)
      obtain x y where p: "p = (x, y)" by (cases p) auto
      define r1 where "r1 = bwd[vectorIndex k off := x]"
      define fx where "fx = fwd ! vectorIndex (l - r - k) off"
      define hit where "hit = (\<not> odd (l - r) \<and> l - r - k \<ge> - d \<and> l - r - k \<le> d \<and> fx \<ge> 0 \<and> fx \<ge> l - x)"
      have eq: "reversePass same l r off d fwd k bwd
          = (if hit then (r1, Some (fx, fx - (l - r - k))) else reversePass same l r off d fwd (k + 2) r1)"
        using True Some p unfolding r1_def hit_def fx_def by (subst reversePass.simps) (simp add: Let_def)
      show ?thesis
      proof (cases hit)
        case True
        then have "even (l - r - k + d)" using "1.prems"(3) by (auto simp: hit_def)
        then have "in_box l r fx (fx - (l - r - k))"
          using True "1.prems"(2) by (simp add: hit_def entries_ok_def fx_def)
        with eq True "1.prems"(1) show ?thesis by (auto simp: r1_def)
      next
        case False
        have "reversePass same l r off d fwd (k + 2) r1 = (bwd', res)" using eq False "1.prems"(1) by simp
        from "1.IH"(2) [OF True Some p [symmetric] r1_def refl refl fx_def False [unfolded hit_def] this "1.prems"(2)] "1.prems"(3) show ?thesis
          by (simp add: r1_def)
      qed
    qed
  qed
qed

lemma split_loop_ok:
  assumes "split_loop cancel sameF sameR l r md off loads d fwd bwd = (loads', Inr (x, y))" "0 \<le> d" "md < off"
    and "length fwd = nat (2 * off + 1)"
  shows "in_box l r x y"
  using assms
proof (induction cancel sameF sameR l r md off loads d fwd bwd rule: split_loop.induct)
  case (1 cancel sameF sameR l r md off loads d fwd bwd)
  obtain f1 p1 where f: "forwardPass sameF l r off d bwd (- d) fwd = (f1, p1)" by (metis surj_pair)
  obtain r1 p2 where rv: "reversePass sameR l r off d f1 (- d) bwd = (r1, p2)" by (metis surj_pair)
  have go: "d \<le> md" "\<not> cancel loads" using "1.prems"(1) by (auto simp: split_loop.simps [of cancel sameF] split: if_splits)
  have fo: "length f1 = length fwd \<and> (case p1 of None \<Rightarrow> entries_ok l r off d (d + 1) f1 | Some (x, y) \<Rightarrow> in_box l r x y)"
    by (rule forwardPass_ok [OF f entries_ok_start]) (use go "1.prems" in auto)
  show ?case
  proof (cases p1)
    case (Some q)
    with f go "1.prems"(1) have "q = (x, y)" by (subst (asm) split_loop.simps) simp
    with fo Some show ?thesis by simp
  next
    case None
    have ro: "length r1 = length bwd \<and> (case p2 of None \<Rightarrow> True | Some (x, y) \<Rightarrow> in_box l r x y)"
      by (rule reversePass_ok [OF rv]) (use fo None in auto)
    show ?thesis
    proof (cases p2)
      case (Some q)
      with f rv None go "1.prems"(1) have "q = (x, y)" by (subst (asm) split_loop.simps) simp
      with ro Some show ?thesis by simp
    next
      case n2: None
      have "split_loop cancel sameF sameR l r md off (loads + 1) (d + 1) f1 r1 = (loads', Inr (x, y))"
        using "1.prems"(1) f rv None n2 go by (subst (asm) split_loop.simps) simp
      from "1.IH" [OF go f [symmetric] None rv [symmetric] n2 this] "1.prems" fo show ?thesis by simp
    qed
  qed
qed

lemma findMiddleSplit_box:
  assumes "findMiddleSplit cancel loads ls rs ls0 le rs0 re = (loads', Inr (sl, sr))"
  shows "ls0 \<le> sl \<and> sl \<le> le \<and> rs0 \<le> sr \<and> sr \<le> re"
proof -
  define md where "md = (le - ls0 + (re - rs0) + 1) div 2"
  obtain x y where "split_loop cancel (\<lambda>x y. ls ! nat (ls0 + x) = rs ! nat (rs0 + y))
      (\<lambda>x y. ls ! nat (le - x - 1) = rs ! nat (re - y - 1)) (le - ls0) (re - rs0) md (md + 1) loads 0
      ((replicate (nat (2 * md + 3)) (-1))[vectorIndex 1 (md + 1) := 0])
      ((replicate (nat (2 * md + 3)) (-1))[vectorIndex 1 (md + 1) := 0]) = (loads', Inr (x, y))" "sl = ls0 + x" "sr = rs0 + y"
    using assms by (auto simp: findMiddleSplit_def Let_def md_def split: prod.splits sum.splits)
  with split_loop_ok [of cancel _ _ "le - ls0" "re - rs0" md "md + 1" loads 0 _ _ loads' x y] show ?thesis
    by (auto simp: in_box_def algebra_simps)
qed

subsection \<open>The recursion\<close>

text \<open>The loops of \<open>appendDiffRange\<close>.\<close>

function prefix_loop ::
  "string list \<Rightarrow> string list \<Rightarrow> int \<Rightarrow> int \<Rightarrow> int \<Rightarrow> int \<Rightarrow> MRDiffHunk list \<Rightarrow> int \<times> int \<times> MRDiffHunk list" where
  "prefix_loop leftLines rightLines leftEnd rightEnd leftStart rightStart hunks =
     (if leftStart < leftEnd \<and> rightStart < rightEnd \<and> leftLines ! nat leftStart = rightLines ! nat rightStart
      then prefix_loop leftLines rightLines leftEnd rightEnd (leftStart + 1) (rightStart + 1)
             (appendElementEdit hunks (mkEdit Equal leftStart rightStart))
      else (leftStart, rightStart, hunks))"
  by pat_completeness auto
termination
  by (relation "measure (\<lambda>(ll, rl, le, re, ls, rs, h). nat (le - ls))") auto

declare prefix_loop.simps [simp del]

function suffix_loop :: "string list \<Rightarrow> string list \<Rightarrow> int \<Rightarrow> int \<Rightarrow> int \<Rightarrow> int \<Rightarrow> int \<Rightarrow> int" where
  "suffix_loop leftLines rightLines leftStart leftEnd rightStart rightEnd suffixCount =
     (if leftStart < leftEnd - suffixCount \<and> rightStart < rightEnd - suffixCount
         \<and> leftLines ! nat (leftEnd - suffixCount - 1) = rightLines ! nat (rightEnd - suffixCount - 1)
      then suffix_loop leftLines rightLines leftStart leftEnd rightStart rightEnd (suffixCount + 1)
      else suffixCount)"
  by pat_completeness auto
termination
  by (relation "measure (\<lambda>(ll, rl, ls, le, rs, re, s). nat (le - ls - s))") auto

declare suffix_loop.simps [simp del]

definition inserts :: "int \<Rightarrow> int \<Rightarrow> int \<Rightarrow> MRDiffHunk list \<Rightarrow> MRDiffHunk list" where
  "inserts leftIndex a b hunks = foldl (\<lambda>h i. appendElementEdit h (mkEdit Insert leftIndex i)) hunks [a..b - 1]"

definition deletes :: "int \<Rightarrow> int \<Rightarrow> int \<Rightarrow> MRDiffHunk list \<Rightarrow> MRDiffHunk list" where
  "deletes rightIndex a b hunks = foldl (\<lambda>h i. appendElementEdit h (mkEdit Delete i rightIndex)) hunks [a..b - 1]"

definition equals :: "int \<Rightarrow> int \<Rightarrow> int \<Rightarrow> MRDiffHunk list \<Rightarrow> MRDiffHunk list" where
  "equals l r n hunks = foldl (\<lambda>h i. appendElementEdit h (mkEdit Equal (l + i) (r + i))) hunks [0..n - 1]"

definition match_loop :: "(int \<Rightarrow> bool) \<Rightarrow> int \<Rightarrow> int \<Rightarrow> int" where
  "match_loop same a b = (case find same [a..b - 1] of None \<Rightarrow> b | Some i \<Rightarrow> i)"

definition oneLeft :: "string list \<Rightarrow> string list \<Rightarrow> int \<Rightarrow> int \<Rightarrow> int \<Rightarrow> int \<Rightarrow> MRDiffHunk list \<Rightarrow> MRDiffHunk list" where
  "oneLeft leftLines rightLines leftStart leftEnd rightStart rightEnd hunks =
     (let match = match_loop (\<lambda>i. leftLines ! nat leftStart = rightLines ! nat i) rightStart rightEnd
      in if match = rightEnd
         then inserts leftEnd rightStart rightEnd (appendElementEdit hunks (mkEdit Delete leftStart rightStart))
         else inserts leftEnd (match + 1) rightEnd
                (appendElementEdit (inserts leftStart rightStart match hunks) (mkEdit Equal leftStart match)))"

definition oneRight :: "string list \<Rightarrow> string list \<Rightarrow> int \<Rightarrow> int \<Rightarrow> int \<Rightarrow> int \<Rightarrow> MRDiffHunk list \<Rightarrow> MRDiffHunk list" where
  "oneRight leftLines rightLines leftStart leftEnd rightStart rightEnd hunks =
     (let match = match_loop (\<lambda>i. leftLines ! nat i = rightLines ! nat rightStart) leftStart leftEnd
      in if match = leftEnd
         then appendElementEdit (deletes rightStart leftStart leftEnd hunks) (mkEdit Insert leftEnd rightStart)
         else deletes rightEnd (match + 1) leftEnd
                (appendElementEdit (deletes rightStart leftStart match hunks) (mkEdit Equal match rightStart)))"

lemma prefix_loop_range:
  "prefix_loop ll rl le re ls rs h = (ls', rs', h') \<Longrightarrow> ls \<le> le \<Longrightarrow> rs \<le> re \<Longrightarrow>
   ls \<le> ls' \<and> ls' \<le> le \<and> rs \<le> rs' \<and> rs' \<le> re \<and> ls' - ls = rs' - rs"
proof (induction ll rl le re ls rs h rule: prefix_loop.induct)
  case (1 ll rl le re ls rs h)
  show ?case
  proof (cases "ls < le \<and> rs < re \<and> ll ! nat ls = rl ! nat rs")
    case True
    then have "prefix_loop ll rl le re (ls + 1) (rs + 1) (appendElementEdit h (mkEdit Equal ls rs)) = (ls', rs', h')"
      using "1.prems"(1) by (subst (asm) prefix_loop.simps) simp
    from "1.IH" [OF True this] True show ?thesis by simp
  next
    case False
    with "1.prems" show ?thesis by (subst (asm) prefix_loop.simps) auto
  qed
qed

lemma suffix_loop_range:
  "n \<le> suffix_loop ll rl ls le rs re n"
  "ls \<le> le - n \<Longrightarrow> rs \<le> re - n \<Longrightarrow> ls \<le> le - suffix_loop ll rl ls le rs re n \<and> rs \<le> re - suffix_loop ll rl ls le rs re n"
proof (induction ll rl ls le rs re n rule: suffix_loop.induct)
  case (1 ll rl ls le rs re n)
  {
    case 1
    show ?case using "1.IH"(1) by (subst suffix_loop.simps) auto
  next
    case 2
    show ?case using "1.IH"(2) 2 by (subst (1 2) suffix_loop.simps) auto
  }
qed

lemma prefix_loop_mono:
  "prefix_loop ll rl le re ls rs h = (ls', rs', h') \<Longrightarrow> ls \<le> ls' \<and> rs \<le> rs'"
proof (cases "ls < le \<and> rs < re")
  case True
  assume "prefix_loop ll rl le re ls rs h = (ls', rs', h')"
  with prefix_loop_range [OF this] True show ?thesis by simp
next
  case False
  assume "prefix_loop ll rl le re ls rs h = (ls', rs', h')"
  with False show ?thesis by (subst (asm) prefix_loop.simps) auto
qed

lemma split_decreases:
  assumes "prefix_loop ll rl le0 re0 ls0 rs0 h0 = (ls, rs, h)" "n = suffix_loop ll rl ls le0 rs re0 0" "le = le0 - n" "re = re0 - n"
    and "findMiddleSplit cancel loads ll rl ls le rs re = (loads', Inr (sl, sr))"
    and "\<not> (sl = ls \<and> sr = rs \<or> sl = le \<and> sr = re)"
  shows "nat (sl - ls) + nat (sr - rs) < nat (le0 - ls0) + nat (re0 - rs0)"
    "nat (le - sl) + nat (re - sr) < nat (le0 - ls0) + nat (re0 - rs0)"
proof -
  have b: "ls \<le> sl" "sl \<le> le" "rs \<le> sr" "sr \<le> re" using findMiddleSplit_box [OF assms(5)] by auto
  have m: "ls0 \<le> ls" "rs0 \<le> rs" using prefix_loop_mono [OF assms(1)] by auto
  have n: "0 \<le> n" unfolding assms(2) by (rule suffix_loop_range(1))
  show "nat (sl - ls) + nat (sr - rs) < nat (le0 - ls0) + nat (re0 - rs0)"
    "nat (le - sl) + nat (re - sr) < nat (le0 - ls0) + nat (re0 - rs0)"
    using b m n assms(3,4,6) by linarith+
qed

text \<open>The result carries the number of cancel-flag loads; on an error the caller drops the hunks.\<close>

function appendDiffRange ::
  "(nat \<Rightarrow> bool) \<Rightarrow> string list \<Rightarrow> string list \<Rightarrow> nat \<Rightarrow> int \<Rightarrow> int \<Rightarrow> int \<Rightarrow> int \<Rightarrow> MRDiffHunk list
   \<Rightarrow> nat \<times> (DiffError + MRDiffHunk list)" where
  "appendDiffRange cancel leftLines rightLines loads leftStart0 leftEnd0 rightStart0 rightEnd0 hunks0 =
     (if cancel loads then (loads + 1, Inl DiffCancelled)
      else
        (case prefix_loop leftLines rightLines leftEnd0 rightEnd0 leftStart0 rightStart0 hunks0 of
           (leftStart, rightStart, hunks) \<Rightarrow>
             (let suffixCount = suffix_loop leftLines rightLines leftStart leftEnd0 rightStart rightEnd0 0;
                  leftEnd = leftEnd0 - suffixCount; rightEnd = rightEnd0 - suffixCount
              in if leftStart = leftEnd
                 then (loads + 1, Inr (equals leftEnd rightEnd suffixCount (inserts leftStart rightStart rightEnd hunks)))
                 else if rightStart = rightEnd
                 then (loads + 1, Inr (equals leftEnd rightEnd suffixCount (deletes rightStart leftStart leftEnd hunks)))
                 else if leftEnd - leftStart = 1
                 then (loads + 1, Inr (equals leftEnd rightEnd suffixCount
                                        (oneLeft leftLines rightLines leftStart leftEnd rightStart rightEnd hunks)))
                 else if rightEnd - rightStart = 1
                 then (loads + 1, Inr (equals leftEnd rightEnd suffixCount
                                        (oneRight leftLines rightLines leftStart leftEnd rightStart rightEnd hunks)))
                 else
                   (case findMiddleSplit cancel (loads + 1) leftLines rightLines leftStart leftEnd rightStart rightEnd of
                      (loads2, Inl e) \<Rightarrow> (loads2, Inl e)
                    | (loads2, Inr (splitLeft, splitRight)) \<Rightarrow>
                        if splitLeft = leftStart \<and> splitRight = rightStart \<or> splitLeft = leftEnd \<and> splitRight = rightEnd
                        then (loads2, Inl DiffNoProgress)
                        else
                          (case appendDiffRange cancel leftLines rightLines loads2 leftStart splitLeft rightStart splitRight hunks of
                             (loads3, Inl e) \<Rightarrow> (loads3, Inl e)
                           | (loads3, Inr hunks1) \<Rightarrow>
                               (case appendDiffRange cancel leftLines rightLines loads3 splitLeft leftEnd splitRight rightEnd hunks1 of
                                  (loads4, Inl e) \<Rightarrow> (loads4, Inl e)
                                | (loads4, Inr hunks2) \<Rightarrow> (loads4, Inr (equals leftEnd rightEnd suffixCount hunks2))))))))"
  by pat_completeness auto
termination
proof (relation "measure (\<lambda>(cancel, ll, rl, loads, ls, le, rs, re, h). nat (le - ls) + nat (re - rs))", goal_cases)
  case (2 cancel ll rl loads ls0 le0 rs0 re0 h0 ls y rs h n le re loads2 res p sl sr)
  show ?case using split_decreases(1) [of ll rl le0 re0 ls0 rs0 h0 ls rs h n le re cancel "loads + 1" loads2 sl sr] 2 by simp
next
  case (3 cancel ll rl loads ls0 le0 rs0 re0 h0 ls y rs h n le re loads2 res p sl sr)
  show ?case using split_decreases(2) [of ll rl le0 re0 ls0 rs0 h0 ls rs h n le re cancel "loads + 1" loads2 sl sr] 3 by simp
qed auto

declare appendDiffRange.simps [simp del]

definition maxInputLines :: nat where
  "maxInputLines = 2147483647 - 3"

definition mrComputeMyersDiff ::
  "(nat \<Rightarrow> bool) \<Rightarrow> string list \<Rightarrow> string list \<Rightarrow> DiffError + MRDiffHunk list" where
  "mrComputeMyersDiff cancel leftLines rightLines =
     (if length leftLines > maxInputLines \<or> length rightLines > maxInputLines - length leftLines then Inl DiffTooLarge
      else snd (appendDiffRange cancel leftLines rightLines 0 0 (int (length leftLines)) 0 (int (length rightLines)) []))"

subsection \<open>What hunks mean\<close>

text \<open>A list of hunks read from left to right: where it stands in both files, \<open>None\<close> if it does not fit.\<close>

definition hunk_step :: "string list \<Rightarrow> string list \<Rightarrow> MRDiffHunk \<Rightarrow> nat \<times> nat \<Rightarrow> (nat \<times> nat) option" where
  "hunk_step l r h p =
     (let (i, j) = p; n = hk_count h in
      if hk_leftStart h = i \<and> hk_rightStart h = j \<and> n > 0 then
        (case hk_op h of
           Equal \<Rightarrow> if i + n \<le> length l \<and> j + n \<le> length r \<and> take n (drop i l) = take n (drop j r) then Some (i + n, j + n) else None
         | Delete \<Rightarrow> if i + n \<le> length l then Some (i + n, j) else None
         | Insert \<Rightarrow> if j + n \<le> length r then Some (i, j + n) else None)
      else None)"

fun walk :: "string list \<Rightarrow> string list \<Rightarrow> MRDiffHunk list \<Rightarrow> nat \<times> nat \<Rightarrow> (nat \<times> nat) option" where
  "walk l r [] p = Some p"
| "walk l r (h # hs) p = (case hunk_step l r h p of None \<Rightarrow> None | Some q \<Rightarrow> walk l r hs q)"

text \<open>The lines the script produces from the left file, and the left lines it consumes.\<close>

definition patched :: "string list \<Rightarrow> string list \<Rightarrow> MRDiffHunk list \<Rightarrow> string list" where
  "patched l r hs = concat (map (\<lambda>h. case hk_op h of
     Equal \<Rightarrow> take (hk_count h) (drop (hk_leftStart h) l) | Delete \<Rightarrow> [] | Insert \<Rightarrow> take (hk_count h) (drop (hk_rightStart h) r)) hs)"

definition consumed :: "string list \<Rightarrow> MRDiffHunk list \<Rightarrow> string list" where
  "consumed l hs = concat (map (\<lambda>h. case hk_op h of
     Equal \<Rightarrow> take (hk_count h) (drop (hk_leftStart h) l) | Delete \<Rightarrow> take (hk_count h) (drop (hk_leftStart h) l) | Insert \<Rightarrow> []) hs)"

lemma walk_append: "walk l r (xs @ ys) p = (case walk l r xs p of None \<Rightarrow> None | Some q \<Rightarrow> walk l r ys q)"
  by (induction xs arbitrary: p) (auto split: option.split)

lemma take_drop_add: "i \<le> j \<Longrightarrow> j \<le> k \<Longrightarrow> take (j - i) (drop i xs) @ take (k - j) (drop j xs) = take (k - i) (drop i xs)"
  using take_add [of "j - i" "k - j" "drop i xs"] by simp

lemma hunk_step_Some:
  assumes "hunk_step l r h (i, j) = Some (i', j')"
  shows "i \<le> i'" "j \<le> j'" "patched l r [h] = take (j' - j) (drop j r)" "consumed l [h] = take (i' - i) (drop i l)"
  using assms by (auto simp: hunk_step_def patched_def consumed_def Let_def split: if_splits MRDiffOp.splits)

lemma walk_Some:
  "walk l r hs (i, j) = Some (i', j') \<Longrightarrow>
   i \<le> i' \<and> j \<le> j' \<and> patched l r hs = take (j' - j) (drop j r) \<and> consumed l hs = take (i' - i) (drop i l)"
proof (induction hs arbitrary: i j)
  case Nil
  then show ?case by (simp add: patched_def consumed_def)
next
  case (Cons h hs)
  then obtain a b where h: "hunk_step l r h (i, j) = Some (a, b)" "walk l r hs (a, b) = Some (i', j')"
    by (auto split: option.splits)
  note st = hunk_step_Some [OF h(1)] and ih = Cons.IH [OF h(2)]
  have "patched l r (h # hs) = patched l r [h] @ patched l r hs" "consumed l (h # hs) = consumed l [h] @ consumed l hs"
    by (simp_all add: patched_def consumed_def)
  with st ih take_drop_add [of j b j' r] take_drop_add [of i a i' l] show ?case by auto
qed

definition covers :: "string list \<Rightarrow> string list \<Rightarrow> MRDiffHunk list \<Rightarrow> int \<Rightarrow> int \<Rightarrow> bool" where
  "covers l r hs i j \<longleftrightarrow> 0 \<le> i \<and> 0 \<le> j \<and> walk l r hs (0, 0) = Some (nat i, nat j) \<and> distinct_adj (map hk_op hs)"

definition after_edit :: "MRDiffOp \<Rightarrow> int \<times> int \<Rightarrow> int \<times> int" where
  "after_edit op p = (case op of Equal \<Rightarrow> (fst p + 1, snd p + 1) | Delete \<Rightarrow> (fst p + 1, snd p) | Insert \<Rightarrow> (fst p, snd p + 1))"

definition edit_fits :: "string list \<Rightarrow> string list \<Rightarrow> MRDiffOp \<Rightarrow> int \<Rightarrow> int \<Rightarrow> bool" where
  "edit_fits l r op i j \<longleftrightarrow> (case op of
     Equal \<Rightarrow> i < int (length l) \<and> j < int (length r) \<and> l ! nat i = r ! nat j
   | Delete \<Rightarrow> i < int (length l) | Insert \<Rightarrow> j < int (length r))"

lemma take_Suc_drop: "i + n < length xs \<Longrightarrow> take (Suc n) (drop i xs) = take n (drop i xs) @ [xs ! (i + n)]"
  by (simp add: take_Suc_conv_app_nth)

lemma append_covers:
  assumes "covers l r hs i j" "edit_fits l r op i j"
  shows "covers l r (appendElementEdit hs (mkEdit op i j)) (fst (after_edit op (i, j))) (snd (after_edit op (i, j)))"
proof -
  obtain a b where ab: "i = int a" "j = int b" using assms(1) by (metis covers_def nonneg_int_cases)
  have w: "walk l r hs (0, 0) = Some (a, b)" and da: "distinct_adj (map hk_op hs)" using assms(1) ab by (auto simp: covers_def)
  define new where "new = \<lparr>hk_op = op, hk_leftStart = a, hk_rightStart = b, hk_count = 1\<rparr>"
  define q where "q = (case op of Equal \<Rightarrow> (a + 1, b + 1) | Delete \<Rightarrow> (a + 1, b) | Insert \<Rightarrow> (a, b + 1))"
  have q: "after_edit op (i, j) = (int (fst q), int (snd q))" by (simp add: after_edit_def q_def ab split: MRDiffOp.split)
  have step: "hunk_step l r new (a, b) = Some q"
    using assms(2) ab by (cases op) (auto simp: hunk_step_def new_def q_def edit_fits_def take_Suc_drop [of _ 0, simplified])
  have "walk l r (appendElementEdit hs (mkEdit op i j)) (0, 0) = Some q \<and> distinct_adj (map hk_op (appendElementEdit hs (mkEdit op i j)))"
  proof (cases "hs \<noteq> [] \<and> hunkCanExtend (last hs) (mkEdit op i j)")
    case False
    have app: "appendElementEdit hs (mkEdit op i j) = hs @ [new]"
      using False by (auto simp: appendElementEdit_def mkEdit_def new_def ab)
    have "hk_op (last hs) \<noteq> op" if "hs \<noteq> []"
    proof
      assume op: "hk_op (last hs) = op"
      obtain us h where hs: "hs = us @ [h]" using \<open>hs \<noteq> []\<close> by (metis rev_exhaust)
      obtain c d where "hunk_step l r h (c, d) = Some (a, b)" using w hs by (auto simp: walk_append split: option.splits)
      with op hs have "hunkCanExtend (last hs) (mkEdit op i j)"
        by (auto simp: hunkCanExtend_def mkEdit_def ab hunk_step_def Let_def split: if_splits MRDiffOp.splits)
      with False \<open>hs \<noteq> []\<close> show False by simp
    qed
    then have "distinct_adj (map hk_op hs @ [op])" using da by (cases "hs = []") (simp_all add: distinct_adj_append_iff last_map)
    moreover have "walk l r (hs @ [new]) (0, 0) = Some q" using w step by (simp add: walk_append)
    ultimately show ?thesis unfolding app by (simp add: new_def)
  next
    case True
    then obtain us h where hs: "hs = us @ [h]" by (metis rev_exhaust)
    have ext: "hunkCanExtend h (mkEdit op i j)" using True hs by simp
    have app: "appendElementEdit hs (mkEdit op i j) = us @ [h\<lparr>hk_count := hk_count h + 1\<rparr>]"
      using True hs by (simp add: appendElementEdit_def)
    obtain c d where u: "walk l r us (0, 0) = Some (c, d)" and h: "hunk_step l r h (c, d) = Some (a, b)"
      using w hs by (auto simp: walk_append split: option.splits)
    have "hk_op h = op" using ext by (simp add: hunkCanExtend_def mkEdit_def Let_def split: if_splits)
    with h assms(2) ab have "hunk_step l r (h\<lparr>hk_count := hk_count h + 1\<rparr>) (c, d) = Some q"
      by (cases op) (auto simp: hunk_step_def q_def edit_fits_def Let_def take_Suc_drop split: if_splits)
    with u da hs show ?thesis unfolding app by (simp add: walk_append)
  qed
  then show ?thesis unfolding covers_def q by simp
qed

lemma covers_edit:
  "covers l r h i j \<Longrightarrow> i < int (length l) \<Longrightarrow> j < int (length r) \<Longrightarrow> l ! nat i = r ! nat j \<Longrightarrow>
     covers l r (appendElementEdit h (mkEdit Equal i j)) (i + 1) (j + 1)"
  "covers l r h i j \<Longrightarrow> i < int (length l) \<Longrightarrow> covers l r (appendElementEdit h (mkEdit Delete i j)) (i + 1) j"
  "covers l r h i j \<Longrightarrow> j < int (length r) \<Longrightarrow> covers l r (appendElementEdit h (mkEdit Insert i j)) i (j + 1)"
  using append_covers [of l r h i j Equal] append_covers [of l r h i j Delete] append_covers [of l r h i j Insert]
  by (simp_all add: edit_fits_def after_edit_def)

lemma inserts_covers: "a \<le> b \<Longrightarrow> b \<le> int (length r) \<Longrightarrow> covers l r h i a \<Longrightarrow> covers l r (inserts i a b h) i b"
proof (induction "nat (b - a)" arbitrary: a h)
  case 0
  then show ?case by (simp add: inserts_def)
next
  case (Suc n)
  then have "[a..b - 1] = a # [a + 1..b - 1]" by (simp add: upto_rec1)
  with Suc.hyps(1) [of "a + 1" "appendElementEdit h (mkEdit Insert i a)"] Suc.hyps(2) Suc.prems covers_edit(3) [of l r h i a]
  show ?case by (simp add: inserts_def)
qed

lemma deletes_covers: "a \<le> b \<Longrightarrow> b \<le> int (length l) \<Longrightarrow> covers l r h a j \<Longrightarrow> covers l r (deletes j a b h) b j"
proof (induction "nat (b - a)" arbitrary: a h)
  case 0
  then show ?case by (simp add: deletes_def)
next
  case (Suc n)
  then have "[a..b - 1] = a # [a + 1..b - 1]" by (simp add: upto_rec1)
  with Suc.hyps(1) [of "a + 1" "appendElementEdit h (mkEdit Delete a j)"] Suc.hyps(2) Suc.prems covers_edit(2) [of l r h a j]
  show ?case by (simp add: deletes_def)
qed

lemma equals_covers:
  assumes "0 \<le> n" "covers l r h i j" "i + n \<le> int (length l)" "j + n \<le> int (length r)"
    and "\<And>t. 0 \<le> t \<Longrightarrow> t < n \<Longrightarrow> l ! nat (i + t) = r ! nat (j + t)"
  shows "covers l r (equals i j n h) (i + n) (j + n)"
proof -
  have "covers l r (foldl (\<lambda>h t. appendElementEdit h (mkEdit Equal (i + t) (j + t))) h [0..m - 1]) (i + m) (j + m)" if "0 \<le> m" "m \<le> n" for m
    using that
  proof (induction m rule: int_ge_induct)
    case base
    then show ?case using assms(2) by simp
  next
    case (step m)
    then have "[0..m + 1 - 1] = [0..m - 1] @ [m]" by (simp add: upto_rec2)
    with step covers_edit(1) [OF step.IH] assms(3-5) show ?case by (simp add: add.assoc)
  qed
  with assms(1) show ?thesis by (simp add: equals_def)
qed

lemma prefix_covers:
  "prefix_loop l r le re ls rs h = (ls', rs', h') \<Longrightarrow> covers l r h ls rs \<Longrightarrow> le \<le> int (length l) \<Longrightarrow> re \<le> int (length r) \<Longrightarrow>
   covers l r h' ls' rs'"
proof (induction l r le re ls rs h rule: prefix_loop.induct)
  case (1 l r le re ls rs h)
  show ?case
  proof (cases "ls < le \<and> rs < re \<and> l ! nat ls = r ! nat rs")
    case True
    then have "prefix_loop l r le re (ls + 1) (rs + 1) (appendElementEdit h (mkEdit Equal ls rs)) = (ls', rs', h')"
      using "1.prems"(1) by (subst (asm) prefix_loop.simps) simp
    from "1.IH" [OF True this] covers_edit(1) [OF "1.prems"(2)] True "1.prems"(3,4) show ?thesis by simp
  next
    case False
    with "1.prems" show ?thesis by (subst (asm) prefix_loop.simps) auto
  qed
qed

lemma suffix_equal:
  "0 \<le> t \<Longrightarrow> t < suffix_loop l r ls le rs re n \<Longrightarrow> (\<And>t. 0 \<le> t \<Longrightarrow> t < n \<Longrightarrow> l ! nat (le - t - 1) = r ! nat (re - t - 1)) \<Longrightarrow>
   l ! nat (le - t - 1) = r ! nat (re - t - 1)"
proof (induction l r ls le rs re n rule: suffix_loop.induct)
  case (1 l r ls le rs re n)
  show ?case
  proof (cases "ls < le - n \<and> rs < re - n \<and> l ! nat (le - n - 1) = r ! nat (re - n - 1)")
    case True
    then have s: "suffix_loop l r ls le rs re n = suffix_loop l r ls le rs re (n + 1)" by (subst suffix_loop.simps) simp
    show ?thesis
    proof (rule "1.IH" [OF True "1.prems"(1)])
      show "t < suffix_loop l r ls le rs re (n + 1)" using "1.prems"(2) s by simp
      show "l ! nat (le - u - 1) = r ! nat (re - u - 1)" if "0 \<le> u" "u < n + 1" for u
        using "1.prems"(3) [of u] True that by (cases "u = n") auto
    qed
  next
    case False
    then have "suffix_loop l r ls le rs re n = n" by (subst suffix_loop.simps) auto
    with "1.prems" show ?thesis by simp
  qed
qed

lemma match_loop_cases:
  assumes "a \<le> b" shows "match_loop same a b = b \<or> a \<le> match_loop same a b \<and> match_loop same a b < b \<and> same (match_loop same a b)"
  by (auto simp: match_loop_def find_Some_iff set_conv_nth split: option.split)

lemma oneLeft_covers:
  assumes "covers l r h ls rs" "le = ls + 1" "le \<le> int (length l)" "rs \<le> re" "re \<le> int (length r)"
  shows "covers l r (oneLeft l r ls le rs re h) le re"
proof -
  define k where "k = match_loop (\<lambda>i. l ! nat ls = r ! nat i) rs re"
  show ?thesis
  proof (cases "k = re")
    case True
    with covers_edit(2) [OF assms(1)] assms show ?thesis by (simp add: oneLeft_def Let_def k_def inserts_covers)
  next
    case False
    then have k: "rs \<le> k" "k < re" "l ! nat ls = r ! nat k"
      using match_loop_cases [OF assms(4), of "\<lambda>i. l ! nat ls = r ! nat i"] by (auto simp: k_def)
    have "covers l r (inserts ls rs k h) ls k" using assms k by (intro inserts_covers) auto
    from covers_edit(1) [OF this] k assms have "covers l r (appendElementEdit (inserts ls rs k h) (mkEdit Equal ls k)) le (k + 1)" by simp
    with False k assms show ?thesis unfolding oneLeft_def Let_def k_def [symmetric] by (simp add: inserts_covers)
  qed
qed

lemma oneRight_covers:
  assumes "covers l r h ls rs" "re = rs + 1" "re \<le> int (length r)" "ls \<le> le" "le \<le> int (length l)"
  shows "covers l r (oneRight l r ls le rs re h) le re"
proof -
  define k where "k = match_loop (\<lambda>i. l ! nat i = r ! nat rs) ls le"
  show ?thesis
  proof (cases "k = le")
    case True
    have "covers l r (deletes rs ls le h) le rs" using assms by (intro deletes_covers) auto
    from covers_edit(3) [OF this] True assms show ?thesis by (simp add: oneRight_def Let_def k_def)
  next
    case False
    then have k: "ls \<le> k" "k < le" "l ! nat k = r ! nat rs"
      using match_loop_cases [OF assms(4), of "\<lambda>i. l ! nat i = r ! nat rs"] by (auto simp: k_def)
    have "covers l r (deletes rs ls k h) k rs" using assms k by (intro deletes_covers) auto
    from covers_edit(1) [OF this] k assms have "covers l r (appendElementEdit (deletes rs ls k h) (mkEdit Equal k rs)) (k + 1) re" by simp
    with False k assms show ?thesis unfolding oneRight_def Let_def k_def [symmetric] by (simp add: deletes_covers)
  qed
qed

subsection \<open>Soundness\<close>

text \<open>One box: the box left after the common prefix and suffix is covered, then the suffix is.\<close>

lemma range_covers:
  assumes "prefix_loop l r le0 re0 ls0 rs0 h0 = (ls, rs, h)" "covers l r h0 ls0 rs0"
    and "ls0 \<le> le0" "rs0 \<le> re0" "le0 \<le> int (length l)" "re0 \<le> int (length r)"
    and "n = suffix_loop l r ls le0 rs re0 0"
  shows "covers l r h ls rs" "ls \<le> le0 - n" "rs \<le> re0 - n" "0 \<le> n"
    "covers l r h' (le0 - n) (re0 - n) \<Longrightarrow> covers l r (equals (le0 - n) (re0 - n) n h') le0 re0"
proof -
  have rng: "ls \<le> le0" "rs \<le> re0" using prefix_loop_range [OF assms(1,3,4)] by auto
  show "covers l r h ls rs" by (rule prefix_covers [OF assms(1,2,5,6)])
  show b: "ls \<le> le0 - n" "rs \<le> re0 - n" "0 \<le> n"
    using suffix_loop_range(1) [of 0 l r ls le0 rs re0] suffix_loop_range(2) [of ls le0 0 rs re0 l r] rng assms(7) by auto
  assume c: "covers l r h' (le0 - n) (re0 - n)"
  have "l ! nat (le0 - n + t) = r ! nat (re0 - n + t)" if "0 \<le> t" "t < n" for t
    using suffix_equal [of "n - t - 1" l r ls le0 rs re0 0] that assms(7) by (simp add: algebra_simps)
  from equals_covers [OF b(3) c _ _ this] assms(5,6) show "covers l r (equals (le0 - n) (re0 - n) n h') le0 re0" by simp
qed

lemma appendDiffRange_covers:
  "appendDiffRange cancel l r loads ls0 le0 rs0 re0 h0 = (loads', Inr h') \<Longrightarrow> covers l r h0 ls0 rs0 \<Longrightarrow>
   ls0 \<le> le0 \<Longrightarrow> rs0 \<le> re0 \<Longrightarrow> le0 \<le> int (length l) \<Longrightarrow> re0 \<le> int (length r) \<Longrightarrow> covers l r h' le0 re0"
proof (induction cancel l r loads ls0 le0 rs0 re0 h0 arbitrary: loads' h' rule: appendDiffRange.induct)
  case (1 cancel l r loads ls0 le0 rs0 re0 h0)
  obtain ls rs h where p: "prefix_loop l r le0 re0 ls0 rs0 h0 = (ls, rs, h)" by (metis prod_cases3)
  define n where "n = suffix_loop l r ls le0 rs re0 0"
  define le where "le = le0 - n"
  define re where "re = re0 - n"
  note box = range_covers [OF p "1.prems"(2-6) n_def, folded le_def re_def]
  have lim: "le \<le> int (length l)" "re \<le> int (length r)" using "1.prems"(5,6) box(4) by (auto simp: le_def re_def)
  have run: "\<not> cancel loads" using "1.prems"(1) by (subst (asm) appendDiffRange.simps) (auto split: if_splits)
  note eq = "1.prems"(1) [unfolded appendDiffRange.simps [of cancel l r loads], unfolded p prod.case Let_def,
      folded n_def, folded le_def re_def]
  consider "ls = le" | "ls \<noteq> le" "rs = re" | "ls \<noteq> le" "rs \<noteq> re" "le - ls = 1"
    | "ls \<noteq> le" "rs \<noteq> re" "le - ls \<noteq> 1" "re - rs = 1" | "ls \<noteq> le" "rs \<noteq> re" "le - ls \<noteq> 1" "re - rs \<noteq> 1" by blast
  then have "\<exists>h1. h' = equals le re n h1 \<and> covers l r h1 le re"
  proof cases
    case 1
    with eq run box lim show ?thesis by (auto intro!: inserts_covers)
  next
    case 2
    with eq run box lim show ?thesis by (auto intro!: deletes_covers)
  next
    case 3
    with eq run box lim show ?thesis by (auto intro!: oneLeft_covers)
  next
    case 4
    with eq run box lim show ?thesis by (auto intro!: oneRight_covers)
  next
    case 5
    obtain loads2 sl sr where f: "findMiddleSplit cancel (loads + 1) l r ls le rs re = (loads2, Inr (sl, sr))"
      using eq run 5 by (auto split: prod.splits sum.splits)
    have ns: "\<not> (sl = ls \<and> sr = rs \<or> sl = le \<and> sr = re)" using eq run 5 f by auto
    obtain loads3 h1 where a: "appendDiffRange cancel l r loads2 ls sl rs sr h = (loads3, Inr h1)"
      using eq run 5 f ns by (auto split: prod.splits sum.splits)
    obtain loads4 h2 where b: "appendDiffRange cancel l r loads3 sl le sr re h1 = (loads4, Inr h2)" and h': "h' = equals le re n h2"
      using eq run 5 f ns a by (auto split: prod.splits sum.splits)
    have s: "ls \<le> sl" "sl \<le> le" "rs \<le> sr" "sr \<le> re" using findMiddleSplit_box [OF f] by auto
    have c1: "covers l r h1 sl sr"
      using "1.IH"(1) [OF run p [symmetric] refl n_def le_def re_def 5 f [symmetric] refl refl ns a] box s lim by simp
    have "covers l r h2 le re"
      using "1.IH"(2) [OF run p [symmetric] refl n_def le_def re_def 5 f [symmetric] refl refl ns a [symmetric] refl b] c1 s lim by simp
    with h' show ?thesis by blast
  qed
  with box(5) show ?case by blast
qed

text \<open>A diff that succeeds is an edit script with maximal hunks from the left lines to the right lines.\<close>

lemma myers_sound:
  assumes "mrComputeMyersDiff cancel l r = Inr hs"
  shows "walk l r hs (0, 0) = Some (length l, length r)" "distinct_adj (map hk_op hs)" "patched l r hs = r" "consumed l hs = l"
proof -
  obtain loads' where a: "appendDiffRange cancel l r 0 0 (int (length l)) 0 (int (length r)) [] = (loads', Inr hs)"
    using assms by (metis mrComputeMyersDiff_def Inl_Inr_False prod.collapse)
  have "covers l r hs (int (length l)) (int (length r))"
    by (rule appendDiffRange_covers [OF a]) (simp_all add: covers_def)
  then show w: "walk l r hs (0, 0) = Some (length l, length r)" and "distinct_adj (map hk_op hs)" by (simp_all add: covers_def)
  show "patched l r hs = r" "consumed l hs = l" using walk_Some [OF w] by auto
qed

subsection \<open>Splitting a text into lines\<close>

definition dropCarriageReturn :: "string \<Rightarrow> string" where
  "dropCarriageReturn line = (if line \<noteq> [] \<and> last line = CR then butlast line else line)"

function splitLines_loop :: "string \<Rightarrow> string list" where
  "splitLines_loop t =
     (if t = [] then []
      else (let line = takeWhile (\<lambda>c. c \<noteq> LF) t in dropCarriageReturn line # splitLines_loop (drop (length line + 1) t)))"
  by pat_completeness auto
termination
  by (relation "measure length") auto

declare splitLines_loop.simps [simp del]

definition mrSplitTextLinesForDiff :: "string \<Rightarrow> string list" where
  "mrSplitTextLinesForDiff t =
     (let lines = splitLines_loop t in if t = [] then lines else if last t = LF then lines @ [[]] else lines)"

primrec join_lines :: "string list \<Rightarrow> string" where
  "join_lines [] = []"
| "join_lines (x # xs) = (if xs = [] then x else x @ LF # join_lines xs)"

lemma splitLines_step:
  assumes "LF \<notin> set line"
  shows "splitLines_loop (line @ LF # t) = dropCarriageReturn line # splitLines_loop t"
    "line \<noteq> [] \<Longrightarrow> splitLines_loop line = [dropCarriageReturn line]"
proof -
  have tw: "takeWhile (\<lambda>c. c \<noteq> LF) (line @ LF # t) = line" "takeWhile (\<lambda>c. c \<noteq> LF) line = line"
    using assms by (simp_all add: takeWhile_tail takeWhile_eq_all_conv) (metis (mono_tags, lifting) append_Nil2 takeWhile.simps(2) takeWhile_append2)+
  show "splitLines_loop (line @ LF # t) = dropCarriageReturn line # splitLines_loop t"
    by (subst splitLines_loop.simps) (simp add: tw)
  show "splitLines_loop line = [dropCarriageReturn line]" if "line \<noteq> []"
    using that by (subst splitLines_loop.simps, subst splitLines_loop.simps) (simp add: tw)
qed

lemma mrSplit_step:
  assumes "LF \<notin> set line"
  shows "mrSplitTextLinesForDiff (line @ LF # t) = dropCarriageReturn line # (if t = [] then [[]] else mrSplitTextLinesForDiff t)"
    "line \<noteq> [] \<Longrightarrow> mrSplitTextLinesForDiff line = [dropCarriageReturn line]"
  using splitLines_step [OF assms] assms
  by (auto simp: mrSplitTextLinesForDiff_def splitLines_loop.simps [of "[]"] Let_def) (metis last_in_set)

lemma line_cases [case_names Nil Line Break]:
  obtains "t = []" | "t \<noteq> []" "LF \<notin> set t" | line rest where "LF \<notin> set line" "t = line @ LF # rest"
  by (metis split_list_first)

lemma mrSplit_lines:
  "length (mrSplitTextLinesForDiff t) = (if t = [] then 0 else Suc (count_list t LF))
   \<and> (\<forall>x \<in> set (mrSplitTextLinesForDiff t). LF \<notin> set x)
   \<and> (CR \<notin> set t \<longrightarrow> join_lines (mrSplitTextLinesForDiff t) = t)"
proof (induction "length t" arbitrary: t rule: less_induct)
  case less
  have dr: "LF \<notin> set x \<Longrightarrow> LF \<notin> set (dropCarriageReturn x)" "CR \<notin> set x \<Longrightarrow> dropCarriageReturn x = x" for x
    by (auto simp: dropCarriageReturn_def dest: in_set_butlastD) (metis last_in_set)
  show ?case
  proof (cases t rule: line_cases)
    case Nil
    then show ?thesis by (simp add: mrSplitTextLinesForDiff_def splitLines_loop.simps)
  next
    case Line
    with mrSplit_step(2) [OF Line(2,1)] dr [of t] show ?thesis by simp
  next
    case (Break line rest)
    have ih: "length (mrSplitTextLinesForDiff rest) = (if rest = [] then 0 else Suc (count_list rest LF))"
      "\<forall>x \<in> set (mrSplitTextLinesForDiff rest). LF \<notin> set x"
      "CR \<notin> set rest \<Longrightarrow> join_lines (mrSplitTextLinesForDiff rest) = rest"
      using less [of rest] Break(2) by auto
    have ne: "rest \<noteq> [] \<Longrightarrow> mrSplitTextLinesForDiff rest \<noteq> []" using ih(1) by auto
    have "count_list line LF = 0" using Break(1) by simp
    with ih ne mrSplit_step(1) [OF Break(1), of rest] Break dr [of line] show ?thesis by auto
  qed
qed

end
