(* ===== verification/Ascii.thy ===== *)
theory Ascii
  imports MR_Prelude
begin

text \<open>
  The character functions of \<open><cctype>\<close> on bytes, as the sources call them, in the C locale, and the
  two string helpers every parser of the program defines for itself (\<open>trimAscii\<close>, \<open>upperAscii\<close>).
\<close>

definition ascii_lower :: string where
  "ascii_lower = ''abcdefghijklmnopqrstuvwxyz''"

definition ascii_upper :: string where
  "ascii_upper = ''ABCDEFGHIJKLMNOPQRSTUVWXYZ''"

definition toupper :: "char \<Rightarrow> char" where
  "toupper c = (case map_of (zip ascii_lower ascii_upper) c of None \<Rightarrow> c | Some u \<Rightarrow> u)"

definition isspace :: "char \<Rightarrow> bool" where
  "isspace c \<longleftrightarrow> c = CHR '' '' \<or> c = CHR 0x09 \<or> c = LF \<or> c = CHR 0x0B \<or> c = CHR 0x0C \<or> c = CR"

definition isalpha :: "char \<Rightarrow> bool" where
  "isalpha c \<longleftrightarrow> c \<in> set ascii_lower \<or> c \<in> set ascii_upper"

definition isdigit :: "char \<Rightarrow> bool" where
  "isdigit c \<longleftrightarrow> c \<in> set ''0123456789''"

definition isprint :: "char \<Rightarrow> bool" where
  "isprint c \<longleftrightarrow> 32 \<le> (of_char c :: nat) \<and> (of_char c :: nat) < 127"

definition upperAscii :: "string \<Rightarrow> string" where
  "upperAscii = map toupper"

definition trimAscii :: "string \<Rightarrow> string" where
  "trimAscii t = rev (dropWhile isspace (rev (dropWhile isspace t)))"

lemma toupper_fix: "c \<notin> set ascii_lower \<Longrightarrow> toupper c = c"
proof -
  assume "c \<notin> set ascii_lower"
  then have "map_of (zip ascii_lower ascii_upper) c = None"
    by (simp add: map_of_eq_None_iff) (auto dest: set_zip_leftD)
  then show ?thesis by (simp add: toupper_def)
qed

lemma toupper_letter: "c \<in> set ascii_lower \<Longrightarrow> toupper c \<in> set ascii_upper"
  by (auto simp: ascii_lower_def ascii_upper_def toupper_def)

lemma ascii_disjoint: "c \<in> set ascii_upper \<Longrightarrow> c \<notin> set ascii_lower"
  by (auto simp: ascii_lower_def ascii_upper_def)

lemma toupper_idem [simp]: "toupper (toupper c) = toupper c"
  using toupper_letter [of c] ascii_disjoint [of "toupper c"] by (cases "c \<in> set ascii_lower") (auto simp: toupper_fix)

lemma upperAscii_idem [simp]: "upperAscii (upperAscii t) = upperAscii t"
  by (simp add: upperAscii_def comp_def)

lemma length_upperAscii [simp]: "length (upperAscii t) = length t"
  by (simp add: upperAscii_def)

lemma isprint_upper: "c \<in> set ascii_upper \<Longrightarrow> isprint c"
  by (auto simp: ascii_upper_def isprint_def)

lemma isprint_toupper: "isprint c \<Longrightarrow> isprint (toupper c)"
  using toupper_letter [of c] isprint_upper by (cases "c \<in> set ascii_lower") (auto simp: toupper_fix)

lemma trimAscii_id: "t \<noteq> [] \<Longrightarrow> \<not> isspace (hd t) \<Longrightarrow> \<not> isspace (last t) \<Longrightarrow> trimAscii t = t"
proof -
  assume a: "t \<noteq> []" "\<not> isspace (hd t)" "\<not> isspace (last t)"
  have skip: "dropWhile P xs = xs" if "xs \<noteq> []" "\<not> P (hd xs)" for P :: "char \<Rightarrow> bool" and xs
    using that by (cases xs) auto
  show ?thesis using a by (simp add: trimAscii_def skip hd_rev)
qed

lemma trimAscii_idem [simp]: "trimAscii (trimAscii t) = trimAscii t"
proof (cases "trimAscii t = []")
  case True
  then show ?thesis by (simp only:) (simp add: trimAscii_def)
next
  case False
  let ?u = "dropWhile isspace t"
  have d: "dropWhile isspace (rev ?u) \<noteq> []" using False by (simp add: trimAscii_def)
  have "hd (trimAscii t) = hd ?u"
  proof -
    have u: "rev ?u = takeWhile isspace (rev ?u) @ dropWhile isspace (rev ?u)" by simp
    then have "?u = rev (dropWhile isspace (rev ?u)) @ rev (takeWhile isspace (rev ?u))" by (metis rev_append rev_rev_ident)
    then show ?thesis using d unfolding trimAscii_def by (metis hd_append2 rev_is_Nil_conv)
  qed
  moreover have "last (trimAscii t) = hd (dropWhile isspace (rev ?u))" by (simp add: trimAscii_def last_rev)
  moreover have "?u \<noteq> []" using d by (metis dropWhile.simps(1) rev.simps(1))
  ultimately show ?thesis using False d hd_dropWhile [of isspace t] hd_dropWhile [of isspace "rev ?u"]
    by (intro trimAscii_id) auto
qed

end
