(* ===== verification/Keymap_Token.thy ===== *)
theory Keymap_Token
  imports Ascii "HOL-Library.Word"
begin

text \<open>
  Key tokens such as \<open><Ctrl+F5>\<close> (\<open>src/keymap/MRKeymapToken.hpp\<close>, \<open>MRKeymapToken.cpp\<close>): the parser
  with its three notations and the printer. Printing a canonical token and parsing the text gives the
  token back, except for a modified plus sign.
\<close>

unbundle bit_operations_syntax

datatype MRKeymapBaseKey =
    Printable
  | F1 | F2 | F3 | F4 | F5 | F6 | F7 | F8 | F9 | F10 | F11 | F12
  | KeyLeft | KeyRight | KeyUp | KeyDown | KeyHome | KeyEnd | PageUp | PageDown
  | KeyEnter | KeyTab | KeyEsc | KeyBackspace | KeyInsert | KeyDelete
  | KeypadPlus | KeypadMinus | KeypadMultiply | KeypadEnter
  | MouseUp | MouseDown | MouseLeft | MouseRight
  | MouseButtonLeft | MouseButtonRight | MouseButtonMiddle

record MRKeymapToken =
  tk_baseKey :: MRKeymapBaseKey
  tk_modifiers :: "8 word"
  tk_printableKey :: char

definition mkToken :: "MRKeymapBaseKey \<Rightarrow> 8 word \<Rightarrow> char \<Rightarrow> MRKeymapToken" where
  "mkToken key mods printable = \<lparr>tk_baseKey = key, tk_modifiers = mods, tk_printableKey = printable\<rparr>"

definition kCtrlBit :: "8 word" where "kCtrlBit = 1"
definition kAltBit :: "8 word" where "kAltBit = 2"
definition kShiftBit :: "8 word" where "kShiftBit = 4"
definition kSuperBit :: "8 word" where "kSuperBit = 8"

definition hasModifier :: "MRKeymapToken \<Rightarrow> 8 word \<Rightarrow> bool" where
  "hasModifier t modifier \<longleftrightarrow> tk_modifiers t AND modifier \<noteq> 0"

definition namedKeys :: "(string \<times> MRKeymapBaseKey) list" where
  "namedKeys =
     [(''F1'', F1), (''F2'', F2), (''F3'', F3), (''F4'', F4), (''F5'', F5), (''F6'', F6), (''F7'', F7), (''F8'', F8),
      (''F9'', F9), (''F10'', F10), (''F11'', F11), (''F12'', F12), (''Left'', KeyLeft), (''Right'', KeyRight),
      (''Up'', KeyUp), (''Down'', KeyDown), (''Home'', KeyHome), (''End'', KeyEnd), (''PageUp'', PageUp),
      (''PageDown'', PageDown), (''Enter'', KeyEnter), (''Tab'', KeyTab), (''Esc'', KeyEsc), (''Backspace'', KeyBackspace),
      (''Insert'', KeyInsert), (''Delete'', KeyDelete), (''KeypadPlus'', KeypadPlus), (''KeypadMinus'', KeypadMinus),
      (''KeypadMultiply'', KeypadMultiply), (''KeypadEnter'', KeypadEnter), (''MouseUp'', MouseUp),
      (''MouseDown'', MouseDown), (''MouseLeft'', MouseLeft), (''MouseRight'', MouseRight),
      (''MouseButtonLeft'', MouseButtonLeft), (''MouseButtonRight'', MouseButtonRight),
      (''MouseButtonMiddle'', MouseButtonMiddle)]"

definition aliasKeys :: "(string \<times> MRKeymapBaseKey \<times> char) list" where
  "aliasKeys =
     [(''PGUP'', PageUp, NUL), (''PGDN'', PageDown, NUL), (''INS'', KeyInsert, NUL), (''DEL'', KeyDelete, NUL),
      (''GREY+'', KeypadPlus, NUL), (''GREY-'', KeypadMinus, NUL), (''GREY*'', KeypadMultiply, NUL),
      (''GREYENTER'', KeypadEnter, NUL), (''SPACE'', Printable, CHR '' ''), (''MINUS'', Printable, CHR ''-''),
      (''EQUAL'', Printable, CHR ''=''), (''MSUP'', MouseUp, NUL), (''MSDN'', MouseDown, NUL), (''MSLF'', MouseLeft, NUL),
      (''MSRT'', MouseRight, NUL), (''BTN0'', MouseButtonLeft, NUL), (''BTN1'', MouseButtonRight, NUL),
      (''BTN2'', MouseButtonMiddle, NUL)]"

definition combinedModifiers :: "(string \<times> 8 word) list" where
  "combinedModifiers =
     [(''SUPERCTRLALTSHIFT'', kSuperBit OR kCtrlBit OR kAltBit OR kShiftBit),
      (''SUPERCTRLALTSHFT'', kSuperBit OR kCtrlBit OR kAltBit OR kShiftBit),
      (''SUPERCTRLSHIFT'', kSuperBit OR kCtrlBit OR kShiftBit), (''SUPERCTRLSHFT'', kSuperBit OR kCtrlBit OR kShiftBit),
      (''SUPERALTSHIFT'', kSuperBit OR kAltBit OR kShiftBit), (''SUPERALTSHFT'', kSuperBit OR kAltBit OR kShiftBit),
      (''SUPERCTRLALT'', kSuperBit OR kCtrlBit OR kAltBit), (''SUPERCTRL'', kSuperBit OR kCtrlBit),
      (''SUPERALT'', kSuperBit OR kAltBit), (''SUPERSHIFT'', kSuperBit OR kShiftBit), (''SUPERSHFT'', kSuperBit OR kShiftBit),
      (''SUPER'', kSuperBit), (''CTRLALTSHFT'', kCtrlBit OR kAltBit OR kShiftBit), (''CTRLSHIFT'', kCtrlBit OR kShiftBit),
      (''CTRLSHFT'', kCtrlBit OR kShiftBit), (''ALTSHIFT'', kAltBit OR kShiftBit), (''ALTSHFT'', kAltBit OR kShiftBit),
      (''CTRLALT'', kCtrlBit OR kAltBit), (''CTRL'', kCtrlBit), (''ALT'', kAltBit), (''SHIFT'', kShiftBit),
      (''SHFT'', kShiftBit)]"

definition parseKeyName :: "string \<Rightarrow> 8 word \<Rightarrow> MRKeymapToken option" where
  "parseKeyName keyText mods =
     (if keyText = [] then None
      else
        (let upper = upperAscii keyText in
         if length upper = 1 \<and> isprint (upper ! 0)
         then Some (mkToken Printable mods (if isalpha (upper ! 0) then upper ! 0 else keyText ! 0))
         else
           (case find (\<lambda>(name, key). upper = upperAscii name) namedKeys of
              Some (name, key) \<Rightarrow> Some (mkToken key mods NUL)
            | None \<Rightarrow>
                (case find (\<lambda>(alias, key, printable). upper = alias) aliasKeys of
                   Some (alias, key, printable) \<Rightarrow> Some (mkToken key mods printable)
                 | None \<Rightarrow> None))))"

text \<open>The loop of \<open>parsePlusSeparated\<close> on the rest of the text from \<open>partStart\<close> on.\<close>

definition modifierBit :: "string \<Rightarrow> 8 word option" where
  "modifierBit upper =
     (if upper = ''CTRL'' then Some kCtrlBit
      else if upper = ''ALT'' then Some kAltBit
      else if upper = ''SHIFT'' \<or> upper = ''SHFT'' then Some kShiftBit
      else if upper = ''SUPER'' then Some kSuperBit
      else None)"

function plus_loop :: "string \<Rightarrow> 8 word \<Rightarrow> bool \<Rightarrow> MRKeymapToken option" where
  "plus_loop rest mods sawSeparator =
     (let part = takeWhile (\<lambda>c. c \<noteq> CHR ''+'') rest in
      if part = [] then None
      else if length part < length rest then
        (case modifierBit (upperAscii part) of
           None \<Rightarrow> None
         | Some b \<Rightarrow> plus_loop (drop (length part + 1) rest) (mods OR b) True)
      else if sawSeparator then parseKeyName part mods else None)"
  by pat_completeness auto
termination
  by (relation "measure (\<lambda>(rest, mods, saw). length rest)") auto

declare plus_loop.simps [simp del]

definition parsePlusSeparated :: "string \<Rightarrow> MRKeymapToken option" where
  "parsePlusSeparated inner = plus_loop inner 0 False"

definition starts_with :: "string \<Rightarrow> string \<Rightarrow> bool" where
  "starts_with t p \<longleftrightarrow> take (length p) t = p"

definition parseLegacyCombined :: "string \<Rightarrow> MRKeymapToken option" where
  "parseLegacyCombined inner =
     (let upper = upperAscii inner in
      case find (\<lambda>(prefix, mods). starts_with upper prefix \<and> length upper \<noteq> length prefix) combinedModifiers of
        None \<Rightarrow> None
      | Some (prefix, mods) \<Rightarrow> parseKeyName (drop (length prefix) inner) mods)"

definition canonicalName :: "MRKeymapBaseKey \<Rightarrow> string" where
  "canonicalName key = (case find (\<lambda>(name, k). k = key) namedKeys of None \<Rightarrow> [] | Some (name, k) \<Rightarrow> name)"

definition MRKeymapToken_parse :: "string \<Rightarrow> MRKeymapToken option" where
  "MRKeymapToken_parse t =
     (let trimmed = trimAscii t in
      if length trimmed < 3 \<or> hd trimmed \<noteq> CHR ''<'' \<or> last trimmed \<noteq> CHR ''>'' then None
      else
        (let inner = butlast (tl trimmed) in
         if length inner = 1 \<and> isprint (hd inner) then Some (mkToken Printable 0 (hd inner))
         else
           (case parsePlusSeparated inner of
              Some token \<Rightarrow> Some token
            | None \<Rightarrow>
                (case parseKeyName inner 0 of Some token \<Rightarrow> Some token | None \<Rightarrow> parseLegacyCombined inner))))"

definition withPlus :: "bool \<Rightarrow> string \<Rightarrow> string \<Rightarrow> string \<times> bool \<Rightarrow> string \<times> bool" where
  "withPlus has sep name st =
     (let (out, needPlus) = st in
      if has then ((if needPlus then out @ sep else out) @ name, True) else (out, needPlus))"

definition MRKeymapToken_toString :: "MRKeymapToken \<Rightarrow> string" where
  "MRKeymapToken_toString t =
     (let (out, needPlus) =
            withPlus (hasModifier t kShiftBit) ''+'' ''Shift''
              (withPlus (hasModifier t kAltBit) ''+'' ''Alt''
                (withPlus (hasModifier t kCtrlBit) ''+'' ''Ctrl''
                  (withPlus (hasModifier t kSuperBit) [] ''Super'' (''<'', False))));
          out1 = (if needPlus then out @ ''+'' else out);
          out2 = out1 @ (if tk_baseKey t = Printable
                         then (if tk_printableKey t = CHR '' '' then ''Space'' else [tk_printableKey t])
                         else canonicalName (tk_baseKey t))
      in out2 @ ''>'')"

subsection \<open>The modifiers and the key of a printed token\<close>

definition key_text :: "MRKeymapToken \<Rightarrow> string" where
  "key_text t = (if tk_baseKey t = Printable
     then (if tk_printableKey t = CHR '' '' then ''Space'' else [tk_printableKey t]) else canonicalName (tk_baseKey t))"

definition mod_names :: "MRKeymapToken \<Rightarrow> (string \<times> 8 word) list" where
  "mod_names t = filter (\<lambda>(name, b). hasModifier t b)
     [(''Super'', kSuperBit), (''Ctrl'', kCtrlBit), (''Alt'', kAltBit), (''Shift'', kShiftBit)]"

lemma toString_parts:
  "MRKeymapToken_toString t = ''<'' @ concat (map (\<lambda>(name, b). name @ ''+'') (mod_names t)) @ key_text t @ ''>''"
  by (simp add: MRKeymapToken_toString_def withPlus_def mod_names_def key_text_def)

lemma modifier_bits:
  assumes "m < (16 :: 8 word)"
  shows "foldl (OR) 0 (map snd (mod_names \<lparr>tk_baseKey = k, tk_modifiers = m, tk_printableKey = c\<rparr>)) = m"
proof -
  have "m \<in> set (map of_nat [0..<16])" using unat_mono [OF assms] by (auto intro!: image_eqI [of _ _ "unat m"])
  then show ?thesis by (auto simp: mod_names_def hasModifier_def kSuperBit_def kCtrlBit_def kAltBit_def kShiftBit_def upt_rec)
qed

lemma no_mods: "m < (16 :: 8 word) \<Longrightarrow> mod_names \<lparr>tk_baseKey = k, tk_modifiers = m, tk_printableKey = c\<rparr> = [] \<longleftrightarrow> m = 0"
  using modifier_bits [of m k c]
  by (auto simp: mod_names_def hasModifier_def)

lemma plus_step:
  assumes "CHR ''+'' \<notin> set p" "p \<noteq> []" "modifierBit (upperAscii p) = Some b"
  shows "plus_loop (p @ CHR ''+'' # rest) m saw = plus_loop rest (m OR b) True"
proof -
  have tw: "takeWhile (\<lambda>c. c \<noteq> CHR ''+'') (p @ CHR ''+'' # rest) = p" using assms(1) by (auto simp: takeWhile_tail takeWhile_eq_all_conv)
  show ?thesis by (subst plus_loop.simps) (simp add: tw assms)
qed

lemma plus_last:
  assumes "CHR ''+'' \<notin> set p" "p \<noteq> []"
  shows "plus_loop p m saw = (if saw then parseKeyName p m else None)"
proof -
  have tw: "takeWhile (\<lambda>c. c \<noteq> CHR ''+'') p = p" using assms(1) by (auto simp: takeWhile_eq_all_conv)
  show ?thesis by (subst plus_loop.simps) (simp add: tw assms)
qed

lemma mod_names_bit:
  assumes "(name, b) \<in> set (mod_names t)"
  shows "CHR ''+'' \<notin> set name" "name \<noteq> []" "modifierBit (upperAscii name) = Some b"
proof -
  have "(name, b) \<in> {(''Super'', kSuperBit), (''Ctrl'', kCtrlBit), (''Alt'', kAltBit), (''Shift'', kShiftBit)}"
    using assms by (auto simp: mod_names_def split: if_splits)
  then show "CHR ''+'' \<notin> set name" "name \<noteq> []" "modifierBit (upperAscii name) = Some b"
    by (auto simp: modifierBit_def upperAscii_def toupper_def ascii_lower_def ascii_upper_def)
qed

lemma plus_mods:
  "set ms \<subseteq> set (mod_names t) \<Longrightarrow>
   plus_loop (concat (map (\<lambda>(name, b). name @ ''+'') ms) @ rest) m saw = plus_loop rest (foldl (OR) m (map snd ms)) (saw \<or> ms \<noteq> [])"
proof (induction ms arbitrary: m saw)
  case (Cons x ms)
  obtain name b where x: "x = (name, b)" by (cases x)
  then have "(name, b) \<in> set (mod_names t)" using Cons.prems by simp
  from plus_step [OF mod_names_bit [OF this], of "concat (map (\<lambda>(name, b). name @ ''+'') ms) @ rest" m saw] Cons x show ?case by simp
qed simp

subsection \<open>Key names\<close>

lemma parseKeyName_mods: "parseKeyName t m = map_option (\<lambda>k. k\<lparr>tk_modifiers := m\<rparr>) (parseKeyName t 0)"
  by (auto simp: parseKeyName_def mkToken_def Let_def split: option.split)

lemma named_keys_parse:
  "list_all (\<lambda>(name, key). parseKeyName name 0 = Some (mkToken key 0 NUL) \<and> canonicalName key = name
     \<and> CHR ''+'' \<notin> set name \<and> CHR ''>'' \<notin> set name \<and> 1 < length name \<and> key \<noteq> Printable) namedKeys"
  by code_simp

lemma space_parse: "parseKeyName ''Space'' 0 = Some (mkToken Printable 0 (CHR '' ''))"
  by code_simp

lemma key_named: "key \<noteq> Printable \<Longrightarrow> key \<in> snd ` set namedKeys"
  by (cases key) (simp_all add: namedKeys_def)

lemma parse_named:
  assumes "key \<noteq> Printable"
  shows "parseKeyName (canonicalName key) m = Some (mkToken key m NUL)" "CHR ''+'' \<notin> set (canonicalName key)"
    "CHR ''>'' \<notin> set (canonicalName key)" "1 < length (canonicalName key)"
proof -
  obtain name where "(name, key) \<in> set namedKeys" using key_named [OF assms] by auto
  with named_keys_parse have "parseKeyName name 0 = Some (mkToken key 0 NUL)" "canonicalName key = name"
    "CHR ''+'' \<notin> set name" "CHR ''>'' \<notin> set name" "1 < length name" by (auto simp: list_all_iff)
  then show "parseKeyName (canonicalName key) m = Some (mkToken key m NUL)" "CHR ''+'' \<notin> set (canonicalName key)"
    "CHR ''>'' \<notin> set (canonicalName key)" "1 < length (canonicalName key)"
    using parseKeyName_mods [of name m] by (auto simp: mkToken_def)
qed

lemma parse_printable:
  assumes "isprint c" "c \<notin> set ascii_lower"
  shows "parseKeyName (if c = CHR '' '' then ''Space'' else [c]) m = Some (mkToken Printable m c)"
  using assms space_parse parseKeyName_mods [of "''Space''" m]
  by (simp add: parseKeyName_def [of "[c]"] upperAscii_def toupper_fix mkToken_def)

subsection \<open>Printing and parsing\<close>

text \<open>The tokens the parser can yield, without the one whose text it cannot read: a modified plus.\<close>

definition canonical_token :: "MRKeymapToken \<Rightarrow> bool" where
  "canonical_token t \<longleftrightarrow> tk_modifiers t < 16 \<and>
     (if tk_baseKey t = Printable
      then isprint (tk_printableKey t) \<and> (tk_modifiers t \<noteq> 0 \<longrightarrow> tk_printableKey t \<notin> set ascii_lower \<and> tk_printableKey t \<noteq> CHR ''+'')
      else tk_printableKey t = NUL)"

lemma key_text_ok:
  assumes "canonical_token t"
  shows "key_text t \<noteq> []" "tk_modifiers t \<noteq> 0 \<Longrightarrow> CHR ''+'' \<notin> set (key_text t)"
    "tk_modifiers t \<noteq> 0 \<Longrightarrow> parseKeyName (key_text t) (tk_modifiers t) = Some t"
proof -
  show "key_text t \<noteq> []" using parse_named(4) [of "tk_baseKey t"] by (auto simp: key_text_def)
  show "CHR ''+'' \<notin> set (key_text t)" if "tk_modifiers t \<noteq> 0"
    using assms that parse_named(2) [of "tk_baseKey t"] by (auto simp: key_text_def canonical_token_def)
  show "parseKeyName (key_text t) (tk_modifiers t) = Some t" if "tk_modifiers t \<noteq> 0"
    using assms that parse_named(1) [of "tk_baseKey t" "tk_modifiers t"] parse_printable [of "tk_printableKey t" "tk_modifiers t"]
    by (cases t) (auto simp: key_text_def canonical_token_def mkToken_def split: if_splits)
qed

lemma parse_bracketed:
  assumes "inner \<noteq> []"
  shows "MRKeymapToken_parse (''<'' @ inner @ ''>'') =
     (if length inner = 1 \<and> isprint (hd inner) then Some (mkToken Printable 0 (hd inner))
      else case parsePlusSeparated inner of Some token \<Rightarrow> Some token
           | None \<Rightarrow> (case parseKeyName inner 0 of Some token \<Rightarrow> Some token | None \<Rightarrow> parseLegacyCombined inner))"
proof -
  have "trimAscii (''<'' @ inner @ ''>'') = ''<'' @ inner @ ''>''" by (rule trimAscii_id) (simp_all add: isspace_def)
  moreover have "\<not> length inner + 2 < 3" using assms by (cases inner) auto
  ultimately show ?thesis by (simp add: MRKeymapToken_parse_def)
qed

lemma token_round_trip:
  assumes "canonical_token t" shows "MRKeymapToken_parse (MRKeymapToken_toString t) = Some t"
proof -
  note k = key_text_ok [OF assms]
  have m: "tk_modifiers t < 16" using assms by (simp add: canonical_token_def)
  show ?thesis
  proof (cases "tk_modifiers t = 0")
    case True
    then have none: "mod_names t = []" by (simp add: mod_names_def hasModifier_def)
    show ?thesis
    proof (cases "tk_baseKey t = Printable \<and> tk_printableKey t \<noteq> CHR '' ''")
      case printable: True
      with assms have "isprint (tk_printableKey t)" by (simp add: canonical_token_def)
      with printable True none show ?thesis
        by (cases t) (simp add: toString_parts key_text_def parse_bracketed [of "[_]", simplified] mkToken_def)
    next
      case False
      have key: "parseKeyName (key_text t) 0 = Some t" "CHR ''+'' \<notin> set (key_text t)" "1 < length (key_text t)"
        using False assms True parse_named(1) [of "tk_baseKey t" 0] parse_named(2-4) [of "tk_baseKey t"] space_parse
        by (cases t; auto simp: key_text_def canonical_token_def mkToken_def split: if_splits)+
      then have "parsePlusSeparated (key_text t) = None" using k(1) by (simp add: parsePlusSeparated_def plus_last)
      with key k(1) none show ?thesis by (simp add: toString_parts parse_bracketed [simplified])
    qed
  next
    case False
    let ?p = "concat (map (\<lambda>(name, b). name @ ''+'') (mod_names t)) @ key_text t"
    have ne: "mod_names t \<noteq> []" using no_mods [OF m] False by (cases t) simp
    have "foldl (OR) 0 (map snd (mod_names t)) = tk_modifiers t" using modifier_bits [OF m] by (cases t) simp
    with plus_mods [of "mod_names t" t "key_text t" 0 False] plus_last [OF k(2) k(1)] k(3) False ne
    have "parsePlusSeparated ?p = Some t" by (simp add: parsePlusSeparated_def)
    moreover have "length ?p \<noteq> 1" using ne mod_names_bit(2) k(1) by (cases "mod_names t") (auto split: prod.splits)
    ultimately show ?thesis using k(1) parse_bracketed [of ?p] by (simp add: toString_parts)
  qed
qed

subsection \<open>What the parser yields\<close>

definition modified_plus :: "MRKeymapToken \<Rightarrow> bool" where
  "modified_plus t \<longleftrightarrow> tk_baseKey t = Printable \<and> tk_printableKey t = CHR ''+'' \<and> tk_modifiers t \<noteq> 0"

definition plain_key :: "MRKeymapToken \<Rightarrow> bool" where
  "plain_key t \<longleftrightarrow> (if tk_baseKey t = Printable
     then isprint (tk_printableKey t) \<and> tk_printableKey t \<notin> set ascii_lower else tk_printableKey t = NUL)"

lemma find_Some_in: "find P xs = Some x \<Longrightarrow> x \<in> set xs \<and> P x"
  by (induction xs) (auto split: if_splits)

lemma alias_keys_plain:
  "list_all (\<lambda>(alias, key, printable). plain_key (mkToken key 0 printable) \<and> printable \<noteq> CHR ''>'') aliasKeys"
  by code_simp

lemma parseKeyName_plain:
  assumes "parseKeyName t m = Some k"
  shows "tk_modifiers k = m" "plain_key k" "CHR ''>'' \<notin> set t \<Longrightarrow> tk_printableKey k \<noteq> CHR ''>''"
proof -
  have "tk_modifiers k = m \<and> plain_key k \<and> (CHR ''>'' \<notin> set t \<longrightarrow> tk_printableKey k \<noteq> CHR ''>'')"
  proof (cases "length (upperAscii t) = 1 \<and> isprint (upperAscii t ! 0)")
    case True
    then obtain c where t: "t = [c]" by (cases t) auto
    show ?thesis
    proof (cases "c \<in> set ascii_lower")
      case lower: True
      then have "toupper c \<in> set ascii_upper" by (rule toupper_letter)
      moreover have "CHR ''>'' \<notin> set ascii_upper" by (simp add: ascii_upper_def)
      ultimately show ?thesis using assms t True ascii_disjoint [of "toupper c"] isprint_upper
        by (auto simp: parseKeyName_def upperAscii_def mkToken_def plain_key_def isalpha_def)
    next
      case False
      with assms t True show ?thesis
        by (auto simp: parseKeyName_def upperAscii_def toupper_fix mkToken_def plain_key_def)
    qed
  next
    case False
    show ?thesis
    proof (cases "find (\<lambda>(name, key). upperAscii t = upperAscii name) namedKeys")
      case (Some nk)
      obtain name key where nk: "nk = (name, key)" by (cases nk)
      with find_Some_in [OF Some] named_keys_parse have "key \<noteq> Printable" by (auto simp: list_all_iff)
      with assms False Some nk show ?thesis
        by (auto simp: parseKeyName_def Let_def mkToken_def plain_key_def split: if_splits)
    next
      case None
      with assms False obtain a where a: "find (\<lambda>(alias, key, printable). upperAscii t = alias) aliasKeys = Some a"
          "k = mkToken (fst (snd a)) m (snd (snd a))"
        by (auto simp: parseKeyName_def Let_def split: if_splits option.splits)
      with find_Some_in [OF a(1)] alias_keys_plain have "plain_key (mkToken (fst (snd a)) 0 (snd (snd a)))" "snd (snd a) \<noteq> CHR ''>''"
        by (auto simp: list_all_iff)
      with a(2) show ?thesis by (auto simp: plain_key_def mkToken_def)
    qed
  qed
  then show "tk_modifiers k = m" "plain_key k" "CHR ''>'' \<notin> set t \<Longrightarrow> tk_printableKey k \<noteq> CHR ''>''" by auto
qed

lemma or_small:
  assumes "m < (16 :: 8 word)" "b \<in> {kCtrlBit, kAltBit, kShiftBit, kSuperBit}" shows "m OR b < 16"
proof -
  have "m \<in> set (map of_nat [0..<16])" using unat_mono [OF assms(1)] by (auto intro!: image_eqI [of _ _ "unat m"])
  with assms(2) show ?thesis by (auto simp: kSuperBit_def kCtrlBit_def kAltBit_def kShiftBit_def upt_rec)
qed

lemma modifierBit_range: "modifierBit u = Some b \<Longrightarrow> b \<in> {kCtrlBit, kAltBit, kShiftBit, kSuperBit}"
  by (auto simp: modifierBit_def split: if_splits)

lemma plus_loop_plain:
  "plus_loop rest m saw = Some k \<Longrightarrow> m < 16 \<Longrightarrow>
   tk_modifiers k < 16 \<and> plain_key k \<and> (CHR ''>'' \<notin> set rest \<longrightarrow> tk_printableKey k \<noteq> CHR ''>'')"
proof (induction rest m saw rule: plus_loop.induct)
  case (1 rest m saw)
  define part where "part = takeWhile (\<lambda>c. c \<noteq> CHR ''+'') rest"
  note eq = "1.prems"(1) [unfolded plus_loop.simps [of rest], folded part_def, unfolded Let_def]
  have ne: "part \<noteq> []" using eq by auto
  have sub: "set part \<subseteq> set rest" unfolding part_def by (auto dest: set_takeWhileD)
  show ?case
  proof (cases "length part < length rest")
    case True
    then obtain b where b: "modifierBit (upperAscii part) = Some b"
        "plus_loop (drop (length part + 1) rest) (m OR b) True = Some k"
      using eq ne by (auto split: option.splits)
    from "1.IH" [OF part_def ne True b(1)] b or_small [OF "1.prems"(2) modifierBit_range [OF b(1)]]
    show ?thesis by (auto dest: in_set_dropD)
  next
    case False
    then have "parseKeyName part m = Some k" using eq ne by (auto split: if_splits)
    from parseKeyName_plain [OF this] "1.prems"(2) sub show ?thesis by auto
  qed
qed

lemma combined_small: "list_all (\<lambda>(prefix, mods). mods < 16) combinedModifiers"
  by code_simp

lemma parse_plain:
  assumes "MRKeymapToken_parse s = Some t"
  shows "tk_modifiers t < 16 \<and> (tk_modifiers t = 0 \<and> tk_baseKey t = Printable \<and> isprint (tk_printableKey t) \<or> plain_key t)
    \<and> (CHR ''>'' \<notin> set (butlast (tl (trimAscii s))) \<longrightarrow> tk_printableKey t \<noteq> CHR ''>'')"
proof -
  define inner where "inner = butlast (tl (trimAscii s))"
  consider "inner \<noteq> []" "isprint (hd inner)" "t = mkToken Printable 0 (hd inner)" | "parsePlusSeparated inner = Some t"
    | "parseKeyName inner 0 = Some t" | "parseLegacyCombined inner = Some t"
    using assms by (fastforce simp: MRKeymapToken_parse_def Let_def inner_def [symmetric] split: if_splits option.splits)
  then show ?thesis
  proof cases
    case 1
    have "hd inner \<in> set inner" using 1(1) by simp
    with 1 show ?thesis by (auto simp: mkToken_def inner_def [symmetric] simp del: hd_in_set)
  next
    case 2
    from plus_loop_plain [OF 2 [unfolded parsePlusSeparated_def]] show ?thesis by (simp add: inner_def)
  next
    case 3
    from parseKeyName_plain [OF 3] show ?thesis by (auto simp: inner_def)
  next
    case 4
    then obtain pm where pm: "find (\<lambda>(prefix, mods). starts_with (upperAscii inner) prefix \<and> length (upperAscii inner) \<noteq> length prefix)
        combinedModifiers = Some pm" "parseKeyName (drop (length (fst pm)) inner) (snd pm) = Some t"
      by (auto simp: parseLegacyCombined_def Let_def split: option.splits)
    with find_Some_in [OF pm(1)] combined_small have "snd pm < 16" by (auto simp: list_all_iff)
    with parseKeyName_plain [OF pm(2)] show ?thesis by (auto simp: inner_def dest: in_set_dropD)
  qed
qed

lemma parsed_canonical:
  "MRKeymapToken_parse s = Some t \<Longrightarrow> \<not> modified_plus t \<Longrightarrow> canonical_token t"
  using parse_plain [of s t] by (auto simp: canonical_token_def plain_key_def modified_plus_def)

text \<open>The exception is real: the legacy notation reads a modified plus, whose text cannot be read.\<close>

lemma plus_token_lost:
  "MRKeymapToken_parse ''<Ctrl+>'' = Some (mkToken Printable kCtrlBit (CHR ''+''))
   \<and> MRKeymapToken_toString (mkToken Printable kCtrlBit (CHR ''+'')) = ''<Ctrl++>''
   \<and> MRKeymapToken_parse ''<Ctrl++>'' = None"
  by code_simp

end
