(* ===== verification/Keymap_Sequence.thy ===== *)
theory Keymap_Sequence
  imports Keymap_Token
begin

text \<open>
  Key sequences and contexts (\<open>src/keymap/MRKeymapSequence.cpp\<close>, \<open>MRKeymapContext.cpp\<close>). A sequence
  that was parsed prints to a text that parses to the same sequence.
\<close>

subsection \<open>Contexts\<close>

datatype MRKeymapContext =
  ContextNone | ContextMenu | ContextDialog | ContextDialogList | ContextList | ContextReadOnly | ContextEdit

definition contexts :: "(string \<times> MRKeymapContext) list" where
  "contexts = [(''MENU'', ContextMenu), (''DIALOG'', ContextDialog), (''DIALOG_LIST'', ContextDialogList),
     (''LIST'', ContextList), (''READONLY'', ContextReadOnly), (''EDIT'', ContextEdit)]"

definition parseKeymapContext :: "string \<Rightarrow> MRKeymapContext option" where
  "parseKeymapContext t = map_option snd (find (\<lambda>(name, c). name = upperAscii t) contexts)"

definition keymapContextName :: "MRKeymapContext \<Rightarrow> string" where
  "keymapContextName context = (case find (\<lambda>(name, c). c = context) contexts of None \<Rightarrow> ''NONE'' | Some (name, c) \<Rightarrow> name)"

lemma context_round_trip: "context \<noteq> ContextNone \<Longrightarrow> parseKeymapContext (keymapContextName context) = Some context"
  by (cases "context") (simp_all add: parseKeymapContext_def keymapContextName_def contexts_def upperAscii_def
      toupper_def ascii_lower_def ascii_upper_def)

lemma context_parse_name: "parseKeymapContext t = Some context \<Longrightarrow> keymapContextName context = upperAscii t"
  by (auto simp: parseKeymapContext_def keymapContextName_def contexts_def split: if_splits)

subsection \<open>Sequences\<close>

type_synonym MRKeymapSequence = "MRKeymapToken list"

function sequence_loop :: "string \<Rightarrow> MRKeymapToken list \<Rightarrow> MRKeymapToken list option" where
  "sequence_loop rest0 tokens =
     (let rest = dropWhile isspace rest0 in
      if rest = [] then Some tokens
      else if hd rest \<noteq> CHR ''<'' then None
      else
        (let body = takeWhile (\<lambda>c. c \<noteq> CHR ''>'') (tl rest) in
         if length body = length (tl rest) then None
         else
           (case MRKeymapToken_parse (''<'' @ body @ ''>'') of
              None \<Rightarrow> None
            | Some token \<Rightarrow>
                (let rest' = drop (length body + 2) rest in
                 if rest' \<noteq> [] \<and> \<not> isspace (hd rest') \<and> hd rest' \<noteq> CHR ''<'' then None
                 else sequence_loop rest' (tokens @ [token])))))"
  by pat_completeness auto
termination
proof (relation "measure (\<lambda>(rest, tokens). length rest)", goal_cases)
  case (2 rest0 tokens rest body token rest')
  have r: "rest = dropWhile isspace rest0" "rest \<noteq> []" "rest' = drop (length body + 2) rest" by (fact 2)+
  then have "length rest' < length rest" by simp
  then show ?case using length_dropWhile_le [of isspace rest0] r(1) by simp
qed simp

declare sequence_loop.simps [simp del]

definition MRKeymapSequence_parse :: "string \<Rightarrow> MRKeymapSequence option" where
  "MRKeymapSequence_parse t0 =
     (let t = trimAscii t0 in
      if t = [] then None
      else
        (case sequence_loop t [] of
           None \<Rightarrow> None
         | Some tokens \<Rightarrow> if tokens = [] then None else Some tokens))"

fun sequenceText_loop :: "bool \<Rightarrow> MRKeymapToken list \<Rightarrow> string" where
  "sequenceText_loop first [] = []"
| "sequenceText_loop first (t # ts) =
     (if first then [] else '' '') @ MRKeymapToken_toString t @ sequenceText_loop False ts"

definition MRKeymapSequence_toString :: "MRKeymapSequence \<Rightarrow> string" where
  "MRKeymapSequence_toString ts = sequenceText_loop True ts"

subsection \<open>Printing and parsing\<close>

definition sequence_token :: "MRKeymapToken \<Rightarrow> bool" where
  "sequence_token t \<longleftrightarrow> canonical_token t \<and> tk_printableKey t \<noteq> CHR ''>''"

lemma token_text:
  assumes "sequence_token t"
  obtains body where "MRKeymapToken_toString t = ''<'' @ body @ ''>''" "CHR ''>'' \<notin> set body"
proof -
  have "CHR ''>'' \<notin> set (key_text t)"
    using assms parse_named(3) [of "tk_baseKey t"] by (auto simp: sequence_token_def key_text_def)
  moreover have "CHR ''>'' \<notin> set (concat (map (\<lambda>(name, b). name @ ''+'') (mod_names t)))"
    by (auto simp: mod_names_def split: if_splits)
  ultimately show thesis by (intro that [of "concat (map (\<lambda>(name, b). name @ ''+'') (mod_names t)) @ key_text t"])
      (simp_all add: toString_parts)
qed

lemma sequence_step:
  assumes "sequence_token t" "rest = [] \<or> hd rest = CHR '' ''" "dropWhile isspace s = MRKeymapToken_toString t @ rest"
  shows "sequence_loop s tokens = sequence_loop rest (tokens @ [t])"
proof -
  obtain body where b: "MRKeymapToken_toString t = ''<'' @ body @ ''>''" "CHR ''>'' \<notin> set body"
    using token_text [OF assms(1)] by blast
  have tw: "takeWhile (\<lambda>c. c \<noteq> CHR ''>'') (body @ CHR ''>'' # rest) = body"
    using b(2) by (auto simp: takeWhile_tail takeWhile_eq_all_conv)
  have p: "MRKeymapToken_parse (''<'' @ body @ ''>'') = Some t"
    using token_round_trip [of t] assms(1) b(1) by (simp add: sequence_token_def)
  show ?thesis
    using assms(2) tw p by (subst sequence_loop.simps) (auto simp: assms(3) b(1) isspace_def)
qed

lemma sequence_loop_text:
  "list_all sequence_token ts \<Longrightarrow> sequence_loop (sequenceText_loop first ts) tokens = Some (tokens @ ts)"
proof (induction ts arbitrary: first tokens)
  case Nil
  then show ?case by (simp add: sequence_loop.simps)
next
  case (Cons t ts)
  obtain body where b: "MRKeymapToken_toString t = ''<'' @ body @ ''>''" using token_text [of t] Cons.prems by auto
  have "sequenceText_loop False ts = [] \<or> hd (sequenceText_loop False ts) = CHR '' ''" by (cases ts) auto
  moreover have "dropWhile isspace (sequenceText_loop first (t # ts)) = MRKeymapToken_toString t @ sequenceText_loop False ts"
    by (simp add: b isspace_def)
  ultimately have "sequence_loop (sequenceText_loop first (t # ts)) tokens = sequence_loop (sequenceText_loop False ts) (tokens @ [t])"
    using Cons.prems by (intro sequence_step) auto
  with Cons show ?case by simp
qed

lemma sequence_print_parse:
  assumes "ts \<noteq> []" "list_all sequence_token ts"
  shows "MRKeymapSequence_parse (MRKeymapSequence_toString ts) = Some ts"
proof -
  have ends: "sequenceText_loop first ts \<noteq> [] \<and> last (sequenceText_loop first ts) = CHR ''>''" if "ts \<noteq> []" for first ts
    using that
  proof (induction ts arbitrary: first)
    case (Cons t ts)
    then show ?case by (cases "ts = []") (simp_all add: toString_parts)
  qed simp
  have "hd (sequenceText_loop True ts) = CHR ''<''" using assms(1) by (cases ts) (simp_all add: toString_parts)
  with ends [OF assms(1), of True] have "trimAscii (sequenceText_loop True ts) = sequenceText_loop True ts"
    by (intro trimAscii_id) (simp_all add: isspace_def)
  with ends [OF assms(1), of True] sequence_loop_text [OF assms(2), of True "[]"] assms(1) show ?thesis
    by (simp add: MRKeymapSequence_parse_def MRKeymapSequence_toString_def)
qed

lemma sequence_loop_tokens:
  "sequence_loop s tokens = Some ts \<Longrightarrow> list_all (\<lambda>t. modified_plus t \<or> sequence_token t) tokens \<Longrightarrow>
   list_all (\<lambda>t. modified_plus t \<or> sequence_token t) ts"
proof (induction s tokens rule: sequence_loop.induct)
  case (1 s tokens)
  define rest where "rest = dropWhile isspace s"
  define body where "body = takeWhile (\<lambda>c. c \<noteq> CHR ''>'') (tl rest)"
  note eq = "1.prems"(1) [unfolded sequence_loop.simps [of s], folded rest_def, unfolded Let_def, folded body_def]
  show ?case
  proof (cases "rest = []")
    case True
    with eq "1.prems"(2) show ?thesis by simp
  next
    case False
    then obtain t where h: "\<not> hd rest \<noteq> CHR ''<''" "\<not> length body = length (tl rest)" "MRKeymapToken_parse (''<'' @ body @ ''>'') = Some t"
      "\<not> (drop (length body + 2) rest \<noteq> [] \<and> \<not> isspace (hd (drop (length body + 2) rest)) \<and> hd (drop (length body + 2) rest) \<noteq> CHR ''<'')"
      "sequence_loop (drop (length body + 2) rest) (tokens @ [t]) = Some ts"
      using eq by (auto split: if_splits option.splits)
    have "CHR ''>'' \<notin> set body" unfolding body_def by (auto dest: set_takeWhileD)
    moreover have "trimAscii (''<'' @ body @ ''>'') = ''<'' @ body @ ''>''" by (rule trimAscii_id) (simp_all add: isspace_def)
    ultimately have "modified_plus t \<or> sequence_token t"
      using parse_plain [OF h(3)] parsed_canonical [OF h(3)] by (auto simp: sequence_token_def)
    with "1.IH" [OF rest_def False h(1) body_def h(2,3) refl h(4,5)] "1.prems"(2) show ?thesis by simp
  qed
qed

lemma sequence_round_trip:
  assumes "MRKeymapSequence_parse s = Some ts" "\<not> list_ex modified_plus ts"
  shows "MRKeymapSequence_parse (MRKeymapSequence_toString ts) = Some ts"
proof (rule sequence_print_parse)
  have p: "ts \<noteq> []" "sequence_loop (trimAscii s) [] = Some ts"
    using assms(1) by (auto simp: MRKeymapSequence_parse_def Let_def split: if_splits option.splits)
  show "ts \<noteq> []" by (rule p(1))
  show "list_all sequence_token ts"
    using sequence_loop_tokens [OF p(2)] assms(2) by (auto simp: list_all_iff list_ex_iff)
qed

end
