(* ===== verification/Keymap_Trie.thy ===== *)
theory Keymap_Trie
  imports Keymap_Sequence "HOL-Library.Sublist"
begin

text \<open>
  The dispatch trie of the keymap (\<open>src/keymap/MRKeymapTrie.cpp\<close>): an arena of nodes with edge lists
  and one root per context. \<open>rebuild\<close> succeeds exactly on bindings whose sequences are prefix-free
  within each context, and then \<open>decide\<close> answers as a search through the list of bindings.
\<close>

subsection \<open>Bindings\<close>

datatype MRKeymapBindingType = BindAction | BindMacro

record MRKeymapBindingTarget =
  bt_type :: MRKeymapBindingType
  bt_target :: string

record MRKeymapBindingRecord =
  br_profileName :: string
  br_context :: MRKeymapContext
  br_target :: MRKeymapBindingTarget
  br_sequence :: MRKeymapSequence
  br_description :: string

subsection \<open>The trie\<close>

datatype DecisionKind = NoMatch | Pending | Matched

record Decision =
  dc_kind :: DecisionKind
  dc_target :: MRKeymapBindingTarget
  dc_description :: string

definition emptyTarget :: MRKeymapBindingTarget where
  "emptyTarget = \<lparr>bt_type = BindAction, bt_target = []\<rparr>"

definition emptyDecision :: Decision where
  "emptyDecision = \<lparr>dc_kind = NoMatch, dc_target = emptyTarget, dc_description = []\<rparr>"

record Edge =
  ed_token :: MRKeymapToken
  ed_nextIndex :: nat

record Node =
  nd_edges :: "Edge list"
  nd_terminal :: bool
  nd_target :: MRKeymapBindingTarget
  nd_description :: string

definition emptyNode :: Node where
  "emptyNode = \<lparr>nd_edges = [], nd_terminal = False, nd_target = emptyTarget, nd_description = []\<rparr>"

record MRKeymapTrie =
  tr_nodes :: "Node list"
  tr_roots :: "nat list"

fun contextIndex :: "MRKeymapContext \<Rightarrow> nat" where
  "contextIndex ContextNone = 0"
| "contextIndex ContextMenu = 1"
| "contextIndex ContextDialog = 2"
| "contextIndex ContextDialogList = 3"
| "contextIndex ContextList = 4"
| "contextIndex ContextReadOnly = 5"
| "contextIndex ContextEdit = 6"

definition kContextCount :: nat where
  "kContextCount = contextIndex ContextEdit + 1"

text \<open>The inner loop over the edges, and the walk of \<open>decide\<close>.\<close>

definition edgeFor :: "Node \<Rightarrow> MRKeymapToken \<Rightarrow> nat option" where
  "edgeFor node token = map_option ed_nextIndex (find (\<lambda>e. ed_token e = token) (nd_edges node))"

fun walk_tokens :: "Node list \<Rightarrow> nat \<Rightarrow> MRKeymapToken list \<Rightarrow> nat option" where
  "walk_tokens nodes nodeIndex [] = Some nodeIndex"
| "walk_tokens nodes nodeIndex (token # tokens) =
     (case edgeFor (nodes ! nodeIndex) token of
        None \<Rightarrow> None
      | Some next \<Rightarrow> walk_tokens nodes next tokens)"

definition decide :: "MRKeymapTrie \<Rightarrow> MRKeymapContext \<Rightarrow> MRKeymapToken list \<Rightarrow> Decision" where
  "decide trie context sequence =
     (if context = ContextNone \<or> sequence = [] then emptyDecision
      else if contextIndex context \<ge> length (tr_roots trie) then emptyDecision
      else if tr_roots trie ! contextIndex context = 0 then emptyDecision
      else
        (case walk_tokens (tr_nodes trie) (tr_roots trie ! contextIndex context) sequence of
           None \<Rightarrow> emptyDecision
         | Some i \<Rightarrow>
             (let node = tr_nodes trie ! i in
              if nd_terminal node
              then \<lparr>dc_kind = Matched, dc_target = nd_target node, dc_description = nd_description node\<rparr>
              else if nd_edges node \<noteq> [] then emptyDecision\<lparr>dc_kind := Pending\<rparr>
              else emptyDecision)))"

definition ensureContextRoot :: "MRKeymapTrie \<Rightarrow> MRKeymapContext \<Rightarrow> MRKeymapTrie \<times> nat" where
  "ensureContextRoot trie context =
     (let nodeIndex = tr_roots trie ! contextIndex context in
      if nodeIndex = 0
      then (\<lparr>tr_nodes = tr_nodes trie @ [emptyNode],
             tr_roots = (tr_roots trie)[contextIndex context := length (tr_nodes trie)]\<rparr>, length (tr_nodes trie))
      else (trie, nodeIndex))"

fun insert_tokens :: "Node list \<Rightarrow> nat \<Rightarrow> MRKeymapToken list \<Rightarrow> Node list \<times> nat" where
  "insert_tokens nodes nodeIndex [] = (nodes, nodeIndex)"
| "insert_tokens nodes nodeIndex (token # tokens) =
     (case edgeFor (nodes ! nodeIndex) token of
        Some next \<Rightarrow> insert_tokens nodes next tokens
      | None \<Rightarrow>
          (let nextIndex = length nodes;
               node = (nodes ! nodeIndex)\<lparr>nd_edges := nd_edges (nodes ! nodeIndex) @ [\<lparr>ed_token = token, ed_nextIndex = nextIndex\<rparr>]\<rparr>
           in insert_tokens (nodes[nodeIndex := node] @ [emptyNode]) nextIndex tokens))"

definition prefixMatched :: "MRKeymapTrie \<Rightarrow> MRKeymapBindingRecord \<Rightarrow> bool" where
  "prefixMatched trie binding =
     list_ex (\<lambda>i. dc_kind (decide trie (br_context binding) (take i (br_sequence binding))) = Matched)
       [1..<length (br_sequence binding)]"

text \<open>One binding: the trie as it is left, with the message when the build stops there.\<close>

definition trie_add :: "MRKeymapTrie \<Rightarrow> MRKeymapBindingRecord \<Rightarrow> MRKeymapTrie \<times> string option" where
  "trie_add trie0 binding =
     (if br_context binding = ContextNone then (trie0, Some ''Keymap trie build failed: binding without context.'')
      else if br_sequence binding = [] then (trie0, Some ''Keymap trie build failed: binding without sequence.'')
      else if bt_target (br_target binding) = [] then (trie0, Some ''Keymap trie build failed: binding without target.'')
      else
        (let (trie1, root) = ensureContextRoot trie0 (br_context binding);
             (nodes, nodeIndex) = insert_tokens (tr_nodes trie1) root (br_sequence binding);
             trie = trie1\<lparr>tr_nodes := nodes\<rparr>;
             node = nodes ! nodeIndex;
             name = [CHR 0x27] @ MRKeymapSequence_toString (br_sequence binding) @ [CHR 0x27, CHR ''.'']
         in if nd_terminal node then (trie, Some (''Keymap trie build failed: duplicate sequence '' @ name))
            else if nd_edges node \<noteq> [] then (trie, Some (''Keymap trie build failed: terminal/prefix collision at '' @ name))
            else if prefixMatched trie binding
            then (trie, Some (''Keymap trie build failed: prefix/terminal collision at '' @ name))
            else (trie\<lparr>tr_nodes := nodes[nodeIndex := node\<lparr>nd_terminal := True, nd_target := br_target binding,
                                                            nd_description := br_description binding\<rparr>]\<rparr>, None)))"

fun rebuild_loop :: "MRKeymapTrie \<Rightarrow> MRKeymapBindingRecord list \<Rightarrow> MRKeymapTrie \<times> string option" where
  "rebuild_loop trie [] = (trie, None)"
| "rebuild_loop trie (b # bs) =
     (case trie_add trie b of (trie', Some e) \<Rightarrow> (trie', Some e) | (trie', None) \<Rightarrow> rebuild_loop trie' bs)"

definition emptyTrie :: MRKeymapTrie where
  "emptyTrie = \<lparr>tr_nodes = [emptyNode], tr_roots = replicate kContextCount 0\<rparr>"

definition MRKeymapTrie_rebuild :: "MRKeymapBindingRecord list \<Rightarrow> MRKeymapTrie \<times> string option" where
  "MRKeymapTrie_rebuild bindings = rebuild_loop emptyTrie bindings"

subsection \<open>Paths\<close>

text \<open>The node a context and a sequence of tokens lead to.\<close>

definition node_at :: "MRKeymapTrie \<Rightarrow> MRKeymapContext \<Rightarrow> MRKeymapToken list \<Rightarrow> nat option" where
  "node_at t c ts =
     (let r = tr_roots t ! contextIndex c in if r = 0 then None else walk_tokens (tr_nodes t) r ts)"

lemma walk_tokens_snoc:
  "walk_tokens nodes i (ts @ [u]) = Option.bind (walk_tokens nodes i ts) (\<lambda>j. edgeFor (nodes ! j) u)"
  by (induction ts arbitrary: i) (auto split: option.split)

lemma node_at_snoc: "node_at t c (ts @ [u]) = Option.bind (node_at t c ts) (\<lambda>j. edgeFor (tr_nodes t ! j) u)"
  by (simp add: node_at_def walk_tokens_snoc Let_def)

definition arena_ok :: "MRKeymapTrie \<Rightarrow> bool" where
  "arena_ok t \<longleftrightarrow> length (tr_roots t) = kContextCount
     \<and> (\<forall>c ts i. node_at t c ts = Some i \<longrightarrow> 0 < i \<and> i < length (tr_nodes t))
     \<and> (\<forall>c ts c' ts' i. node_at t c ts = Some i \<longrightarrow> node_at t c' ts' = Some i \<longrightarrow> c = c' \<and> ts = ts')
     \<and> 0 < length (tr_nodes t)"

lemma contextIndex_less: "contextIndex c < kContextCount"
  by (cases c) (simp_all add: kContextCount_def)

lemma contextIndex_inj: "contextIndex c = contextIndex c' \<longleftrightarrow> c = c'"
  by (cases c; cases c') simp_all

lemma edgeFor_emptyNode [simp]: "edgeFor emptyNode u = None" "nd_edges emptyNode = []" "\<not> nd_terminal emptyNode"
  by (simp_all add: edgeFor_def emptyNode_def)

lemma edgeFor_append:
  "edgeFor (n\<lparr>nd_edges := nd_edges n @ [\<lparr>ed_token = t, ed_nextIndex = k\<rparr>]\<rparr>) u
     = (case edgeFor n u of Some j \<Rightarrow> Some j | None \<Rightarrow> if u = t then Some k else None)"
proof -
  have "find P (xs @ [x]) = (case find P xs of Some y \<Rightarrow> Some y | None \<Rightarrow> if P x then Some x else None)" for P xs and x :: Edge
    by (induction xs) auto
  then show ?thesis by (auto simp: edgeFor_def split: option.split)
qed

text \<open>A new root, and a new edge, add one path each.\<close>

lemma new_root:
  assumes "arena_ok t" "tr_roots t ! contextIndex c = 0"
  defines "n \<equiv> length (tr_nodes t)"
  defines "t' \<equiv> \<lparr>tr_nodes = tr_nodes t @ [emptyNode], tr_roots = (tr_roots t)[contextIndex c := n]\<rparr>"
  shows "node_at t' c' ts = (if c' = c \<and> ts = [] then Some n else node_at t c' ts)"
proof -
  have n: "0 < n" and rl: "length (tr_roots t) = kContextCount" using assms(1) by (auto simp: arena_ok_def n_def)
  show ?thesis
  proof (induction ts rule: rev_induct)
    case Nil
    show ?case using n rl assms(2) contextIndex_less [of c]
      by (auto simp: node_at_def t'_def nth_list_update Let_def contextIndex_inj)
  next
    case (snoc u ts)
    show ?case
    proof (cases "c' = c \<and> ts = []")
      case True
      have "node_at t c [] = None" using assms(2) by (simp add: node_at_def)
      with True snoc show ?thesis using node_at_snoc [of t c "[]" u] by (simp add: node_at_snoc [of _ _ "[]", simplified]) (simp add: t'_def n_def)
    next
      case False
      with snoc have eq: "node_at t' c' ts = node_at t c' ts" by auto
      have "edgeFor (tr_nodes t' ! j) u = edgeFor (tr_nodes t ! j) u" if "node_at t c' ts = Some j" for j
        using assms(1) that by (auto simp: arena_ok_def t'_def nth_append)
      with eq show ?thesis by (cases "node_at t c' ts") (simp_all add: node_at_snoc)
    qed
  qed
qed

lemma new_edge:
  assumes "arena_ok t" "node_at t c p = Some i" "edgeFor (tr_nodes t ! i) u = None"
  defines "n \<equiv> length (tr_nodes t)"
  defines "node \<equiv> (tr_nodes t ! i)\<lparr>nd_edges := nd_edges (tr_nodes t ! i) @ [\<lparr>ed_token = u, ed_nextIndex = n\<rparr>]\<rparr>"
  defines "t' \<equiv> t\<lparr>tr_nodes := (tr_nodes t)[i := node] @ [emptyNode]\<rparr>"
  shows "node_at t' c' ts = (if c' = c \<and> ts = p @ [u] then Some n else node_at t c' ts)"
proof (induction ts rule: rev_induct)
  case Nil
  show ?case by (simp add: node_at_def t'_def Let_def)
next
  case (snoc v ts)
  have i: "i < n" using assms(1,2) by (auto simp: arena_ok_def n_def)
  show ?case
  proof (cases "c' = c \<and> ts = p @ [u]")
    case True
    have "node_at t c (p @ [u]) = None" using assms(2,3) by (simp add: node_at_snoc)
    with True snoc show ?thesis using node_at_snoc [of t c "p @ [u]" v] node_at_snoc [of t' c "p @ [u]" v]
      by (simp add: t'_def n_def nth_append)
  next
    case False
    with snoc have eq: "node_at t' c' ts = node_at t c' ts" by auto
    show ?thesis
    proof (cases "node_at t c' ts")
      case None
      with eq assms(2) show ?thesis by (auto simp: node_at_snoc)
    next
      case (Some j)
      have j: "j < n" "j = i \<longleftrightarrow> c' = c \<and> ts = p" using assms(1,2) Some by (auto simp: arena_ok_def n_def)
      have "tr_nodes t' ! j = (if j = i then node else tr_nodes t ! j)"
        using j(1) i by (auto simp: t'_def nth_append n_def)
      with Some eq j assms(3) show ?thesis by (auto simp: node_at_snoc node_def edgeFor_append split: option.split)
    qed
  qed
qed

text \<open>Adding paths keeps the arena a forest.\<close>

lemma arena_ok_extend:
  assumes "arena_ok t" "length (tr_roots t') = kContextCount" "length (tr_nodes t') = Suc (length (tr_nodes t))"
    and "\<And>c' ts. node_at t' c' ts = (if c' = c \<and> ts = p then Some (length (tr_nodes t)) else node_at t c' ts)"
  shows "arena_ok t'"
proof -
  have a: "\<And>c ts i. node_at t c ts = Some i \<Longrightarrow> 0 < i \<and> i < length (tr_nodes t)"
    "\<And>c ts c' ts' i. node_at t c ts = Some i \<Longrightarrow> node_at t c' ts' = Some i \<Longrightarrow> c = c' \<and> ts = ts'" "0 < length (tr_nodes t)"
    using assms(1) unfolding arena_ok_def by blast+
  show ?thesis unfolding arena_ok_def
  proof (intro conjI allI impI)
    fix c1 ts1 i assume i: "node_at t' c1 ts1 = Some i"
    show "0 < i" "i < length (tr_nodes t')" using i a(1) [of c1 ts1 i] a(3) assms(3) by (auto simp: assms(4) split: if_splits)
    fix c2 ts2 assume "node_at t' c2 ts2 = Some i"
    with i a(1) [of c1 ts1 i] a(1) [of c2 ts2 i] a(2) [of c1 ts1 i c2 ts2] show "c1 = c2" "ts1 = ts2"
      by (auto simp: assms(4) split: if_splits)
  qed (use assms(2,3) in auto)
qed

text \<open>What a node carries; the trie seen as a map from paths.\<close>

definition node_load :: "Node \<Rightarrow> bool \<times> MRKeymapBindingTarget \<times> string" where
  "node_load n = (nd_terminal n, nd_target n, nd_description n)"

definition load_at :: "MRKeymapTrie \<Rightarrow> MRKeymapContext \<Rightarrow> MRKeymapToken list \<Rightarrow> (bool \<times> MRKeymapBindingTarget \<times> string) option" where
  "load_at t c ts = map_option (\<lambda>i. node_load (tr_nodes t ! i)) (node_at t c ts)"

abbreviation no_load :: "bool \<times> MRKeymapBindingTarget \<times> string" where
  "no_load \<equiv> (False, emptyTarget, [])"

lemma load_at_None: "load_at t c ts = None \<longleftrightarrow> node_at t c ts = None"
  by (simp add: load_at_def)

lemma node_edges: "node_at t c ts = Some i \<Longrightarrow> nd_edges (tr_nodes t ! i) \<noteq> [] \<longleftrightarrow> (\<exists>u. load_at t c (ts @ [u]) \<noteq> None)"
proof -
  have "nd_edges n \<noteq> [] \<longleftrightarrow> (\<exists>u. edgeFor n u \<noteq> None)" for n
    by (auto simp: edgeFor_def find_None_iff) (metis list.set_intros(1) neq_Nil_conv)
  then show "node_at t c ts = Some i \<Longrightarrow> ?thesis" by (simp add: load_at_None node_at_snoc)
qed

lemma node_load_empty [simp]: "node_load emptyNode = no_load"
  by (simp add: node_load_def emptyNode_def)

lemma decide_load:
  assumes "arena_ok t"
  shows "decide t c ts =
     (if c = ContextNone \<or> ts = [] then emptyDecision
      else case load_at t c ts of
          None \<Rightarrow> emptyDecision
        | Some (terminal, target, description) \<Rightarrow>
            if terminal then \<lparr>dc_kind = Matched, dc_target = target, dc_description = description\<rparr>
            else if \<exists>u. load_at t c (ts @ [u]) \<noteq> None then emptyDecision\<lparr>dc_kind := Pending\<rparr>
            else emptyDecision)"
proof -
  have "contextIndex c < length (tr_roots t)" using assms contextIndex_less by (simp add: arena_ok_def)
  then have d: "decide t c ts = (if c = ContextNone \<or> ts = [] then emptyDecision else case node_at t c ts of None \<Rightarrow> emptyDecision
      | Some i \<Rightarrow> (let node = tr_nodes t ! i in
              if nd_terminal node then \<lparr>dc_kind = Matched, dc_target = nd_target node, dc_description = nd_description node\<rparr>
              else if nd_edges node \<noteq> [] then emptyDecision\<lparr>dc_kind := Pending\<rparr> else emptyDecision))"
    by (auto simp: decide_def node_at_def Let_def)
  show ?thesis
  proof (cases "node_at t c ts")
    case None
    then show ?thesis unfolding d by (simp add: load_at_def)
  next
    case (Some i)
    with node_edges [OF Some] show ?thesis unfolding d by (simp add: load_at_def node_load_def Let_def)
  qed
qed

subsection \<open>Inserting a path\<close>

lemma load_new_root:
  assumes "arena_ok t" "ensureContextRoot t c = (t', r)"
  shows "arena_ok t'" "node_at t' c [] = Some r"
    "load_at t' c' ts = (case load_at t c' ts of Some x \<Rightarrow> Some x | None \<Rightarrow> if c' = c \<and> ts = [] then Some no_load else None)"
proof -
  have "arena_ok t' \<and> node_at t' c [] = Some r \<and>
    (\<forall>c' ts. load_at t' c' ts = (case load_at t c' ts of Some x \<Rightarrow> Some x | None \<Rightarrow> if c' = c \<and> ts = [] then Some no_load else None))"
  proof (cases "tr_roots t ! contextIndex c = 0")
    case True
    then have t': "t' = \<lparr>tr_nodes = tr_nodes t @ [emptyNode], tr_roots = (tr_roots t)[contextIndex c := length (tr_nodes t)]\<rparr>"
      "r = length (tr_nodes t)" using assms(2) by (auto simp: ensureContextRoot_def)
    note n = new_root [OF assms(1) True, folded t'(1)]
    have none: "node_at t c [] = None" using True by (simp add: node_at_def)
    have "arena_ok t'" using assms(1) by (intro arena_ok_extend [OF assms(1) _ _ n]) (simp_all add: t' arena_ok_def)
    moreover have "load_at t' c' ts = (case load_at t c' ts of Some x \<Rightarrow> Some x | None \<Rightarrow> if c' = c \<and> ts = [] then Some no_load else None)"
      for c' ts
    proof (cases "node_at t c' ts")
      case None
      then show ?thesis by (simp add: load_at_def n) (simp add: t')
    next
      case (Some j)
      then have "j < length (tr_nodes t)" using assms(1) by (auto simp: arena_ok_def)
      then have "tr_nodes t' ! j = tr_nodes t ! j" by (simp add: t' nth_append)
      with Some none show ?thesis by (auto simp: load_at_def n)
    qed
    ultimately show ?thesis using n t' by simp
  next
    case False
    then have "t' = t" "r = tr_roots t ! contextIndex c" "node_at t c [] = Some r"
      using assms(2) by (auto simp: ensureContextRoot_def node_at_def Let_def)
    with assms(1) show ?thesis by (auto simp: load_at_def split: option.split)
  qed
  then show "arena_ok t'" "node_at t' c [] = Some r"
    "load_at t' c' ts = (case load_at t c' ts of Some x \<Rightarrow> Some x | None \<Rightarrow> if c' = c \<and> ts = [] then Some no_load else None)" by auto
qed

lemma load_new_edge:
  assumes "arena_ok t" "node_at t c p = Some i" "edgeFor (tr_nodes t ! i) u = None"
  defines "n \<equiv> length (tr_nodes t)"
  defines "node \<equiv> (tr_nodes t ! i)\<lparr>nd_edges := nd_edges (tr_nodes t ! i) @ [\<lparr>ed_token = u, ed_nextIndex = n\<rparr>]\<rparr>"
  defines "t' \<equiv> t\<lparr>tr_nodes := (tr_nodes t)[i := node] @ [emptyNode]\<rparr>"
  shows "arena_ok t'" "node_at t' c (p @ [u]) = Some n"
    "load_at t' c' ts = (case load_at t c' ts of Some x \<Rightarrow> Some x | None \<Rightarrow> if c' = c \<and> ts = p @ [u] then Some no_load else None)"
proof -
  note ne = new_edge [OF assms(1-3), folded n_def, folded node_def, folded t'_def]
  show "arena_ok t'" using assms(1) by (intro arena_ok_extend [OF assms(1) _ _ ne [unfolded n_def]]) (simp_all add: t'_def arena_ok_def)
  show "node_at t' c (p @ [u]) = Some n" by (simp add: ne)
  have none: "node_at t c (p @ [u]) = None" using assms(2,3) by (simp add: node_at_snoc)
  have i: "i < n" using assms(1,2) by (auto simp: arena_ok_def n_def)
  have keep: "node_load (tr_nodes t' ! j) = node_load (tr_nodes t ! j)" if "j < n" for j
    using that i by (auto simp: t'_def node_def nth_append n_def nth_list_update node_load_def)
  show "load_at t' c' ts = (case load_at t c' ts of Some x \<Rightarrow> Some x | None \<Rightarrow> if c' = c \<and> ts = p @ [u] then Some no_load else None)"
  proof (cases "node_at t c' ts")
    case None
    then show ?thesis by (auto simp: load_at_def ne) (simp add: t'_def n_def nth_append)
  next
    case (Some j)
    then have "j < n" using assms(1) by (auto simp: arena_ok_def n_def)
    with Some none keep show ?thesis by (auto simp: load_at_def ne)
  qed
qed

lemma load_insert_tokens:
  "arena_ok t \<Longrightarrow> node_at t c p = Some i \<Longrightarrow> insert_tokens (tr_nodes t) i ts = (nodes, k) \<Longrightarrow>
   arena_ok (t\<lparr>tr_nodes := nodes\<rparr>) \<and> node_at (t\<lparr>tr_nodes := nodes\<rparr>) c (p @ ts) = Some k
   \<and> (\<forall>c' q. load_at (t\<lparr>tr_nodes := nodes\<rparr>) c' q =
        (case load_at t c' q of Some x \<Rightarrow> Some x
         | None \<Rightarrow> if c' = c \<and> (\<exists>us. us \<noteq> [] \<and> prefix us ts \<and> q = p @ us) then Some no_load else None))"
proof (induction ts arbitrary: t p i)
  case Nil
  then show ?case by (auto split: option.split)
next
  case (Cons u ts)
  have pre: "(\<exists>us. us \<noteq> [] \<and> prefix us (u # ts) \<and> q = p @ us) \<longleftrightarrow> q = p @ [u] \<or> (\<exists>us. us \<noteq> [] \<and> prefix us ts \<and> q = (p @ [u]) @ us)" for q
    by (auto simp: prefix_Cons)
  show ?case
  proof (cases "edgeFor (tr_nodes t ! i) u")
    case (Some j)
    then have at: "node_at t c (p @ [u]) = Some j" using Cons.prems(2) by (simp add: node_at_snoc)
    have "insert_tokens (tr_nodes t) j ts = (nodes, k)" using Cons.prems(3) Some by simp
    from Cons.IH [OF Cons.prems(1) at this] at show ?thesis unfolding pre by (auto simp: load_at_def split: option.split)
  next
    case None
    let ?n = "length (tr_nodes t)"
    let ?node = "(tr_nodes t ! i)\<lparr>nd_edges := nd_edges (tr_nodes t ! i) @ [\<lparr>ed_token = u, ed_nextIndex = ?n\<rparr>]\<rparr>"
    let ?t = "t\<lparr>tr_nodes := (tr_nodes t)[i := ?node] @ [emptyNode]\<rparr>"
    note e = load_new_edge [OF Cons.prems(1,2) None]
    have "insert_tokens (tr_nodes ?t) ?n ts = (nodes, k)" using Cons.prems(3) None by (simp add: Let_def)
    from Cons.IH [OF e(1,2) this] e(3) show ?thesis unfolding pre by (auto split: option.split)
  qed
qed

subsection \<open>The trie of a list of bindings\<close>

definition binding_at :: "MRKeymapBindingRecord list \<Rightarrow> MRKeymapContext \<Rightarrow> MRKeymapToken list \<Rightarrow> MRKeymapBindingRecord option" where
  "binding_at bs c q = find (\<lambda>b. br_context b = c \<and> br_sequence b = q) bs"

definition begun :: "MRKeymapBindingRecord list \<Rightarrow> MRKeymapContext \<Rightarrow> MRKeymapToken list \<Rightarrow> bool" where
  "begun bs c q = list_ex (\<lambda>b. br_context b = c \<and> prefix q (br_sequence b)) bs"

definition load_spec :: "MRKeymapBindingRecord list \<Rightarrow> MRKeymapContext \<Rightarrow> MRKeymapToken list \<Rightarrow> (bool \<times> MRKeymapBindingTarget \<times> string) option" where
  "load_spec bs c q =
     (if begun bs c q then Some (case binding_at bs c q of Some b \<Rightarrow> (True, br_target b, br_description b) | None \<Rightarrow> no_load) else None)"

text \<open>A search through the bindings: the reference for \<open>decide\<close>.\<close>

definition decide_spec :: "MRKeymapBindingRecord list \<Rightarrow> MRKeymapContext \<Rightarrow> MRKeymapToken list \<Rightarrow> Decision" where
  "decide_spec bs c ts =
     (if c = ContextNone \<or> ts = [] then emptyDecision
      else case binding_at bs c ts of
          Some b \<Rightarrow> \<lparr>dc_kind = Matched, dc_target = br_target b, dc_description = br_description b\<rparr>
        | None \<Rightarrow> if list_ex (\<lambda>b. br_context b = c \<and> strict_prefix ts (br_sequence b)) bs
                  then emptyDecision\<lparr>dc_kind := Pending\<rparr> else emptyDecision)"

definition binding_complete :: "MRKeymapBindingRecord \<Rightarrow> bool" where
  "binding_complete b \<longleftrightarrow> br_context b \<noteq> ContextNone \<and> br_sequence b \<noteq> [] \<and> bt_target (br_target b) \<noteq> []"

definition bindings_apart :: "MRKeymapBindingRecord \<Rightarrow> MRKeymapBindingRecord \<Rightarrow> bool" where
  "bindings_apart a b \<longleftrightarrow> br_context a = br_context b \<longrightarrow>
     \<not> prefix (br_sequence a) (br_sequence b) \<and> \<not> prefix (br_sequence b) (br_sequence a)"

definition dispatchable :: "MRKeymapBindingRecord list \<Rightarrow> bool" where
  "dispatchable bs \<longleftrightarrow> list_all binding_complete bs \<and> sorted_wrt bindings_apart bs"

definition trie_inv :: "MRKeymapTrie \<Rightarrow> MRKeymapBindingRecord list \<Rightarrow> bool" where
  "trie_inv t bs \<longleftrightarrow> arena_ok t \<and> (\<forall>c q. load_at t c q = load_spec bs c q) \<and> dispatchable bs"

lemma binding_at_Some: "binding_at bs c q = Some b \<Longrightarrow> b \<in> set bs \<and> br_context b = c \<and> br_sequence b = q"
  unfolding binding_at_def by (auto dest: find_Some_in)

lemma binding_at_None: "binding_at bs c q = None \<longleftrightarrow> (\<forall>b \<in> set bs. br_context b = c \<longrightarrow> br_sequence b \<noteq> q)"
  by (auto simp: binding_at_def find_None_iff)

lemma begun_snoc: "(\<exists>u. begun bs c (ts @ [u])) \<longleftrightarrow> list_ex (\<lambda>b. br_context b = c \<and> strict_prefix ts (br_sequence b)) bs"
proof -
  have "(\<exists>u. prefix (ts @ [u]) xs) \<longleftrightarrow> strict_prefix ts xs" for xs :: "MRKeymapToken list"
    by (auto simp: prefix_def strict_prefix_def) (metis neq_Nil_conv)
  note ext = this
  show ?thesis unfolding begun_def list_ex_iff ext [symmetric] by blast
qed

lemma load_spec_None: "load_spec bs c q = None \<longleftrightarrow> \<not> begun bs c q"
  by (simp add: load_spec_def)

lemma begun_binding: "binding_at bs c q = Some b \<Longrightarrow> begun bs c q"
  by (auto simp: begun_def list_ex_iff dest!: binding_at_Some)

lemma not_begun: "\<not> begun bs c q \<Longrightarrow> binding_at bs c q = None"
  using begun_binding [of bs c q] by (cases "binding_at bs c q") auto

lemma decide_inv:
  assumes "trie_inv t bs" shows "decide t c ts = decide_spec bs c ts"
proof -
  have a: "arena_ok t" and l: "\<And>c q. load_at t c q = load_spec bs c q" using assms by (auto simp: trie_inv_def)
  have ext: "(\<exists>u. load_spec bs c (ts @ [u]) \<noteq> None) = list_ex (\<lambda>b. br_context b = c \<and> strict_prefix ts (br_sequence b)) bs"
    using begun_snoc [of bs c ts] by (simp add: load_spec_None)
  have nb: "\<not> begun bs c ts \<Longrightarrow> \<not> list_ex (\<lambda>b. br_context b = c \<and> strict_prefix ts (br_sequence b)) bs"
    by (auto simp: begun_def list_ex_iff prefix_order.less_le)
  show ?thesis
    using ext nb begun_binding [of bs c ts] unfolding decide_load [OF a] l
    by (auto simp: decide_spec_def load_spec_def [of bs c ts] split: option.split)
qed

subsection \<open>Adding a binding\<close>

text \<open>Marking a node terminal changes the load at one path.\<close>

lemma load_set_terminal:
  fixes tg :: MRKeymapBindingTarget and ds :: string
  assumes "arena_ok t" "node_at t c p = Some k"
  defines "node \<equiv> (tr_nodes t ! k)\<lparr>nd_terminal := True, nd_target := tg, nd_description := ds\<rparr>"
  defines "t' \<equiv> t\<lparr>tr_nodes := (tr_nodes t)[k := node]\<rparr>"
  shows "arena_ok t'" "load_at t' c' q = (if c' = c \<and> q = p then Some (True, tg, ds) else load_at t c' q)"
proof -
  have k: "k < length (tr_nodes t)" using assms(1,2) by (auto simp: arena_ok_def)
  have "edgeFor node u = edgeFor (tr_nodes t ! k) u" for u by (simp add: edgeFor_def node_def)
  then have e: "edgeFor (tr_nodes t' ! j) u = edgeFor (tr_nodes t ! j) u" for j u
    using k by (cases "j = k") (simp_all add: t'_def)
  have at: "node_at t' c ts = node_at t c ts" for c ts
  proof (induction ts rule: rev_induct)
    case Nil
    show ?case by (simp add: node_at_def t'_def Let_def)
  next
    case (snoc u ts)
    then show ?case by (simp add: node_at_snoc e)
  qed
  show "arena_ok t'" using assms(1) unfolding arena_ok_def at by (simp add: t'_def)
  show "load_at t' c' q = (if c' = c \<and> q = p then Some (True, tg, ds) else load_at t c' q)"
  proof (cases "node_at t c' q = Some k")
    case True
    then have "c' = c \<and> q = p" using assms(1,2) by (auto simp: arena_ok_def)
    with True k show ?thesis by (simp add: load_at_def at) (simp add: t'_def node_def node_load_def)
  next
    case False
    then have "\<not> (c' = c \<and> q = p)" using assms(2) by auto
    with False show ?thesis by (cases "node_at t c' q") (simp_all only: load_at_def at, auto simp: t'_def)
  qed
qed

text \<open>The trie with the path of a binding, before the checks.\<close>

lemma add_path:
  assumes "trie_inv t bs" "ensureContextRoot t (br_context b) = (t1, r)"
    and "insert_tokens (tr_nodes t1) r (br_sequence b) = (nodes, k)"
  defines "t2 \<equiv> t1\<lparr>tr_nodes := nodes\<rparr>"
  shows "arena_ok t2" "node_at t2 (br_context b) (br_sequence b) = Some k"
    "load_at t2 c q = (case load_spec bs c q of Some x \<Rightarrow> Some x
       | None \<Rightarrow> if c = br_context b \<and> prefix q (br_sequence b) then Some no_load else None)"
proof -
  have a: "arena_ok t" and l: "\<And>c q. load_at t c q = load_spec bs c q" using assms(1) by (auto simp: trie_inv_def)
  note nr = load_new_root [OF a assms(2)]
  note it = load_insert_tokens [OF nr(1,2) assms(3), folded t2_def, simplified]
  then show "arena_ok t2" "node_at t2 (br_context b) (br_sequence b) = Some k" by auto
  have "prefix q (br_sequence b) \<longleftrightarrow> q = [] \<or> q \<noteq> [] \<and> prefix q (br_sequence b)" by auto
  with it nr(3) [of c q] show "load_at t2 c q = (case load_spec bs c q of Some x \<Rightarrow> Some x
       | None \<Rightarrow> if c = br_context b \<and> prefix q (br_sequence b) then Some no_load else None)"
    by (auto simp: l split: option.split)
qed

lemma load_spec_terminal: "load_spec bs c q = Some (term, tg, ds) \<Longrightarrow> term \<longleftrightarrow> binding_at bs c q \<noteq> None"
  by (auto simp: load_spec_def split: if_splits option.splits)

lemma add_checks:
  assumes "trie_inv t bs" "binding_complete b" "ensureContextRoot t (br_context b) = (t1, r)"
    and "insert_tokens (tr_nodes t1) r (br_sequence b) = (nodes, k)"
  shows "nd_terminal (nodes ! k) \<or> nd_edges (nodes ! k) \<noteq> [] \<or> prefixMatched (t1\<lparr>tr_nodes := nodes\<rparr>) b
     \<longleftrightarrow> (\<exists>a \<in> set bs. \<not> bindings_apart a b)"
proof -
  define t2 where "t2 = t1\<lparr>tr_nodes := nodes\<rparr>"
  let ?c = "br_context b" and ?s = "br_sequence b"
  note p = add_path [OF assms(1,3,4), folded t2_def]
  have b: "?c \<noteq> ContextNone" "?s \<noteq> []" using assms(2) by (auto simp: binding_complete_def)
  have complete: "\<And>a. a \<in> set bs \<Longrightarrow> br_sequence a \<noteq> []"
    using assms(1) by (auto simp: trie_inv_def dispatchable_def list_all_iff binding_complete_def)
  have load: "load_at t2 ?c ?s = Some (node_load (nodes ! k))" using p(2) by (simp add: load_at_def t2_def)
  have tm: "nd_terminal (nodes ! k) \<longleftrightarrow> binding_at bs ?c ?s \<noteq> None"
  proof (cases "load_spec bs ?c ?s")
    case None
    then have "binding_at bs ?c ?s = None" using not_begun [of bs ?c ?s] load_spec_None [of bs ?c ?s] by simp
    with None load p(3) [of ?c ?s] show ?thesis by (simp add: node_load_def)
  next
    case (Some x)
    with load p(3) [of ?c ?s] load_spec_terminal [of bs ?c ?s] show ?thesis by (simp add: node_load_def)
  qed
  have "\<not> prefix (?s @ [u]) ?s" for u by (auto dest: prefix_length_le)
  then have "load_at t2 ?c (?s @ [u]) \<noteq> None \<longleftrightarrow> begun bs ?c (?s @ [u])" for u
    using p(3) [of ?c "?s @ [u]"] load_spec_None [of bs ?c "?s @ [u]"] by (auto split: option.splits)
  then have edges: "nd_edges (nodes ! k) \<noteq> [] \<longleftrightarrow> (\<exists>a \<in> set bs. br_context a = ?c \<and> strict_prefix ?s (br_sequence a))"
    using node_edges [OF p(2)] begun_snoc [of bs ?c ?s] by (simp add: t2_def list_ex_iff)
  have dec: "dc_kind (decide t2 ?c q) = Matched \<longleftrightarrow> binding_at bs ?c q \<noteq> None" if "q \<noteq> []" "prefix q ?s" for q
    using that b p(3) [of ?c q] not_begun [of bs ?c q] load_spec_None [of bs ?c q] load_spec_terminal [of bs ?c q]
    unfolding decide_load [OF p(1)] by (auto simp: emptyDecision_def split: option.splits prod.splits if_splits)
  have proper: "(\<exists>i. 1 \<le> i \<and> i < length ?s \<and> take i ?s = q) \<longleftrightarrow> q \<noteq> [] \<and> strict_prefix q ?s" for q
  proof
    assume "\<exists>i. 1 \<le> i \<and> i < length ?s \<and> take i ?s = q"
    then obtain i where i: "1 \<le> i" "i < length ?s" "q = take i ?s" by blast
    then have "prefix q ?s" "length q = i" by (auto simp: take_is_prefix)
    with i show "q \<noteq> [] \<and> strict_prefix q ?s" by (auto simp: strict_prefix_def)
  next
    assume q: "q \<noteq> [] \<and> strict_prefix q ?s"
    then have "length q < length ?s" "take (length q) ?s = q" by (auto simp: prefix_length_less strict_prefix_def prefix_def)
    with q show "\<exists>i. 1 \<le> i \<and> i < length ?s \<and> take i ?s = q" by (intro exI [of _ "length q"]) (simp add: Suc_le_eq)
  qed
  have "prefixMatched t2 b \<longleftrightarrow> (\<exists>q. (\<exists>i. 1 \<le> i \<and> i < length ?s \<and> take i ?s = q) \<and> dc_kind (decide t2 ?c q) = Matched)"
    unfolding prefixMatched_def list_ex_iff by (simp add: Bex_def) blast
  then have "prefixMatched t2 b \<longleftrightarrow> (\<exists>q. (q \<noteq> [] \<and> strict_prefix q ?s) \<and> dc_kind (decide t2 ?c q) = Matched)" unfolding proper .
  also have "\<dots> \<longleftrightarrow> (\<exists>a \<in> set bs. br_context a = ?c \<and> strict_prefix (br_sequence a) ?s)"
    using dec complete binding_at_None [of bs ?c] by (auto simp: prefix_order.less_le)
  finally have matched: "prefixMatched t2 b \<longleftrightarrow> (\<exists>a \<in> set bs. br_context a = ?c \<and> strict_prefix (br_sequence a) ?s)" .
  have "(\<exists>a \<in> set bs. \<not> bindings_apart a b) \<longleftrightarrow> (\<exists>a \<in> set bs. br_context a = ?c \<and>
      (br_sequence a = ?s \<or> strict_prefix ?s (br_sequence a) \<or> strict_prefix (br_sequence a) ?s))"
    by (auto simp: bindings_apart_def prefix_order.less_le)
  then show ?thesis using tm edges matched binding_at_None [of bs ?c ?s] by (auto simp: t2_def [symmetric])
qed

lemma add_done:
  assumes "trie_inv t bs" "binding_complete b" "ensureContextRoot t (br_context b) = (t1, r)"
    and "insert_tokens (tr_nodes t1) r (br_sequence b) = (nodes, k)" "\<forall>a \<in> set bs. bindings_apart a b"
  shows "trie_inv (t1\<lparr>tr_nodes := nodes[k := (nodes ! k)\<lparr>nd_terminal := True, nd_target := br_target b, nd_description := br_description b\<rparr>]\<rparr>) (bs @ [b])"
proof -
  let ?c = "br_context b" and ?s = "br_sequence b"
  note p = add_path [OF assms(1,3,4)]
  note st = load_set_terminal [OF p(1,2), simplified]
  have disp: "dispatchable (bs @ [b])"
    using assms(1,2,5) by (auto simp: trie_inv_def dispatchable_def sorted_wrt_append)
  have none: "binding_at bs ?c ?s = None" using assms(5) by (auto simp: binding_at_None bindings_apart_def)
  have fa: "find P (xs @ [b]) = (case find P xs of Some y \<Rightarrow> Some y | None \<Rightarrow> if P b then Some b else None)" for P xs
    by (induction xs) auto
  have bg: "begun (bs @ [b]) c q \<longleftrightarrow> begun bs c q \<or> c = ?c \<and> prefix q ?s" for c q by (auto simp: begun_def)
  have ba: "binding_at (bs @ [b]) c q = (case binding_at bs c q of Some y \<Rightarrow> Some y | None \<Rightarrow> if c = ?c \<and> q = ?s then Some b else None)" for c q
    by (auto simp: binding_at_def fa split: option.split)
  have eq: "(if c = ?c \<and> q = ?s then Some (True, br_target b, br_description b)
        else case load_spec bs c q of Some x \<Rightarrow> Some x | None \<Rightarrow> if c = ?c \<and> prefix q ?s then Some no_load else None)
      = load_spec (bs @ [b]) c q" for c q
    using none begun_binding [of bs c q] by (auto simp: load_spec_def bg ba split: option.split)
  show ?thesis unfolding trie_inv_def st(2) p(3) eq using st(1) disp by simp
qed

lemma trie_add_spec:
  assumes "trie_inv t bs" "trie_add t b = (t', e)"
  shows "e = None \<longleftrightarrow> binding_complete b \<and> (\<forall>a \<in> set bs. bindings_apart a b)" "e = None \<Longrightarrow> trie_inv t' (bs @ [b])"
proof -
  have "(e = None \<longleftrightarrow> binding_complete b \<and> (\<forall>a \<in> set bs. bindings_apart a b)) \<and> (e = None \<longrightarrow> trie_inv t' (bs @ [b]))"
  proof (cases "binding_complete b")
    case False
    with assms(2) show ?thesis by (auto simp: trie_add_def binding_complete_def split: if_splits)
  next
    case True
    obtain t1 r where er: "ensureContextRoot t (br_context b) = (t1, r)" by (metis surj_pair)
    obtain nodes k where it: "insert_tokens (tr_nodes t1) r (br_sequence b) = (nodes, k)" by (metis surj_pair)
    note c = add_checks [OF assms(1) True er it] and d = add_done [OF assms(1) True er it]
    from assms(2) True er it c d show ?thesis
      by (auto simp: trie_add_def binding_complete_def Let_def split: if_splits)
  qed
  then show "e = None \<longleftrightarrow> binding_complete b \<and> (\<forall>a \<in> set bs. bindings_apart a b)" "e = None \<Longrightarrow> trie_inv t' (bs @ [b])" by auto
qed

lemma emptyTrie_inv: "trie_inv emptyTrie []"
proof -
  have "node_at emptyTrie c ts = None" for c ts
    using contextIndex_less [of c] by (simp add: node_at_def emptyTrie_def)
  then show ?thesis
    by (simp add: trie_inv_def arena_ok_def load_at_def load_spec_def begun_def dispatchable_def) (simp add: emptyTrie_def)
qed

lemma rebuild_loop_spec:
  "trie_inv t bs1 \<Longrightarrow> rebuild_loop t bs2 = (t', e) \<Longrightarrow>
   (e = None \<longleftrightarrow> dispatchable (bs1 @ bs2)) \<and> (e = None \<longrightarrow> trie_inv t' (bs1 @ bs2))"
proof (induction bs2 arbitrary: t bs1)
  case Nil
  then show ?case by (auto simp: trie_inv_def)
next
  case (Cons b bs2)
  obtain t1 e1 where a: "trie_add t b = (t1, e1)" by (metis surj_pair)
  note sp = trie_add_spec [OF Cons.prems(1) a]
  show ?case
  proof (cases e1)
    case None
    then have "rebuild_loop t1 bs2 = (t', e)" using Cons.prems(2) a by simp
    from Cons.IH [OF sp(2) [OF None] this] show ?thesis by simp
  next
    case (Some m)
    then have "\<not> dispatchable (bs1 @ b # bs2)" using sp(1) by (auto simp: dispatchable_def sorted_wrt_append)
    with Some Cons.prems(2) a show ?thesis by auto
  qed
qed

lemma rebuild_spec:
  assumes "MRKeymapTrie_rebuild bs = (t, e)"
  shows "e = None \<longleftrightarrow> dispatchable bs" "e = None \<Longrightarrow> decide t c ts = decide_spec bs c ts"
  using rebuild_loop_spec [OF emptyTrie_inv assms [unfolded MRKeymapTrie_rebuild_def]] decide_inv [of t bs c ts] by auto

end
