(* ===== verification/Keymap_Payload.thy ===== *)
theory Keymap_Payload
  imports Keymap_Trie
begin

text \<open>
  The payload language of keymap records (\<open>src/keymap/MRKeymapProfile.cpp\<close>): \<open>key="value"\<close> members with
  escapes, the diagnostics of the parser, and the payloads of profiles and bindings. A payload the
  program writes reads back as the record it was written for, without a diagnostic.
\<close>

subsection \<open>Profiles and diagnostics\<close>

record MRKeymapProfile =
  pf_name :: string
  pf_description :: string
  pf_bindings :: "MRKeymapBindingRecord list"

datatype MRKeymapDiagnosticKind =
    UnknownProfile | DuplicateProfile | DuplicateBinding | ConflictingBinding | PayloadSyntaxError
  | DuplicatePayloadMember | MissingPayloadMember | UnknownPayloadMember | UnknownContext | InvalidSequence
  | InvalidBindingType | UnknownAction | InvalidMacroTarget | Phase1CtrlAsciiCollision | PrefixConflict
  | TerminalPrefixConflict | ProfileNameMismatch

datatype MRKeymapDiagnosticSeverity = SeverityWarning | SeverityError

record MRKeymapDiagnostic =
  dg_kind :: MRKeymapDiagnosticKind
  dg_severity :: MRKeymapDiagnosticSeverity
  dg_profileIndex :: nat
  dg_bindingIndex :: nat
  dg_message :: string

definition makeDiagnostic ::
  "MRKeymapDiagnosticKind \<Rightarrow> MRKeymapDiagnosticSeverity \<Rightarrow> nat \<Rightarrow> nat \<Rightarrow> string \<Rightarrow> MRKeymapDiagnostic" where
  "makeDiagnostic kind severity profileIndex bindingIndex message =
     \<lparr>dg_kind = kind, dg_severity = severity, dg_profileIndex = profileIndex, dg_bindingIndex = bindingIndex,
      dg_message = message\<rparr>"

definition kNoIndex :: nat where
  "kNoIndex = size_max"

subsection \<open>Lexical parts\<close>

definition dquote :: char where "dquote = CHR 0x22"
definition backslash :: char where "backslash = CHR 0x5C"
definition TAB :: char where "TAB = CHR 0x09"

lemma payload_chars [simp]:
  "dquote \<noteq> backslash" "backslash \<noteq> dquote" "dquote \<noteq> LF" "dquote \<noteq> CR" "dquote \<noteq> TAB" "backslash \<noteq> LF" "backslash \<noteq> CR"
  "backslash \<noteq> TAB" "LF \<noteq> CR" "LF \<noteq> TAB" "CR \<noteq> TAB" "CR \<noteq> LF" "TAB \<noteq> LF" "TAB \<noteq> CR" "LF \<noteq> dquote" "CR \<noteq> dquote" "TAB \<noteq> dquote"
  "LF \<noteq> backslash" "CR \<noteq> backslash" "TAB \<noteq> backslash"
  "CHR ''n'' \<noteq> dquote" "CHR ''r'' \<noteq> dquote" "CHR ''t'' \<noteq> dquote" "CHR ''n'' \<noteq> backslash" "CHR ''r'' \<noteq> backslash"
  "CHR ''t'' \<noteq> backslash"
  by (simp_all add: dquote_def backslash_def TAB_def)

definition isPayloadKeyStart :: "char \<Rightarrow> bool" where
  "isPayloadKeyStart ch \<longleftrightarrow> isalpha ch"

definition isPayloadKeyChar :: "char \<Rightarrow> bool" where
  "isPayloadKeyChar ch \<longleftrightarrow> isalpha ch \<or> isdigit ch \<or> ch = CHR ''_''"

definition isPayloadSpace :: "char \<Rightarrow> bool" where
  "isPayloadSpace ch \<longleftrightarrow> ch = CHR '' '' \<or> ch = TAB \<or> ch = CR \<or> ch = LF"

fun escapePayloadQuotedString :: "string \<Rightarrow> string" where
  "escapePayloadQuotedString [] = []"
| "escapePayloadQuotedString (ch # value) =
     (if ch = dquote then [backslash, dquote]
      else if ch = backslash then [backslash, backslash]
      else if ch = LF then [backslash, CHR ''n'']
      else if ch = CR then [backslash, CHR ''r'']
      else if ch = TAB then [backslash, CHR ''t'']
      else [ch]) @ escapePayloadQuotedString value"

fun to_string :: "nat \<Rightarrow> string" where
  "to_string n = (if n < 10 then [''0123456789'' ! n] else to_string (n div 10) @ [''0123456789'' ! (n mod 10)])"

declare to_string.simps [simp del]

subsection \<open>Parsing the members\<close>

record PayloadMember =
  pm_key :: string
  pm_value :: string

text \<open>
  The loop over a quoted value. \<open>prev\<close> is the byte consumed last, \<open>payload[pos - 1]\<close>, which the check
  for the closing quote looks at.
\<close>

datatype QuoteError = DanglingEscape | UnsupportedEscape

fun quoted_loop :: "char \<Rightarrow> string \<Rightarrow> string \<Rightarrow> QuoteError + string \<times> char \<times> string" where
  "quoted_loop prev value [] = Inr (value, prev, [])"
| "quoted_loop prev value (ch # rest) =
     (if ch = dquote then Inr (value, ch, rest)
      else if ch = backslash then
        (case rest of
           [] \<Rightarrow> Inl DanglingEscape
         | escaped # rest' \<Rightarrow>
             if escaped = dquote \<or> escaped = backslash then quoted_loop escaped (value @ [escaped]) rest'
             else if escaped = CHR ''n'' then quoted_loop escaped (value @ [LF]) rest'
             else if escaped = CHR ''r'' then quoted_loop escaped (value @ [CR]) rest'
             else if escaped = CHR ''t'' then quoted_loop escaped (value @ [TAB]) rest'
             else Inl UnsupportedEscape)
      else quoted_loop ch (value @ [ch]) rest)"

definition memberValue :: "string \<Rightarrow> string \<Rightarrow> string + string \<times> string" where
  "memberValue key rest =
     (if rest \<noteq> [] \<and> hd rest = dquote then
        (case quoted_loop dquote [] (tl rest) of
           Inl DanglingEscape \<Rightarrow> Inl (''Invalid payload syntax: dangling escape in member '' @ [CHR 0x27] @ key @ [CHR 0x27] @ ''.'')
         | Inl UnsupportedEscape \<Rightarrow>
             Inl (''Invalid payload syntax: unsupported escape sequence in member '' @ [CHR 0x27] @ key @ [CHR 0x27] @ ''.'')
         | Inr (value, prev, rest') \<Rightarrow>
             if prev \<noteq> dquote
             then Inl (''Invalid payload syntax: unterminated quoted value in member '' @ [CHR 0x27] @ key @ [CHR 0x27] @ ''.'')
             else Inr (value, rest'))
      else
        (let value = takeWhile (\<lambda>ch. \<not> isPayloadSpace ch) rest in
         if value = [] then Inl (''Invalid payload syntax: missing value for member '' @ [CHR 0x27] @ key @ [CHR 0x27] @ ''.'')
         else Inr (value, drop (length value) rest)))"

definition syntaxDiagnostic :: "nat \<Rightarrow> nat \<Rightarrow> string \<Rightarrow> MRKeymapDiagnostic" where
  "syntaxDiagnostic profileIndex bindingIndex message =
     makeDiagnostic PayloadSyntaxError SeverityError profileIndex bindingIndex message"

definition describeBindingLocation :: "nat \<Rightarrow> string" where
  "describeBindingLocation bindingIndex = (if bindingIndex = kNoIndex then ''payload'' else ''binding payload'')"

lemma quoted_loop_length: "quoted_loop prev value rest = Inr (v, c, rest') \<Longrightarrow> length rest' \<le> length rest"
proof (induction prev "value" rest rule: quoted_loop.induct)
  case (2 prev val ch rest)
  then show ?case by (cases rest) (auto split: if_splits intro: le_SucI)
qed simp

lemma memberValue_length: "memberValue key rest = Inr (v, rest') \<Longrightarrow> length rest' \<le> length rest"
  by (auto simp: memberValue_def Let_def split: if_splits sum.splits QuoteError.splits prod.splits dest!: quoted_loop_length)

function members_loop ::
  "nat \<Rightarrow> nat \<Rightarrow> nat \<Rightarrow> string \<Rightarrow> string set \<Rightarrow> PayloadMember list \<Rightarrow> MRKeymapDiagnostic list \<Rightarrow>
   PayloadMember list \<times> MRKeymapDiagnostic list" where
  "members_loop psize profileIndex bindingIndex rest0 seenKeys members diagnostics =
     (let rest = dropWhile isPayloadSpace rest0 in
      if rest = [] then (members, diagnostics)
      else if \<not> isPayloadKeyStart (hd rest)
      then (members, diagnostics @ [syntaxDiagnostic profileIndex bindingIndex
             (''Invalid payload syntax: expected member key at position '' @ to_string (psize - length rest) @ ''.'')])
      else
        (let rawKey = hd rest # takeWhile isPayloadKeyChar (tl rest);
             key = upperAscii rawKey;
             rest1 = drop (length rawKey) rest
         in if rest1 = [] \<or> hd rest1 \<noteq> CHR ''=''
            then (members, diagnostics @ [syntaxDiagnostic profileIndex bindingIndex
                   (''Invalid payload syntax: missing '' @ [CHR 0x27] @ ''='' @ [CHR 0x27] @ '' after member '' @ [CHR 0x27] @ key @ [CHR 0x27] @ ''.'')])
            else
              (case memberValue key (tl rest1) of
                 Inl message \<Rightarrow> (members, diagnostics @ [syntaxDiagnostic profileIndex bindingIndex message])
               | Inr (value, rest2) \<Rightarrow>
                   members_loop psize profileIndex bindingIndex rest2 (insert key seenKeys)
                     (members @ [\<lparr>pm_key = key, pm_value = value\<rparr>])
                     (diagnostics @
                       (if key \<in> seenKeys
                        then [makeDiagnostic DuplicatePayloadMember SeverityError profileIndex bindingIndex
                               (''Duplicate payload member '' @ [CHR 0x27] @ key @ [CHR 0x27] @ '' in ''
                                 @ describeBindingLocation bindingIndex @ ''.'')]
                        else [])))))"
  by pat_completeness auto
termination
proof (relation "measure (\<lambda>(n, p, b, rest, seen, members, ds). length rest)", goal_cases)
  case (2 n profileIndex bindingIndex rest0 seenKeys members diagnostics rest rawKey key rest1 z val rest2)
  have "memberValue key (tl rest1) = Inr (val, rest2)" using 2(8) 2(9) [symmetric] by (rule trans [OF _ arg_cong])
  from memberValue_length [OF this] have "length rest2 \<le> length (tl rest1)" .
  moreover have "length rest1 < length rest" using 2(2,4,6) by simp
  moreover have "length rest \<le> length rest0" using 2(1) by (simp add: length_dropWhile_le)
  ultimately show ?case by simp
qed simp

declare members_loop.simps [simp del]

definition parsePayloadMembers :: "string \<Rightarrow> nat \<Rightarrow> nat \<Rightarrow> PayloadMember list \<times> MRKeymapDiagnostic list" where
  "parsePayloadMembers payload profileIndex bindingIndex =
     members_loop (length payload) profileIndex bindingIndex payload {} [] []"

definition findPayloadMember :: "PayloadMember list \<Rightarrow> string \<Rightarrow> PayloadMember option" where
  "findPayloadMember members key = find (\<lambda>m. pm_key m = key) members"

definition requirePayloadMember ::
  "PayloadMember list \<Rightarrow> string \<Rightarrow> nat \<Rightarrow> nat \<Rightarrow> MRKeymapDiagnostic list \<Rightarrow> MRKeymapDiagnostic list" where
  "requirePayloadMember members key profileIndex bindingIndex diagnostics =
     (if findPayloadMember members key = None
      then diagnostics @ [makeDiagnostic MissingPayloadMember SeverityError profileIndex bindingIndex
                           (''Missing payload member '' @ [CHR 0x27] @ key @ [CHR 0x27] @ ''.'')]
      else diagnostics)"

definition diagnoseUnknownPayloadMembers ::
  "PayloadMember list \<Rightarrow> string list \<Rightarrow> nat \<Rightarrow> nat \<Rightarrow> MRKeymapDiagnostic list \<Rightarrow> MRKeymapDiagnostic list" where
  "diagnoseUnknownPayloadMembers members allowedKeys profileIndex bindingIndex diagnostics =
     diagnostics @ map (\<lambda>m. makeDiagnostic UnknownPayloadMember SeverityError profileIndex bindingIndex
                              (''Unknown payload member '' @ [CHR 0x27] @ pm_key m @ [CHR 0x27] @ ''.''))
                    (filter (\<lambda>m. \<not> list_ex (\<lambda>allowed. allowed = pm_key m) allowedKeys) members)"

subsection \<open>Bindings and their payloads\<close>

definition targetTypes :: "(string \<times> MRKeymapBindingType) list" where
  "targetTypes = [(''ACTION'', BindAction), (''MACRO'', BindMacro)]"

definition parseKeymapBindingType :: "string \<Rightarrow> MRKeymapBindingType option" where
  "parseKeymapBindingType t = map_option snd (find (\<lambda>(name, type). name = upperAscii t) targetTypes)"

definition keymapBindingTypeName :: "MRKeymapBindingType \<Rightarrow> string" where
  "keymapBindingTypeName type =
     (case find (\<lambda>(name, t). t = type) targetTypes of None \<Rightarrow> ''ACTION'' | Some (name, t) \<Rightarrow> name)"

definition isPhase1CtrlAsciiCollision :: "MRKeymapToken \<Rightarrow> bool" where
  "isPhase1CtrlAsciiCollision token =
     (if \<not> hasModifier token kCtrlBit \<or> hasModifier token kAltBit \<or> hasModifier token kShiftBit \<or> hasModifier token kSuperBit
      then False
      else if tk_baseKey token = KeyBackspace \<or> tk_baseKey token = KeyTab \<or> tk_baseKey token = KeyEnter then True
      else if tk_baseKey token \<noteq> Printable then False
      else toupper (tk_printableKey token) \<in> set ''HIJM'')"

definition sequenceHasPhase1CtrlAsciiCollision :: "MRKeymapSequence \<Rightarrow> bool" where
  "sequenceHasPhase1CtrlAsciiCollision sequence \<longleftrightarrow> sequence \<noteq> [] \<and> isPhase1CtrlAsciiCollision (hd sequence)"

definition appendQuotedPayloadMember :: "string \<Rightarrow> string \<Rightarrow> string \<Rightarrow> string" where
  "appendQuotedPayloadMember payload key v =
     payload @ (if payload \<noteq> [] then '' '' else []) @ key @ ''='' @ [dquote] @ escapePayloadQuotedString v @ [dquote]"

definition appendAtomPayloadMember :: "string \<Rightarrow> string \<Rightarrow> string \<Rightarrow> string" where
  "appendAtomPayloadMember payload key v =
     payload @ (if payload \<noteq> [] then '' '' else []) @ key @ ''='' @ v"

definition serializeProfilePayload :: "MRKeymapProfile \<Rightarrow> string" where
  "serializeProfilePayload p =
     appendQuotedPayloadMember (appendQuotedPayloadMember [] ''name'' (pf_name p)) ''description'' (pf_description p)"

definition serializeBindingPayload :: "MRKeymapBindingRecord \<Rightarrow> string" where
  "serializeBindingPayload b =
     (let p1 = appendQuotedPayloadMember [] ''name'' (br_profileName b);
          p2 = appendAtomPayloadMember p1 ''context'' (keymapContextName (br_context b));
          p3 = appendAtomPayloadMember p2 ''type'' (keymapBindingTypeName (bt_type (br_target b)));
          p4 = appendQuotedPayloadMember p3 ''target'' (bt_target (br_target b));
          p5 = appendQuotedPayloadMember p4 ''sequence'' (MRKeymapSequence_toString (br_sequence b))
      in appendQuotedPayloadMember p5 ''description'' (br_description b))"

definition member_or :: "PayloadMember list \<Rightarrow> string \<Rightarrow> string \<Rightarrow> string" where
  "member_or members key d = (case findPayloadMember members key of None \<Rightarrow> d | Some m \<Rightarrow> pm_value m)"

definition parseKeymapProfilePayload :: "string \<Rightarrow> nat \<Rightarrow> MRKeymapProfile \<times> MRKeymapDiagnostic list" where
  "parseKeymapProfilePayload payload profileIndex =
     (let (members, d0) = parsePayloadMembers payload profileIndex kNoIndex;
          d1 = diagnoseUnknownPayloadMembers members [''NAME'', ''DESCRIPTION''] profileIndex kNoIndex d0;
          d2 = requirePayloadMember members ''NAME'' profileIndex kNoIndex d1
      in (\<lparr>pf_name = trimAscii (member_or members ''NAME'' []), pf_description = member_or members ''DESCRIPTION'' [],
           pf_bindings = []\<rparr>, d2))"

definition emptyBinding :: MRKeymapBindingRecord where
  "emptyBinding = \<lparr>br_profileName = [], br_context = ContextNone, br_target = \<lparr>bt_type = BindAction, bt_target = []\<rparr>,
     br_sequence = [], br_description = []\<rparr>"

text \<open>
  A member whose value is parsed further: the parsed value and no diagnostic, or a default and the
  diagnostic; nothing when the member is missing.
\<close>

definition parsedMember ::
  "PayloadMember list \<Rightarrow> string \<Rightarrow> (string \<Rightarrow> 'a option) \<Rightarrow> 'a \<Rightarrow> (string \<Rightarrow> MRKeymapDiagnostic) \<Rightarrow> 'a \<times> MRKeymapDiagnostic list" where
  "parsedMember members key parse d diagnose =
     (case findPayloadMember members key of
        None \<Rightarrow> (d, [])
      | Some m \<Rightarrow> (case parse (pm_value m) of Some x \<Rightarrow> (x, []) | None \<Rightarrow> (d, [diagnose (pm_value m)])))"

definition parseKeymapBindingPayload :: "string \<Rightarrow> nat \<Rightarrow> nat \<Rightarrow> MRKeymapBindingRecord \<times> MRKeymapDiagnostic list" where
  "parseKeymapBindingPayload payload profileIndex bindingIndex =
     (let (members, d0) = parsePayloadMembers payload profileIndex bindingIndex;
          d1 = diagnoseUnknownPayloadMembers members
                 [''NAME'', ''CONTEXT'', ''TYPE'', ''TARGET'', ''SEQUENCE'', ''DESCRIPTION''] profileIndex bindingIndex d0;
          d2 = fold (\<lambda>key. requirePayloadMember members key profileIndex bindingIndex)
                 [''NAME'', ''CONTEXT'', ''TYPE'', ''TARGET'', ''SEQUENCE''] d1;
          (ctx, d3) = parsedMember members ''CONTEXT'' parseKeymapContext ContextNone
                 (\<lambda>v. makeDiagnostic UnknownContext SeverityError profileIndex bindingIndex
                        (''Binding context '' @ [CHR 0x27] @ v @ [CHR 0x27] @ '' is unknown.''));
          (ty, d4) = parsedMember members ''TYPE'' parseKeymapBindingType BindAction
                 (\<lambda>v. makeDiagnostic InvalidBindingType SeverityError profileIndex bindingIndex
                        (''Binding type '' @ [CHR 0x27] @ v @ [CHR 0x27] @ '' is unknown.''));
          (sq, d5) = parsedMember members ''SEQUENCE'' MRKeymapSequence_parse []
                 (\<lambda>v. makeDiagnostic InvalidSequence SeverityError profileIndex bindingIndex
                        (''Binding sequence '' @ [CHR 0x27] @ v @ [CHR 0x27] @ '' is invalid.''));
          d6 = (if sq \<noteq> [] \<and> sequenceHasPhase1CtrlAsciiCollision sq
                then [makeDiagnostic Phase1CtrlAsciiCollision SeverityError profileIndex bindingIndex
                       ''Binding sequence uses a Ctrl ASCII collision that is reserved in phase 1.'']
                else [])
      in (\<lparr>br_profileName = trimAscii (member_or members ''NAME'' []), br_context = ctx,
           br_target = \<lparr>bt_type = ty, bt_target = member_or members ''TARGET'' []\<rparr>,
           br_sequence = sq, br_description = member_or members ''DESCRIPTION'' []\<rparr>,
          d2 @ d3 @ d4 @ d5 @ d6))"

subsection \<open>Writing and reading back\<close>

lemma quoted_loop_escape:
  "quoted_loop prev v (escapePayloadQuotedString val @ dquote # rest) = Inr (v @ val, dquote, rest)"
  by (induction val arbitrary: prev v) simp_all

lemma memberValue_quoted:
  "memberValue key (dquote # escapePayloadQuotedString val @ dquote # rest) = Inr (val, rest)"
  by (simp add: memberValue_def quoted_loop_escape)

definition atom_value :: "string \<Rightarrow> bool" where
  "atom_value v \<longleftrightarrow> v \<noteq> [] \<and> hd v \<noteq> dquote \<and> list_all (\<lambda>c. \<not> isPayloadSpace c) v"

lemma memberValue_atom:
  assumes "atom_value v" "rest = [] \<or> isPayloadSpace (hd rest)"
  shows "memberValue key (v @ rest) = Inr (v, rest)"
proof -
  have "takeWhile (\<lambda>ch. \<not> isPayloadSpace ch) (v @ rest) = v"
    using assms by (cases rest) (auto simp: atom_value_def list_all_iff takeWhile_eq_all_conv)
  with assms(1) show ?thesis by (auto simp: memberValue_def atom_value_def)
qed

text \<open>One written member: separator, key, equals sign and a value text the parser reads as \<open>v\<close>.\<close>

lemma members_step:
  assumes "key \<noteq> []" "list_all isalpha key" "sep = [] \<or> sep = '' ''" "memberValue (upperAscii key) (vt @ rest) = Inr (v, rest)"
    and "upperAscii key \<notin> seen"
  shows "members_loop n pix bix (sep @ key @ CHR ''='' # vt @ rest) seen ms ds
    = members_loop n pix bix rest (insert (upperAscii key) seen) (ms @ [\<lparr>pm_key = upperAscii key, pm_value = v\<rparr>]) ds"
proof -
  obtain k ks where k: "key = k # ks" using assms(1) by (cases key) auto
  have al: "isalpha k" "list_all isalpha ks" using assms(2) by (simp_all add: k)
  have nsp: "\<not> isPayloadSpace k" using al(1) by (auto simp: isPayloadSpace_def isalpha_def ascii_lower_def ascii_upper_def TAB_def)
  have d: "dropWhile isPayloadSpace (sep @ key @ CHR ''='' # vt @ rest) = key @ CHR ''='' # vt @ rest"
    using assms(3) nsp by (auto simp: k isPayloadSpace_def)
  have e: "\<not> isPayloadKeyChar (CHR ''='')"
    by (simp add: isPayloadKeyChar_def isalpha_def ascii_lower_def ascii_upper_def isdigit_def)
  have "\<forall>c \<in> set ks. isPayloadKeyChar c" using al(2) by (auto simp: isPayloadKeyChar_def list_all_iff)
  with e have tw: "takeWhile isPayloadKeyChar (ks @ CHR ''='' # vt @ rest) = ks" by (simp add: takeWhile_append2)
  show ?thesis
    unfolding members_loop.simps [of n pix bix "sep @ key @ CHR ''='' # vt @ rest"] d
    using assms(4,5) al(1) by (simp add: k tw isPayloadKeyStart_def Let_def)
qed

lemma members_end: "members_loop n pix bix [] seen ms ds = (ms, ds)"
  by (simp add: members_loop.simps)


definition quoted_member :: "string \<Rightarrow> string \<Rightarrow> string" where
  "quoted_member key v = key @ CHR ''='' # (dquote # escapePayloadQuotedString v @ [dquote])"

definition atom_member :: "string \<Rightarrow> string \<Rightarrow> string" where
  "atom_member key v = key @ CHR ''='' # v"

lemma members_quoted:
  assumes "key \<noteq> []" "list_all isalpha key" "sep = [] \<or> sep = '' ''" "upperAscii key \<notin> seen"
  shows "members_loop n pix bix (sep @ quoted_member key v @ rest) seen ms ds
    = members_loop n pix bix rest (insert (upperAscii key) seen) (ms @ [\<lparr>pm_key = upperAscii key, pm_value = v\<rparr>]) ds"
  using members_step [OF assms(1-3) _ assms(4), of "dquote # escapePayloadQuotedString v @ [dquote]" rest v]
  by (simp add: quoted_member_def memberValue_quoted)

lemma members_atom:
  assumes "key \<noteq> []" "list_all isalpha key" "sep = [] \<or> sep = '' ''" "upperAscii key \<notin> seen"
    and "atom_value v" "rest = [] \<or> isPayloadSpace (hd rest)"
  shows "members_loop n pix bix (sep @ atom_member key v @ rest) seen ms ds
    = members_loop n pix bix rest (insert (upperAscii key) seen) (ms @ [\<lparr>pm_key = upperAscii key, pm_value = v\<rparr>]) ds"
  using members_step [OF assms(1-3) memberValue_atom [OF assms(5,6)] assms(4)] by (simp add: atom_member_def)

text \<open>A payload as a list of members, each with its value quoted or not.\<close>

fun written :: "bool \<Rightarrow> (string \<times> string \<times> bool) list \<Rightarrow> string" where
  "written first [] = []"
| "written first ((key, v, quoted) # ms) =
     (if first then [] else '' '') @ (if quoted then quoted_member key v else atom_member key v) @ written False ms"

lemma members_written:
  assumes "list_all (\<lambda>(key, v, quoted). key \<noteq> [] \<and> list_all isalpha key \<and> (quoted \<or> atom_value v)) ms"
    and "distinct (map (\<lambda>m. upperAscii (fst m)) ms)" "seen \<inter> set (map (\<lambda>m. upperAscii (fst m)) ms) = {}"
  shows "members_loop n pix bix (written first ms) seen acc ds
    = (acc @ map (\<lambda>(key, v, quoted). \<lparr>pm_key = upperAscii key, pm_value = v\<rparr>) ms, ds)"
  using assms
proof (induction ms arbitrary: first seen acc)
  case Nil
  then show ?case by (simp add: members_end)
next
  case (Cons m ms)
  obtain key v quoted where m: "m = (key, v, quoted)" by (cases m)
  let ?sep = "if first then [] else '' ''"
  have k: "key \<noteq> []" "list_all isalpha key" "quoted \<or> atom_value v" "upperAscii key \<notin> seen" "?sep = [] \<or> ?sep = '' ''"
    using Cons.prems by (auto simp: m)
  have r: "written False ms = [] \<or> isPayloadSpace (hd (written False ms))"
    by (cases ms) (auto simp: isPayloadSpace_def)
  have "members_loop n pix bix (written first (m # ms)) seen acc ds
      = members_loop n pix bix (written False ms) (insert (upperAscii key) seen)
          (acc @ [\<lparr>pm_key = upperAscii key, pm_value = v\<rparr>]) ds"
    using members_quoted [OF k(1,2,5,4)] members_atom [OF k(1,2,5,4) _ r] k(3) by (cases quoted) (simp_all add: m)
  also have "\<dots> = (acc @ map (\<lambda>(key, v, quoted). \<lparr>pm_key = upperAscii key, pm_value = v\<rparr>) (m # ms), ds)"
    using Cons.prems by (subst Cons.IH) (auto simp: m)
  finally show ?case .
qed

lemma upper_keys [simp]:
  "upperAscii ''name'' = ''NAME''" "upperAscii ''description'' = ''DESCRIPTION''" "upperAscii ''context'' = ''CONTEXT''"
  "upperAscii ''type'' = ''TYPE''" "upperAscii ''target'' = ''TARGET''" "upperAscii ''sequence'' = ''SEQUENCE''"
  by (simp_all add: upperAscii_def toupper_def ascii_lower_def ascii_upper_def)

lemma profile_payload_members:
  "parsePayloadMembers (serializeProfilePayload p) pix bix
     = ([\<lparr>pm_key = ''NAME'', pm_value = pf_name p\<rparr>, \<lparr>pm_key = ''DESCRIPTION'', pm_value = pf_description p\<rparr>], [])"
proof -
  have "serializeProfilePayload p = written True [(''name'', pf_name p, True), (''description'', pf_description p, True)]"
    by (simp add: serializeProfilePayload_def appendQuotedPayloadMember_def quoted_member_def)
  then show ?thesis unfolding parsePayloadMembers_def by (simp only:) (subst members_written, simp_all add: isalpha_def ascii_lower_def)
qed

lemma profile_payload_round_trip:
  "trimAscii (pf_name p) = pf_name p \<Longrightarrow>
   parseKeymapProfilePayload (serializeProfilePayload p) i = (p\<lparr>pf_bindings := []\<rparr>, [])"
  by (simp add: parseKeymapProfilePayload_def profile_payload_members diagnoseUnknownPayloadMembers_def
      requirePayloadMember_def findPayloadMember_def member_or_def)

lemma atom_names: "atom_value (keymapContextName c)" "atom_value (keymapBindingTypeName ty)"
  by (cases c; simp add: keymapContextName_def contexts_def atom_value_def isPayloadSpace_def dquote_def TAB_def)
    (cases ty; simp add: keymapBindingTypeName_def targetTypes_def atom_value_def isPayloadSpace_def dquote_def TAB_def)

lemma binding_type_round_trip: "parseKeymapBindingType (keymapBindingTypeName ty) = Some ty"
  by (cases ty) (simp_all add: parseKeymapBindingType_def keymapBindingTypeName_def targetTypes_def upperAscii_def toupper_def
      ascii_lower_def ascii_upper_def)

lemma binding_payload_members:
  "parsePayloadMembers (serializeBindingPayload b) pix bix
     = ([\<lparr>pm_key = ''NAME'', pm_value = br_profileName b\<rparr>, \<lparr>pm_key = ''CONTEXT'', pm_value = keymapContextName (br_context b)\<rparr>,
         \<lparr>pm_key = ''TYPE'', pm_value = keymapBindingTypeName (bt_type (br_target b))\<rparr>,
         \<lparr>pm_key = ''TARGET'', pm_value = bt_target (br_target b)\<rparr>,
         \<lparr>pm_key = ''SEQUENCE'', pm_value = MRKeymapSequence_toString (br_sequence b)\<rparr>,
         \<lparr>pm_key = ''DESCRIPTION'', pm_value = br_description b\<rparr>], [])"
proof -
  have "serializeBindingPayload b = written True [(''name'', br_profileName b, True), (''context'', keymapContextName (br_context b), False),
      (''type'', keymapBindingTypeName (bt_type (br_target b)), False), (''target'', bt_target (br_target b), True),
      (''sequence'', MRKeymapSequence_toString (br_sequence b), True), (''description'', br_description b, True)]"
    by (simp add: serializeBindingPayload_def appendQuotedPayloadMember_def appendAtomPayloadMember_def quoted_member_def
        atom_member_def)
  then show ?thesis unfolding parsePayloadMembers_def by (simp only:) (subst members_written, simp_all add: atom_names isalpha_def ascii_lower_def)
qed

text \<open>A binding whose text form loses nothing.\<close>

definition binding_printable :: "MRKeymapBindingRecord \<Rightarrow> bool" where
  "binding_printable b \<longleftrightarrow> trimAscii (br_profileName b) = br_profileName b \<and> br_context b \<noteq> ContextNone \<and> br_sequence b \<noteq> []
     \<and> list_all sequence_token (br_sequence b) \<and> \<not> sequenceHasPhase1CtrlAsciiCollision (br_sequence b)"

lemma binding_payload_round_trip:
  assumes "binding_printable b"
  shows "parseKeymapBindingPayload (serializeBindingPayload b) pix bix = (b, [])"
  using assms sequence_print_parse [of "br_sequence b"]
  by (simp add: parseKeymapBindingPayload_def binding_payload_members diagnoseUnknownPayloadMembers_def requirePayloadMember_def
      findPayloadMember_def member_or_def parsedMember_def context_round_trip binding_type_round_trip binding_printable_def)

text \<open>
  The check for the closing quote looks at the byte read last: a value that ends behind an escaped quote,
  and a lone opening quote, count as terminated.
\<close>

lemma unterminated_accepted:
  "parsePayloadMembers (''NAME='' @ [dquote, CHR ''a'', backslash, dquote]) 0 0 = ([\<lparr>pm_key = ''NAME'', pm_value = [CHR ''a'', dquote]\<rparr>], [])"
  "parsePayloadMembers (''NAME='' @ [dquote]) 0 0 = ([\<lparr>pm_key = ''NAME'', pm_value = []\<rparr>], [])"
  by code_simp+

end
