(* ===== verification/Keymap_Profile.thy ===== *)
theory Keymap_Profile
  imports Keymap_Payload Action_Catalog
begin

text \<open>
  Keymap profiles (\<open>src/keymap/MRKeymapProfile.cpp\<close>): the checks on one binding, the validator, and the
  canonicalization that every profile passes before it becomes active. The validator has nothing to
  report on what canonicalization lets through, and the dispatch trie can be built from it.

  The check of a macro target asks the file system, the settings and the macro compiler. A \<open>MacroEnv\<close>
  holds their answers: \<open>access\<close>, \<open>readTextFile\<close>, the configured macro directory, and the result of
  \<open>compile_macro_code\<close>, an error text or the names of the compiled macros (either may be a null pointer).
\<close>

subsection \<open>Macro targets\<close>

record MacroEnv =
  me_access :: "string \<Rightarrow> bool"
  me_macroDirectory :: string
  me_readTextFile :: "string \<Rightarrow> string option"
  me_compile :: "string \<Rightarrow> string option + string option list"

definition macroSpecFilePart :: "string \<Rightarrow> string" where
  "macroSpecFilePart target =
     (if CHR ''^'' \<notin> set target then [] else trimAscii (takeWhile (\<lambda>c. c \<noteq> CHR ''^'') target))"

definition macroSpecMacroPart :: "string \<Rightarrow> string" where
  "macroSpecMacroPart target =
     (if CHR ''^'' \<notin> set target then trimAscii target else trimAscii (tl (dropWhile (\<lambda>c. c \<noteq> CHR ''^'') target)))"

definition tryMacroDirectory :: "MacroEnv \<Rightarrow> string \<Rightarrow> string" where
  "tryMacroDirectory env candidate =
     (if me_macroDirectory env = [] \<or> candidate = [] then []
      else
        (let joined = me_macroDirectory env @ (if last (me_macroDirectory env) \<noteq> CHR ''/'' then ''/'' else []) @ candidate
         in if me_access env joined then joined else []))"

definition resolveMacroBindingFilePath :: "MacroEnv \<Rightarrow> string \<Rightarrow> string" where
  "resolveMacroBindingFilePath env spec =
     (let trimmed = trimAscii spec; upper = upperAscii trimmed; withExt = trimmed @ ''.mrmac'' in
      if trimmed = [] then []
      else if me_access env trimmed then trimmed
      else if tryMacroDirectory env trimmed \<noteq> [] then tryMacroDirectory env trimmed
      else if length upper < 6 \<or> drop (length upper - 6) upper \<noteq> ''.MRMAC'' then
        (if me_access env withExt then withExt
         else if tryMacroDirectory env withExt \<noteq> [] then tryMacroDirectory env withExt
         else [])
      else [])"

record MacroBindingFileValidation =
  mv_macroNames :: "string set"
  mv_compileError :: string

type_synonym MacroCache = "string \<Rightarrow> MacroBindingFileValidation option"

definition validateMacroFile :: "MacroEnv \<Rightarrow> string \<Rightarrow> MacroBindingFileValidation" where
  "validateMacroFile env filePart =
     (let resolvedPath = resolveMacroBindingFilePath env filePart in
      if resolvedPath = [] then \<lparr>mv_macroNames = {}, mv_compileError = ''Macro file could not be resolved.''\<rparr>
      else
        (case me_readTextFile env resolvedPath of
           None \<Rightarrow> \<lparr>mv_macroNames = {}, mv_compileError = ''Macro file could not be read.''\<rparr>
         | Some source \<Rightarrow>
             (case me_compile env source of
                Inl err \<Rightarrow>
                  \<lparr>mv_macroNames = {},
                   mv_compileError = (case err of None \<Rightarrow> ''Compilation failed.'' | Some e \<Rightarrow> if e \<noteq> [] then e else ''Compilation failed.'')\<rparr>
              | Inr names \<Rightarrow>
                  \<lparr>mv_macroNames = upperAscii ` (trimAscii ` case_option [] id ` set names - {[]}), mv_compileError = []\<rparr>)))"

definition validateMacroBindingFile :: "MacroEnv \<Rightarrow> string \<Rightarrow> MacroCache \<Rightarrow> MacroBindingFileValidation \<times> MacroCache" where
  "validateMacroBindingFile env filePart cache =
     (let cacheKey = upperAscii (trimAscii filePart) in
      case cache cacheKey of
        Some v \<Rightarrow> (v, cache)
      | None \<Rightarrow> (let v = validateMacroFile env filePart in (v, cache(cacheKey \<mapsto> v))))"

definition summarizeMacroBindingError :: "string \<Rightarrow> string" where
  "summarizeMacroBindingError message = trimAscii (takeWhile (\<lambda>c. c \<noteq> CR \<and> c \<noteq> LF) message)"

definition bindingHasMacroError :: "MacroEnv \<Rightarrow> MRKeymapBindingRecord \<Rightarrow> MacroCache \<Rightarrow> string option \<times> MacroCache" where
  "bindingHasMacroError env b cache =
     (let filePart = macroSpecFilePart (bt_target (br_target b)); macroPart = macroSpecMacroPart (bt_target (br_target b)) in
      if bt_type (br_target b) \<noteq> BindMacro then (None, cache)
      else if filePart = [] then (Some ''Macro target has no file qualifier.'', cache)
      else if macroPart = [] then (Some ''Macro target has no macro name.'', cache)
      else
        (let (v, cache1) = validateMacroBindingFile env filePart cache in
         if mv_compileError v \<noteq> [] then (Some (summarizeMacroBindingError (mv_compileError v)), cache1)
         else if upperAscii macroPart \<notin> mv_macroNames v then (Some ''Macro not found in file.'', cache1)
         else (None, cache1)))"

subsection \<open>Bindings side by side\<close>

definition sameBindingIdentity :: "MRKeymapBindingRecord \<Rightarrow> MRKeymapBindingRecord \<Rightarrow> bool" where
  "sameBindingIdentity lhs rhs \<longleftrightarrow> br_profileName lhs = br_profileName rhs \<and> br_context lhs = br_context rhs
     \<and> br_target lhs = br_target rhs \<and> br_sequence lhs = br_sequence rhs"

definition sameDispatchSlot :: "MRKeymapBindingRecord \<Rightarrow> MRKeymapBindingRecord \<Rightarrow> bool" where
  "sameDispatchSlot lhs rhs \<longleftrightarrow> br_profileName lhs = br_profileName rhs \<and> br_context lhs = br_context rhs
     \<and> br_sequence lhs = br_sequence rhs"

definition isSequencePrefix :: "MRKeymapSequence \<Rightarrow> MRKeymapSequence \<Rightarrow> bool" where
  "isSequencePrefix p sequence \<longleftrightarrow> length p < length sequence \<and> list_all (\<lambda>i. p ! i = sequence ! i) [0..<length p]"

definition hasSequencePrefixCollision :: "MRKeymapBindingRecord \<Rightarrow> MRKeymapBindingRecord \<Rightarrow> bool" where
  "hasSequencePrefixCollision lhs rhs \<longleftrightarrow> br_context lhs = br_context rhs
     \<and> (isSequencePrefix (br_sequence lhs) (br_sequence rhs) \<or> isSequencePrefix (br_sequence rhs) (br_sequence lhs))"

definition displayBindingTarget :: "string \<Rightarrow> string" where
  "displayBindingTarget target =
     (if starts_with target ''MRMAC_'' then drop 6 target else if starts_with target ''MR_'' then drop 3 target else target)"

definition collisionMessage :: "MRKeymapSequence \<Rightarrow> MRKeymapBindingRecord \<Rightarrow> MRKeymapBindingRecord \<Rightarrow> string" where
  "collisionMessage sequence lhs rhs =
     ''colliding binding '' @ MRKeymapSequence_toString sequence @ '' for '' @ displayBindingTarget (bt_target (br_target lhs))
       @ '' & '' @ displayBindingTarget (bt_target (br_target rhs))"

subsection \<open>Validation\<close>

definition validateBinding :: "string \<Rightarrow> nat \<Rightarrow> nat \<Rightarrow> MRKeymapBindingRecord \<Rightarrow> MRKeymapDiagnostic list" where
  "validateBinding profileName profileIndex i b =
     (if br_profileName b \<noteq> profileName
      then [makeDiagnostic ProfileNameMismatch SeverityError profileIndex i ''Binding profile name does not match owning profile.'']
      else [])
     @ (if br_context b = ContextNone
        then [makeDiagnostic UnknownContext SeverityError profileIndex i ''Binding context is unknown.''] else [])
     @ (if br_sequence b = []
        then [makeDiagnostic InvalidSequence SeverityError profileIndex i ''Binding sequence must not be empty.'']
        else if sequenceHasPhase1CtrlAsciiCollision (br_sequence b)
        then [makeDiagnostic Phase1CtrlAsciiCollision SeverityError profileIndex i
                ''Binding sequence uses a Ctrl ASCII collision that is reserved in phase 1.'']
        else [])
     @ (case bt_type (br_target b) of
          BindAction \<Rightarrow>
            if bt_target (br_target b) = [] \<or> \<not> catalog_contains (bt_target (br_target b))
            then [makeDiagnostic UnknownAction SeverityError profileIndex i ''Binding action target is unknown.''] else []
        | BindMacro \<Rightarrow>
            if bt_target (br_target b) = []
            then [makeDiagnostic InvalidMacroTarget SeverityWarning profileIndex i ''Binding macro target must not be empty.''] else [])"

definition validatePair :: "nat \<Rightarrow> nat \<Rightarrow> MRKeymapBindingRecord \<Rightarrow> MRKeymapBindingRecord \<Rightarrow> MRKeymapDiagnostic list" where
  "validatePair profileIndex j b other =
     (if sameBindingIdentity b other
      then [makeDiagnostic DuplicateBinding SeverityWarning profileIndex j ''Binding is duplicated in the same profile.'']
      else if sameDispatchSlot b other
      then [makeDiagnostic ConflictingBinding SeverityError profileIndex j (collisionMessage (br_sequence b) b other)]
      else [])"

definition validateKeymapProfile :: "MRKeymapProfile \<Rightarrow> nat \<Rightarrow> MRKeymapDiagnostic list" where
  "validateKeymapProfile p profileIndex =
     (if pf_name p = [] then [makeDiagnostic UnknownProfile SeverityError profileIndex kNoIndex ''Profile name must not be empty.''] else [])
     @ concat (map (\<lambda>i. validateBinding (pf_name p) profileIndex i (pf_bindings p ! i)
          @ concat (map (\<lambda>j. validatePair profileIndex j (pf_bindings p ! i) (pf_bindings p ! j)) [i + 1..<length (pf_bindings p)]))
        [0..<length (pf_bindings p)])"

definition validateKeymapProfiles :: "MRKeymapProfile list \<Rightarrow> MRKeymapDiagnostic list" where
  "validateKeymapProfiles profiles =
     concat (map (\<lambda>i. validateKeymapProfile (profiles ! i) i
        @ concat (map (\<lambda>j. if pf_name (profiles ! i) = pf_name (profiles ! j)
             then [makeDiagnostic DuplicateProfile SeverityError j kNoIndex ''Profile name is defined more than once.''] else [])
           [i + 1..<length profiles]))
        [0..<length profiles])"

subsection \<open>Canonicalization\<close>

datatype MRKeymapCanonicalizationMode = UntrustedIngress | TrustedCommit

record MRKeymapCanonicalizationResult =
  cr_activeProfileName :: string
  cr_profiles :: "MRKeymapProfile list"
  cr_diagnostics :: "MRKeymapDiagnostic list"

definition findProfileIndex :: "MRKeymapProfile list \<Rightarrow> string \<Rightarrow> nat" where
  "findProfileIndex profiles name =
     (let i = length (takeWhile (\<lambda>p. pf_name p \<noteq> name) profiles) in if i < length profiles then i else kNoIndex)"

definition normalizeKeymapProfile :: "MRKeymapProfile \<Rightarrow> MRKeymapProfile" where
  "normalizeKeymapProfile p =
     \<lparr>pf_name = trimAscii (pf_name p), pf_description = trimAscii (pf_description p),
      pf_bindings = map (\<lambda>b. b\<lparr>br_profileName := trimAscii (br_profileName b),
        br_target := (br_target b)\<lparr>bt_target := trimAscii (bt_target (br_target b))\<rparr>,
        br_description := trimAscii (br_description b)\<rparr>) (pf_bindings p)\<rparr>"

definition admitProfile ::
  "MRKeymapCanonicalizationMode \<Rightarrow> MRKeymapProfile \<Rightarrow> MRKeymapProfile list \<times> MRKeymapDiagnostic list \<Rightarrow>
   MRKeymapProfile list \<times> MRKeymapDiagnostic list" where
  "admitProfile mode source acc =
     (let (profiles, ds) = acc; p = normalizeKeymapProfile source in
      if mode = UntrustedIngress \<and> pf_name p = []
      then (profiles, ds @ [makeDiagnostic UnknownProfile SeverityError (length profiles) kNoIndex ''Profile name must not be empty.''])
      else if mode = UntrustedIngress \<and> findProfileIndex profiles (pf_name p) \<noteq> kNoIndex
      then (profiles, ds @ [makeDiagnostic DuplicateProfile SeverityError (length profiles) kNoIndex ''Profile name is defined more than once.''])
      else (profiles @ [p], ds))"

definition ingressError :: "string \<Rightarrow> MRKeymapBindingRecord \<Rightarrow> (MRKeymapDiagnosticKind \<times> string) option" where
  "ingressError profileName b =
     (if br_profileName b \<noteq> profileName then Some (ProfileNameMismatch, ''Binding profile name does not match owning profile.'')
      else if br_context b = ContextNone then Some (UnknownContext, ''Binding context is unknown.'')
      else if br_sequence b = [] then Some (InvalidSequence, ''Binding sequence must not be empty.'')
      else if sequenceHasPhase1CtrlAsciiCollision (br_sequence b)
      then Some (Phase1CtrlAsciiCollision, ''Binding sequence uses a Ctrl ASCII collision that is reserved in phase 1.'')
      else if bt_type (br_target b) = BindAction \<and> \<not> catalog_contains (bt_target (br_target b))
      then Some (UnknownAction, ''Binding action target is unknown.'')
      else None)"

fun replaceIdentical :: "MRKeymapBindingRecord \<Rightarrow> MRKeymapBindingRecord list \<Rightarrow> MRKeymapBindingRecord list option" where
  "replaceIdentical b [] = None"
| "replaceIdentical b (e # es) = (if sameBindingIdentity e b then Some (b # es) else map_option ((#) e) (replaceIdentical b es))"

fun slotConflict :: "MRKeymapBindingRecord \<Rightarrow> MRKeymapBindingRecord list \<Rightarrow> (MRKeymapDiagnosticKind \<times> string) option" where
  "slotConflict b [] = None"
| "slotConflict b (e # es) =
     (if sameDispatchSlot e b then Some (ConflictingBinding, collisionMessage (br_sequence b) e b)
      else if hasSequencePrefixCollision e b
      then Some (TerminalPrefixConflict,
             ''terminal/prefix collision between '' @ [CHR 0x27] @ MRKeymapSequence_toString (br_sequence e) @ [CHR 0x27]
               @ '' and '' @ [CHR 0x27] @ MRKeymapSequence_toString (br_sequence b) @ [CHR 0x27] @ ''.'')
      else slotConflict b es)"

definition canonicalBinding ::
  "MacroEnv \<Rightarrow> MRKeymapCanonicalizationMode \<Rightarrow> string \<Rightarrow> nat \<Rightarrow> nat \<times> MRKeymapBindingRecord \<Rightarrow>
   MRKeymapBindingRecord list \<times> MRKeymapDiagnostic list \<times> MacroCache \<Rightarrow>
   MRKeymapBindingRecord list \<times> MRKeymapDiagnostic list \<times> MacroCache" where
  "canonicalBinding env mode profileName profileIndex = (\<lambda>(bindingIndex, b) (cleaned, ds, cache).
     (case (if mode = UntrustedIngress then ingressError profileName b else None) of
        Some (kind, message) \<Rightarrow> (cleaned, ds @ [makeDiagnostic kind SeverityError profileIndex bindingIndex message], cache)
      | None \<Rightarrow>
          (case bindingHasMacroError env b cache of
             (Some macroError, cache1) \<Rightarrow>
               (cleaned, ds @ [makeDiagnostic InvalidMacroTarget SeverityError profileIndex bindingIndex macroError], cache1)
           | (None, cache1) \<Rightarrow>
               (case replaceIdentical b cleaned of
                  Some cleaned1 \<Rightarrow> (cleaned1, ds, cache1)
                | None \<Rightarrow>
                    (case slotConflict b cleaned of
                       Some (kind, message) \<Rightarrow>
                         (cleaned, ds @ [makeDiagnostic kind SeverityError profileIndex bindingIndex message], cache1)
                     | None \<Rightarrow> (cleaned @ [b], ds, cache1))))))"

definition canonicalProfile ::
  "MacroEnv \<Rightarrow> MRKeymapCanonicalizationMode \<Rightarrow> nat \<times> MRKeymapProfile \<Rightarrow>
   MRKeymapProfile list \<times> MRKeymapDiagnostic list \<times> MacroCache \<Rightarrow> MRKeymapProfile list \<times> MRKeymapDiagnostic list \<times> MacroCache" where
  "canonicalProfile env mode = (\<lambda>(profileIndex, p) (profiles, ds, cache).
     (let (cleaned, ds1, cache1) =
            fold (canonicalBinding env mode (pf_name p) profileIndex) (enumerate 0 (pf_bindings p)) ([], ds, cache)
      in (profiles @ [p\<lparr>pf_bindings := cleaned\<rparr>], ds1, cache1)))"

definition canonicalizeKeymapProfiles ::
  "MacroEnv \<Rightarrow> MRKeymapProfile list \<Rightarrow> string \<Rightarrow> MRKeymapCanonicalizationMode \<Rightarrow> MRKeymapCanonicalizationResult" where
  "canonicalizeKeymapProfiles env profiles activeProfileName mode =
     (let active = trimAscii activeProfileName;
          (admitted, ds) = fold (admitProfile mode) profiles ([], []);
          (result, ds1, cache) = fold (canonicalProfile env mode) (enumerate 0 admitted) ([], ds, Map.empty)
      in \<lparr>cr_activeProfileName = (if active = [] \<or> findProfileIndex result active = kNoIndex then [] else active),
          cr_profiles = result, cr_diagnostics = ds1\<rparr>)"

subsection \<open>What canonicalization lets through\<close>

lemma isSequencePrefix_iff: "isSequencePrefix p q \<longleftrightarrow> strict_prefix p q"
proof
  assume "isSequencePrefix p q"
  then have "length p < length q" "\<And>i. i < length p \<Longrightarrow> p ! i = q ! i" by (auto simp: isSequencePrefix_def list_all_iff)
  then have "p = take (length p) q" by (intro nth_equalityI) auto
  then show "strict_prefix p q" using \<open>length p < length q\<close>
    by (metis append_take_drop_id nat_neq_iff prefixI prefix_order.le_imp_less_or_eq)
next
  assume "strict_prefix p q"
  then obtain r where "q = p @ r" "r \<noteq> []" by (auto simp: strict_prefix_def elim: prefixE)
  then show "isSequencePrefix p q" by (auto simp: isSequencePrefix_def list_all_iff nth_append)
qed

lemma replaceIdentical_Some:
  "replaceIdentical b es = Some es' \<Longrightarrow> \<exists>xs e ys. es = xs @ e # ys \<and> sameBindingIdentity e b \<and> es' = xs @ b # ys"
proof (induction es arbitrary: es')
  case (Cons e es)
  show ?case
  proof (cases "sameBindingIdentity e b")
    case True
    with Cons.prems have "e # es = [] @ e # es \<and> sameBindingIdentity e b \<and> es' = [] @ b # es" by simp
    then show ?thesis by blast
  next
    case False
    with Cons.prems obtain fs where f: "replaceIdentical b es = Some fs" "es' = e # fs" by auto
    from Cons.IH [OF f(1)] obtain xs e' ys where "es = xs @ e' # ys" "sameBindingIdentity e' b" "fs = xs @ b # ys" by blast
    then have "e # es = (e # xs) @ e' # ys \<and> sameBindingIdentity e' b \<and> es' = (e # xs) @ b # ys" using f(2) by simp
    then show ?thesis by blast
  qed
qed simp

lemma slotConflict_None:
  "slotConflict b es = None \<longleftrightarrow> (\<forall>e \<in> set es. \<not> sameDispatchSlot e b \<and> \<not> hasSequencePrefixCollision e b)"
  by (induction es) auto

definition clean_binding :: "string \<Rightarrow> MRKeymapBindingRecord \<Rightarrow> bool" where
  "clean_binding name b \<longleftrightarrow> ingressError name b = None \<and> bt_target (br_target b) \<noteq> []"

definition clean_bindings :: "string \<Rightarrow> MRKeymapBindingRecord list \<Rightarrow> bool" where
  "clean_bindings name bs \<longleftrightarrow> list_all (clean_binding name) bs \<and> sorted_wrt bindings_apart bs"

lemma clean_bindingD:
  assumes "clean_binding name b"
  shows "br_profileName b = name" "br_context b \<noteq> ContextNone" "br_sequence b \<noteq> []" "bt_target (br_target b) \<noteq> []"
    "\<not> sequenceHasPhase1CtrlAsciiCollision (br_sequence b)"
    "bt_type (br_target b) = BindAction \<Longrightarrow> catalog_contains (bt_target (br_target b))"
  using assms by (auto simp: clean_binding_def ingressError_def split: if_splits)

lemma apart_slots:
  assumes "br_profileName a = br_profileName b"
  shows "bindings_apart a b \<longleftrightarrow> \<not> sameDispatchSlot a b \<and> \<not> hasSequencePrefixCollision a b"
  using assms by (auto simp: bindings_apart_def sameDispatchSlot_def hasSequencePrefixCollision_def isSequencePrefix_iff
      prefix_order.less_le)

lemma macro_target_nonempty:
  assumes "bindingHasMacroError env b cache = (None, cache1)" "ingressError name b = None"
  shows "clean_binding name b"
proof -
  have "bt_target (br_target b) \<noteq> []"
  proof (cases "bt_type (br_target b)")
    case BindAction
    with assms(2) have "catalog_contains (bt_target (br_target b))" by (auto simp: ingressError_def split: if_splits)
    then show ?thesis by (metis not_contains_Nil)
  next
    case BindMacro
    then show ?thesis using assms(1) by (auto simp: bindingHasMacroError_def macroSpecFilePart_def Let_def)
  qed
  with assms(2) show ?thesis by (simp add: clean_binding_def)
qed

lemma clean_replace:
  assumes "clean_bindings name (xs @ e # ys)" "sameBindingIdentity e b" "clean_binding name b"
  shows "clean_bindings name (xs @ b # ys)"
proof -
  have "bindings_apart b y = bindings_apart e y" "bindings_apart y b = bindings_apart y e" for y
    using assms(2) by (simp_all add: bindings_apart_def sameBindingIdentity_def)
  with assms(1,3) show ?thesis by (simp add: clean_bindings_def sorted_wrt_append)
qed

lemma clean_snoc:
  assumes "clean_bindings name bs" "clean_binding name b" "slotConflict b bs = None"
  shows "clean_bindings name (bs @ [b])"
proof -
  have "bindings_apart e b" if "e \<in> set bs" for e
  proof -
    have "br_profileName e = br_profileName b"
      using that assms(1,2) clean_bindingD(1) by (auto simp: clean_bindings_def list_all_iff)
    from apart_slots [OF this] assms(3) that show ?thesis by (auto simp: slotConflict_None)
  qed
  with assms(1,2) show ?thesis by (simp add: clean_bindings_def sorted_wrt_append)
qed

lemma canonicalBinding_clean:
  assumes "clean_bindings name (fst acc)"
  shows "clean_bindings name (fst (canonicalBinding env UntrustedIngress name pix ib acc))"
proof -
  obtain i b cleaned ds cache where a: "ib = (i, b)" "acc = (cleaned, ds, cache)" by (metis prod_cases3 surj_pair)
  show ?thesis
  proof (cases "ingressError name b")
    case (Some km)
    then show ?thesis using assms by (simp add: a canonicalBinding_def split: prod.split)
  next
    case None
    obtain r cache1 where m: "bindingHasMacroError env b cache = (r, cache1)" by (metis surj_pair)
    show ?thesis
    proof (cases r)
      case (Some err)
      with m None assms show ?thesis by (simp add: a canonicalBinding_def)
    next
      case r: None
      have cb: "clean_binding name b" using macro_target_nonempty m None r by blast
      show ?thesis
      proof (cases "replaceIdentical b cleaned")
        case (Some c1)
        from replaceIdentical_Some [OF this] clean_replace [OF _ _ cb] assms have "clean_bindings name c1" by (auto simp: a)
        with m None r Some show ?thesis by (simp add: a canonicalBinding_def)
      next
        case n: None
        then show ?thesis using m None r clean_snoc [OF _ cb] assms
          by (cases "slotConflict b cleaned") (auto simp: a canonicalBinding_def)
      qed
    qed
  qed
qed

lemma canonicalBindings_clean:
  "clean_bindings name (fst acc) \<Longrightarrow> clean_bindings name (fst (fold (canonicalBinding env UntrustedIngress name pix) ibs acc))"
  by (induction ibs arbitrary: acc) (simp_all add: canonicalBinding_clean)

definition clean_profile :: "MRKeymapProfile \<Rightarrow> bool" where
  "clean_profile p \<longleftrightarrow> pf_name p \<noteq> [] \<and> clean_bindings (pf_name p) (pf_bindings p)"

lemma canonicalProfiles_clean:
  assumes "fold (canonicalProfile env UntrustedIngress) ips (ps, ds, cache) = (ps', ds', cache')"
    and "list_all clean_profile ps" "list_all (\<lambda>(i, p). pf_name p \<noteq> []) ips"
  shows "list_all clean_profile ps' \<and> map pf_name ps' = map pf_name ps @ map (\<lambda>(i, p). pf_name p) ips"
  using assms
proof (induction ips arbitrary: ps ds cache)
  case (Cons ip ips)
  obtain i p where ip: "ip = (i, p)" by (cases ip)
  obtain cl ds1 c1 where f: "fold (canonicalBinding env UntrustedIngress (pf_name p) i) (enumerate 0 (pf_bindings p)) ([], ds, cache) = (cl, ds1, c1)"
    by (metis prod_cases3)
  have "clean_bindings (pf_name p) cl"
    using canonicalBindings_clean [of "pf_name p" "([], ds, cache)" env i "enumerate 0 (pf_bindings p)"] f by (simp add: clean_bindings_def)
  then have "clean_profile (p\<lparr>pf_bindings := cl\<rparr>)" using Cons.prems(3) by (simp add: ip clean_profile_def)
  with Cons.IH [of "ps @ [p\<lparr>pf_bindings := cl\<rparr>]" ds1 c1] Cons.prems f show ?case by (simp add: ip canonicalProfile_def)
qed simp

lemma findProfileIndex_known:
  "length profiles \<le> size_max \<Longrightarrow> findProfileIndex profiles name \<noteq> kNoIndex \<longleftrightarrow> name \<in> pf_name ` set profiles"
proof -
  let ?n = "length (takeWhile (\<lambda>p. pf_name p \<noteq> name) profiles)"
  assume len: "length profiles \<le> size_max"
  have "?n < length profiles \<longleftrightarrow> takeWhile (\<lambda>p. pf_name p \<noteq> name) profiles \<noteq> profiles"
    by (metis length_takeWhile_le nat_less_le takeWhile_eq_take take_all_iff)
  then have "?n < length profiles \<longleftrightarrow> name \<in> pf_name ` set profiles" by (auto simp: takeWhile_eq_all_conv)
  with len show ?thesis by (auto simp: findProfileIndex_def kNoIndex_def Let_def)
qed

lemma admitProfiles:
  assumes "fold (admitProfile UntrustedIngress) sources (ps, ds) = (ps', ds')" "length ps + length sources \<le> size_max"
    and "distinct (map pf_name ps)" "list_all (\<lambda>p. pf_name p \<noteq> []) ps"
  shows "distinct (map pf_name ps') \<and> list_all (\<lambda>p. pf_name p \<noteq> []) ps'"
  using assms
proof (induction sources arbitrary: ps ds)
  case (Cons q qs)
  have k: "findProfileIndex ps (pf_name (normalizeKeymapProfile q)) \<noteq> kNoIndex \<longleftrightarrow> pf_name (normalizeKeymapProfile q) \<in> pf_name ` set ps"
    using Cons.prems(2) by (intro findProfileIndex_known) simp
  show ?case
  proof (cases "pf_name (normalizeKeymapProfile q) = [] \<or> pf_name (normalizeKeymapProfile q) \<in> pf_name ` set ps")
    case True
    with k have "\<exists>d. admitProfile UntrustedIngress q (ps, ds) = (ps, ds @ [d])"
      by (cases "pf_name (normalizeKeymapProfile q) = []") (simp_all add: admitProfile_def)
    then obtain d where "admitProfile UntrustedIngress q (ps, ds) = (ps, ds @ [d])" by blast
    with Cons.IH [of ps "ds @ [d]"] Cons.prems show ?thesis by simp
  next
    case False
    with k have "admitProfile UntrustedIngress q (ps, ds) = (ps @ [normalizeKeymapProfile q], ds)" by (simp add: admitProfile_def)
    with Cons.IH [of "ps @ [normalizeKeymapProfile q]" ds] Cons.prems False show ?thesis by simp
  qed
qed simp

lemma canonicalize_clean:
  fixes env :: MacroEnv and active :: string
  assumes "length profiles \<le> size_max"
  defines "r \<equiv> canonicalizeKeymapProfiles env profiles active UntrustedIngress"
  shows "list_all clean_profile (cr_profiles r)" "distinct (map pf_name (cr_profiles r))"
proof -
  obtain ad ds where a: "fold (admitProfile UntrustedIngress) profiles ([], []) = (ad, ds)" by (metis surj_pair)
  obtain res ds1 c where b: "fold (canonicalProfile env UntrustedIngress) (enumerate 0 ad) ([], ds, Map.empty) = (res, ds1, c)"
    by (metis prod_cases3)
  have ok: "distinct (map pf_name ad)" "list_all (\<lambda>p. pf_name p \<noteq> []) ad" using admitProfiles [OF a] assms(1) by simp_all
  have nm: "map (\<lambda>(i, p). pf_name p) (enumerate 0 ad) = map pf_name ad"
    by (rule nth_equalityI) (simp_all add: nth_enumerate_eq)
  have "list_all (\<lambda>(i, p). pf_name p \<noteq> []) (enumerate 0 ad)"
    using ok(2) by (auto simp: list_all_iff in_set_enumerate_eq)
  from canonicalProfiles_clean [OF b _ this] nm ok(1) a b
  show "list_all clean_profile (cr_profiles r)" "distinct (map pf_name (cr_profiles r))"
    by (simp_all add: r_def canonicalizeKeymapProfiles_def Let_def)
qed

lemma clean_dispatchable: "clean_bindings name bs \<Longrightarrow> dispatchable bs"
  by (auto simp: clean_bindings_def dispatchable_def list_all_iff binding_complete_def clean_bindingD)

lemma clean_validates:
  assumes "clean_profile p"
  shows "validateKeymapProfile p i = []"
proof -
  let ?bs = "pf_bindings p"
  have cb: "clean_binding (pf_name p) b" if "b \<in> set ?bs" for b
    using assms that by (simp add: clean_profile_def clean_bindings_def list_all_iff)
  have single: "validateBinding (pf_name p) i k b = []" if "b \<in> set ?bs" for b k
    using clean_bindingD [OF cb [OF that]] by (auto simp: validateBinding_def split: MRKeymapBindingType.split)
  have pair: "validatePair i k (?bs ! j) (?bs ! k) = []" if "j < k" "k < length ?bs" for j k
  proof -
    have "bindings_apart (?bs ! j) (?bs ! k)"
      using assms that by (simp add: clean_profile_def clean_bindings_def sorted_wrt_iff_nth_less)
    moreover have "br_profileName (?bs ! j) = br_profileName (?bs ! k)" using that by (simp add: clean_bindingD(1) [OF cb])
    ultimately have "\<not> sameDispatchSlot (?bs ! j) (?bs ! k)" by (simp add: apart_slots)
    then show ?thesis by (auto simp: validatePair_def sameBindingIdentity_def sameDispatchSlot_def)
  qed
  show ?thesis using assms single pair by (auto simp: validateKeymapProfile_def clean_profile_def)
qed

lemma clean_profiles_validate:
  assumes "list_all clean_profile ps" "distinct (map pf_name ps)"
  shows "validateKeymapProfiles ps = []"
proof -
  have "pf_name (ps ! i) \<noteq> pf_name (ps ! j)" if "i < j" "j < length ps" for i j
    using assms(2) that by (auto simp: distinct_conv_nth)
  then show ?thesis using assms(1) clean_validates by (auto simp: validateKeymapProfiles_def list_all_iff)
qed

end
