(* ===== verification/Keymap_Settings.thy ===== *)
theory Keymap_Settings
  imports Keymap_Profile
begin

text \<open>
  The text form of keymap profiles (\<open>src/keymap/MRKeymapProfile.cpp\<close>): the records the settings file
  holds, their search by a regular expression, loading and saving. Saved profiles load back unchanged.
\<close>

subsection \<open>Single-quoted literals\<close>

definition squote :: char where "squote = CHR 0x27"

fun unescapeMrmacSingleQuotedLiteral :: "string \<Rightarrow> string" where
  "unescapeMrmacSingleQuotedLiteral [] = []"
| "unescapeMrmacSingleQuotedLiteral [ch] = [ch]"
| "unescapeMrmacSingleQuotedLiteral (ch # c2 # rest) =
     (if ch = squote \<and> c2 = squote then squote # unescapeMrmacSingleQuotedLiteral rest
      else ch # unescapeMrmacSingleQuotedLiteral (c2 # rest))"

definition escapeSingleQuotedLiteral :: "string \<Rightarrow> string" where
  "escapeSingleQuotedLiteral v = concat (map (\<lambda>ch. if ch = squote then [squote, squote] else [ch]) v)"

definition escapeMrmacSingleQuotedLiteral :: "string \<Rightarrow> string" where
  "escapeMrmacSingleQuotedLiteral v = concat (map (\<lambda>ch. [ch] @ (if ch = squote then [squote] else [])) v)"

definition serializeMrsetupRecord :: "string \<Rightarrow> string \<Rightarrow> string" where
  "serializeMrsetupRecord key payload =
     ''MRSETUP('' @ [squote] @ key @ [squote] @ '', '' @ [squote] @ escapeMrmacSingleQuotedLiteral payload @ [squote] @ '');'' @ [LF]"

subsection \<open>The assignment pattern\<close>

text \<open>
  \<open>kAssignmentPattern\<close> has two alternatives, \<open>MRSETUP('key', 'literal')\<close> and \<open>NAME('literal')\<close>, without
  regard to case and with white space between the parts. Each repetition of it is followed by something
  it cannot match itself, so its greedy match is the only one and no step needs to be taken back.
\<close>

definition skipSpace :: "string \<Rightarrow> string" where
  "skipSpace = dropWhile isspace"

definition matchChar :: "char \<Rightarrow> string \<Rightarrow> string option" where
  "matchChar c s = (if s \<noteq> [] \<and> hd s = c then Some (tl s) else None)"

fun literalBody :: "string \<Rightarrow> string \<Rightarrow> (string \<times> string) option" where
  "literalBody acc [] = None"
| "literalBody acc (c # s) =
     (if c \<noteq> squote then literalBody (acc @ [c]) s
      else if s \<noteq> [] \<and> hd s = squote then literalBody (acc @ [squote, squote]) (tl s)
      else Some (acc, s))"

definition matchArgument :: "string \<Rightarrow> (string \<times> string) option" where
  "matchArgument s =
     Option.bind (matchChar squote (skipSpace s)) (\<lambda>s1.
     Option.bind (literalBody [] s1) (\<lambda>(payload, s2).
     Option.bind (matchChar (CHR '')'') (skipSpace s2)) (\<lambda>s3. Some (payload, s3))))"

definition matchMrsetup :: "string \<Rightarrow> (string \<times> string \<times> string) option" where
  "matchMrsetup s =
     (if upperAscii (take 7 s) \<noteq> ''MRSETUP'' then None
      else
        Option.bind (matchChar (CHR ''('') (skipSpace (drop 7 s))) (\<lambda>s1.
        Option.bind (matchChar squote (skipSpace s1)) (\<lambda>s2.
        (let key = takeWhile (\<lambda>c. c \<noteq> squote) s2 in
         if key = [] then None
         else
           Option.bind (matchChar squote (drop (length key) s2)) (\<lambda>s3.
           Option.bind (matchChar (CHR '','') (skipSpace s3)) (\<lambda>s4.
           Option.bind (matchArgument s4) (\<lambda>(payload, s5). Some (key, payload, s5))))))))"

definition isNameStart :: "char \<Rightarrow> bool" where
  "isNameStart c \<longleftrightarrow> isalpha c \<or> c = CHR ''_''"

definition isNameChar :: "char \<Rightarrow> bool" where
  "isNameChar c \<longleftrightarrow> isalpha c \<or> isdigit c \<or> c = CHR ''_''"

definition matchCall :: "string \<Rightarrow> (string \<times> string \<times> string) option" where
  "matchCall s =
     (if s = [] \<or> \<not> isNameStart (hd s) then None
      else
        (let key = hd s # takeWhile isNameChar (tl s) in
         Option.bind (matchChar (CHR ''('') (skipSpace (drop (length key) s))) (\<lambda>s1.
         Option.bind (matchArgument s1) (\<lambda>(payload, s2). Some (key, payload, s2)))))"

fun searchAssignment :: "string \<Rightarrow> (string \<times> string \<times> string) option" where
  "searchAssignment [] = None"
| "searchAssignment (c # s) =
     (case matchMrsetup (c # s) of
        Some r \<Rightarrow> Some r
      | None \<Rightarrow> (case matchCall (c # s) of Some r \<Rightarrow> Some r | None \<Rightarrow> searchAssignment s))"

lemma matchChar_length: "matchChar c s = Some s' \<Longrightarrow> length s = Suc (length s')"
  by (auto simp: matchChar_def split: if_splits)

lemma skipSpace_length: "length (skipSpace s) \<le> length s"
  by (simp add: skipSpace_def length_dropWhile_le)

lemma literalBody_length: "literalBody acc s = Some (p, s') \<Longrightarrow> length s' < length s"
proof (induction acc s rule: literalBody.induct)
  case (2 acc c s)
  show ?case
  proof (cases "c \<noteq> squote")
    case True
    with 2 show ?thesis by fastforce
  next
    case c: False
    show ?thesis
    proof (cases "s \<noteq> [] \<and> hd s = squote")
      case True
      with 2 c have "length s' < length (tl s)" by simp
      then show ?thesis by simp
    next
      case False
      with c "2.prems" show ?thesis by auto
    qed
  qed
qed simp

lemma matchArgument_length: "matchArgument s = Some (p, s') \<Longrightarrow> length s' < length s"
proof -
  assume "matchArgument s = Some (p, s')"
  then obtain s1 s2 where "matchChar squote (skipSpace s) = Some s1" "literalBody [] s1 = Some (p, s2)"
      "matchChar (CHR '')'') (skipSpace s2) = Some s'"
    by (auto simp: matchArgument_def bind_eq_Some_conv)
  from matchChar_length [OF this(1)] literalBody_length [OF this(2)] matchChar_length [OF this(3)] skipSpace_length [of s]
    skipSpace_length [of s2]
  show ?thesis by linarith
qed

lemma matchMrsetup_length: "matchMrsetup s = Some (k, p, s') \<Longrightarrow> length s' < length s"
proof -
  assume "matchMrsetup s = Some (k, p, s')"
  then obtain s1 s2 s3 s4 where m: "matchChar (CHR ''('') (skipSpace (drop 7 s)) = Some s1" "matchChar squote (skipSpace s1) = Some s2"
      "matchChar squote (drop (length k) s2) = Some s3" "matchChar (CHR '','') (skipSpace s3) = Some s4"
      "matchArgument s4 = Some (p, s')"
    by (auto simp: matchMrsetup_def bind_eq_Some_conv Let_def split: if_splits)
  have "length s' < length s4" "length s4 < length s3" "length s3 < length s2" "length s2 < length s1" "length s1 < length s"
    using matchArgument_length [OF m(5)] matchChar_length [OF m(4)] matchChar_length [OF m(3)] matchChar_length [OF m(2)]
      matchChar_length [OF m(1)] skipSpace_length [of s3] skipSpace_length [of s1] skipSpace_length [of "drop 7 s"] by simp_all
  then show ?thesis by linarith
qed

lemma matchCall_length: "matchCall s = Some (k, p, s') \<Longrightarrow> length s' < length s"
proof -
  assume "matchCall s = Some (k, p, s')"
  then obtain s1 where m: "matchChar (CHR ''('') (skipSpace (drop (length k) s)) = Some s1" "matchArgument s1 = Some (p, s')"
    by (auto simp: matchCall_def bind_eq_Some_conv Let_def split: if_splits)
  from matchArgument_length [OF m(2)] matchChar_length [OF m(1)] skipSpace_length [of "drop (length k) s"] show ?thesis by simp
qed

lemma searchAssignment_length: "searchAssignment s = Some (k, p, s') \<Longrightarrow> length s' < length s"
proof (induction s)
  case (Cons c s)
  then show ?case using matchMrsetup_length [of "c # s" k p s'] matchCall_length [of "c # s" k p s']
    by (auto split: option.splits)
qed simp

text \<open>All records of a settings text, in the order the search loop meets them.\<close>

function assignments :: "string \<Rightarrow> (string \<times> string) list" where
  "assignments remaining =
     (case searchAssignment remaining of None \<Rightarrow> [] | Some (key, payload, rest) \<Rightarrow> (key, payload) # assignments rest)"
  by pat_completeness auto
termination
  by (relation "measure length") (auto simp: searchAssignment_length)

declare assignments.simps [simp del]

subsection \<open>Loading\<close>

record MRKeymapLoadResult =
  lr_activeProfileName :: string
  lr_profiles :: "MRKeymapProfile list"
  lr_diagnostics :: "MRKeymapDiagnostic list"

type_synonym ParsedBindingPayload = "MRKeymapBindingRecord \<times> MRKeymapDiagnostic list"

definition loadRecord ::
  "string \<times> string \<Rightarrow> MRKeymapLoadResult \<times> ParsedBindingPayload list \<Rightarrow> MRKeymapLoadResult \<times> ParsedBindingPayload list" where
  "loadRecord = (\<lambda>(k, p) (result, pending).
     (let key = upperAscii (trimAscii k); payload = unescapeMrmacSingleQuotedLiteral p in
      if key = ''ACTIVE_KEYMAP_PROFILE'' then
        (let (activeRecord, ds) = parseKeymapProfilePayload payload kNoIndex in
         (result\<lparr>lr_activeProfileName := pf_name activeRecord,
            lr_diagnostics := lr_diagnostics result
              @ map (\<lambda>d. d\<lparr>dg_profileIndex := kNoIndex, dg_bindingIndex := kNoIndex\<rparr>) ds\<rparr>, pending))
      else if key = ''KEYMAP_PROFILE'' then
        (let (prof, ds) = parseKeymapProfilePayload payload (length (lr_profiles result)) in
         (result\<lparr>lr_diagnostics := lr_diagnostics result @ ds, lr_profiles := lr_profiles result @ [prof]\<rparr>, pending))
      else if key = ''KEYMAP_BIND'' then (result, pending @ [parseKeymapBindingPayload payload kNoIndex kNoIndex])
      else (result, pending)))"

definition attachBinding :: "ParsedBindingPayload \<Rightarrow> MRKeymapLoadResult \<Rightarrow> MRKeymapLoadResult" where
  "attachBinding = (\<lambda>(binding, ds) result.
     (let ownerIndex = length (takeWhile (\<lambda>p. pf_name p \<noteq> br_profileName binding) (lr_profiles result)) in
      if ownerIndex \<ge> length (lr_profiles result) then
        result\<lparr>lr_diagnostics := lr_diagnostics result @ ds
          @ [makeDiagnostic UnknownProfile SeverityError kNoIndex kNoIndex
               (''Binding references unknown profile '' @ [squote] @ br_profileName binding @ [squote] @ ''.'')]\<rparr>
      else
        (let owner = lr_profiles result ! ownerIndex; bindingIndex = length (pf_bindings owner) in
         result\<lparr>lr_diagnostics := lr_diagnostics result
                  @ map (\<lambda>d. d\<lparr>dg_profileIndex := ownerIndex, dg_bindingIndex := bindingIndex\<rparr>) ds,
                lr_profiles := (lr_profiles result)[ownerIndex := owner\<lparr>pf_bindings := pf_bindings owner @ [binding]\<rparr>]\<rparr>)))"

definition loadKeymapProfilesFromSettingsSource :: "MacroEnv \<Rightarrow> string \<Rightarrow> MRKeymapLoadResult" where
  "loadKeymapProfilesFromSettingsSource env source =
     (let (result0, pendingBindings) =
            fold loadRecord (assignments source) (\<lparr>lr_activeProfileName = [], lr_profiles = [], lr_diagnostics = []\<rparr>, []);
          result = fold attachBinding pendingBindings result0;
          canonicalized = canonicalizeKeymapProfiles env (lr_profiles result) (lr_activeProfileName result) UntrustedIngress
      in \<lparr>lr_activeProfileName = cr_activeProfileName canonicalized, lr_profiles = cr_profiles canonicalized,
          lr_diagnostics = lr_diagnostics result @ cr_diagnostics canonicalized\<rparr>)"

subsection \<open>Saving\<close>

definition serializeKeymapProfilesToSettingsSource :: "MRKeymapProfile list \<Rightarrow> string \<Rightarrow> string" where
  "serializeKeymapProfilesToSettingsSource profiles activeProfileName =
     concat (map (\<lambda>p. serializeMrsetupRecord ''KEYMAP_PROFILE'' (serializeProfilePayload p)) profiles)
     @ concat (map (\<lambda>p. concat (map (\<lambda>b. serializeMrsetupRecord ''KEYMAP_BIND'' (serializeBindingPayload b)) (pf_bindings p))) profiles)
     @ (if trimAscii activeProfileName \<noteq> []
        then serializeMrsetupRecord ''ACTIVE_KEYMAP_PROFILE''
               (''name='' @ [dquote] @ escapePayloadQuotedString activeProfileName @ [dquote])
        else [])"

definition buildExecutableKeymapMacroSource :: "string \<Rightarrow> MRKeymapProfile list \<Rightarrow> string \<Rightarrow> string" where
  "buildExecutableKeymapMacroSource persistenceVersion profiles activeProfileName =
     ''$MACRO MR_KEYMAP FROM EDIT;'' @ [LF] @ ''KEYMAP_RESET();'' @ [LF]
     @ ''KEYMAP_VERSION('' @ [squote] @ escapeSingleQuotedLiteral persistenceVersion @ [squote] @ '');'' @ [LF]
     @ concat (map (\<lambda>p. ''KEYMAP_PROFILE('' @ [squote] @ escapeSingleQuotedLiteral (serializeProfilePayload p) @ [squote] @ '');'' @ [LF]) profiles)
     @ concat (map (\<lambda>p. concat (map (\<lambda>b. ''KEYMAP_BIND('' @ [squote] @ escapeSingleQuotedLiteral (serializeBindingPayload b) @ [squote] @ '');'' @ [LF])
                  (pf_bindings p))) profiles)
     @ (if trimAscii activeProfileName \<noteq> []
        then ''ACTIVE_KEYMAP_PROFILE('' @ [squote] @ ''name='' @ [dquote] @ escapeSingleQuotedLiteral (escapePayloadQuotedString activeProfileName)
               @ [dquote] @ [squote] @ '');'' @ [LF]
        else [])
     @ ''END_MACRO;'' @ [LF]"

subsection \<open>Finding the written records\<close>

lemma quote_chars [simp]: "squote \<noteq> dquote" "dquote \<noteq> squote" "\<not> isspace squote" "\<not> isspace dquote"
  by (simp_all add: squote_def dquote_def isspace_def)

lemma escapes_agree: "escapeSingleQuotedLiteral v = escapeMrmacSingleQuotedLiteral v"
  by (induction v) (simp_all add: escapeSingleQuotedLiteral_def escapeMrmacSingleQuotedLiteral_def)

lemma escape_simps [simp]:
  "escapeMrmacSingleQuotedLiteral [] = []"
  "escapeMrmacSingleQuotedLiteral (c # v) = (if c = squote then [squote, squote] else [c]) @ escapeMrmacSingleQuotedLiteral v"
  by (simp_all add: escapeMrmacSingleQuotedLiteral_def)

lemma unescape_escape: "unescapeMrmacSingleQuotedLiteral (escapeMrmacSingleQuotedLiteral v) = v"
proof (induction v)
  case (Cons c v)
  have "c \<noteq> squote \<Longrightarrow> unescapeMrmacSingleQuotedLiteral (c # w) = c # unescapeMrmacSingleQuotedLiteral w" for w
    by (cases w) simp_all
  with Cons show ?case by simp
qed simp

lemma literalBody_escape:
  "s = [] \<or> hd s \<noteq> squote \<Longrightarrow> literalBody acc (escapeMrmacSingleQuotedLiteral v @ squote # s) = Some (acc @ escapeMrmacSingleQuotedLiteral v, s)"
  by (induction v arbitrary: acc) auto

lemma matchArgument_escape:
  "matchArgument (sp @ squote # escapeMrmacSingleQuotedLiteral v @ squote # CHR '')'' # s) = Some (escapeMrmacSingleQuotedLiteral v, s)"
  if "list_all isspace sp" for sp
proof -
  have "skipSpace (sp @ squote # w) = squote # w" for w
    using that by (induction sp) (simp_all add: skipSpace_def)
  moreover have "skipSpace (CHR '')'' # s) = CHR '')'' # s" by (simp add: skipSpace_def isspace_def)
  moreover have "CHR '')'' \<noteq> squote" by (simp add: squote_def)
  ultimately show ?thesis by (simp add: matchArgument_def matchChar_def literalBody_escape)
qed

lemma matchMrsetup_record:
  assumes "key \<noteq> []" "squote \<notin> set key"
  shows "matchMrsetup (serializeMrsetupRecord key payload @ s) = Some (key, escapeMrmacSingleQuotedLiteral payload, CHR '';'' # LF # s)"
proof -
  have tw: "takeWhile (\<lambda>c. c \<noteq> squote) (key @ squote # w) = key" for w using assms(2) by (auto simp: takeWhile_tail takeWhile_eq_all_conv)
  have up: "upperAscii ''MRSETUP'' = ''MRSETUP''" by (simp add: upperAscii_def toupper_def ascii_lower_def ascii_upper_def)
  have sk: "skipSpace (CHR ''('' # w) = CHR ''('' # w" "skipSpace (squote # w) = squote # w" "skipSpace (CHR '','' # w) = CHR '','' # w" for w
    by (simp_all add: skipSpace_def isspace_def squote_def)
  show ?thesis
    using matchArgument_escape [of "'' ''" payload "CHR '';'' # LF # s"] assms(1)
    by (simp add: matchMrsetup_def serializeMrsetupRecord_def up sk matchChar_def tw isspace_def)
qed

lemma search_record:
  assumes "key \<noteq> []" "squote \<notin> set key"
  shows "assignments (serializeMrsetupRecord key payload @ s)
    = (key, escapeMrmacSingleQuotedLiteral payload) # assignments (CHR '';'' # LF # s)"
proof -
  obtain c w where w: "serializeMrsetupRecord key payload @ s = c # w" by (simp add: serializeMrsetupRecord_def)
  then have "searchAssignment (serializeMrsetupRecord key payload @ s) = Some (key, escapeMrmacSingleQuotedLiteral payload, CHR '';'' # LF # s)"
    using matchMrsetup_record [OF assms, of payload s] by simp
  then show ?thesis by (subst assignments.simps) simp
qed

lemma search_separator: "searchAssignment (CHR '';'' # LF # s) = searchAssignment s"
proof -
  have "upperAscii (CHR '';'' # t) \<noteq> ''MRSETUP''" "upperAscii (LF # t) \<noteq> ''MRSETUP''" for t
    by (simp_all add: upperAscii_def toupper_def ascii_lower_def ascii_upper_def)
  moreover have "\<not> isNameStart (CHR '';'')" "\<not> isNameStart LF"
    by (simp_all add: isNameStart_def isalpha_def ascii_lower_def ascii_upper_def)
  ultimately show ?thesis by (simp add: matchMrsetup_def matchCall_def)
qed

lemma assignments_separator: "assignments (CHR '';'' # LF # s) = assignments s"
  by (subst (1 2) assignments.simps) (simp only: search_separator)

lemma assignments_records:
  "list_all (\<lambda>(key, payload). key \<noteq> [] \<and> squote \<notin> set key) rs \<Longrightarrow>
   assignments (concat (map (\<lambda>(key, payload). serializeMrsetupRecord key payload) rs))
     = map (\<lambda>(key, payload). (key, escapeMrmacSingleQuotedLiteral payload)) rs"
proof (induction rs)
  case Nil
  then show ?case by (simp add: assignments.simps)
next
  case (Cons r rs)
  then show ?case by (cases r) (simp add: search_record assignments_separator)
qed

subsection \<open>Loading what was saved\<close>

definition without_bindings :: "MRKeymapProfile \<Rightarrow> MRKeymapProfile" where
  "without_bindings p = p\<lparr>pf_bindings := []\<rparr>"

lemma record_keys:
  "upperAscii (trimAscii ''KEYMAP_PROFILE'') = ''KEYMAP_PROFILE''" "upperAscii (trimAscii ''KEYMAP_BIND'') = ''KEYMAP_BIND''"
  "upperAscii (trimAscii ''ACTIVE_KEYMAP_PROFILE'') = ''ACTIVE_KEYMAP_PROFILE''"
  by (simp_all add: trimAscii_id isspace_def upperAscii_def toupper_def ascii_lower_def ascii_upper_def)

lemma load_profiles:
  assumes "list_all (\<lambda>p. trimAscii (pf_name p) = pf_name p) ps"
  shows "fold loadRecord (map (\<lambda>p. (''KEYMAP_PROFILE'', escapeMrmacSingleQuotedLiteral (serializeProfilePayload p))) ps)
      (\<lparr>lr_activeProfileName = a, lr_profiles = qs, lr_diagnostics = ds\<rparr>, pend)
    = (\<lparr>lr_activeProfileName = a, lr_profiles = qs @ map without_bindings ps, lr_diagnostics = ds\<rparr>, pend)"
  using assms
  by (induction ps arbitrary: qs)
    (simp_all add: loadRecord_def record_keys unescape_escape profile_payload_round_trip without_bindings_def)

lemma load_bindings:
  assumes "list_all binding_printable bs"
  shows "fold loadRecord (map (\<lambda>b. (''KEYMAP_BIND'', escapeMrmacSingleQuotedLiteral (serializeBindingPayload b))) bs) (r, pend)
    = (r, pend @ map (\<lambda>b. (b, [])) bs)"
  using assms
  by (induction bs arbitrary: pend) (simp_all add: loadRecord_def record_keys unescape_escape binding_payload_round_trip)

lemma active_payload:
  "parseKeymapProfilePayload (''name='' @ [dquote] @ escapePayloadQuotedString a @ [dquote]) i
     = (\<lparr>pf_name = trimAscii a, pf_description = [], pf_bindings = []\<rparr>, [])"
proof -
  have "''name='' @ [dquote] @ escapePayloadQuotedString a @ [dquote] = written True [(''name'', a, True)]"
    by (simp add: quoted_member_def)
  then have "parsePayloadMembers (''name='' @ [dquote] @ escapePayloadQuotedString a @ [dquote]) i kNoIndex = ([\<lparr>pm_key = ''NAME'', pm_value = a\<rparr>], [])"
    unfolding parsePayloadMembers_def by (simp only:) (subst members_written, simp_all add: isalpha_def ascii_lower_def)
  then show ?thesis
    by (simp add: parseKeymapProfilePayload_def diagnoseUnknownPayloadMembers_def requirePayloadMember_def findPayloadMember_def member_or_def)
qed

lemma load_active:
  "loadRecord (''ACTIVE_KEYMAP_PROFILE'', escapeMrmacSingleQuotedLiteral (''name='' @ [dquote] @ escapePayloadQuotedString a @ [dquote]))
      (\<lparr>lr_activeProfileName = a0, lr_profiles = ps, lr_diagnostics = ds\<rparr>, pend)
    = (\<lparr>lr_activeProfileName = trimAscii a, lr_profiles = ps, lr_diagnostics = ds\<rparr>, pend)"
  by (simp only: loadRecord_def record_keys unescape_escape active_payload prod.case Let_def) simp

lemma attach_profile:
  assumes "pf_name p \<notin> pf_name ` set ps1" "list_all (\<lambda>b. br_profileName b = pf_name p) bs"
  shows "fold attachBinding (map (\<lambda>b. (b, [])) bs) \<lparr>lr_activeProfileName = a, lr_profiles = ps1 @ p # ps2, lr_diagnostics = ds\<rparr>
    = \<lparr>lr_activeProfileName = a, lr_profiles = ps1 @ p\<lparr>pf_bindings := pf_bindings p @ bs\<rparr> # ps2, lr_diagnostics = ds\<rparr>"
  using assms
proof (induction bs arbitrary: p)
  case (Cons b bs)
  have "takeWhile (\<lambda>q. pf_name q \<noteq> pf_name p) (ps1 @ p # ps2) = ps1"
  proof -
    have "\<forall>q \<in> set ps1. pf_name q \<noteq> pf_name p" using Cons.prems(1) by (metis imageI)
    then show ?thesis by (simp add: takeWhile_append2)
  qed
  then have "attachBinding (b, []) \<lparr>lr_activeProfileName = a, lr_profiles = ps1 @ p # ps2, lr_diagnostics = ds\<rparr>
      = \<lparr>lr_activeProfileName = a, lr_profiles = ps1 @ p\<lparr>pf_bindings := pf_bindings p @ [b]\<rparr> # ps2, lr_diagnostics = ds\<rparr>"
    using Cons.prems(2) by (simp add: attachBinding_def)
  with Cons.IH [of "p\<lparr>pf_bindings := pf_bindings p @ [b]\<rparr>"] Cons.prems show ?case by simp
qed simp

lemma attach_all:
  assumes "distinct (map pf_name (qs @ ps))" "list_all (\<lambda>p. list_all (\<lambda>b. br_profileName b = pf_name p) (pf_bindings p)) ps"
  shows "fold attachBinding (concat (map (\<lambda>p. map (\<lambda>b. (b, [])) (pf_bindings p)) ps))
      \<lparr>lr_activeProfileName = a, lr_profiles = qs @ map without_bindings ps, lr_diagnostics = ds\<rparr>
    = \<lparr>lr_activeProfileName = a, lr_profiles = qs @ ps, lr_diagnostics = ds\<rparr>"
  using assms
proof (induction ps arbitrary: qs)
  case (Cons p ps)
  have "without_bindings p\<lparr>pf_bindings := pf_bindings (without_bindings p) @ pf_bindings p\<rparr> = p" by (simp add: without_bindings_def)
  with attach_profile [of "without_bindings p" qs "pf_bindings p" a "map without_bindings ps" ds] Cons.prems
  have "fold attachBinding (map (\<lambda>b. (b, [])) (pf_bindings p))
        \<lparr>lr_activeProfileName = a, lr_profiles = qs @ without_bindings p # map without_bindings ps, lr_diagnostics = ds\<rparr>
      = \<lparr>lr_activeProfileName = a, lr_profiles = (qs @ [p]) @ map without_bindings ps, lr_diagnostics = ds\<rparr>"
    by (simp add: without_bindings_def)
  with Cons.IH [of "qs @ [p]"] Cons.prems show ?case by simp
qed simp

subsection \<open>Canonicalization keeps settled profiles\<close>

definition macro_file :: "MRKeymapBindingRecord \<Rightarrow> string" where
  "macro_file b = macroSpecFilePart (bt_target (br_target b))"

definition macro_key :: "MRKeymapBindingRecord \<Rightarrow> string" where
  "macro_key b = upperAscii (trimAscii (macro_file b))"

text \<open>Every macro target names a macro of its file, whichever file of the same cache key is compiled first.\<close>

definition macros_accepted :: "MacroEnv \<Rightarrow> MRKeymapBindingRecord list \<Rightarrow> bool" where
  "macros_accepted env bs \<longleftrightarrow>
     list_all (\<lambda>b. bt_type (br_target b) = BindMacro \<longrightarrow>
       macro_file b \<noteq> [] \<and> macroSpecMacroPart (bt_target (br_target b)) \<noteq> [] \<and>
       list_all (\<lambda>c. bt_type (br_target c) = BindMacro \<and> macro_key c = macro_key b \<longrightarrow>
         mv_compileError (validateMacroFile env (macro_file c)) = [] \<and>
         upperAscii (macroSpecMacroPart (bt_target (br_target b))) \<in> mv_macroNames (validateMacroFile env (macro_file c))) bs) bs"

definition cache_ok :: "MacroEnv \<Rightarrow> MRKeymapBindingRecord list \<Rightarrow> MacroCache \<Rightarrow> bool" where
  "cache_ok env bs cache \<longleftrightarrow> (\<forall>k v. cache k = Some v \<longrightarrow>
     (\<exists>c \<in> set bs. bt_type (br_target c) = BindMacro \<and> macro_key c = k \<and> v = validateMacroFile env (macro_file c)))"

lemma macro_accepted_step:
  assumes "macros_accepted env bs" "cache_ok env bs cache" "b \<in> set bs"
  obtains cache1 where "bindingHasMacroError env b cache = (None, cache1)" "cache_ok env bs cache1"
proof (cases "bt_type (br_target b) = BindMacro")
  case False
  then show ?thesis using assms(2) by (intro that [of cache]) (simp_all add: bindingHasMacroError_def Let_def)
next
  case True
  have acc: "macro_file b \<noteq> []" "macroSpecMacroPart (bt_target (br_target b)) \<noteq> []"
    "\<And>c. c \<in> set bs \<Longrightarrow> bt_type (br_target c) = BindMacro \<Longrightarrow> macro_key c = macro_key b \<Longrightarrow>
       mv_compileError (validateMacroFile env (macro_file c)) = [] \<and>
       upperAscii (macroSpecMacroPart (bt_target (br_target b))) \<in> mv_macroNames (validateMacroFile env (macro_file c))"
    using assms(1,3) True by (auto simp: macros_accepted_def list_all_iff)
  obtain v cache1 where v: "validateMacroBindingFile env (macro_file b) cache = (v, cache1)" by (metis surj_pair)
  obtain c where c: "c \<in> set bs" "bt_type (br_target c) = BindMacro" "macro_key c = macro_key b" "v = validateMacroFile env (macro_file c)"
    and ok: "cache_ok env bs cache1"
  proof (cases "cache (macro_key b)")
    case None
    then have "v = validateMacroFile env (macro_file b)" "cache1 = cache(macro_key b \<mapsto> v)"
      using v by (auto simp: validateMacroBindingFile_def macro_key_def Let_def)
    then show thesis using assms(2,3) True by (intro that [of b]) (auto simp: cache_ok_def)
  next
    case (Some w)
    then have "v = w" "cache1 = cache" using v by (auto simp: validateMacroBindingFile_def macro_key_def Let_def)
    with Some assms(2) that show thesis by (auto simp: cache_ok_def)
  qed
  have "bindingHasMacroError env b cache = (None, cache1)"
    using True acc(1,2) acc(3) [OF c(1-3), folded c(4)] v by (simp add: bindingHasMacroError_def macro_file_def Let_def)
  then show ?thesis using ok by (rule that)
qed

lemma replaceIdentical_None: "replaceIdentical b es = None \<longleftrightarrow> (\<forall>e \<in> set es. \<not> sameBindingIdentity e b)"
  by (induction es) auto

lemma canonicalBindings_id:
  assumes "clean_bindings name (cl @ bs)" "set bs \<subseteq> set ms" "macros_accepted env ms" "cache_ok env ms cache"
  obtains cache1 where "fold (canonicalBinding env UntrustedIngress name pix) (enumerate n bs) (cl, ds, cache) = (cl @ bs, ds, cache1)"
    "cache_ok env ms cache1"
  using assms
proof (induction bs arbitrary: n cl cache thesis)
  case (Cons b bs)
  have b: "clean_binding name b" "\<And>e. e \<in> set cl \<Longrightarrow> bindings_apart e b" "\<And>e. e \<in> set cl \<Longrightarrow> clean_binding name e"
    using Cons.prems(2) by (auto simp: clean_bindings_def sorted_wrt_append list_all_iff)
  have apart: "\<not> sameDispatchSlot e b \<and> \<not> hasSequencePrefixCollision e b" if "e \<in> set cl" for e
    using b(2) [OF that] apart_slots [of e b] clean_bindingD(1) [OF b(1)] clean_bindingD(1) [OF b(3) [OF that]] by simp
  then have none: "replaceIdentical b cl = None" "slotConflict b cl = None"
    by (auto simp: replaceIdentical_None slotConflict_None sameBindingIdentity_def sameDispatchSlot_def)
  have "b \<in> set ms" using Cons.prems(3) by simp
  from macro_accepted_step [OF Cons.prems(4,5) this]
  obtain c1 where c1: "bindingHasMacroError env b cache = (None, c1)" "cache_ok env ms c1" by blast
  have step: "canonicalBinding env UntrustedIngress name pix (n, b) (cl, ds, cache) = (cl @ [b], ds, c1)"
    using b(1) none c1(1) by (simp add: canonicalBinding_def clean_binding_def)
  have "clean_bindings name ((cl @ [b]) @ bs)" "set bs \<subseteq> set ms" using Cons.prems(2,3) by simp_all
  from Cons.IH [OF _ this Cons.prems(4) c1(2), of "Suc n"] obtain c2
    where "fold (canonicalBinding env UntrustedIngress name pix) (enumerate (Suc n) bs) (cl @ [b], ds, c1) = ((cl @ [b]) @ bs, ds, c2)"
      "cache_ok env ms c2" by blast
  then show ?case using step by (intro Cons.prems(1) [of c2]) (simp_all add: enumerate_simps)
qed auto

lemma canonicalProfiles_id:
  assumes "list_all clean_profile ps" "\<Union> (set ` pf_bindings ` set ps) \<subseteq> set ms" "macros_accepted env ms" "cache_ok env ms cache"
  shows "\<exists>cache1. fold (canonicalProfile env UntrustedIngress) (enumerate n ps) (qs, ds, cache) = (qs @ ps, ds, cache1)"
  using assms
proof (induction ps arbitrary: n qs cache)
  case (Cons p ps)
  have "clean_bindings (pf_name p) ([] @ pf_bindings p)" "set (pf_bindings p) \<subseteq> set ms" using Cons.prems(1,2) by (auto simp: clean_profile_def)
  from canonicalBindings_id [OF this Cons.prems(3,4), of n 0 ds] obtain c1
    where "fold (canonicalBinding env UntrustedIngress (pf_name p) n) (enumerate 0 (pf_bindings p)) ([], ds, cache) = ([] @ pf_bindings p, ds, c1)"
      "cache_ok env ms c1" by blast
  with Cons.IH [of c1 "Suc n" "qs @ [p]"] Cons.prems show ?case by (simp add: canonicalProfile_def enumerate_simps)
qed simp

definition settled :: "MacroEnv \<Rightarrow> MRKeymapProfile list \<Rightarrow> bool" where
  "settled env ps \<longleftrightarrow> list_all clean_profile ps \<and> distinct (map pf_name ps) \<and> list_all (\<lambda>p. normalizeKeymapProfile p = p) ps
     \<and> macros_accepted env (concat (map pf_bindings ps)) \<and> length ps \<le> size_max"

lemma admit_settled:
  assumes "distinct (map pf_name (qs @ ps))" "list_all clean_profile ps" "list_all (\<lambda>p. normalizeKeymapProfile p = p) ps" "length (qs @ ps) \<le> size_max"
  shows "fold (admitProfile UntrustedIngress) ps (qs, ds) = (qs @ ps, ds)"
  using assms
proof (induction ps arbitrary: qs)
  case (Cons p ps)
  have "findProfileIndex qs (pf_name p) = kNoIndex" using findProfileIndex_known [of qs "pf_name p"] Cons.prems by auto
  then have "admitProfile UntrustedIngress p (qs, ds) = (qs @ [p], ds)"
    using Cons.prems by (simp add: admitProfile_def clean_profile_def)
  with Cons.IH [of "qs @ [p]"] Cons.prems show ?case by simp
qed simp

lemma canonicalize_settled:
  assumes "settled env ps" "trimAscii active = active" "active = [] \<or> active \<in> pf_name ` set ps"
  shows "canonicalizeKeymapProfiles env ps active UntrustedIngress
    = \<lparr>cr_activeProfileName = active, cr_profiles = ps, cr_diagnostics = []\<rparr>"
proof -
  have s: "list_all clean_profile ps" "distinct (map pf_name ps)" "list_all (\<lambda>p. normalizeKeymapProfile p = p) ps"
      "macros_accepted env (concat (map pf_bindings ps))" "length ps \<le> size_max"
    using assms(1) by (simp_all add: settled_def)
  have a: "fold (admitProfile UntrustedIngress) ps ([], []) = (ps, [])"
    using admit_settled [of "[]" ps "[]"] s by simp
  obtain c where c: "fold (canonicalProfile env UntrustedIngress) (enumerate 0 ps) ([], [], Map.empty) = (ps, [], c)"
    using canonicalProfiles_id [OF s(1) _ s(4), of Map.empty 0 "[]" "[]"] by (auto simp: cache_ok_def)
  have "findProfileIndex ps active \<noteq> kNoIndex" if "active \<noteq> []" using findProfileIndex_known [OF s(5)] assms(3) that by auto
  then show ?thesis using assms(2) by (auto simp: canonicalizeKeymapProfiles_def a c)
qed

lemma concat_concat_map: "concat (map (\<lambda>x. concat (f x)) xs) = concat (concat (map f xs))"
  by (induction xs) simp_all

lemma save_load:
  assumes "settled env ps" "trimAscii active = active" "active = [] \<or> active \<in> pf_name ` set ps"
    and "list_all binding_printable (concat (map pf_bindings ps))"
  shows "loadKeymapProfilesFromSettingsSource env (serializeKeymapProfilesToSettingsSource ps active)
    = \<lparr>lr_activeProfileName = active, lr_profiles = ps, lr_diagnostics = []\<rparr>"
proof -
  let ?rp = "map (\<lambda>p. (''KEYMAP_PROFILE'', serializeProfilePayload p)) ps"
  let ?rb = "map (\<lambda>b. (''KEYMAP_BIND'', serializeBindingPayload b)) (concat (map pf_bindings ps))"
  let ?ra = "if active \<noteq> [] then [(''ACTIVE_KEYMAP_PROFILE'', ''name='' @ [dquote] @ escapePayloadQuotedString active @ [dquote])] else []"
  have src: "serializeKeymapProfilesToSettingsSource ps active
      = concat (map (\<lambda>(key, payload). serializeMrsetupRecord key payload) (?rp @ ?rb @ ?ra))"
    using assms(2) by (simp add: serializeKeymapProfilesToSettingsSource_def map_concat comp_def concat_concat_map)
  have as: "assignments (serializeKeymapProfilesToSettingsSource ps active)
      = map (\<lambda>(key, payload). (key, escapeMrmacSingleQuotedLiteral payload)) (?rp @ ?rb @ ?ra)"
    unfolding src by (rule assignments_records) (auto simp: list_all_iff squote_def)
  have nm: "list_all (\<lambda>p. trimAscii (pf_name p) = pf_name p) ps"
  proof -
    have "trimAscii (pf_name p) = pf_name p" if "normalizeKeymapProfile p = p" for p
      using arg_cong [OF that, of pf_name] by (simp add: normalizeKeymapProfile_def)
    then show ?thesis using assms(1) by (auto simp: settled_def list_all_iff)
  qed
  have own: "list_all (\<lambda>p. list_all (\<lambda>b. br_profileName b = pf_name p) (pf_bindings p)) ps"
    using assms(1) clean_bindingD(1) by (fastforce simp: settled_def clean_profile_def clean_bindings_def list_all_iff)
  have "fold loadRecord (assignments (serializeKeymapProfilesToSettingsSource ps active))
        (\<lparr>lr_activeProfileName = [], lr_profiles = [], lr_diagnostics = []\<rparr>, [])
      = (\<lparr>lr_activeProfileName = active, lr_profiles = map without_bindings ps, lr_diagnostics = []\<rparr>,
         map (\<lambda>b. (b, [])) (concat (map pf_bindings ps)))"
    using load_profiles [OF nm, of "[]" "[]" "[]" "[]"] load_bindings [OF assms(4)] load_active [of active] assms(2)
    by (simp add: as comp_def del: escape_simps append_Cons)
  moreover have "fold attachBinding (map (\<lambda>b. (b, [])) (concat (map pf_bindings ps)))
        \<lparr>lr_activeProfileName = active, lr_profiles = map without_bindings ps, lr_diagnostics = []\<rparr>
      = \<lparr>lr_activeProfileName = active, lr_profiles = ps, lr_diagnostics = []\<rparr>"
    using attach_all [of "[]" ps active "[]"] own assms(1) by (simp add: settled_def map_concat comp_def)
  ultimately show ?thesis
    using canonicalize_settled [OF assms(1-3)] by (simp add: loadKeymapProfilesFromSettingsSource_def)
qed

end
