(* ===== verification/VM_Value.thy ===== *)
theory VM_Value
  imports Ascii "HOL-Library.Word"
begin

text \<open>
  Values of the macro machine (\<open>src/mrmac/MRVM.hpp\<close>, \<open>src/mrmac/vm/MRVMValue.cpp\<close>): construction, tests,
  conversion, comparison, and the string helpers the intrinsics are made of. A \<open>double\<close> is kept as its
  64 bits; what the code does with one (conversion, comparison, printing) is the parameter \<open>DoubleOps\<close>.
  A call that throws returns \<open>Inl\<close> the message of the \<open>std::runtime_error\<close>.
\<close>

unbundle bit_operations_syntax

subsection \<open>Values\<close>

datatype ValueType =
    TYPE_INT | TYPE_STR | TYPE_CHAR | TYPE_REAL | TYPE_HASH
  | TYPE_INT_ARRAY | TYPE_STR_ARRAY | TYPE_CHAR_ARRAY | TYPE_REAL_ARRAY | TYPE_HASH_ARRAY

type_synonym double_bits = "64 word"

datatype Value = Value
  (v_type: ValueType)
  (v_i: int)
  (v_r: double_bits)
  (v_s: string)
  (v_c: char)
  (v_hashHandle: int)
  (v_arrayElementType: ValueType)
  (v_arrayValues: "Value list")
  (v_globalStorage: bool)

record DoubleOps =
  do_of_int :: "int \<Rightarrow> double_bits"
  do_less :: "double_bits \<Rightarrow> double_bits \<Rightarrow> bool"
  do_nonzero :: "double_bits \<Rightarrow> bool"
  do_print :: "double_bits \<Rightarrow> string"

definition mrvmMakeInt :: "int \<Rightarrow> Value" where
  "mrvmMakeInt i = Value TYPE_INT i 0 [] NUL 0 TYPE_INT [] False"

definition mrvmMakeReal :: "double_bits \<Rightarrow> Value" where
  "mrvmMakeReal r = Value TYPE_REAL 0 r [] NUL 0 TYPE_INT [] False"

definition mrvmMakeString :: "string \<Rightarrow> Value" where
  "mrvmMakeString s = Value TYPE_STR 0 0 s NUL 0 TYPE_INT [] False"

definition mrvmMakeChar :: "char \<Rightarrow> Value" where
  "mrvmMakeChar c = Value TYPE_CHAR 0 0 [] c 0 TYPE_INT [] False"

definition mrvmMakeHash :: "int \<Rightarrow> bool \<Rightarrow> Value" where
  "mrvmMakeHash handle globalStorage = Value TYPE_HASH 0 0 [] NUL handle TYPE_INT [] globalStorage"

definition with_global :: "bool \<Rightarrow> Value \<Rightarrow> Value" where
  "with_global g v = Value (v_type v) (v_i v) (v_r v) (v_s v) (v_c v) (v_hashHandle v) (v_arrayElementType v) (v_arrayValues v) g"

definition with_elements :: "Value list \<Rightarrow> Value \<Rightarrow> Value" where
  "with_elements vs v = Value (v_type v) (v_i v) (v_r v) (v_s v) (v_c v) (v_hashHandle v) (v_arrayElementType v) vs (v_globalStorage v)"

definition with_handle :: "int \<Rightarrow> Value \<Rightarrow> Value" where
  "with_handle h v = Value (v_type v) (v_i v) (v_r v) (v_s v) (v_c v) h (v_arrayElementType v) (v_arrayValues v) (v_globalStorage v)"

definition mrvmUpperKey :: "string \<Rightarrow> string" where
  "mrvmUpperKey v = map toupper v"

definition mrvmCharToString :: "char \<Rightarrow> string" where
  "mrvmCharToString c = (if c = NUL then [] else [c])"

definition mrvmIsStringLike :: "Value \<Rightarrow> bool" where
  "mrvmIsStringLike v \<longleftrightarrow> v_type v = TYPE_STR \<or> v_type v = TYPE_CHAR"

definition mrvmIsNumeric :: "Value \<Rightarrow> bool" where
  "mrvmIsNumeric v \<longleftrightarrow> v_type v = TYPE_INT \<or> v_type v = TYPE_REAL"

fun decimal_digits :: "nat \<Rightarrow> string" where
  "decimal_digits n = (if n < 10 then [''0123456789'' ! n] else decimal_digits (n div 10) @ [''0123456789'' ! (n mod 10)])"

declare decimal_digits.simps [simp del]

definition print_int :: "int \<Rightarrow> string" where
  "print_int i = (if i < 0 then ''-'' @ decimal_digits (nat (- i)) else decimal_digits (nat i))"

definition mrvmValueAsString :: "DoubleOps \<Rightarrow> Value \<Rightarrow> string" where
  "mrvmValueAsString dops v =
     (case v_type v of
        TYPE_STR \<Rightarrow> v_s v
      | TYPE_CHAR \<Rightarrow> mrvmCharToString (v_c v)
      | TYPE_INT \<Rightarrow> print_int (v_i v)
      | TYPE_REAL \<Rightarrow> do_print dops (v_r v)
      | _ \<Rightarrow> [])"

definition mrvmValueAsReal :: "DoubleOps \<Rightarrow> Value \<Rightarrow> string + double_bits" where
  "mrvmValueAsReal dops v =
     (if v_type v = TYPE_REAL then Inr (v_r v)
      else if v_type v = TYPE_INT then Inr (do_of_int dops (v_i v))
      else Inl ''numeric value expected'')"

definition mrvmValueAsInt :: "Value \<Rightarrow> string + int" where
  "mrvmValueAsInt v = (if v_type v = TYPE_INT then Inr (v_i v) else Inl ''integer value expected'')"

definition mrvmValueIsArrayType :: "ValueType \<Rightarrow> bool" where
  "mrvmValueIsArrayType ty \<longleftrightarrow> ty = TYPE_INT_ARRAY \<or> ty = TYPE_STR_ARRAY \<or> ty = TYPE_CHAR_ARRAY \<or> ty = TYPE_REAL_ARRAY \<or> ty = TYPE_HASH_ARRAY"

definition mrvmValueHasContent :: "DoubleOps \<Rightarrow> Value \<Rightarrow> bool" where
  "mrvmValueHasContent dops v =
     (case v_type v of
        TYPE_INT \<Rightarrow> v_i v \<noteq> 0
      | TYPE_REAL \<Rightarrow> do_nonzero dops (v_r v)
      | TYPE_CHAR \<Rightarrow> v_c v \<noteq> NUL
      | TYPE_STR \<Rightarrow> v_s v \<noteq> []
      | TYPE_HASH \<Rightarrow> v_hashHandle v > 0
      | _ \<Rightarrow> v_arrayValues v \<noteq> [])"

text \<open>\<open>std::string\<close> compares bytes as unsigned characters.\<close>

fun str_less :: "string \<Rightarrow> string \<Rightarrow> bool" where
  "str_less xs [] = False"
| "str_less [] (y # ys) = True"
| "str_less (x # xs) (y # ys) = ((of_char x :: nat) < of_char y \<or> x = y \<and> str_less xs ys)"

definition mrvmCompareValues :: "DoubleOps \<Rightarrow> Value \<Rightarrow> Value \<Rightarrow> string + int" where
  "mrvmCompareValues dops a b =
     (if mrvmIsStringLike a \<and> mrvmIsStringLike b then
        (let as = mrvmValueAsString dops a; bs = mrvmValueAsString dops b in
         Inr (if str_less as bs then -1 else if str_less bs as then 1 else 0))
      else if mrvmIsNumeric a \<and> mrvmIsNumeric b then
        (case (mrvmValueAsReal dops a, mrvmValueAsReal dops b) of
           (Inr av, Inr bv) \<Rightarrow> Inr (if do_less dops av bv then -1 else if do_less dops bv av then 1 else 0)
         | (Inl e, _) \<Rightarrow> Inl e
         | (_, Inl e) \<Rightarrow> Inl e)
      else Inl ''type mismatch'')"

subsection \<open>Strings and paths\<close>

fun collapse_loop :: "bool \<Rightarrow> string \<Rightarrow> string" where
  "collapse_loop previousWasSpace [] = []"
| "collapse_loop previousWasSpace (ch # rest) =
     (if ch = CHR '' '' then (if previousWasSpace then [] else '' '') @ collapse_loop True rest
      else ch # collapse_loop False rest)"

definition mrvmRemoveSpaceAscii :: "string \<Rightarrow> string" where
  "mrvmRemoveSpaceAscii v =
     collapse_loop False (rev (dropWhile (\<lambda>c. c = CHR '' '') (rev (dropWhile (\<lambda>c. c = CHR '' '') v))))"

text \<open>\<open>find_last P s\<close>: the offset of the last byte with \<open>P\<close>, as \<open>find_last_of\<close> returns it.\<close>

definition find_last :: "(char \<Rightarrow> bool) \<Rightarrow> string \<Rightarrow> nat option" where
  "find_last P s = (if list_ex P s then Some (length s - 1 - length (takeWhile (\<lambda>c. \<not> P c) (rev s))) else None)"

definition findLastPathSeparator :: "string \<Rightarrow> nat option" where
  "findLastPathSeparator v = find_last (\<lambda>c. c = CHR 0x5C \<or> c = CHR ''/'') v"

definition baseNameStart :: "string \<Rightarrow> nat" where
  "baseNameStart v =
     (case findLastPathSeparator v of
        Some sep \<Rightarrow> sep + 1
      | None \<Rightarrow> if length v \<ge> 2 \<and> v ! 1 = CHR '':'' then 2 else 0)"

definition mrvmGetExtensionPart :: "string \<Rightarrow> string" where
  "mrvmGetExtensionPart v =
     (case find_last (\<lambda>c. c = CHR ''.'') v of
        None \<Rightarrow> []
      | Some dot \<Rightarrow> if dot < baseNameStart v then [] else drop dot v)"

definition mrvmGetPathPart :: "string \<Rightarrow> string" where
  "mrvmGetPathPart v =
     (case findLastPathSeparator v of
        Some sep \<Rightarrow> take (sep + 1) v
      | None \<Rightarrow> if length v \<ge> 2 \<and> v ! 1 = CHR '':'' then take 2 v else [])"

definition mrvmTruncateExtensionPart :: "string \<Rightarrow> string" where
  "mrvmTruncateExtensionPart v =
     (case find_last (\<lambda>c. c = CHR ''.'') v of
        None \<Rightarrow> v
      | Some dot \<Rightarrow> if dot < baseNameStart v then v else take dot v)"

definition mrvmTruncatePathPart :: "string \<Rightarrow> string" where
  "mrvmTruncatePathPart v = drop (baseNameStart v) v"

definition mrvmEnforceStringLength :: "string \<Rightarrow> string + unit" where
  "mrvmEnforceStringLength v = (if length v > 254 then Inl ''String length error.'' else Inr ())"

definition mrvmCheckedStringIndex :: "int \<Rightarrow> string + int" where
  "mrvmCheckedStringIndex pos =
     (if pos < 1 \<or> pos > 254 then Inl ''Invalid string index on string copy operation.'' else Inr pos)"

definition mrvmCheckedInsertIndex :: "int \<Rightarrow> string + int" where
  "mrvmCheckedInsertIndex pos =
     (if pos < 0 \<or> pos > 254 then Inl ''Invalid string index on string copy operation.'' else Inr pos)"

definition skip_sign :: "string \<Rightarrow> string" where
  "skip_sign t = (if t \<noteq> [] \<and> (hd t = CHR ''+'' \<or> hd t = CHR ''-'') then tl t else t)"

text \<open>Positions are counted from one: the rest of the text from the offending byte on is \<open>rest\<close>.\<close>

definition error_at :: "string \<Rightarrow> string \<Rightarrow> nat" where
  "error_at t rest = length t - length rest + 1"

definition mrvmFindValErrorPosition :: "string \<Rightarrow> nat" where
  "mrvmFindValErrorPosition t =
     (let t1 = dropWhile isspace t in
      if t1 = [] then 1
      else
        (let t2 = skip_sign t1; t3 = dropWhile isdigit t2 in
         if length t3 = length t2 then error_at t t2
         else (let t4 = dropWhile isspace t3 in if t4 \<noteq> [] then error_at t t4 else 0)))"

definition mrvmFindRValErrorPosition :: "string \<Rightarrow> nat" where
  "mrvmFindRValErrorPosition t =
     (let t1 = dropWhile isspace t in
      if t1 = [] then 1
      else
        (let t2 = skip_sign t1;
             t3 = dropWhile isdigit t2;
             t4 = (if t3 \<noteq> [] \<and> hd t3 = CHR ''.'' then dropWhile isdigit (tl t3) else t3);
             seenDigits = (length t3 < length t2 \<or> (t3 \<noteq> [] \<and> hd t3 = CHR ''.'' \<and> length t4 < length (tl t3)))
         in if \<not> seenDigits then error_at t t4
            else
              (let exponent = (t4 \<noteq> [] \<and> (hd t4 = CHR ''e'' \<or> hd t4 = CHR ''E''));
                   t5 = (if exponent then skip_sign (tl t4) else t4);
                   t6 = (if exponent then dropWhile isdigit t5 else t4)
               in if exponent \<and> length t6 = length t5 then error_at t t4
                  else (let t7 = dropWhile isspace t6 in if t7 \<noteq> [] then error_at t t7 else 0))))"

subsection \<open>UTF-8\<close>

definition mrvmUtf8FromCodepoint :: "32 word \<Rightarrow> string + string" where
  "mrvmUtf8FromCodepoint codepoint =
     (let cp = unat codepoint in
      if cp > 0x10FFFF \<or> (cp \<ge> 0xD800 \<and> cp \<le> 0xDFFF) then Inl ''UTF8 expects a valid Unicode codepoint.''
      else if cp \<le> 0x7F then Inr [char_of cp]
      else if cp \<le> 0x7FF then Inr [char_of (0xC0 OR drop_bit 6 cp), char_of (0x80 OR (cp AND 0x3F))]
      else if cp \<le> 0xFFFF
      then Inr [char_of (0xE0 OR drop_bit 12 cp), char_of (0x80 OR (drop_bit 6 cp AND 0x3F)), char_of (0x80 OR (cp AND 0x3F))]
      else Inr [char_of (0xF0 OR drop_bit 18 cp), char_of (0x80 OR (drop_bit 12 cp AND 0x3F)),
                char_of (0x80 OR (drop_bit 6 cp AND 0x3F)), char_of (0x80 OR (cp AND 0x3F))])"

subsection \<open>Arrays and coercion\<close>

definition mrvmArrayTypeForElementType :: "ValueType \<Rightarrow> string + ValueType" where
  "mrvmArrayTypeForElementType elementType =
     (case elementType of
        TYPE_INT \<Rightarrow> Inr TYPE_INT_ARRAY
      | TYPE_STR \<Rightarrow> Inr TYPE_STR_ARRAY
      | TYPE_CHAR \<Rightarrow> Inr TYPE_CHAR_ARRAY
      | TYPE_REAL \<Rightarrow> Inr TYPE_REAL_ARRAY
      | TYPE_HASH \<Rightarrow> Inr TYPE_HASH_ARRAY
      | _ \<Rightarrow> Inl ''unknown array element type'')"

definition mrvmArrayElementTypeForArrayType :: "ValueType \<Rightarrow> string + ValueType" where
  "mrvmArrayElementTypeForArrayType arrayType =
     (case arrayType of
        TYPE_INT_ARRAY \<Rightarrow> Inr TYPE_INT
      | TYPE_STR_ARRAY \<Rightarrow> Inr TYPE_STR
      | TYPE_CHAR_ARRAY \<Rightarrow> Inr TYPE_CHAR
      | TYPE_REAL_ARRAY \<Rightarrow> Inr TYPE_REAL
      | TYPE_HASH_ARRAY \<Rightarrow> Inr TYPE_HASH
      | _ \<Rightarrow> Inl ''array value expected'')"

definition mrvmMakeArrayValue :: "ValueType \<Rightarrow> string + Value" where
  "mrvmMakeArrayValue elementType =
     map_sum id (\<lambda>ty. Value ty 0 0 [] NUL 0 elementType [] False) (mrvmArrayTypeForElementType elementType)"

definition mrvmDefaultValueForType :: "ValueType \<Rightarrow> string + Value" where
  "mrvmDefaultValueForType ty =
     (case ty of
        TYPE_INT \<Rightarrow> Inr (mrvmMakeInt 0)
      | TYPE_REAL \<Rightarrow> Inr (mrvmMakeReal 0)
      | TYPE_CHAR \<Rightarrow> Inr (mrvmMakeChar NUL)
      | TYPE_HASH \<Rightarrow> Inr (mrvmMakeHash 0 False)
      | TYPE_STR \<Rightarrow> Inr (mrvmMakeString [])
      | _ \<Rightarrow> (case mrvmArrayElementTypeForArrayType ty of Inl e \<Rightarrow> Inl e | Inr el \<Rightarrow> mrvmMakeArrayValue el))"

definition mrvmCoerceForStore :: "DoubleOps \<Rightarrow> Value \<Rightarrow> ValueType \<Rightarrow> string + Value" where
  "mrvmCoerceForStore dops v targetType =
     (case targetType of
        TYPE_REAL \<Rightarrow>
          if v_type v = TYPE_REAL then Inr v
          else if v_type v = TYPE_INT then Inr (mrvmMakeReal (do_of_int dops (v_i v)))
          else Inl ''type mismatch''
      | TYPE_STR \<Rightarrow>
          if v_type v = TYPE_STR then Inr v
          else if v_type v = TYPE_CHAR then Inr (mrvmMakeString (mrvmCharToString (v_c v)))
          else Inl ''type mismatch''
      | TYPE_CHAR \<Rightarrow>
          if v_type v = TYPE_CHAR then Inr v
          else if v_type v = TYPE_STR then Inr (mrvmMakeChar (if v_s v = [] then NUL else hd (v_s v)))
          else Inl ''type mismatch''
      | _ \<Rightarrow> if v_type v = targetType then Inr v else Inl ''type mismatch'')"

definition mrvmArrayReadValue :: "Value \<Rightarrow> int \<Rightarrow> string + Value" where
  "mrvmArrayReadValue arrayValue index =
     (if \<not> mrvmValueIsArrayType (v_type arrayValue) then Inl ''array value expected''
      else if index \<le> 0 \<or> nat index > length (v_arrayValues arrayValue) then Inl ''array index out of range''
      else Inr (v_arrayValues arrayValue ! nat (index - 1)))"

subsection \<open>Path parts and numbers\<close>

lemma path_parts: "mrvmGetPathPart v @ mrvmTruncatePathPart v = v"
  by (auto simp: mrvmGetPathPart_def mrvmTruncatePathPart_def baseNameStart_def split: option.split)

lemma extension_parts: "mrvmTruncateExtensionPart v @ mrvmGetExtensionPart v = v"
  by (simp add: mrvmTruncateExtensionPart_def mrvmGetExtensionPart_def split: option.split)

lemma find_last_SomeD:
  assumes "find_last P s = Some i"
  shows "i < length s" "P (s ! i)" "\<And>j. i < j \<Longrightarrow> j < length s \<Longrightarrow> \<not> P (s ! j)"
proof -
  let ?k = "length (takeWhile (\<lambda>c. \<not> P c) (rev s))"
  have i: "i = length s - 1 - ?k" and ex: "\<exists>c \<in> set (rev s). \<not> \<not> P c"
    using assms by (auto simp: find_last_def list_ex_iff split: if_splits)
  from ex obtain c where "c \<in> set (rev s)" "\<not> \<not> P c" by blast
  then have k: "?k < length (rev s)" by (rule takeWhile_length_less)
  then show "i < length s" using i by simp
  show "P (s ! i)" using nth_length_takeWhile [OF k] k i by (simp add: rev_nth)
  show "\<not> P (s ! j)" if "i < j" "j < length s" for j
  proof -
    have "length s - 1 - j < ?k" using that i k by simp
    from takeWhile_nth_P [OF this] that show ?thesis by (simp add: rev_nth)
  qed
qed

text \<open>The part behind the path holds no separator, and the extension is the part from its last dot on.\<close>

lemma truncated_path_plain: "c \<in> set (mrvmTruncatePathPart v) \<Longrightarrow> c \<noteq> CHR ''/'' \<and> c \<noteq> CHR 0x5C"
proof (cases "findLastPathSeparator v")
  case None
  assume "c \<in> set (mrvmTruncatePathPart v)"
  then have "c \<in> set v" unfolding mrvmTruncatePathPart_def by (rule in_set_dropD)
  with None show ?thesis by (auto simp: findLastPathSeparator_def find_last_def list_ex_iff split: if_splits)
next
  case (Some i)
  assume "c \<in> set (mrvmTruncatePathPart v)"
  then have "c \<in> set (drop (i + 1) v)" by (simp add: mrvmTruncatePathPart_def baseNameStart_def Some)
  then obtain k where "k < length (drop (i + 1) v)" "drop (i + 1) v ! k = c" by (meson in_set_conv_nth)
  then have "i + 1 + k < length v" "v ! (i + 1 + k) = c" by auto
  with find_last_SomeD(3) [OF Some [unfolded findLastPathSeparator_def], of "i + 1 + k"] show ?thesis by auto
qed

definition is_integer_text :: "string \<Rightarrow> bool" where
  "is_integer_text t \<longleftrightarrow> (\<exists>sp sg ds sp'. t = sp @ sg @ ds @ sp' \<and> list_all isspace sp \<and> (sg = [] \<or> sg = ''+'' \<or> sg = ''-'')
     \<and> ds \<noteq> [] \<and> list_all isdigit ds \<and> list_all isspace sp')"

lemma not_space_digit: "isdigit c \<Longrightarrow> \<not> isspace c" "isspace c \<Longrightarrow> \<not> isdigit c"
  by (auto simp: isdigit_def isspace_def)

lemma dropWhile_split: "list_all P xs \<Longrightarrow> ys = [] \<or> \<not> P (hd ys) \<Longrightarrow> dropWhile P (xs @ ys) = ys"
  by (induction xs) (auto simp: dropWhile_eq_self_iff)

lemma integer_text_accepted:
  assumes "is_integer_text t"
  shows "mrvmFindValErrorPosition t = 0"
proof -
  obtain sp sg ds sp' where t: "t = sp @ sg @ ds @ sp'" "list_all isspace sp" "sg = [] \<or> sg = ''+'' \<or> sg = ''-''" "ds \<noteq> []"
      "list_all isdigit ds" "list_all isspace sp'"
    using assms by (auto simp: is_integer_text_def)
  have hd: "isdigit (hd ds)" using t(4,5) by (cases ds) auto
  have "\<not> isspace (hd ds)" by (rule not_space_digit(1) [OF hd])
  then have h: "\<not> isspace (hd (sg @ ds @ sp'))" using t(3,4) by (elim disjE) (simp_all add: isspace_def)
  have 1: "dropWhile isspace t = sg @ ds @ sp'" unfolding t(1) by (rule dropWhile_split) (use t(2) h in auto)
  have "hd ds \<noteq> CHR ''+''" "hd ds \<noteq> CHR ''-''" using hd by (auto simp: isdigit_def)
  then have 2: "skip_sign (sg @ ds @ sp') = ds @ sp'" using t(3,4) by (elim disjE) (simp_all add: skip_sign_def)
  have "sp' = [] \<or> \<not> isdigit (hd sp')" using t(6) not_space_digit(2) by (cases sp') auto
  then have 3: "dropWhile isdigit (ds @ sp') = sp'" by (rule dropWhile_split [OF t(5)])
  have "dropWhile isspace sp' = []" using t(6) by (simp add: dropWhile_eq_Nil_conv list_all_iff)
  then show ?thesis using t(4) by (simp add: mrvmFindValErrorPosition_def 1 2 3)
qed

lemma accepted_integer_text:
  assumes "mrvmFindValErrorPosition t = 0"
  shows "is_integer_text t"
proof -
  let ?t1 = "dropWhile isspace t" let ?t2 = "skip_sign ?t1" let ?t3 = "dropWhile isdigit ?t2"
  have a: "?t1 \<noteq> []" "length ?t3 \<noteq> length ?t2" "dropWhile isspace ?t3 = []"
    using assms by (auto simp: mrvmFindValErrorPosition_def error_at_def Let_def split: if_splits)
  obtain sg where sg: "?t1 = sg @ ?t2" "sg = [] \<or> sg = ''+'' \<or> sg = ''-''"
  proof (cases "hd ?t1 = CHR ''+'' \<or> hd ?t1 = CHR ''-''")
    case True
    then have "?t2 = tl ?t1" using a(1) by (simp add: skip_sign_def)
    then have "?t1 = [hd ?t1] @ ?t2" using a(1) by simp
    then show thesis using True that [of "[hd ?t1]"] by auto
  next
    case False
    then have "?t2 = ?t1" by (simp add: skip_sign_def)
    then show thesis using that [of "[]"] by simp
  qed
  have ds: "?t2 = takeWhile isdigit ?t2 @ ?t3" by simp
  have "t = takeWhile isspace t @ sg @ takeWhile isdigit ?t2 @ ?t3" using takeWhile_dropWhile_id [of isspace t] sg(1) ds by metis
  moreover have "takeWhile isdigit ?t2 \<noteq> []" using a(2) ds by (metis append_Nil)
  moreover have "list_all isspace ?t3" using a(3) by (simp add: dropWhile_eq_Nil_conv list_all_iff)
  moreover have "list_all isspace (takeWhile isspace t)" "list_all isdigit (takeWhile isdigit ?t2)"
    by (auto simp: list_all_iff dest: set_takeWhileD)
  ultimately show ?thesis using sg(2) unfolding is_integer_text_def by blast
qed

lemma val_error_range: "mrvmFindValErrorPosition t \<le> length t + 1"
  by (simp add: mrvmFindValErrorPosition_def error_at_def Let_def)

subsection \<open>Coercion\<close>

lemma coerced_type: "mrvmCoerceForStore dops v ty = Inr w \<Longrightarrow> v_type w = ty"
  by (cases ty) (auto simp: mrvmCoerceForStore_def mrvmMakeReal_def mrvmMakeString_def mrvmMakeChar_def split: if_splits)

lemma coerce_idem: "mrvmCoerceForStore dops v ty = Inr w \<Longrightarrow> mrvmCoerceForStore dops w ty = Inr w"
  using coerced_type [of dops v ty w] by (cases ty) (simp_all add: mrvmCoerceForStore_def)

lemma default_type: "mrvmDefaultValueForType ty = Inr v \<Longrightarrow> v_type v = ty"
  by (cases ty) (auto simp: mrvmDefaultValueForType_def mrvmMakeInt_def mrvmMakeReal_def mrvmMakeChar_def mrvmMakeHash_def
      mrvmMakeString_def mrvmArrayElementTypeForArrayType_def mrvmMakeArrayValue_def mrvmArrayTypeForElementType_def)

lemma str_less_linear: "str_less a b \<or> a = b \<or> str_less b a"
proof (induction a b rule: str_less.induct)
  case (3 x xs y ys)
  then show ?case by (metis (mono_tags) linorder_neqE_nat of_char_eq_iff str_less.simps(3))
qed (auto elim: str_less.elims)

lemma str_less_asym: "str_less a b \<Longrightarrow> \<not> str_less b a"
  by (induction a b rule: str_less.induct) auto

text \<open>Two strings compare equal exactly when they are the same bytes, and the order is antisymmetric.\<close>

lemma compare_strings:
  assumes "mrvmIsStringLike a" "mrvmIsStringLike b"
  shows "\<exists>k. mrvmCompareValues dops a b = Inr k \<and> mrvmCompareValues dops b a = Inr (- k)
    \<and> (k = 0 \<longleftrightarrow> mrvmValueAsString dops a = mrvmValueAsString dops b)"
proof -
  let ?a = "mrvmValueAsString dops a" and ?b = "mrvmValueAsString dops b"
  have irr: "\<not> str_less x x" for x using str_less_asym [of x x] by blast
  consider "str_less ?a ?b" "\<not> str_less ?b ?a" "?a \<noteq> ?b" | "?a = ?b" | "str_less ?b ?a" "\<not> str_less ?a ?b" "?a \<noteq> ?b"
    using str_less_linear [of ?a ?b] str_less_asym irr by metis
  then show ?thesis by cases (use assms irr in \<open>simp_all add: mrvmCompareValues_def\<close>)
qed

end
