(* ===== verification/VM_Hash.thy ===== *)
theory VM_Hash
  imports VM_Value
begin

text \<open>
  The hash store of the macro machine (\<open>src/mrmac/vm/MRVMHash.cpp\<close>) and the runtime key-value tree on top
  of it (\<open>MRVMRuntimeKv.cpp\<close>). Hashes are nodes of a graph, named by handles; a value may refer to a
  hash of the machine's own store or of the global one. A call that throws yields \<open>Inl\<close>; the copy of a
  graph is a \<open>partial_function\<close>, whose value is \<open>None\<close> when it does not return. The meter of reads and
  writes per minute, which no other operation reads, is not modelled.
\<close>

subsection \<open>Ordered maps\<close>

text \<open>\<open>std::map\<close> as an association list in the order of its keys.\<close>

fun omap_put :: "('k \<Rightarrow> 'k \<Rightarrow> bool) \<Rightarrow> 'k \<Rightarrow> 'v \<Rightarrow> ('k \<times> 'v) list \<Rightarrow> ('k \<times> 'v) list" where
  "omap_put lt k v [] = [(k, v)]"
| "omap_put lt k v ((k', v') # m) =
     (if k = k' then (k, v) # m else if lt k k' then (k, v) # (k', v') # m else (k', v') # omap_put lt k v m)"

definition omap_del :: "'k \<Rightarrow> ('k \<times> 'v) list \<Rightarrow> ('k \<times> 'v) list" where
  "omap_del k m = filter (\<lambda>(k', v). k' \<noteq> k) m"

lemma map_of_put [simp]: "map_of (omap_put lt k v m) = (map_of m)(k \<mapsto> v)"
  by (induction m) (auto simp: fun_eq_iff)

lemma map_of_filter_key: "map_of (filter (\<lambda>(k, v). P k) m) k = (if P k then map_of m k else None)"
  by (induction m) auto

lemma map_of_del [simp]: "map_of (omap_del k m) = (map_of m)(k := None)"
  by (auto simp: omap_del_def map_of_filter_key fun_eq_iff)

subsection \<open>The store\<close>

type_synonym Hash = "(string \<times> Value) list"

record MRVMHashStore =
  hs_nextHandle :: int
  hs_hashes :: "(int \<times> Hash) list"

definition emptyStore :: MRVMHashStore where
  "emptyStore = \<lparr>hs_nextHandle = 1, hs_hashes = []\<rparr>"

definition store_clear :: "MRVMHashStore \<Rightarrow> MRVMHashStore" where
  "store_clear s = \<lparr>hs_nextHandle = 1, hs_hashes = []\<rparr>"

definition createHash :: "MRVMHashStore \<Rightarrow> int \<times> MRVMHashStore" where
  "createHash s =
     (hs_nextHandle s,
      s\<lparr>hs_nextHandle := hs_nextHandle s + 1, hs_hashes := omap_put (<) (hs_nextHandle s) [] (hs_hashes s)\<rparr>)"

definition store_contains :: "MRVMHashStore \<Rightarrow> int \<Rightarrow> string \<Rightarrow> string + bool" where
  "store_contains s handle key =
     (case map_of (hs_hashes s) handle of None \<Rightarrow> Inl ''Invalid hash value.'' | Some m \<Rightarrow> Inr (map_of m key \<noteq> None))"

definition store_read :: "MRVMHashStore \<Rightarrow> int \<Rightarrow> string \<Rightarrow> string + Value" where
  "store_read s handle key =
     (case map_of (hs_hashes s) handle of
        None \<Rightarrow> Inl ''Invalid hash value.''
      | Some m \<Rightarrow> (case map_of m key of None \<Rightarrow> Inl ''Hash key not found.'' | Some v \<Rightarrow> Inr v))"

definition store_write :: "MRVMHashStore \<Rightarrow> int \<Rightarrow> string \<Rightarrow> Value \<Rightarrow> string + MRVMHashStore" where
  "store_write s handle key v =
     (case map_of (hs_hashes s) handle of
        None \<Rightarrow> Inl ''Invalid hash value.''
      | Some m \<Rightarrow> Inr (s\<lparr>hs_hashes := omap_put (<) handle (omap_put str_less key v m) (hs_hashes s)\<rparr>))"

definition store_erase :: "MRVMHashStore \<Rightarrow> int \<Rightarrow> string \<Rightarrow> string + MRVMHashStore" where
  "store_erase s handle key =
     (case map_of (hs_hashes s) handle of
        None \<Rightarrow> Inl ''Invalid hash value.''
      | Some m \<Rightarrow> Inr (s\<lparr>hs_hashes := omap_put (<) handle (omap_del key m) (hs_hashes s)\<rparr>))"

definition store_keys :: "MRVMHashStore \<Rightarrow> int \<Rightarrow> string + string list" where
  "store_keys s handle =
     (case map_of (hs_hashes s) handle of None \<Rightarrow> Inl ''Invalid hash value.'' | Some m \<Rightarrow> Inr (map fst m))"

definition store_values :: "MRVMHashStore \<Rightarrow> int \<Rightarrow> string + Value list" where
  "store_values s handle =
     (case map_of (hs_hashes s) handle of None \<Rightarrow> Inl ''Invalid hash value.'' | Some m \<Rightarrow> Inr (map snd m))"

subsection \<open>Collecting what is reachable\<close>

text \<open>The local hashes one value refers to directly, itself or through its array elements.\<close>

definition local_handle :: "Value \<Rightarrow> int list" where
  "local_handle v = (if v_type v = TYPE_HASH \<and> \<not> v_globalStorage v then [v_hashHandle v] else [])"

definition entry_handles :: "Value \<Rightarrow> int list" where
  "entry_handles v = local_handle v @ concat (map local_handle (v_arrayValues v))"

text \<open>
  \<open>collectReachable\<close> with its calls as a list of handles still to visit, in the order the recursion
  visits them.
\<close>

function collectReachable :: "(int \<times> Hash) list \<Rightarrow> int list \<Rightarrow> int set \<Rightarrow> int set" where
  "collectReachable hashes [] reachable = reachable"
| "collectReachable hashes (handle # todo) reachable =
     (if handle \<le> 0 \<or> handle \<in> reachable then collectReachable hashes todo reachable
      else
        (case map_of hashes handle of
           None \<Rightarrow> collectReachable hashes todo reachable
         | Some m \<Rightarrow> collectReachable hashes (concat (map (entry_handles \<circ> snd) m) @ todo) (insert handle reachable)))"
  by pat_completeness auto

lemma visit_decreases:
  assumes "map_of hashes h = Some m" "h \<notin> R"
  shows "card (fst ` set hashes - insert h R) < card (fst ` set hashes - R)"
proof (rule psubset_card_mono)
  have "h \<in> fst ` set hashes" using assms(1) by (metis map_of_eq_None_iff option.distinct(1))
  then show "fst ` set hashes - insert h R \<subset> fst ` set hashes - R" using assms(2) by auto
qed simp

termination collectReachable
proof (relation "measures [\<lambda>(hashes, todo, R). card (fst ` set hashes - R), \<lambda>(hashes, todo, R). length todo]", goal_cases)
  case (4 hashes handle todo R m)
  then show ?case using visit_decreases [of hashes handle m R] by simp
qed auto

definition clearExceptRoots :: "MRVMHashStore \<Rightarrow> int list \<Rightarrow> MRVMHashStore" where
  "clearExceptRoots s roots =
     (let reachable = collectReachable (hs_hashes s) roots {}
      in s\<lparr>hs_hashes := filter (\<lambda>(handle, m). handle \<in> reachable) (hs_hashes s)\<rparr>)"

subsection \<open>Erasing a tree\<close>

text \<open>
  \<open>eraseValueTrees\<close> and \<open>eraseHashTree\<close> with the values still to erase as a list. A hash leaves the map
  when its entries are done, but from the moment it is in \<open>erased\<close> it is not entered again, so the
  handles in \<open>erased\<close> are the ones that leave the map.
\<close>

function eraseTrees :: "(int \<times> Hash) list \<Rightarrow> bool \<Rightarrow> Value list \<Rightarrow> int set \<Rightarrow> int set" where
  "eraseTrees hashes targetGlobalStorage [] erased = erased"
| "eraseTrees hashes targetGlobalStorage (v # todo) erased =
     (if v_type v = TYPE_HASH \<and> v_globalStorage v = targetGlobalStorage then
        (if v_hashHandle v \<le> 0 \<or> v_hashHandle v \<in> erased then eraseTrees hashes targetGlobalStorage todo erased
         else
           (case map_of hashes (v_hashHandle v) of
              None \<Rightarrow> eraseTrees hashes targetGlobalStorage todo erased
            | Some m \<Rightarrow> eraseTrees hashes targetGlobalStorage (map snd m @ todo) (insert (v_hashHandle v) erased)))
      else if mrvmValueIsArrayType (v_type v) then eraseTrees hashes targetGlobalStorage (v_arrayValues v @ todo) erased
      else eraseTrees hashes targetGlobalStorage todo erased)"
  by pat_completeness auto

lemma size_elements: "size_list size (v_arrayValues v) < size v"
  by (cases v) simp

termination eraseTrees
proof (relation "measures [\<lambda>(hashes, tg, todo, R). card (fst ` set hashes - R), \<lambda>(hashes, tg, todo, R). size_list size todo]", goal_cases)
  case (4 hashes tg v todo R m)
  then show ?case using visit_decreases [of hashes "v_hashHandle v" m R] by simp
next
  case (5 hashes tg v todo R)
  then show ?case using size_elements [of v] by simp
qed auto

definition eraseValueTrees :: "MRVMHashStore \<Rightarrow> Value \<Rightarrow> bool \<Rightarrow> MRVMHashStore" where
  "eraseValueTrees s v targetGlobalStorage =
     (let erased = eraseTrees (hs_hashes s) targetGlobalStorage [v] {}
      in s\<lparr>hs_hashes := filter (\<lambda>(handle, m). handle \<notin> erased) (hs_hashes s)\<rparr>)"

subsection \<open>The collection is exact\<close>

definition node_children :: "Hash \<Rightarrow> int list" where
  "node_children m = concat (map (entry_handles \<circ> snd) m)"

definition live :: "(int \<times> Hash) list \<Rightarrow> int \<Rightarrow> bool" where
  "live hashes h \<longleftrightarrow> 0 < h \<and> map_of hashes h \<noteq> None"

inductive reachable_from :: "(int \<times> Hash) list \<Rightarrow> int set \<Rightarrow> int \<Rightarrow> bool" for hashes and roots where
  root: "h \<in> roots \<Longrightarrow> live hashes h \<Longrightarrow> reachable_from hashes roots h"
| child: "reachable_from hashes roots h \<Longrightarrow> map_of hashes h = Some m \<Longrightarrow> c \<in> set (node_children m) \<Longrightarrow> live hashes c \<Longrightarrow>
    reachable_from hashes roots c"

lemma reachable_mono:
  assumes "reachable_from hashes A h" "\<And>a. a \<in> A \<Longrightarrow> live hashes a \<Longrightarrow> reachable_from hashes B a"
  shows "reachable_from hashes B h"
  using assms by (induction rule: reachable_from.induct) (auto intro: reachable_from.child)

lemma collect_step:
  "collectReachable hashes (h # todo) R =
     (if live hashes h \<and> h \<notin> R then collectReachable hashes (node_children (the (map_of hashes h)) @ todo) (insert h R)
      else collectReachable hashes todo R)"
  by (auto simp: live_def node_children_def split: option.split)

lemma collect_sound: "h \<in> collectReachable hashes todo R \<Longrightarrow> h \<in> R \<or> reachable_from hashes (set todo) h"
proof (induction hashes todo R rule: collectReachable.induct)
  case (2 hashes g todo R)
  show ?case
  proof (cases "live hashes g \<and> g \<notin> R")
    case True
    then obtain m where m: "map_of hashes g = Some m" by (auto simp: live_def)
    have g: "reachable_from hashes (set (g # todo)) g" using True by (intro reachable_from.root) auto
    have "h \<in> insert g R \<or> reachable_from hashes (set (node_children m @ todo)) h"
      using "2.IH"(3) [OF _ m] "2.prems" True m by (auto simp: live_def node_children_def)
    moreover have "reachable_from hashes (set (g # todo)) h" if "reachable_from hashes (set (node_children m @ todo)) h"
      by (rule reachable_mono [OF that]) (use g m in \<open>auto intro: reachable_from.child reachable_from.root\<close>)
    ultimately show ?thesis using g by auto
  next
    case False
    then have "h \<in> collectReachable hashes todo R" using "2.prems" by (simp only: collect_step) (simp add: False)
    moreover have "g \<le> 0 \<or> g \<in> R \<or> map_of hashes g = None" using False by (auto simp: live_def)
    ultimately have "h \<in> R \<or> reachable_from hashes (set todo) h" using "2.IH"(1,2) by (cases "map_of hashes g") auto
    then show ?thesis using reachable_mono [of hashes "set todo" h "set (g # todo)"] reachable_from.root by auto
  qed
qed simp

text \<open>Every child of a visited hash is visited or waits in the list.\<close>

definition frontier :: "(int \<times> Hash) list \<Rightarrow> int list \<Rightarrow> int set \<Rightarrow> bool" where
  "frontier hashes todo R \<longleftrightarrow> (\<forall>h \<in> R. \<forall>m. map_of hashes h = Some m \<longrightarrow>
     (\<forall>c \<in> set (node_children m). live hashes c \<longrightarrow> c \<in> R \<or> c \<in> set todo))"

lemma collect_closed:
  "frontier hashes todo R \<Longrightarrow> R \<subseteq> collectReachable hashes todo R \<and> {h \<in> set todo. live hashes h} \<subseteq> collectReachable hashes todo R
    \<and> frontier hashes [] (collectReachable hashes todo R)"
proof (induction hashes todo R rule: collectReachable.induct)
  case (2 hashes g todo R)
  show ?case
  proof (cases "live hashes g \<and> g \<notin> R")
    case True
    then obtain m where m: "map_of hashes g = Some m" by (auto simp: live_def)
    have "frontier hashes (node_children m @ todo) (insert g R)" using "2.prems" m by (auto simp: frontier_def)
    from "2.IH"(3) [OF _ m] this True m show ?thesis
      by (simp only: collect_step) (auto simp: live_def node_children_def)
  next
    case False
    have "frontier hashes todo R" using "2.prems" False by (auto simp: frontier_def)
    moreover have "g \<le> 0 \<or> g \<in> R \<or> map_of hashes g = None" using False by (auto simp: live_def)
    ultimately have "R \<subseteq> collectReachable hashes todo R \<and> {h \<in> set todo. live hashes h} \<subseteq> collectReachable hashes todo R
        \<and> frontier hashes [] (collectReachable hashes todo R)"
      using "2.IH"(1,2) by (cases "map_of hashes g") auto
    then show ?thesis using False by (simp only: collect_step) auto
  qed
qed simp

lemma collect_exact: "collectReachable hashes todo {} = {h. reachable_from hashes (set todo) h}"
proof -
  have c: "{h \<in> set todo. live hashes h} \<subseteq> collectReachable hashes todo {}" "frontier hashes [] (collectReachable hashes todo {})"
    using collect_closed [of hashes todo "{}"] by (simp_all add: frontier_def)
  have "h \<in> collectReachable hashes todo {}" if "reachable_from hashes (set todo) h" for h
    using that
  proof (induction rule: reachable_from.induct)
    case (root h)
    then show ?case using c(1) by auto
  next
    case (child h m d)
    then show ?case using c(2) by (auto simp: frontier_def)
  qed
  then show ?thesis using collect_sound [of _ hashes todo "{}"] by auto
qed

lemma clearExceptRoots_exact:
  "map_of (hs_hashes (clearExceptRoots s roots)) h =
     (if reachable_from (hs_hashes s) (set roots) h then map_of (hs_hashes s) h else None)"
  by (simp add: clearExceptRoots_def collect_exact map_of_filter_key)

end
