(* ===== verification/Runtime_Kv.thy ===== *)
theory Runtime_Kv
  imports VM_Hash
begin

text \<open>
  Values in two stores (\<open>src/mrmac/vm/MRVMHash.cpp\<close>) and the runtime key-value tree
  (\<open>src/mrmac/vm/MRVMRuntimeKv.cpp\<close>): the machine's own store and the global one, which may be the same
  object, so a store is named by a \<open>StoreId\<close> and looked up in the \<open>VmHeap\<close>. An operation is a function
  on the heap; it returns a value, throws (\<open>Inl\<close> the message), or does not return (\<open>None\<close>).
\<close>

subsection \<open>Operations on the heap\<close>

datatype StoreId = StoreLocal | StoreGlobal

record VmHeap =
  heap_local :: MRVMHashStore
  heap_global :: MRVMHashStore

definition store_of :: "StoreId \<Rightarrow> VmHeap \<Rightarrow> MRVMHashStore" where
  "store_of sid h = (case sid of StoreLocal \<Rightarrow> heap_local h | StoreGlobal \<Rightarrow> heap_global h)"

definition store_put :: "StoreId \<Rightarrow> MRVMHashStore \<Rightarrow> VmHeap \<Rightarrow> VmHeap" where
  "store_put sid s h = (case sid of StoreLocal \<Rightarrow> h\<lparr>heap_local := s\<rparr> | StoreGlobal \<Rightarrow> h\<lparr>heap_global := s\<rparr>)"

type_synonym ('s, 'a) vm = "'s \<Rightarrow> ((string + 'a) \<times> 's) option"

definition vm_return :: "'a \<Rightarrow> ('s, 'a) vm" where
  "vm_return x s = Some (Inr x, s)"

definition vm_bind :: "('s, 'a) vm \<Rightarrow> ('a \<Rightarrow> ('s, 'b) vm) \<Rightarrow> ('s, 'b) vm" where
  "vm_bind m f s =
     (case m s of None \<Rightarrow> None | Some (r, s1) \<Rightarrow> (case r of Inl e \<Rightarrow> Some (Inl e, s1) | Inr x \<Rightarrow> f x s1))"

definition vm_query :: "('s \<Rightarrow> string + 'a) \<Rightarrow> ('s, 'a) vm" where
  "vm_query f s = Some (f s, s)"

definition vm_update :: "('s \<Rightarrow> string + 's) \<Rightarrow> ('s, unit) vm" where
  "vm_update f s = (case f s of Inl e \<Rightarrow> Some (Inl e, s) | Inr s1 \<Rightarrow> Some (Inr (), s1))"

lemma vm_simps [simp]:
  "vm_return x s = Some (Inr x, s)"
  "m s = Some (Inr x, s1) \<Longrightarrow> vm_bind m f s = f x s1"
  "m s = Some (Inl e, s1) \<Longrightarrow> vm_bind m f s = Some (Inl e, s1)"
  "f1 s = Inr x \<Longrightarrow> vm_query f1 s = Some (Inr x, s)"
  "f1 s = Inl e \<Longrightarrow> vm_query f1 s = Some (Inl e, s)"
  "u s = Inr s1 \<Longrightarrow> vm_update u s = Some (Inr (), s1)"
  by (simp_all add: vm_return_def vm_bind_def vm_query_def vm_update_def)

definition mrvmHashRuntimeStoreForValue :: "StoreId \<Rightarrow> StoreId \<Rightarrow> Value \<Rightarrow> StoreId" where
  "mrvmHashRuntimeStoreForValue localStore globalStore v = (if v_globalStorage v then globalStore else localStore)"

definition mrvmHashContainsValue :: "StoreId \<Rightarrow> StoreId \<Rightarrow> Value \<Rightarrow> string \<Rightarrow> (VmHeap, bool) vm" where
  "mrvmHashContainsValue l g v key =
     vm_query (\<lambda>h. store_contains (store_of (mrvmHashRuntimeStoreForValue l g v) h) (v_hashHandle v) key)"

definition mrvmHashReadValue :: "StoreId \<Rightarrow> StoreId \<Rightarrow> Value \<Rightarrow> string \<Rightarrow> (VmHeap, Value) vm" where
  "mrvmHashReadValue l g v key =
     vm_query (\<lambda>h. store_read (store_of (mrvmHashRuntimeStoreForValue l g v) h) (v_hashHandle v) key)"

definition mrvmHashEraseValue :: "StoreId \<Rightarrow> StoreId \<Rightarrow> Value \<Rightarrow> string \<Rightarrow> (VmHeap, unit) vm" where
  "mrvmHashEraseValue l g v key =
     (let sid = mrvmHashRuntimeStoreForValue l g v
      in vm_update (\<lambda>h. map_sum id (\<lambda>s. store_put sid s h) (store_erase (store_of sid h) (v_hashHandle v) key)))"

definition heap_write :: "StoreId \<Rightarrow> int \<Rightarrow> string \<Rightarrow> Value \<Rightarrow> (VmHeap, unit) vm" where
  "heap_write sid handle key v =
     vm_update (\<lambda>h. map_sum id (\<lambda>s. store_put sid s h) (store_write (store_of sid h) handle key v))"

definition heap_create :: "StoreId \<Rightarrow> (VmHeap, int) vm" where
  "heap_create sid h = (let (handle, s) = createHash (store_of sid h) in Some (Inr handle, store_put sid s h))"

subsection \<open>Copying a graph between stores\<close>

datatype CopyTask = CopyValue Value bool | CopyEntries StoreId int int "string list" | CopyElements "Value list"

record CopyState =
  cs_heap :: VmHeap
  cs_transferred :: "((StoreId \<times> int) \<times> int) list"
  cs_createdHandles :: "int list"

definition cs_lift :: "(VmHeap, 'a) vm \<Rightarrow> (CopyState, 'a) vm" where
  "cs_lift m st = map_option (\<lambda>(r, h). (r, st\<lparr>cs_heap := h\<rparr>)) (m (cs_heap st))"

definition beginCopy :: "StoreId \<Rightarrow> StoreId \<times> int \<Rightarrow> (CopyState, int) vm" where
  "beginCopy targetStore sourceHash =
     vm_bind (cs_lift (heap_create targetStore)) (\<lambda>handle st.
       Some (Inr handle, st\<lparr>cs_transferred := (sourceHash, handle) # cs_transferred st,
                            cs_createdHandles := cs_createdHandles st @ [handle]\<rparr>))"

text \<open>
  The recursive lambda \<open>copyGraph\<close>: one value, the entries of one hash under the keys still to copy,
  or the elements of one array. The result is the list of the copied values.
\<close>

partial_function (option) copyGraph ::
  "StoreId \<Rightarrow> StoreId \<Rightarrow> StoreId \<Rightarrow> bool \<Rightarrow> CopyTask \<Rightarrow> CopyState \<Rightarrow> ((string + Value list) \<times> CopyState) option" where
  "copyGraph l g targetStore targetGlobalStorage task st =
     (case task of
        CopyValue source root \<Rightarrow>
          if root \<and> v_type source = TYPE_HASH \<and> v_globalStorage source = targetGlobalStorage
             \<and> mrvmHashRuntimeStoreForValue l g source = targetStore
          then Some (Inr [source], st)
          else if v_type source = TYPE_HASH then
            (let sourceStore = mrvmHashRuntimeStoreForValue l g source; sourceHash = (sourceStore, v_hashHandle source) in
             case map_of (cs_transferred st) sourceHash of
               Some handle \<Rightarrow> Some (Inr [mrvmMakeHash handle targetGlobalStorage], st)
             | None \<Rightarrow>
                 Option.bind (beginCopy targetStore sourceHash st) (\<lambda>(r, st1).
                   case r of
                     Inl e \<Rightarrow> Some (Inl e, st1)
                   | Inr handle \<Rightarrow>
                       (case store_keys (store_of sourceStore (cs_heap st1)) (v_hashHandle source) of
                          Inl e \<Rightarrow> Some (Inl e, st1)
                        | Inr keys \<Rightarrow>
                            Option.bind (copyGraph l g targetStore targetGlobalStorage
                                (CopyEntries sourceStore (v_hashHandle source) handle keys) st1) (\<lambda>(r2, st2).
                              case r2 of
                                Inl e \<Rightarrow> Some (Inl e, st2)
                              | Inr vs \<Rightarrow> Some (Inr [with_global targetGlobalStorage (with_handle handle source)], st2)))))
          else if mrvmValueIsArrayType (v_type source) then
            Option.bind (copyGraph l g targetStore targetGlobalStorage (CopyElements (v_arrayValues source)) st) (\<lambda>(r, st1).
              case r of
                Inl e \<Rightarrow> Some (Inl e, st1)
              | Inr vs \<Rightarrow> Some (Inr [with_global targetGlobalStorage (with_elements vs source)], st1))
          else Some (Inr [with_global targetGlobalStorage source], st)
      | CopyEntries sourceStore sourceHandle handle keys \<Rightarrow>
          (case keys of
             [] \<Rightarrow> Some (Inr [], st)
           | key # rest \<Rightarrow>
               (case store_read (store_of sourceStore (cs_heap st)) sourceHandle key of
                  Inl e \<Rightarrow> Some (Inl e, st)
                | Inr v \<Rightarrow>
                    Option.bind (copyGraph l g targetStore targetGlobalStorage (CopyValue v False) st) (\<lambda>(r, st1).
                      case r of
                        Inl e \<Rightarrow> Some (Inl e, st1)
                      | Inr vs \<Rightarrow>
                          Option.bind (cs_lift (heap_write targetStore handle key (hd vs)) st1) (\<lambda>(r2, st2).
                            case r2 of
                              Inl e \<Rightarrow> Some (Inl e, st2)
                            | Inr u \<Rightarrow> copyGraph l g targetStore targetGlobalStorage (CopyEntries sourceStore sourceHandle handle rest) st2))))
      | CopyElements elements \<Rightarrow>
          (case elements of
             [] \<Rightarrow> Some (Inr [], st)
           | v # rest \<Rightarrow>
               Option.bind (copyGraph l g targetStore targetGlobalStorage (CopyValue v False) st) (\<lambda>(r, st1).
                 case r of
                   Inl e \<Rightarrow> Some (Inl e, st1)
                 | Inr vs \<Rightarrow>
                     Option.bind (copyGraph l g targetStore targetGlobalStorage (CopyElements rest) st1) (\<lambda>(r2, st2).
                       case r2 of Inl e \<Rightarrow> Some (Inl e, st2) | Inr ws \<Rightarrow> Some (Inr (vs @ ws), st2)))))"

definition mrvmHashCopyValueForStore ::
  "Value \<Rightarrow> StoreId \<Rightarrow> StoreId \<Rightarrow> StoreId \<Rightarrow> bool \<Rightarrow> (VmHeap, Value) vm" where
  "mrvmHashCopyValueForStore v l g targetStore targetGlobalStorage h =
     (case copyGraph l g targetStore targetGlobalStorage (CopyValue v True)
             \<lparr>cs_heap = h, cs_transferred = [], cs_createdHandles = []\<rparr> of
        None \<Rightarrow> None
      | Some (Inr vs, st) \<Rightarrow> Some (Inr (hd vs), cs_heap st)
      | Some (Inl e, st) \<Rightarrow>
          Some (Inl e, fold (\<lambda>handle h1. store_put targetStore
                  (eraseValueTrees (store_of targetStore h1) (mrvmMakeHash handle targetGlobalStorage) targetGlobalStorage) h1)
                (cs_createdHandles st) (cs_heap st)))"

definition mrvmHashWriteValue :: "StoreId \<Rightarrow> StoreId \<Rightarrow> Value \<Rightarrow> string \<Rightarrow> Value \<Rightarrow> (VmHeap, unit) vm" where
  "mrvmHashWriteValue l g hashValue key v =
     (let targetStore = mrvmHashRuntimeStoreForValue l g hashValue in
      vm_bind (mrvmHashCopyValueForStore v l g targetStore (v_globalStorage hashValue))
        (\<lambda>copied. heap_write targetStore (v_hashHandle hashValue) key copied))"

subsection \<open>Writing an array element\<close>

definition coerceArrayElementForStore ::
  "DoubleOps \<Rightarrow> Value \<Rightarrow> ValueType \<Rightarrow> StoreId \<Rightarrow> StoreId \<Rightarrow> bool \<Rightarrow> (VmHeap, Value) vm" where
  "coerceArrayElementForStore dops v elementType localStore globalStore targetGlobalStorage =
     vm_bind (vm_query (\<lambda>h. mrvmCoerceForStore dops v elementType)) (\<lambda>coerced.
       if v_type coerced = TYPE_HASH then
         mrvmHashCopyValueForStore coerced localStore globalStore (if targetGlobalStorage then globalStore else localStore) targetGlobalStorage
       else vm_return (with_global targetGlobalStorage coerced))"

text \<open>The written array is the result; a call that throws leaves the array as it was.\<close>

definition mrvmArrayWriteValue :: "DoubleOps \<Rightarrow> Value \<Rightarrow> int \<Rightarrow> Value \<Rightarrow> StoreId \<Rightarrow> StoreId \<Rightarrow> (VmHeap, Value) vm" where
  "mrvmArrayWriteValue dops arrayValue index v localStore globalStore =
     (let el = v_arrayElementType arrayValue; tg = v_globalStorage arrayValue; xs = v_arrayValues arrayValue in
      if \<not> mrvmValueIsArrayType (v_type arrayValue) then vm_query (\<lambda>h. Inl ''array value expected'')
      else if index \<le> 0 then vm_query (\<lambda>h. Inl ''array index out of range'')
      else
        vm_bind (coerceArrayElementForStore dops v el localStore globalStore tg) (\<lambda>stored.
          if nat index > length xs then
            vm_bind (vm_query (\<lambda>h. mrvmDefaultValueForType el)) (\<lambda>d.
            vm_bind (coerceArrayElementForStore dops d el localStore globalStore tg) (\<lambda>defaultElement.
              vm_return (with_elements ((xs @ replicate (nat index - length xs) defaultElement)[nat (index - 1) := stored]) arrayValue)))
          else vm_return (with_elements (xs[nat (index - 1) := stored]) arrayValue)))"

subsection \<open>The key-value tree\<close>

text \<open>All operations pass the one global store for both stores; \<open>rootHandle\<close> is a member set once.\<close>

definition makeGlobalHashValue :: "int \<Rightarrow> Value" where
  "makeGlobalHashValue handle = Value TYPE_HASH 0 0 [] NUL handle TYPE_INT [] True"

definition newRuntimeKv :: "MRVMHashStore \<Rightarrow> int \<times> VmHeap" where
  "newRuntimeKv localStore =
     (let (handle, s) = createHash emptyStore in (handle, \<lparr>heap_local = localStore, heap_global = s\<rparr>))"

definition kv_contains :: "Value \<Rightarrow> string \<Rightarrow> (VmHeap, bool) vm" where
  "kv_contains = mrvmHashContainsValue StoreGlobal StoreGlobal"

definition kv_read :: "Value \<Rightarrow> string \<Rightarrow> (VmHeap, Value) vm" where
  "kv_read = mrvmHashReadValue StoreGlobal StoreGlobal"

definition kv_write :: "Value \<Rightarrow> string \<Rightarrow> Value \<Rightarrow> (VmHeap, unit) vm" where
  "kv_write = mrvmHashWriteValue StoreGlobal StoreGlobal"

definition kv_erase :: "Value \<Rightarrow> string \<Rightarrow> (VmHeap, unit) vm" where
  "kv_erase = mrvmHashEraseValue StoreGlobal StoreGlobal"

definition createAndWrite :: "Value \<Rightarrow> string \<Rightarrow> (VmHeap, Value) vm" where
  "createAndWrite parent key =
     vm_bind (heap_create StoreGlobal) (\<lambda>handle.
     vm_bind (kv_write parent key (makeGlobalHashValue handle)) (\<lambda>_. vm_return (makeGlobalHashValue handle)))"

definition ensureChild :: "Value \<Rightarrow> string \<Rightarrow> (VmHeap, Value) vm" where
  "ensureChild parent key =
     vm_bind (kv_contains parent key) (\<lambda>found.
       if found then
         vm_bind (kv_read parent key) (\<lambda>child. if v_type child = TYPE_HASH then vm_return child else createAndWrite parent key)
       else createAndWrite parent key)"

definition findChild :: "Value \<Rightarrow> string \<Rightarrow> (VmHeap, Value option) vm" where
  "findChild parent key =
     vm_bind (kv_contains parent key) (\<lambda>found.
       if found then
         vm_bind (kv_read parent key) (\<lambda>child. vm_return (if v_type child = TYPE_HASH then Some child else None))
       else vm_return None)"

definition eraseChild :: "Value \<Rightarrow> string \<Rightarrow> (VmHeap, bool) vm" where
  "eraseChild parent key =
     vm_bind (kv_contains parent key) (\<lambda>found.
       if found then
         vm_bind (kv_read parent key) (\<lambda>child.
         vm_bind (kv_erase parent key) (\<lambda>_.
         vm_bind (\<lambda>h. Some (Inr (), store_put StoreGlobal (eraseValueTrees (store_of StoreGlobal h) child True) h)) (\<lambda>_. vm_return True)))
       else vm_return False)"

definition replaceChild :: "Value \<Rightarrow> string \<Rightarrow> (VmHeap, Value) vm" where
  "replaceChild parent key = vm_bind (eraseChild parent key) (\<lambda>_. ensureChild parent key)"

definition upperKey :: "string \<Rightarrow> string" where
  "upperKey v = map toupper v"

definition ensureRoot :: "int \<Rightarrow> string \<Rightarrow> (VmHeap, Value) vm" where
  "ensureRoot rootHandle name = ensureChild (makeGlobalHashValue rootHandle) (upperKey name)"

definition findRoot :: "int \<Rightarrow> string \<Rightarrow> (VmHeap, Value option) vm" where
  "findRoot rootHandle name = findChild (makeGlobalHashValue rootHandle) (upperKey name)"

subsection \<open>What a written array holds\<close>

lemma vm_query_simp [simp]: "vm_query f s = Some (f s, s)"
  by (simp add: vm_query_def)

lemma coerce_element:
  assumes "mrvmCoerceForStore dops v el = Inr w" "el \<noteq> TYPE_HASH"
  shows "coerceArrayElementForStore dops v el l g tg h = Some (Inr (with_global tg w), h)"
  using assms coerced_type [OF assms(1)] by (simp add: coerceArrayElementForStore_def vm_bind_def)

lemma array_sel [simp]:
  "v_type (with_elements xs a) = v_type a" "v_arrayValues (with_elements xs a) = xs"
  by (simp_all add: with_elements_def)

text \<open>
  An element that is no hash is written and read back, the other elements stay, and an index past the
  end grows the array with default elements.
\<close>

lemma array_write_read:
  assumes "mrvmValueIsArrayType (v_type a)" "v_arrayElementType a \<noteq> TYPE_HASH" "0 < index"
    and "mrvmCoerceForStore dops v (v_arrayElementType a) = Inr w"
  obtains a' where "mrvmArrayWriteValue dops a index v l g h = Some (Inr a', h)"
    "mrvmArrayReadValue a' index = Inr (with_global (v_globalStorage a) w)"
    "length (v_arrayValues a') = max (nat index) (length (v_arrayValues a))"
    "\<And>i. i \<noteq> index \<Longrightarrow> 0 < i \<Longrightarrow> nat i \<le> length (v_arrayValues a) \<Longrightarrow> mrvmArrayReadValue a' i = mrvmArrayReadValue a i"
proof -
  let ?xs = "v_arrayValues a" and ?el = "v_arrayElementType a"
  obtain d where d: "mrvmDefaultValueForType ?el = Inr d"
    by (cases ?el) (simp_all add: mrvmDefaultValueForType_def mrvmArrayElementTypeForArrayType_def mrvmMakeArrayValue_def
        mrvmArrayTypeForElementType_def)
  have "mrvmCoerceForStore dops d ?el = Inr d" using default_type [OF d] by (cases ?el) (simp_all add: mrvmCoerceForStore_def)
  then have el: "coerceArrayElementForStore dops d ?el l g tg h = Some (Inr (with_global tg d), h)" for tg h
    by (rule coerce_element [OF _ assms(2)])
  define ys where "ys = (if nat index > length ?xs then ?xs @ replicate (nat index - length ?xs) (with_global (v_globalStorage a) d) else ?xs)"
  have "mrvmArrayWriteValue dops a index v l g h = Some (Inr (with_elements (ys[nat (index - 1) := with_global (v_globalStorage a) w]) a), h)"
    using assms d by (simp add: mrvmArrayWriteValue_def vm_bind_def coerce_element el ys_def Let_def)
  moreover have "length ys = max (nat index) (length ?xs)" by (auto simp: ys_def)
  moreover have "ys ! i = ?xs ! i" if "i < length ?xs" for i using that by (simp add: ys_def nth_append)
  ultimately show thesis using assms(1,3)
    by (intro that [of "with_elements (ys[nat (index - 1) := with_global (v_globalStorage a) w]) a"]) (auto simp: mrvmArrayReadValue_def nth_list_update)
qed

text \<open>
  A global array of hashes cannot grow: the default element is the hash 0 of the machine's own store,
  and copying it to the global store looks that hash up, which does not exist.
\<close>

lemma global_hash_array_stuck:
  assumes "v_type a = TYPE_HASH_ARRAY" "v_arrayElementType a = TYPE_HASH" "v_globalStorage a" "length (v_arrayValues a) < nat index"
    and "map_of (hs_hashes (heap_local h)) 0 = None"
  shows "\<exists>h1. mrvmArrayWriteValue dops a index (mrvmMakeHash k True) StoreLocal StoreGlobal h = Some (Inl ''Invalid hash value.'', h1)"
proof -
  have v: "coerceArrayElementForStore dops (mrvmMakeHash k True) TYPE_HASH StoreLocal StoreGlobal True h = Some (Inr (mrvmMakeHash k True), h)"
    by (simp add: coerceArrayElementForStore_def vm_bind_def mrvmCoerceForStore_def mrvmMakeHash_def mrvmHashCopyValueForStore_def
        copyGraph.simps mrvmHashRuntimeStoreForValue_def)
  have "\<exists>st. copyGraph StoreLocal StoreGlobal StoreGlobal True (CopyValue (mrvmMakeHash 0 False) True)
      \<lparr>cs_heap = h, cs_transferred = [], cs_createdHandles = []\<rparr> = Some (Inl ''Invalid hash value.'', st)"
    using assms(5) by (subst copyGraph.simps)
      (auto simp: mrvmMakeHash_def mrvmHashRuntimeStoreForValue_def beginCopy_def vm_bind_def cs_lift_def heap_create_def
        createHash_def store_put_def store_of_def store_keys_def Let_def)
  then have "\<exists>h1. mrvmHashCopyValueForStore (mrvmMakeHash 0 False) StoreLocal StoreGlobal StoreGlobal True h = Some (Inl ''Invalid hash value.'', h1)"
    by (auto simp: mrvmHashCopyValueForStore_def)
  moreover have "mrvmCoerceForStore dops (mrvmMakeHash 0 False) TYPE_HASH = Inr (mrvmMakeHash 0 False)" "v_type (mrvmMakeHash 0 False) = TYPE_HASH"
    by (simp_all add: mrvmCoerceForStore_def mrvmMakeHash_def)
  ultimately have "\<exists>h1. coerceArrayElementForStore dops (mrvmMakeHash 0 False) TYPE_HASH StoreLocal StoreGlobal True h = Some (Inl ''Invalid hash value.'', h1)"
    by (simp add: coerceArrayElementForStore_def vm_bind_def)
  then show ?thesis using assms(1-4) v
    by (auto simp: mrvmArrayWriteValue_def vm_bind_def mrvmValueIsArrayType_def mrvmDefaultValueForType_def Let_def)
qed

subsection \<open>The tree as a map\<close>

definition node :: "VmHeap \<Rightarrow> int \<Rightarrow> Hash option" where
  "node h n = map_of (hs_hashes (heap_global h)) n"

definition entry :: "VmHeap \<Rightarrow> int \<Rightarrow> string \<Rightarrow> Value option" where
  "entry h n key = Option.bind (node h n) (\<lambda>m. map_of m key)"

definition heap_wf :: "VmHeap \<Rightarrow> bool" where
  "heap_wf h \<longleftrightarrow> 0 < hs_nextHandle (heap_global h) \<and> (\<forall>n. node h n \<noteq> None \<longrightarrow> 0 < n \<and> n < hs_nextHandle (heap_global h))"

definition set_node :: "VmHeap \<Rightarrow> int \<Rightarrow> Hash \<Rightarrow> VmHeap" where
  "set_node h n m = h\<lparr>heap_global := (heap_global h)\<lparr>hs_hashes := omap_put (<) n m (hs_hashes (heap_global h))\<rparr>\<rparr>"

definition add_node :: "VmHeap \<Rightarrow> VmHeap" where
  "add_node h = store_put StoreGlobal (snd (createHash (heap_global h))) h"

definition next_handle :: "VmHeap \<Rightarrow> int" where
  "next_handle h = hs_nextHandle (heap_global h)"

lemma node_set [simp]: "node (set_node h n m) k = (if k = n then Some m else node h k)"
  by (simp add: node_def set_node_def)

lemma next_set [simp]: "next_handle (set_node h n m) = next_handle h"
  by (simp add: next_handle_def set_node_def)

lemma node_add [simp]: "node (add_node h) k = (if k = next_handle h then Some [] else node h k)"
  by (simp add: node_def add_node_def createHash_def store_put_def next_handle_def)

lemma next_add [simp]: "next_handle (add_node h) = next_handle h + 1"
  by (simp add: next_handle_def add_node_def createHash_def store_put_def)

lemma heap_wf_iff: "heap_wf h \<longleftrightarrow> 0 < next_handle h \<and> (\<forall>n. node h n \<noteq> None \<longrightarrow> 0 < n \<and> n < next_handle h)"
  by (simp add: heap_wf_def next_handle_def)

lemma wf_fresh: "heap_wf h \<Longrightarrow> node h (next_handle h) = None"
  by (auto simp: heap_wf_iff)

lemma wf_set: "heap_wf h \<Longrightarrow> node h n \<noteq> None \<Longrightarrow> heap_wf (set_node h n m)"
  by (simp add: heap_wf_iff)

lemma wf_add: "heap_wf h \<Longrightarrow> heap_wf (add_node h)"
  by (fastforce simp: heap_wf_iff)

lemma ghash_sel [simp]:
  "v_type (makeGlobalHashValue n) = TYPE_HASH" "v_globalStorage (makeGlobalHashValue n)" "v_hashHandle (makeGlobalHashValue n) = n"
  by (simp_all add: makeGlobalHashValue_def)

lemma kv_contains_eq: "node h n \<noteq> None \<Longrightarrow> kv_contains (makeGlobalHashValue n) key h = Some (Inr (entry h n key \<noteq> None), h)"
  by (auto simp: kv_contains_def mrvmHashContainsValue_def mrvmHashRuntimeStoreForValue_def store_contains_def store_of_def vm_query_def
      entry_def node_def)

lemma kv_read_eq: "entry h n key = Some v \<Longrightarrow> kv_read (makeGlobalHashValue n) key h = Some (Inr v, h)"
  by (auto simp: kv_read_def mrvmHashReadValue_def mrvmHashRuntimeStoreForValue_def store_read_def store_of_def vm_query_def entry_def
      node_def bind_eq_Some_conv)

lemma heap_write_eq: "node h n = Some m \<Longrightarrow> heap_write StoreGlobal n key v h = Some (Inr (), set_node h n (omap_put str_less key v m))"
  by (simp add: heap_write_def vm_update_def store_of_def store_put_def store_write_def node_def set_node_def)

lemma kv_erase_eq: "node h n = Some m \<Longrightarrow> kv_erase (makeGlobalHashValue n) key h = Some (Inr (), set_node h n (omap_del key m))"
  by (simp add: kv_erase_def mrvmHashEraseValue_def mrvmHashRuntimeStoreForValue_def vm_update_def store_of_def store_put_def
      store_erase_def node_def set_node_def)

lemma kv_write_hash:
  "node h n = Some m \<Longrightarrow>
   kv_write (makeGlobalHashValue n) key (makeGlobalHashValue k) h = Some (Inr (), set_node h n (omap_put str_less key (makeGlobalHashValue k) m))"
  by (simp add: kv_write_def mrvmHashWriteValue_def mrvmHashRuntimeStoreForValue_def mrvmHashCopyValueForStore_def copyGraph.simps
      vm_bind_def heap_write_eq)

text \<open>An array of strings is copied element by element.\<close>

lemma copy_strings:
  "list_all (\<lambda>v. v_type v = TYPE_STR) vs \<Longrightarrow>
   copyGraph l g t tg (CopyElements vs) st = Some (Inr (map (with_global tg) vs), st)"
proof (induction vs)
  case Nil
  then show ?case by (simp add: copyGraph.simps)
next
  case (Cons v vs)
  have "copyGraph l g t tg (CopyValue v False) st = Some (Inr [with_global tg v], st)"
    using Cons.prems by (subst copyGraph.simps) (simp add: mrvmValueIsArrayType_def)
  with Cons show ?case by (subst copyGraph.simps) simp
qed

lemma kv_write_strings:
  assumes "node h n = Some m" "v_type v = TYPE_STR_ARRAY" "list_all (\<lambda>v. v_type v = TYPE_STR) (v_arrayValues v)"
  shows "kv_write (makeGlobalHashValue n) key v h = Some (Inr (), set_node h n (omap_put str_less key
     (with_global True (with_elements (map (with_global True) (v_arrayValues v)) v)) m))"
proof -
  have "copyGraph StoreGlobal StoreGlobal StoreGlobal True (CopyValue v True) st
      = Some (Inr [with_global True (with_elements (map (with_global True) (v_arrayValues v)) v)], st)" for st
    using assms(2,3) by (subst copyGraph.simps) (simp add: mrvmValueIsArrayType_def copy_strings)
  then show ?thesis
    by (simp add: kv_write_def mrvmHashWriteValue_def mrvmHashRuntimeStoreForValue_def mrvmHashCopyValueForStore_def
        vm_bind_def heap_write_eq [OF assms(1)])
qed

lemma createAndWrite_eq:
  assumes "node h n = Some m" "heap_wf h"
  shows "createAndWrite (makeGlobalHashValue n) key h
    = Some (Inr (makeGlobalHashValue (next_handle h)),
            set_node (add_node h) n (omap_put str_less key (makeGlobalHashValue (next_handle h)) m))"
proof -
  have "heap_create StoreGlobal h = Some (Inr (next_handle h), add_node h)"
    by (simp add: heap_create_def createHash_def store_of_def store_put_def add_node_def next_handle_def)
  moreover have "node (add_node h) n = Some m" using assms wf_fresh [OF assms(2)] by auto
  ultimately show ?thesis by (simp add: createAndWrite_def vm_bind_def kv_write_hash)
qed

definition child_ok :: "VmHeap \<Rightarrow> int \<Rightarrow> string \<Rightarrow> bool" where
  "child_ok h n key \<longleftrightarrow> (case entry h n key of None \<Rightarrow> True | Some v \<Rightarrow> v = makeGlobalHashValue (v_hashHandle v) \<and> node h (v_hashHandle v) \<noteq> None)"

definition child :: "VmHeap \<Rightarrow> int \<Rightarrow> string \<Rightarrow> int option" where
  "child h n key = map_option v_hashHandle (entry h n key)"

lemma findChild_eq:
  assumes "node h n \<noteq> None" "child_ok h n key"
  shows "findChild (makeGlobalHashValue n) key h = Some (Inr (map_option makeGlobalHashValue (child h n key)), h)"
proof (cases "entry h n key")
  case None
  then show ?thesis using assms by (simp add: findChild_def vm_bind_def kv_contains_eq child_def)
next
  case (Some v)
  then have v: "v = makeGlobalHashValue (v_hashHandle v)" using assms(2) by (simp add: child_ok_def)
  then have "v_type v = TYPE_HASH" by (metis ghash_sel(1))
  then show ?thesis using assms Some v by (simp add: findChild_def vm_bind_def kv_contains_eq kv_read_eq [OF Some] child_def)
qed

text \<open>
  \<open>ensureChild\<close> finds the child that is there, or adds an empty hash under a fresh handle and nothing
  else.
\<close>

lemma ensureChild_eq:
  assumes "node h n = Some m" "child_ok h n key" "heap_wf h"
  shows "ensureChild (makeGlobalHashValue n) key h =
    (case child h n key of
       Some k \<Rightarrow> Some (Inr (makeGlobalHashValue k), h)
     | None \<Rightarrow> Some (Inr (makeGlobalHashValue (next_handle h)),
                     set_node (add_node h) n (omap_put str_less key (makeGlobalHashValue (next_handle h)) m)))"
proof (cases "entry h n key")
  case None
  then show ?thesis using assms by (simp add: ensureChild_def vm_bind_def kv_contains_eq child_def createAndWrite_eq)
next
  case (Some v)
  then have v: "v = makeGlobalHashValue (v_hashHandle v)" using assms(2) by (simp add: child_ok_def)
  then have "v_type v = TYPE_HASH" by (metis ghash_sel(1))
  then show ?thesis using assms Some v by (simp add: ensureChild_def vm_bind_def kv_contains_eq kv_read_eq [OF Some] child_def)
qed

end
