(* ===== verification/Keymap_Resolver.thy ===== *)
theory Keymap_Resolver
  imports Keymap_Profile Runtime_Kv
begin

text \<open>
  The resolver (\<open>src/keymap/MRKeymapResolver.cpp\<close>): it feeds key strokes to the dispatch trie and keeps the
  begun sequence of each context as text in the runtime key-value tree. The locale \<open>pending_tokens\<close> is
  the contract between the two: what was stored for a context is loaded again, and storing changes
  nothing else. Under it the resolver is a small machine over lists of tokens.
\<close>

subsection \<open>Pending tokens in the key-value tree\<close>

definition contextKey :: "MRKeymapContext \<Rightarrow> string" where
  "contextKey context = to_string (contextIndex context)"

definition pendingKeymapRoot :: "int \<Rightarrow> (VmHeap, Value) vm" where
  "pendingKeymapRoot rootHandle =
     vm_bind (ensureRoot rootHandle ''KEYMAP'') (\<lambda>keymap.
     vm_bind (ensureChild keymap ''runtime'') (\<lambda>runtime. ensureChild runtime ''pending''))"

definition tokensOf :: "Value \<Rightarrow> MRKeymapToken list" where
  "tokensOf stored =
     List.map_filter (\<lambda>v. if v_type v \<noteq> TYPE_STR then None else MRKeymapToken_parse (v_s v)) (v_arrayValues stored)"

definition pendingTokens :: "int \<Rightarrow> MRKeymapContext \<Rightarrow> (VmHeap, MRKeymapToken list) vm" where
  "pendingTokens rootHandle context =
     vm_bind (findRoot rootHandle ''KEYMAP'') (\<lambda>keymap. case keymap of None \<Rightarrow> vm_return [] | Some keymap \<Rightarrow>
     vm_bind (findChild keymap ''runtime'') (\<lambda>runtime. case runtime of None \<Rightarrow> vm_return [] | Some runtime \<Rightarrow>
     vm_bind (findChild runtime ''pending'') (\<lambda>pending. case pending of None \<Rightarrow> vm_return [] | Some pending \<Rightarrow>
     vm_bind (kv_contains pending (contextKey context)) (\<lambda>found.
       if \<not> found then vm_return []
       else
         vm_bind (kv_read pending (contextKey context)) (\<lambda>stored.
           vm_return (if v_type stored \<noteq> TYPE_STR_ARRAY then [] else tokensOf stored))))))"

definition storePendingTokens :: "int \<Rightarrow> MRKeymapContext \<Rightarrow> MRKeymapToken list \<Rightarrow> (VmHeap, unit) vm" where
  "storePendingTokens rootHandle context tokens =
     vm_bind (pendingKeymapRoot rootHandle) (\<lambda>pending.
       if tokens = [] then
         vm_bind (kv_contains pending (contextKey context)) (\<lambda>found.
           if found then kv_erase pending (contextKey context) else vm_return ())
       else
         vm_bind (vm_query (\<lambda>h. mrvmMakeArrayValue TYPE_STR)) (\<lambda>stored.
           kv_write pending (contextKey context)
             (with_elements (map (\<lambda>t. mrvmMakeString (MRKeymapToken_toString t)) tokens) (with_global True stored))))"

definition resetPending :: "int \<Rightarrow> (VmHeap, unit) vm" where
  "resetPending rootHandle =
     vm_bind (findRoot rootHandle ''KEYMAP'') (\<lambda>keymap. case keymap of None \<Rightarrow> vm_return () | Some keymap \<Rightarrow>
     vm_bind (findChild keymap ''runtime'') (\<lambda>runtime. case runtime of None \<Rightarrow> vm_return () | Some runtime \<Rightarrow>
     vm_bind (eraseChild runtime ''pending'') (\<lambda>erased. vm_return ())))"

subsection \<open>The resolver\<close>

datatype ResultKind = ResultNoMatch | ResultPending | ResultMatched | ResultInvalid | ResultAborted

record ResolverResult =
  rr_kind :: ResultKind
  rr_context :: MRKeymapContext
  rr_target :: MRKeymapBindingTarget
  rr_description :: string
  rr_sequenceText :: string

definition isAbortToken :: "MRKeymapToken \<Rightarrow> bool" where
  "isAbortToken token \<longleftrightarrow> tk_baseKey token = KeyEsc \<and> tk_modifiers token = 0"

definition resolver_sequenceText :: "MRKeymapToken list \<Rightarrow> string" where
  "resolver_sequenceText tokens = concat (map MRKeymapToken_toString tokens)"

definition findActiveProfile :: "MRKeymapProfile list \<Rightarrow> string \<Rightarrow> MRKeymapProfile option" where
  "findActiveProfile profiles activeProfileName = find (\<lambda>p. pf_name p = activeProfileName) profiles"

definition activeBindings :: "MRKeymapProfile list \<Rightarrow> string \<Rightarrow> MRKeymapBindingRecord list" where
  "activeBindings profiles activeProfileName =
     (case findActiveProfile profiles activeProfileName of None \<Rightarrow> [] | Some p \<Rightarrow> pf_bindings p)"

definition MRKeymapResolver_rebuild ::
  "int \<Rightarrow> MRKeymapProfile list \<Rightarrow> string \<Rightarrow> (VmHeap, MRKeymapTrie \<times> string option) vm" where
  "MRKeymapResolver_rebuild rootHandle profiles activeProfileName =
     vm_bind (resetPending rootHandle) (\<lambda>_. vm_return (MRKeymapTrie_rebuild (activeBindings profiles activeProfileName)))"

text \<open>\<open>resolve\<close> over any store of pending tokens, given by how to load and how to store them.\<close>

definition resolve_with ::
  "(MRKeymapContext \<Rightarrow> ('k, MRKeymapToken list) vm) \<Rightarrow> (MRKeymapContext \<Rightarrow> MRKeymapToken list \<Rightarrow> ('k, unit) vm) \<Rightarrow>
   MRKeymapTrie \<Rightarrow> MRKeymapContext \<Rightarrow> MRKeymapToken \<Rightarrow> ('k, ResolverResult) vm" where
  "resolve_with load store trie context token =
     (let result = \<lparr>rr_kind = ResultNoMatch, rr_context = context, rr_target = emptyTarget, rr_description = [], rr_sequenceText = []\<rparr> in
      if context = ContextNone then vm_return result
      else
        vm_bind (load context) (\<lambda>tokens0.
          if tokens0 \<noteq> [] \<and> isAbortToken token then
            vm_bind (store context []) (\<lambda>_.
              vm_return (result\<lparr>rr_kind := ResultAborted, rr_sequenceText := resolver_sequenceText tokens0\<rparr>))
          else
            (let tokens = tokens0 @ [token];
                 result1 = result\<lparr>rr_sequenceText := resolver_sequenceText tokens\<rparr>;
                 decision = decide trie context tokens
             in case dc_kind decision of
                  Matched \<Rightarrow>
                    vm_bind (store context []) (\<lambda>_.
                      vm_return (result1\<lparr>rr_kind := ResultMatched, rr_target := dc_target decision, rr_description := dc_description decision\<rparr>))
                | Pending \<Rightarrow> vm_bind (store context tokens) (\<lambda>_. vm_return (result1\<lparr>rr_kind := ResultPending\<rparr>))
                | NoMatch \<Rightarrow>
                    vm_bind (store context []) (\<lambda>_.
                      vm_return (if length tokens = 1 then result1\<lparr>rr_kind := ResultNoMatch\<rparr> else result1\<lparr>rr_kind := ResultInvalid\<rparr>)))))"

definition MRKeymapResolver_resolve :: "int \<Rightarrow> MRKeymapTrie \<Rightarrow> MRKeymapContext \<Rightarrow> MRKeymapToken \<Rightarrow> (VmHeap, ResolverResult) vm" where
  "MRKeymapResolver_resolve rootHandle = resolve_with (pendingTokens rootHandle) (storePendingTokens rootHandle)"

definition hasPending :: "int \<Rightarrow> MRKeymapContext \<Rightarrow> (VmHeap, bool) vm" where
  "hasPending rootHandle context =
     (if context = ContextNone then vm_return False
      else vm_bind (pendingTokens rootHandle context) (\<lambda>tokens. vm_return (tokens \<noteq> [])))"

text \<open>Key strokes one after the other, each in the context it is pressed in.\<close>

fun resolve_keys ::
  "(MRKeymapContext \<Rightarrow> MRKeymapToken \<Rightarrow> ('k, ResolverResult) vm) \<Rightarrow> (MRKeymapContext \<times> MRKeymapToken) list \<Rightarrow> ('k, ResolverResult list) vm" where
  "resolve_keys step [] = vm_return []"
| "resolve_keys step ((c, t) # ks) = vm_bind (step c t) (\<lambda>r. vm_bind (resolve_keys step ks) (\<lambda>rs. vm_return (r # rs)))"

subsection \<open>The machine the resolver implements\<close>

type_synonym pending = "MRKeymapContext \<Rightarrow> MRKeymapToken list"

definition answer :: "MRKeymapContext \<Rightarrow> ResultKind \<Rightarrow> MRKeymapToken list \<Rightarrow> ResolverResult" where
  "answer c kind ts = \<lparr>rr_kind = kind, rr_context = c, rr_target = emptyTarget, rr_description = [],
     rr_sequenceText = resolver_sequenceText ts\<rparr>"

definition key_spec :: "MRKeymapBindingRecord list \<Rightarrow> pending \<Rightarrow> MRKeymapContext \<Rightarrow> MRKeymapToken \<Rightarrow> pending \<times> ResolverResult" where
  "key_spec bs pend c t =
     (if c = ContextNone then (pend, answer c ResultNoMatch [])
      else if pend c \<noteq> [] \<and> isAbortToken t then (pend(c := []), answer c ResultAborted (pend c))
      else
        (let ts = pend c @ [t] in
         case binding_at bs c ts of
           Some b \<Rightarrow> (pend(c := []), (answer c ResultMatched ts)\<lparr>rr_target := br_target b, rr_description := br_description b\<rparr>)
         | None \<Rightarrow>
             if list_ex (\<lambda>b. br_context b = c \<and> strict_prefix ts (br_sequence b)) bs then (pend(c := ts), answer c ResultPending ts)
             else (pend(c := []), answer c (if pend c = [] then ResultNoMatch else ResultInvalid) ts)))"

fun keys_spec :: "MRKeymapBindingRecord list \<Rightarrow> pending \<Rightarrow> (MRKeymapContext \<times> MRKeymapToken) list \<Rightarrow> pending \<times> ResolverResult list" where
  "keys_spec bs pend [] = (pend, [])"
| "keys_spec bs pend ((c, t) # ks) =
     (let (pend1, r) = key_spec bs pend c t; (pend2, rs) = keys_spec bs pend1 ks in (pend2, r # rs))"

locale pending_tokens =
  fixes load :: "MRKeymapContext \<Rightarrow> ('k, MRKeymapToken list) vm"
    and store :: "MRKeymapContext \<Rightarrow> MRKeymapToken list \<Rightarrow> ('k, unit) vm"
    and reset :: "('k, unit) vm"
    and inv :: "'k \<Rightarrow> bool"
    and pend :: "'k \<Rightarrow> pending"
  assumes load: "inv k \<Longrightarrow> load c k = Some (Inr (pend k c), k)"
    and store: "inv k \<Longrightarrow> list_all canonical_token ts \<Longrightarrow> \<exists>k1. store c ts k = Some (Inr (), k1) \<and> inv k1 \<and> pend k1 = (pend k)(c := ts)"
    and reset: "inv k \<Longrightarrow> \<exists>k1. reset k = Some (Inr (), k1) \<and> inv k1 \<and> pend k1 = (\<lambda>_. [])"
begin

lemma key_refines:
  assumes "inv k" "MRKeymapTrie_rebuild bs = (trie, None)" "list_all (\<lambda>b. list_all canonical_token (br_sequence b)) bs"
  shows "\<exists>k1. resolve_with load store trie c t k = Some (Inr (snd (key_spec bs (pend k) c t)), k1) \<and> inv k1
    \<and> pend k1 = fst (key_spec bs (pend k) c t)"
proof (cases "c = ContextNone")
  case True
  then show ?thesis using assms(1) by (simp add: resolve_with_def key_spec_def answer_def resolver_sequenceText_def)
next
  case c: False
  obtain k0 where k0: "store c [] k = Some (Inr (), k0)" "inv k0" "pend k0 = (pend k)(c := [])"
    using store [OF assms(1), of "[]" c] by auto
  let ?ts = "pend k c @ [t]"
  have dec: "decide trie c ?ts = decide_spec bs c ?ts" using rebuild_spec(2) [OF assms(2)] by simp
  note ld = load [OF assms(1), of c]
  show ?thesis
  proof (cases "pend k c \<noteq> [] \<and> isAbortToken t")
    case True
    then show ?thesis using c ld k0 by (simp add: resolve_with_def key_spec_def answer_def vm_bind_def Let_def)
  next
    case ab: False
    show ?thesis
    proof (cases "binding_at bs c ?ts")
      case (Some b)
      then show ?thesis using c ab ld k0 dec by (auto simp: resolve_with_def key_spec_def answer_def vm_bind_def decide_spec_def Let_def)
    next
      case None
      show ?thesis
      proof (cases "list_ex (\<lambda>b. br_context b = c \<and> strict_prefix ?ts (br_sequence b)) bs")
        case True
        then obtain b where b: "b \<in> set bs" "strict_prefix ?ts (br_sequence b)" by (auto simp: list_ex_iff)
        then have "set ?ts \<subseteq> set (br_sequence b)" using set_mono_prefix [of ?ts "br_sequence b"] by (auto simp: strict_prefix_def)
        then have "list_all canonical_token ?ts" using assms(3) b(1) by (auto simp: list_all_iff)
        from store [OF assms(1) this, of c] obtain k1 where "store c ?ts k = Some (Inr (), k1)" "inv k1" "pend k1 = (pend k)(c := ?ts)"
          by blast
        then show ?thesis using c ab ld dec None True
          by (auto simp: resolve_with_def key_spec_def answer_def vm_bind_def decide_spec_def emptyDecision_def Let_def)
      next
        case False
        then show ?thesis using c ab ld k0 dec None
          by (auto simp: resolve_with_def key_spec_def answer_def vm_bind_def decide_spec_def emptyDecision_def Let_def)
      qed
    qed
  qed
qed

lemma keys_refine:
  assumes "inv k" "MRKeymapTrie_rebuild bs = (trie, None)" "list_all (\<lambda>b. list_all canonical_token (br_sequence b)) bs"
  shows "\<exists>k1. resolve_keys (resolve_with load store trie) ks k = Some (Inr (snd (keys_spec bs (pend k) ks)), k1) \<and> inv k1
    \<and> pend k1 = fst (keys_spec bs (pend k) ks)"
  using assms(1)
proof (induction ks arbitrary: k)
  case (Cons ct ks)
  obtain c t where ct: "ct = (c, t)" by (cases ct)
  from key_refines [OF Cons.prems assms(2,3), of c t] obtain k1
    where k1: "resolve_with load store trie c t k = Some (Inr (snd (key_spec bs (pend k) c t)), k1)" "inv k1" "pend k1 = fst (key_spec bs (pend k) c t)"
    by blast
  from Cons.IH [OF k1(2)] k1 show ?case by (auto simp: ct vm_bind_def case_prod_unfold Let_def)
qed simp

end

subsection \<open>The key-value tree keeps the contract\<close>

definition string_array :: "Value \<Rightarrow> bool" where
  "string_array v \<longleftrightarrow> v_type v = TYPE_STR_ARRAY \<and> list_all (\<lambda>e. v_type e = TYPE_STR) (v_arrayValues v)"

text \<open>
  The branch \<open>KEYMAP/runtime/pending\<close>: each step is missing or leads to a hash of its own, and the last
  one holds arrays of strings. The rest of the tree may be anything.
\<close>

definition pending_ok :: "VmHeap \<Rightarrow> int \<Rightarrow> int set \<Rightarrow> bool" where
  "pending_ok h p up \<longleftrightarrow> p \<notin> up \<and> (\<forall>m. node h p = Some m \<longrightarrow> (\<forall>e \<in> set m. string_array (snd e)))"

lemma pending_entry: "pending_ok h p up \<Longrightarrow> entry h p key = Some v \<Longrightarrow> string_array v"
  by (force simp: pending_ok_def entry_def bind_eq_Some_conv dest: map_of_SomeD)

lemma set_put: "set (omap_put lt k v m) \<subseteq> insert (k, v) (set m)" and set_del: "set (omap_del k m) \<subseteq> set m"
  by (induction m) (auto simp: omap_del_def split: if_splits)

lemma no_entry:
  assumes "\<And>y. entry h p y = None" "node h p = Some m" shows "m = []"
  using assms(1) [of "fst (hd m)"] assms(2) by (cases m) (auto simp: entry_def)

definition runtime_ok :: "VmHeap \<Rightarrow> int \<Rightarrow> int set \<Rightarrow> bool" where
  "runtime_ok h b up \<longleftrightarrow> b \<notin> up \<and> child_ok h b ''pending''
     \<and> (\<forall>p. child h b ''pending'' = Some p \<longrightarrow> pending_ok h p (insert b up))"

definition keymap_ok :: "VmHeap \<Rightarrow> int \<Rightarrow> int set \<Rightarrow> bool" where
  "keymap_ok h a up \<longleftrightarrow> a \<notin> up \<and> child_ok h a ''runtime''
     \<and> (\<forall>b. child h a ''runtime'' = Some b \<longrightarrow> runtime_ok h b (insert a up))"

definition kv_inv :: "int \<Rightarrow> VmHeap \<Rightarrow> bool" where
  "kv_inv r h \<longleftrightarrow> heap_wf h \<and> node h r \<noteq> None \<and> child_ok h r ''KEYMAP''
     \<and> (\<forall>a. child h r ''KEYMAP'' = Some a \<longrightarrow> keymap_ok h a {r})"

definition pending_handle :: "int \<Rightarrow> VmHeap \<Rightarrow> int option" where
  "pending_handle r h =
     Option.bind (child h r ''KEYMAP'') (\<lambda>a. Option.bind (child h a ''runtime'') (\<lambda>b. child h b ''pending''))"

definition kv_pending :: "int \<Rightarrow> VmHeap \<Rightarrow> pending" where
  "kv_pending r h c =
     (case Option.bind (pending_handle r h) (\<lambda>p. entry h p (contextKey c)) of None \<Rightarrow> [] | Some v \<Rightarrow> tokensOf v)"

lemma upper_keymap [simp]: "upperKey ''KEYMAP'' = ''KEYMAP''"
  by (simp add: upperKey_def toupper_def ascii_lower_def ascii_upper_def)

lemma child_node: "child_ok h n key \<Longrightarrow> child h n key = Some k \<Longrightarrow> node h k \<noteq> None"
  by (auto simp: child_ok_def child_def)

lemma load_pending:
  assumes "kv_inv r h"
  shows "pendingTokens r c h = Some (Inr (kv_pending r h c), h)"
proof -
  have r: "node h r \<noteq> None" "child_ok h r ''KEYMAP''" using assms by (simp_all add: kv_inv_def)
  note f1 = findChild_eq [OF r]
  show ?thesis
  proof (cases "child h r ''KEYMAP''")
    case None
    then show ?thesis by (simp add: pendingTokens_def findRoot_def vm_bind_def f1 kv_pending_def pending_handle_def)
  next
    case (Some a)
    then have a: "node h a \<noteq> None" "child_ok h a ''runtime''" using assms child_node [OF r(2)] by (auto simp: kv_inv_def keymap_ok_def)
    note f2 = findChild_eq [OF a]
    show ?thesis
    proof (cases "child h a ''runtime''")
      case None
      with Some show ?thesis by (simp add: pendingTokens_def findRoot_def vm_bind_def f1 f2 kv_pending_def pending_handle_def)
    next
      case b: (Some b)
      then have b': "node h b \<noteq> None" "child_ok h b ''pending''"
        using assms Some child_node [OF a(2)] by (auto simp: kv_inv_def keymap_ok_def runtime_ok_def)
      note f3 = findChild_eq [OF b']
      show ?thesis
      proof (cases "child h b ''pending''")
        case None
        with Some b show ?thesis by (simp add: pendingTokens_def findRoot_def vm_bind_def f1 f2 f3 kv_pending_def pending_handle_def)
      next
        case p: (Some p)
        then have p': "node h p \<noteq> None" "\<And>key v. entry h p key = Some v \<Longrightarrow> string_array v"
          using assms Some b child_node [OF b'(2)] pending_entry
          by (auto simp: kv_inv_def keymap_ok_def runtime_ok_def)
        have ph: "pending_handle r h = Some p" by (simp add: pending_handle_def Some b p)
        show ?thesis
        proof (cases "entry h p (contextKey c)")
          case None
          then show ?thesis using Some b p
            by (simp add: pendingTokens_def findRoot_def vm_bind_def f1 f2 f3 kv_contains_eq [OF p'(1)] kv_pending_def ph)
        next
          case v: (Some v)
          then show ?thesis using Some b p p'(2) [OF v]
            by (simp add: pendingTokens_def findRoot_def vm_bind_def f1 f2 f3 kv_contains_eq [OF p'(1)] kv_read_eq [OF v] kv_pending_def ph
                string_array_def)
        qed
      qed
    qed
  qed
qed

text \<open>
  One step of the branch is made: an older child stays, or a new empty hash \<open>k\<close> is linked in at \<open>n\<close>
  under the key and nothing else changes.
\<close>

definition linked :: "VmHeap \<Rightarrow> VmHeap \<Rightarrow> int \<Rightarrow> string \<Rightarrow> int \<Rightarrow> bool" where
  "linked h h1 n key k \<longleftrightarrow> heap_wf h1 \<and> node h n \<noteq> None \<and> node h k = None \<and> child h n key = None
     \<and> (\<forall>x. node h1 x \<noteq> None \<longleftrightarrow> x = k \<or> node h x \<noteq> None)
     \<and> (\<forall>x y. entry h1 x y = (if x = n \<and> y = key then Some (makeGlobalHashValue k) else entry h x y))"

lemma created_linked:
  assumes "heap_wf h" "node h n = Some m" "child h n key = None"
  shows "linked h (set_node (add_node h) n (omap_put str_less key (makeGlobalHashValue (next_handle h)) m)) n key (next_handle h)"
    (is "linked h ?h1 n key ?k")
proof -
  have k: "node h ?k = None" by (rule wf_fresh [OF assms(1)])
  then have nk: "n \<noteq> ?k" using assms(2) by auto
  have "entry ?h1 x y = (if x = n \<and> y = key then Some (makeGlobalHashValue ?k) else entry h x y)" for x y
    using nk k assms(2) by (auto simp: entry_def)
  moreover have "heap_wf ?h1" by (rule wf_set [OF wf_add [OF assms(1)]]) (use assms(2) in auto)
  ultimately show ?thesis using k assms(2,3) by (auto simp: linked_def)
qed

lemma ensure_step:
  assumes "heap_wf h" "node h n \<noteq> None" "child_ok h n key"
  obtains k h1 where "ensureChild (makeGlobalHashValue n) key h = Some (Inr (makeGlobalHashValue k), h1)"
    "child h1 n key = Some k" "h1 = h \<or> linked h h1 n key k"
proof -
  obtain m where m: "node h n = Some m" using assms(2) by blast
  show thesis
  proof (cases "child h n key")
    case (Some k)
    then show thesis by (intro that [of k h]) (simp_all add: ensureChild_eq [OF m assms(3,1)])
  next
    case None
    note l = created_linked [OF assms(1) m None]
    show thesis
      by (rule that [OF _ _ disjI2 [OF l]]) (use l None in \<open>simp_all add: ensureChild_eq [OF m assms(3,1)] linked_def child_def\<close>)
  qed
qed

definition on_branch :: "int \<Rightarrow> VmHeap \<Rightarrow> int \<Rightarrow> string \<Rightarrow> bool" where
  "on_branch r h n key \<longleftrightarrow> n = r \<and> key = ''KEYMAP'' \<or> child h r ''KEYMAP'' = Some n \<and> key = ''runtime''
     \<or> (\<exists>a. child h r ''KEYMAP'' = Some a \<and> child h a ''runtime'' = Some n \<and> key = ''pending'')"

lemma linked_child: "linked h h1 n key k \<Longrightarrow> child h1 x y = (if x = n \<and> y = key then Some k else child h x y)"
  by (simp add: linked_def child_def)

lemma linked_child_ok: "linked h h1 n key k \<Longrightarrow> child_ok h x y \<Longrightarrow> child_ok h1 x y"
  by (auto simp: linked_def child_ok_def split: option.splits)

lemma linked_fresh:
  assumes "linked h h1 n key k"
  shows "k \<noteq> n" "entry h1 k y = None" "child h1 k y = None" "child_ok h1 k y" "node h x \<noteq> None \<Longrightarrow> x \<noteq> k"
proof -
  show "k \<noteq> n" using assms by (auto simp: linked_def)
  then show "entry h1 k y = None" using assms by (auto simp: linked_def entry_def)
  then show "child h1 k y = None" "child_ok h1 k y" by (simp_all add: child_def child_ok_def)
qed (use assms in \<open>auto simp: linked_def\<close>)

lemma linked_inv:
  assumes "kv_inv r h" "linked h h1 n key k" "on_branch r h n key"
  shows "kv_inv r h1 \<and> kv_pending r h1 = kv_pending r h"
proof -
  note lc = linked_child [OF assms(2)] and ok = linked_child_ok [OF assms(2)] and lf = linked_fresh [OF assms(2)]
  have base: "heap_wf h1" "node h r \<noteq> None" "node h1 r \<noteq> None" "child_ok h r ''KEYMAP''" "child h n key = None" "node h n \<noteq> None"
    "entry h1 n key = Some (makeGlobalHashValue k)" "node h1 k \<noteq> None"
    using assms(1,2) by (auto simp: kv_inv_def linked_def)
  have linked: "child_ok h1 n key" using base(7,8) by (simp add: child_ok_def)
  have same: "entry h1 x y = entry h x y" if "y \<noteq> key" for x y using assms(2) that by (simp add: linked_def)
  have fresh: "pending_ok h1 k up" "runtime_ok h1 k up" "keymap_ok h1 k up" if "k \<notin> up" for up
    using that lf no_entry [OF lf(2)] by (auto simp: pending_ok_def runtime_ok_def keymap_ok_def)
  have k: "k \<noteq> r" "k \<noteq> n" using lf(5) [OF base(2)] lf(1) by auto
  from assms(3) consider "n = r" "key = ''KEYMAP''" | "child h r ''KEYMAP'' = Some n" "key = ''runtime''"
    | a where "child h r ''KEYMAP'' = Some a" "child h a ''runtime'' = Some n" "key = ''pending''"
    by (auto simp: on_branch_def)
  then show ?thesis
  proof cases
    case 1
    then show ?thesis using base lc lf linked fresh k
      by (auto simp: kv_inv_def kv_pending_def pending_handle_def fun_eq_iff)
  next
    case 2
    then have "n \<noteq> r" using assms(1) by (auto simp: kv_inv_def keymap_ok_def)
    with 2 show ?thesis using base lc lf linked ok [OF base(4)] fresh k
      by (auto simp: kv_inv_def keymap_ok_def kv_pending_def pending_handle_def fun_eq_iff)
  next
    case (3 a)
    then have d: "n \<noteq> r" "n \<noteq> a" "a \<noteq> r" and oka: "child_ok h a ''runtime''"
      using assms(1) by (auto simp: kv_inv_def keymap_ok_def runtime_ok_def)
    have "k \<noteq> a" using lf(5) [OF child_node [OF base(4) 3(1)]] by auto
    then show ?thesis using 3 d base lc lf linked ok [OF base(4)] ok [OF oka] fresh k
      by (auto simp: kv_inv_def keymap_ok_def runtime_ok_def kv_pending_def pending_handle_def fun_eq_iff)
  qed
qed

lemma ensure_inv:
  assumes "kv_inv r h" "on_branch r h n key" "child_ok h n key" "node h n \<noteq> None"
  obtains k h1 where "ensureChild (makeGlobalHashValue n) key h = Some (Inr (makeGlobalHashValue k), h1)"
    "child h1 n key = Some k" "kv_inv r h1" "kv_pending r h1 = kv_pending r h"
    "\<And>x y z. child h x y = Some z \<Longrightarrow> child h1 x y = Some z"
proof -
  have "heap_wf h" using assms(1) by (simp add: kv_inv_def)
  from ensure_step [OF this assms(4,3)] obtain k h1
    where e: "ensureChild (makeGlobalHashValue n) key h = Some (Inr (makeGlobalHashValue k), h1)"
      "child h1 n key = Some k" and l: "h1 = h \<or> linked h h1 n key k" by blast
  have "kv_inv r h1 \<and> kv_pending r h1 = kv_pending r h" using l assms(1) linked_inv [OF assms(1) _ assms(2)] by blast
  moreover have "child h1 x y = Some z" if "child h x y = Some z" for x y z
    using l that linked_child [of h h1 n key k x y] by (auto simp: linked_def)
  ultimately show thesis using that e by blast
qed

lemma branch_nodes:
  assumes "kv_inv r h"
  shows "node h r \<noteq> None" "child_ok h r ''KEYMAP''"
    and "child h r ''KEYMAP'' = Some a \<Longrightarrow> node h a \<noteq> None \<and> child_ok h a ''runtime'' \<and> a \<noteq> r"
    and "child h r ''KEYMAP'' = Some a \<Longrightarrow> child h a ''runtime'' = Some b \<Longrightarrow> node h b \<noteq> None \<and> child_ok h b ''pending'' \<and> b \<notin> {r, a}"
    and "child h r ''KEYMAP'' = Some a \<Longrightarrow> child h a ''runtime'' = Some b \<Longrightarrow> child h b ''pending'' = Some p \<Longrightarrow>
      node h p \<noteq> None \<and> p \<notin> {r, a, b} \<and> (\<forall>m. node h p = Some m \<longrightarrow> (\<forall>e \<in> set m. string_array (snd e)))"
  using assms child_node by (auto simp: kv_inv_def keymap_ok_def runtime_ok_def pending_ok_def)

lemma ensure_pending_path:
  assumes "kv_inv r h"
  obtains p h1 where "pendingKeymapRoot r h = Some (Inr (makeGlobalHashValue p), h1)" "kv_inv r h1"
    "pending_handle r h1 = Some p" "kv_pending r h1 = kv_pending r h"
proof -
  note b0 = branch_nodes [OF assms]
  obtain a h1 where e1: "ensureChild (makeGlobalHashValue r) ''KEYMAP'' h = Some (Inr (makeGlobalHashValue a), h1)"
      "child h1 r ''KEYMAP'' = Some a" "kv_inv r h1" "kv_pending r h1 = kv_pending r h"
    by (rule ensure_inv [OF assms _ b0(2,1)]) (auto simp: on_branch_def)
  note b1 = branch_nodes(3) [OF e1(3,2)]
  obtain b h2 where e2: "ensureChild (makeGlobalHashValue a) ''runtime'' h1 = Some (Inr (makeGlobalHashValue b), h2)"
      "child h2 a ''runtime'' = Some b" "kv_inv r h2" "kv_pending r h2 = kv_pending r h1" "child h2 r ''KEYMAP'' = Some a"
    by (rule ensure_inv [OF e1(3), of a "''runtime''"]) (use b1 e1(2) in \<open>auto simp: on_branch_def\<close>)
  note b2 = branch_nodes(4) [OF e2(3,5,2)]
  obtain p h3 where e3: "ensureChild (makeGlobalHashValue b) ''pending'' h2 = Some (Inr (makeGlobalHashValue p), h3)"
      "child h3 b ''pending'' = Some p" "kv_inv r h3" "kv_pending r h3 = kv_pending r h2"
      "child h3 r ''KEYMAP'' = Some a" "child h3 a ''runtime'' = Some b"
    by (rule ensure_inv [OF e2(3), of b "''pending''"]) (use b2 e2(2,5) in \<open>auto simp: on_branch_def\<close>)
  have "pendingKeymapRoot r h = Some (Inr (makeGlobalHashValue p), h3)"
    using e1(1) e2(1) e3(1) by (simp add: pendingKeymapRoot_def ensureRoot_def vm_bind_def)
  then show thesis by (rule that) (use e1 e2 e3 in \<open>auto simp: pending_handle_def\<close>)
qed

lemma to_string_digit: "n < 10 \<Longrightarrow> to_string n = [''0123456789'' ! n]"
  by (subst to_string.simps) simp

lemma contextKey_inject [simp]: "contextKey c = contextKey d \<longleftrightarrow> c = d"
  by (cases c; cases d) (simp_all add: contextKey_def to_string_digit)

lemma entry_set [simp]: "entry (set_node h n m) x y = (if x = n then map_of m y else entry h x y)"
  by (simp add: entry_def)

lemma pending_branch:
  assumes "kv_inv r h" "pending_handle r h = Some p"
  obtains a b where "child h r ''KEYMAP'' = Some a" "child h a ''runtime'' = Some b" "child h b ''pending'' = Some p"
    "distinct [r, a, b, p]" "node h p \<noteq> None" "\<forall>m. node h p = Some m \<longrightarrow> (\<forall>e \<in> set m. string_array (snd e))"
proof -
  obtain a b where c: "child h r ''KEYMAP'' = Some a" "child h a ''runtime'' = Some b" "child h b ''pending'' = Some p"
    using assms(2) by (auto simp: pending_handle_def bind_eq_Some_conv)
  show thesis
    by (rule that [OF c])
      (use branch_nodes(3) [OF assms(1) c(1)] branch_nodes(4) [OF assms(1) c(1,2)] branch_nodes(5) [OF assms(1) c] in auto)
qed

lemma set_pending:
  assumes "kv_inv r h" "pending_handle r h = Some p" "\<And>e. e \<in> set m \<Longrightarrow> string_array (snd e)"
  shows "kv_inv r (set_node h p m)"
    and "kv_pending r (set_node h p m) c = (case map_of m (contextKey c) of None \<Rightarrow> [] | Some v \<Rightarrow> tokensOf v)"
proof -
  obtain a b
    where c: "child h r ''KEYMAP'' = Some a" "child h a ''runtime'' = Some b" "child h b ''pending'' = Some p" "distinct [r, a, b, p]"
      and p: "node h p \<noteq> None" by (rule pending_branch [OF assms(1,2)])
  have ch: "child (set_node h p m) x y = child h x y" if "x \<noteq> p" for x y using that by (simp add: child_def)
  have ok: "child_ok (set_node h p m) x y" if "x \<noteq> p" "child_ok h x y" for x y
    using that p by (auto simp: child_ok_def split: option.splits)
  have wf: "heap_wf (set_node h p m)" using assms(1) p by (intro wf_set) (auto simp: kv_inv_def)
  show "kv_inv r (set_node h p m)"
    using assms(1,3) c wf by (auto simp: kv_inv_def keymap_ok_def runtime_ok_def pending_ok_def ch ok)
  show "kv_pending r (set_node h p m) c = (case map_of m (contextKey c) of None \<Rightarrow> [] | Some v \<Rightarrow> tokensOf v)"
    using c by (simp add: kv_pending_def pending_handle_def ch)
qed

definition stored_tokens :: "MRKeymapToken list \<Rightarrow> Value" where
  "stored_tokens ts = Value TYPE_STR_ARRAY 0 0 [] NUL 0 TYPE_STR
     (map (\<lambda>t. with_global True (mrvmMakeString (MRKeymapToken_toString t))) ts) True"

lemma stored_tokens: "string_array (stored_tokens ts)" "list_all canonical_token ts \<Longrightarrow> tokensOf (stored_tokens ts) = ts"
proof -
  show "string_array (stored_tokens ts)"
    by (simp add: stored_tokens_def string_array_def list_all_iff with_global_def mrvmMakeString_def)
  show "tokensOf (stored_tokens ts) = ts" if "list_all canonical_token ts"
    using that
    by (induction ts)
      (simp_all add: stored_tokens_def tokensOf_def map_filter_simps with_global_def mrvmMakeString_def token_round_trip)
qed

lemma store_pending:
  assumes "kv_inv r h" "list_all canonical_token ts"
  shows "\<exists>h1. storePendingTokens r c ts h = Some (Inr (), h1) \<and> kv_inv r h1 \<and> kv_pending r h1 = (kv_pending r h)(c := ts)"
proof -
  obtain p h1
    where e: "pendingKeymapRoot r h = Some (Inr (makeGlobalHashValue p), h1)" and inv: "kv_inv r h1"
      and p: "pending_handle r h1 = Some p" and same: "kv_pending r h1 = kv_pending r h"
    by (rule ensure_pending_path [OF assms(1)])
  obtain m where m: "node h1 p = Some m" and ent: "\<And>e. e \<in> set m \<Longrightarrow> string_array (snd e)"
    by (rule pending_branch [OF inv p]) blast
  have pend: "kv_pending r h d = (case map_of m (contextKey d) of None \<Rightarrow> [] | Some v \<Rightarrow> tokensOf v)" for d
    using m p by (simp add: same [symmetric] kv_pending_def entry_def)
  show ?thesis
  proof (cases "ts = []")
    case True
    show ?thesis
    proof (cases "map_of m (contextKey c)")
      case None
      then show ?thesis using True e inv m same pend [of c]
        by (auto simp: storePendingTokens_def vm_bind_def kv_contains_eq entry_def fun_eq_iff)
    next
      case (Some v)
      let ?h = "set_node h1 p (omap_del (contextKey c) m)"
      have "storePendingTokens r c ts h = Some (Inr (), ?h)" using True e m Some
        by (simp add: storePendingTokens_def vm_bind_def kv_contains_eq entry_def kv_erase_eq)
      moreover have "kv_inv r ?h" by (rule set_pending(1) [OF inv p]) (use ent set_del [of "contextKey c" m] in blast)
      moreover have "kv_pending r ?h d = ((kv_pending r h)(c := ts)) d" for d
        by (subst set_pending(2) [OF inv p]) (use ent True pend set_del [of "contextKey c" m] in auto)
      ultimately show ?thesis by blast
    qed
  next
    case False
    let ?h = "set_node h1 p (omap_put str_less (contextKey c) (stored_tokens ts) m)"
    have "storePendingTokens r c ts h = Some (Inr (), ?h)" using False e
      by (simp add: storePendingTokens_def vm_bind_def vm_query_def mrvmMakeArrayValue_def mrvmArrayTypeForElementType_def
          kv_write_strings [OF m] with_elements_def with_global_def mrvmMakeString_def stored_tokens_def list_all_iff comp_def)
    moreover have "kv_inv r ?h" by (rule set_pending(1) [OF inv p]) (use ent stored_tokens(1) set_put [of str_less "contextKey c" "stored_tokens ts" m] in fastforce)
    moreover have "kv_pending r ?h d = ((kv_pending r h)(c := ts)) d" for d
      by (subst set_pending(2) [OF inv p]) (use ent pend stored_tokens assms(2) set_put [of str_less "contextKey c" "stored_tokens ts" m] in fastforce)+
    ultimately show ?thesis by blast
  qed
qed

subsection \<open>Resetting\<close>

lemma erase_strings:
  "list_all (\<lambda>v. v_type v = TYPE_STR) vs \<Longrightarrow> eraseTrees hashes g (vs @ todo) R = eraseTrees hashes g todo R"
  by (induction vs) (simp_all add: mrvmValueIsArrayType_def)

lemma erase_string_arrays: "list_all string_array vs \<Longrightarrow> eraseTrees hashes g vs R = R"
  by (induction vs) (simp_all add: mrvmValueIsArrayType_def string_array_def erase_strings)

text \<open>A hash that holds arrays of strings is erased alone.\<close>

lemma erase_pending_hash:
  assumes "map_of hashes p = Some m" "0 < p" "\<And>e. e \<in> set m \<Longrightarrow> string_array (snd e)"
  shows "eraseTrees hashes True [makeGlobalHashValue p] {} = {p}"
proof -
  have "list_all string_array (map snd m)" using assms(3) by (auto simp: list_all_iff)
  then show ?thesis using assms(1,2) by (simp add: erase_string_arrays)
qed

definition drop_hash :: "VmHeap \<Rightarrow> int \<Rightarrow> VmHeap" where
  "drop_hash h p = store_put StoreGlobal (eraseValueTrees (store_of StoreGlobal h) (makeGlobalHashValue p) True) h"

lemma drop_hash:
  assumes "heap_wf h" "node h p = Some m" "\<And>e. e \<in> set m \<Longrightarrow> string_array (snd e)"
  shows "node (drop_hash h p) x = (if x = p then None else node h x)" "heap_wf (drop_hash h p)"
proof -
  have "0 < p" using assms(1,2) by (simp add: heap_wf_iff)
  then have er: "eraseTrees (hs_hashes (heap_global h)) True [makeGlobalHashValue p] {} = {p}"
    using assms(2,3) by (intro erase_pending_hash) (auto simp: node_def)
  show n: "node (drop_hash h p) x = (if x = p then None else node h x)" for x
    unfolding drop_hash_def eraseValueTrees_def store_of_def store_put_def node_def Let_def StoreId.case er
    by (simp add: map_of_filter_key del: eraseTrees.simps)
  have "next_handle (drop_hash h p) = next_handle h"
    by (simp add: next_handle_def drop_hash_def eraseValueTrees_def store_of_def store_put_def Let_def)
  then show "heap_wf (drop_hash h p)" using assms(1) by (auto simp: heap_wf_iff n)
qed

lemma unlink_pending:
  assumes "kv_inv r h" "child h r ''KEYMAP'' = Some a" "child h a ''runtime'' = Some b" "distinct [r, a, b, p]" "heap_wf h1"
    and n: "\<And>x. node h1 x \<noteq> None \<longleftrightarrow> x \<noteq> p \<and> node h x \<noteq> None"
    and e: "\<And>x y. x \<noteq> p \<Longrightarrow> entry h1 x y = (if x = b \<and> y = ''pending'' then None else entry h x y)"
  shows "kv_inv r h1 \<and> kv_pending r h1 = (\<lambda>_. [])"
proof -
  have ch: "child h1 r ''KEYMAP'' = Some a" "child h1 a ''runtime'' = Some b" "child h1 b ''pending'' = None"
    using assms(2-4) by (auto simp: child_def e)
  have "child_ok h1 r ''KEYMAP''" "child_ok h1 a ''runtime''" "child_ok h1 b ''pending''"
    using assms(1-4) n by (auto simp: kv_inv_def keymap_ok_def child_ok_def child_def e)
  then show ?thesis using ch assms(1-5) n [of r]
    by (auto simp: kv_inv_def keymap_ok_def runtime_ok_def kv_pending_def pending_handle_def)
qed

lemma reset_no_pending:
  assumes "kv_inv r h" "pending_handle r h = None"
  shows "resetPending r h = Some (Inr (), h)"
proof -
  note b = branch_nodes [OF assms(1)]
  show ?thesis
  proof (cases "child h r ''KEYMAP''")
    case None
    then show ?thesis by (simp add: resetPending_def findRoot_def vm_bind_def findChild_eq [OF b(1,2)])
  next
    case a: (Some a)
    note b3 = b(3) [OF a]
    show ?thesis
    proof (cases "child h a ''runtime''")
      case None
      then show ?thesis using a b3 by (simp add: resetPending_def findRoot_def vm_bind_def findChild_eq [OF b(1,2)] findChild_eq)
    next
      case rt: (Some bb)
      then have "entry h bb ''pending'' = None" "node h bb \<noteq> None" using assms(2) a b(4) [OF a rt] by (auto simp: pending_handle_def child_def)
      then show ?thesis using a b3 rt
        by (simp add: resetPending_def findRoot_def vm_bind_def findChild_eq [OF b(1,2)] findChild_eq eraseChild_def kv_contains_eq)
    qed
  qed
qed

lemma reset_pending:
  assumes "kv_inv r h"
  shows "\<exists>h1. resetPending r h = Some (Inr (), h1) \<and> kv_inv r h1 \<and> kv_pending r h1 = (\<lambda>_. [])"
proof (cases "pending_handle r h")
  case None
  then show ?thesis using assms reset_no_pending [OF assms] by (auto simp: kv_pending_def fun_eq_iff)
next
  case (Some p)
  obtain a b where c: "child h r ''KEYMAP'' = Some a" "child h a ''runtime'' = Some b" "child h b ''pending'' = Some p" "distinct [r, a, b, p]"
    and p: "node h p \<noteq> None" "\<forall>m. node h p = Some m \<longrightarrow> (\<forall>e \<in> set m. string_array (snd e))"
    by (rule pending_branch [OF assms Some])
  note bn = branch_nodes [OF assms] note b3 = bn(3) [OF c(1)] and b4 = bn(4) [OF c(1,2)]
  obtain mp mb where m: "node h p = Some mp" "node h b = Some mb" using p(1) b4 by auto
  have v: "entry h b ''pending'' = Some (makeGlobalHashValue p)"
    using c(3) b4 by (auto simp: child_ok_def child_def split: option.splits)
  let ?h0 = "set_node h b (omap_del ''pending'' mb)"
  have wf: "heap_wf ?h0" using assms m by (auto simp: kv_inv_def intro: wf_set)
  have "node ?h0 p = Some mp" using m c(4) by simp
  note d = drop_hash [OF wf this] 
  have n1: "node (drop_hash ?h0 p) x = (if x = p then None else node ?h0 x)" for x using d(1) p(2) m(1) by blast
  have "heap_wf (drop_hash ?h0 p)" using d(2) p(2) m(1) by blast
  then have "kv_inv r (drop_hash ?h0 p) \<and> kv_pending r (drop_hash ?h0 p) = (\<lambda>_. [])"
    by (rule unlink_pending [OF assms c(1,2,4)]) (use m in \<open>auto simp: n1 entry_def split: if_splits\<close>)
  moreover have "resetPending r h = Some (Inr (), drop_hash ?h0 p)"
    using b3 b4 c m
    by (simp add: resetPending_def findRoot_def vm_bind_def findChild_eq [OF bn(1,2)] findChild_eq eraseChild_def kv_contains_eq v
        kv_read_eq [OF v] kv_erase_eq [OF m(2)] drop_hash_def)
  ultimately show ?thesis by blast
qed

lemma new_kv_inv:
  "newRuntimeKv localStore = (r, h) \<Longrightarrow> kv_inv r h" "newRuntimeKv localStore = (r, h) \<Longrightarrow> kv_pending r h = (\<lambda>_. [])"
  by (auto simp: newRuntimeKv_def createHash_def emptyStore_def kv_inv_def heap_wf_def node_def child_ok_def child_def entry_def
      kv_pending_def pending_handle_def fun_eq_iff split: if_splits)

interpretation kvp: pending_tokens "pendingTokens r" "storePendingTokens r" "resetPending r" "kv_inv r" "kv_pending r" for r
proof
  show "pendingTokens r c k = Some (Inr (kv_pending r k c), k)" if "kv_inv r k" for k c
    by (rule load_pending [OF that])
  show "\<exists>k1. storePendingTokens r c ts k = Some (Inr (), k1) \<and> kv_inv r k1 \<and> kv_pending r k1 = (kv_pending r k)(c := ts)"
    if "kv_inv r k" "list_all canonical_token ts" for k ts c
    by (rule store_pending [OF that])
  show "\<exists>k1. resetPending r k = Some (Inr (), k1) \<and> kv_inv r k1 \<and> kv_pending r k1 = (\<lambda>_. [])" if "kv_inv r k" for k
    by (rule reset_pending [OF that])
qed

text \<open>
  A session of the resolver: the trie is rebuilt for the active profile, which forgets every begun
  sequence, and then keys are pressed.
\<close>

definition resolver_session ::
  "int \<Rightarrow> MRKeymapProfile list \<Rightarrow> string \<Rightarrow> (MRKeymapContext \<times> MRKeymapToken) list \<Rightarrow> (VmHeap, string option \<times> ResolverResult list) vm" where
  "resolver_session r profiles active ks =
     vm_bind (MRKeymapResolver_rebuild r profiles active) (\<lambda>(trie, err).
     vm_bind (resolve_keys (MRKeymapResolver_resolve r trie) ks) (\<lambda>rs. vm_return (err, rs)))"

lemma session_refines:
  fixes profiles :: "MRKeymapProfile list" and active :: string
  defines "bs \<equiv> activeBindings profiles active"
  assumes "kv_inv r h" "dispatchable bs" "list_all (\<lambda>b. list_all canonical_token (br_sequence b)) bs"
  shows "\<exists>h1. resolver_session r profiles active ks h = Some (Inr (None, snd (keys_spec bs (\<lambda>_. []) ks)), h1) \<and> kv_inv r h1
    \<and> kv_pending r h1 = fst (keys_spec bs (\<lambda>_. []) ks)"
proof -
  obtain trie where t: "MRKeymapTrie_rebuild bs = (trie, None)" using rebuild_spec(1) assms(3) by (metis surj_pair)
  obtain h0 where h0: "resetPending r h = Some (Inr (), h0)" "kv_inv r h0" "kv_pending r h0 = (\<lambda>_. [])"
    using kvp.reset [OF assms(2)] by blast
  from kvp.keys_refine [OF h0(2) t assms(4), of ks] obtain h1
    where "resolve_keys (MRKeymapResolver_resolve r trie) ks h0 = Some (Inr (snd (keys_spec bs (\<lambda>_. []) ks)), h1)" "kv_inv r h1"
      "kv_pending r h1 = fst (keys_spec bs (\<lambda>_. []) ks)"
    by (auto simp: h0(3) MRKeymapResolver_resolve_def)
  then show ?thesis using h0(1) t
    by (simp add: resolver_session_def MRKeymapResolver_rebuild_def vm_bind_def flip: bs_def)
qed

lemma active_dispatchable:
  assumes "list_all clean_profile profiles" shows "dispatchable (activeBindings profiles active)"
proof (cases "findActiveProfile profiles active")
  case (Some p)
  then have "clean_profile p" using assms by (auto simp: findActiveProfile_def list_all_iff dest!: find_Some_in)
  then show ?thesis using Some clean_dispatchable by (auto simp: activeBindings_def clean_profile_def)
qed (simp add: activeBindings_def dispatchable_def)

end
