(* ===== verification/Hex_Utf8.thy ===== *)
theory Hex_Utf8
  imports Read_Snapshot VM_Value
begin

text \<open>
  The UTF-8 recogniser of the hex view (\<open>src/ui/MRBentoHexEditor/MRHexUtf8.cpp\<close>), which reads a snapshot
  byte by byte. It accepts exactly the multi-byte sequences the macro machine's encoder
  (\<open>mrvmUtf8FromCodepoint\<close>) writes.
\<close>

record Utf8LeadingByteRange =
  ur_first :: nat
  ur_last :: nat
  ur_width :: nat
  ur_payloadMask :: nat
  ur_minimumCodePoint :: nat

definition kUtf8LeadingByteRanges :: "Utf8LeadingByteRange list" where
  "kUtf8LeadingByteRanges =
     [\<lparr>ur_first = 0xC2, ur_last = 0xDF, ur_width = 2, ur_payloadMask = 0x1F, ur_minimumCodePoint = 0x80\<rparr>,
      \<lparr>ur_first = 0xE0, ur_last = 0xEF, ur_width = 3, ur_payloadMask = 0x0F, ur_minimumCodePoint = 0x800\<rparr>,
      \<lparr>ur_first = 0xF0, ur_last = 0xF4, ur_width = 4, ur_payloadMask = 0x07, ur_minimumCodePoint = 0x10000\<rparr>]"

definition utf8LeadingByteRange :: "nat \<Rightarrow> Utf8LeadingByteRange option" where
  "utf8LeadingByteRange v = find (\<lambda>rg. v \<ge> ur_first rg \<and> v \<le> ur_last rg) kUtf8LeadingByteRanges"

text \<open>The loop over the continuation bytes; the code point stays below \<open>2 ^ 21\<close>.\<close>

fun continuation_loop :: "ReadSnapshot \<Rightarrow> Offset \<Rightarrow> nat list \<Rightarrow> nat \<Rightarrow> nat option" where
  "continuation_loop r offset [] codePoint = Some codePoint"
| "continuation_loop r offset (index # indices) codePoint =
     (let byte = (of_char (ReadSnapshot_charAt r (offset + index)) :: nat) in
      if byte AND 0xC0 \<noteq> 0x80 then None
      else continuation_loop r offset indices (push_bit 6 codePoint OR (byte AND 0x3F)))"

definition mrHexUtf8CodePointAt :: "ReadSnapshot \<Rightarrow> Offset \<Rightarrow> nat \<Rightarrow> bool \<times> nat" where
  "mrHexUtf8CodePointAt r offset width0 =
     (if offset \<ge> rs_length r then (False, width0)
      else
        (let first = (of_char (ReadSnapshot_charAt r offset) :: nat) in
         case utf8LeadingByteRange first of
           None \<Rightarrow> (False, width0)
         | Some rg \<Rightarrow>
             (let width = ur_width rg in
              if width > rs_length r - offset then (False, width)
              else
                (case continuation_loop r offset [1..<width] (first AND ur_payloadMask rg) of
                   None \<Rightarrow> (False, width)
                 | Some codePoint \<Rightarrow>
                     (codePoint \<ge> ur_minimumCodePoint rg \<and> codePoint \<le> 0x10FFFF \<and> (codePoint < 0xD800 \<or> codePoint > 0xDFFF),
                      width)))))"

subsection \<open>Bits as arithmetic\<close>

lemma and_masks: "n AND 0x3F = n mod (64 :: nat)" "n AND 0x1F = n mod (32 :: nat)" "n AND 0x0F = n mod (16 :: nat)" "n AND 0x07 = n mod (8 :: nat)"
  using take_bit_eq_mask [of 6 n] take_bit_eq_mask [of 5 n] take_bit_eq_mask [of 4 n] take_bit_eq_mask [of 3 n]
  by (simp_all add: take_bit_eq_mod mask_eq_exp_minus_1)

lemma or_disjoint: "n < 2 ^ k \<Longrightarrow> push_bit k m OR n = m * 2 ^ k + (n :: nat)"
proof -
  assume "n < 2 ^ k"
  then have n: "take_bit k n = n" by (simp add: take_bit_nat_eq_self_iff)
  have "push_bit k m AND take_bit k n = 0" by (rule bit_eqI) (auto simp: bit_simps)
  then show ?thesis using n disjunctive_add_eq_or [of "push_bit k m" n] by (simp add: push_bit_eq_mult)
qed

lemma or_leads:
  "n < 64 \<Longrightarrow> 0x80 OR n = 0x80 + (n :: nat)" "n < 32 \<Longrightarrow> 0xC0 OR n = 0xC0 + (n :: nat)"
  "n < 16 \<Longrightarrow> 0xE0 OR n = 0xE0 + (n :: nat)" "n < 8 \<Longrightarrow> 0xF0 OR n = 0xF0 + (n :: nat)"
  using or_disjoint [of n 6 2] or_disjoint [of n 5 6] or_disjoint [of n 4 14] or_disjoint [of n 3 30]
  by (simp_all add: push_bit_eq_mult)

lemma push_or: "push_bit 6 m OR (n mod 64) = m * 64 + n mod (64 :: nat)"
  using or_disjoint [of "n mod 64" 6 m] by (simp add: and_masks)

lemma continuation_byte: "n < 256 \<Longrightarrow> n AND 0xC0 = 0x80 \<longleftrightarrow> n div 64 = (2 :: nat)"
proof -
  assume n: "n < 256"
  have "n AND 0xC0 = push_bit 6 (drop_bit 6 n AND 3)"
  proof (rule bit_eqI)
    fix i
    have "bit (0xC0 :: nat) i \<longleftrightarrow> 6 \<le> i \<and> bit (3 :: nat) (i - 6)"
    proof -
      have "bit (push_bit 6 3 :: nat) i \<longleftrightarrow> 6 \<le> i \<and> bit (3 :: nat) (i - 6)" by (rule bit_push_bit_iff_nat)
      moreover have "(0xC0 :: nat) = push_bit 6 3" by (simp add: push_bit_eq_mult)
      ultimately show ?thesis by (simp only:)
    qed
    then show "bit (n AND 0xC0) i = bit (push_bit 6 (drop_bit 6 n AND 3)) i" by (auto simp: bit_simps)
  qed
  moreover have "drop_bit 6 n AND 3 = n div 64"
  proof -
    have "take_bit 2 (n div 64) = n div 64" using n by (simp add: take_bit_nat_eq_self_iff)
    then show ?thesis by (simp add: take_bit_eq_mask mask_eq_exp_minus_1 drop_bit_eq_div)
  qed
  ultimately show ?thesis by (simp add: push_bit_eq_mult)
qed

lemma char_byte: "(of_char c :: nat) < 256"
  using of_char_mod_256 [of c] by (metis mod_less_divisor zero_less_numeral)

lemma char_of_eq: "char_of n = c \<longleftrightarrow> n mod 256 = (of_char c :: nat)"
  by (metis char_of_char of_char_of)

subsection \<open>The encoder in arithmetic\<close>

definition utf8_bytes :: "nat \<Rightarrow> nat list" where
  "utf8_bytes cp =
     (if cp \<le> 0x7FF then [192 + cp div 64, 128 + cp mod 64]
      else if cp \<le> 0xFFFF then [224 + cp div 4096, 128 + cp div 64 mod 64, 128 + cp mod 64]
      else [240 + cp div 262144, 128 + cp div 4096 mod 64, 128 + cp div 64 mod 64, 128 + cp mod 64])"

definition scalar :: "nat \<Rightarrow> bool" where
  "scalar cp \<longleftrightarrow> cp \<le> 0x10FFFF \<and> (cp < 0xD800 \<or> cp > 0xDFFF)"

lemma encode_bytes:
  assumes "0x80 \<le> unat w"
  shows "mrvmUtf8FromCodepoint w = (if scalar (unat w) then Inr (map char_of (utf8_bytes (unat w))) else Inl ''UTF8 expects a valid Unicode codepoint.'')"
proof (cases "scalar (unat w)")
  case False
  then show ?thesis by (auto simp: mrvmUtf8FromCodepoint_def scalar_def Let_def)
next
  case True
  let ?n = "unat w"
  have "?n \<le> 0x7FF \<Longrightarrow> ?n div 64 < 32" "?n \<le> 0xFFFF \<Longrightarrow> ?n div 4096 < 16" "?n div 262144 < 8"
    using True by (simp_all add: scalar_def less_mult_imp_div_less)
  with True assms show ?thesis
    by (auto simp: mrvmUtf8FromCodepoint_def scalar_def Let_def utf8_bytes_def and_masks or_leads drop_bit_eq_div)
qed

lemma utf8_bytes_range: "scalar cp \<Longrightarrow> list_all (\<lambda>b. b < 256) (utf8_bytes cp)"
  by (auto simp: utf8_bytes_def scalar_def)

subsection \<open>What the recogniser accepts\<close>

lemma lead_byte: "k * m \<le> b \<Longrightarrow> b < Suc k * m \<Longrightarrow> b = k * m + b mod (m :: nat)"
  using div_nat_eqI [of m k b] div_mult_mod_eq [of b m] by (simp add: mult.commute)

lemma lead_mod: "a < m \<Longrightarrow> (k * m + a) mod m = (a :: nat)"
  by simp

lemma tail_byte: "b div 64 = (2 :: nat) \<Longrightarrow> b = 128 + b mod 64"
  using div_mult_mod_eq [of b 64] by simp

lemma step64: "(a * 64 + x mod 64) div 64 = (a :: nat)" "(a * 64 + x mod 64) mod 64 = x mod 64"
  by simp_all

lemma bytes2:
  fixes b0 b1 :: nat
  defines "cp \<equiv> b0 mod 32 * 64 + b1 mod 64"
  assumes "194 \<le> b0" "b0 \<le> 223" "b1 div 64 = 2"
  shows "utf8_bytes cp = [b0, b1]" "0x80 \<le> cp" "scalar cp"
proof -
  have b: "b0 = 192 + b0 mod 32" "b1 = 128 + b1 mod 64" using lead_byte [of 6 32 b0] tail_byte [of b1] assms(2-4) by simp_all
  have d: "cp div 64 = b0 mod 32" "cp mod 64 = b1 mod 64" by (simp_all add: cp_def)
  have "cp \<le> 31 * 64 + 63" unfolding cp_def by (intro add_mono mult_mono) (simp_all add: less_Suc_eq_le [symmetric])
  then have le: "cp \<le> 0x7FF" by simp
  show "utf8_bytes cp = [b0, b1]" using le b by (simp add: utf8_bytes_def d)
  show "scalar cp" using le by (simp add: scalar_def)
  have "2 \<le> b0 mod 32" using b(1) assms(2) by linarith
  then show "0x80 \<le> cp" by (simp add: cp_def)
qed

lemma bytes3:
  fixes b0 b1 b2 :: nat
  defines "cp \<equiv> (b0 mod 16 * 64 + b1 mod 64) * 64 + b2 mod 64"
  assumes "224 \<le> b0" "b0 \<le> 239" "b1 div 64 = 2" "b2 div 64 = 2" "0x800 \<le> cp"
  shows "utf8_bytes cp = [b0, b1, b2]"
proof -
  have b: "b0 = 224 + b0 mod 16" "b1 = 128 + b1 mod 64" "b2 = 128 + b2 mod 64"
    using lead_byte [of 14 16 b0] tail_byte assms(2-5) by simp_all
  have d: "cp div 64 = b0 mod 16 * 64 + b1 mod 64" "cp mod 64 = b2 mod 64" unfolding cp_def by (rule step64)+
  have d2: "cp div 4096 = b0 mod 16" using div_mult2_eq [of cp 64 64] by (simp add: d)
  have "cp \<le> (15 * 64 + 63) * 64 + 63" unfolding cp_def by (intro add_mono mult_mono) (simp_all add: less_Suc_eq_le [symmetric])
  then show ?thesis using assms(6) b by (simp add: utf8_bytes_def d d2)
qed

lemma bytes4:
  fixes b0 b1 b2 b3 :: nat
  defines "cp \<equiv> ((b0 mod 8 * 64 + b1 mod 64) * 64 + b2 mod 64) * 64 + b3 mod 64"
  assumes "240 \<le> b0" "b0 \<le> 244" "b1 div 64 = 2" "b2 div 64 = 2" "b3 div 64 = 2" "0x10000 \<le> cp"
  shows "utf8_bytes cp = [b0, b1, b2, b3]"
proof -
  have b: "b0 = 240 + b0 mod 8" "b1 = 128 + b1 mod 64" "b2 = 128 + b2 mod 64" "b3 = 128 + b3 mod 64"
    using lead_byte [of 30 8 b0] tail_byte assms(2-6) by simp_all
  have d: "cp div 64 = (b0 mod 8 * 64 + b1 mod 64) * 64 + b2 mod 64" "cp mod 64 = b3 mod 64" unfolding cp_def by (rule step64)+
  have d2: "cp div 4096 = b0 mod 8 * 64 + b1 mod 64" using div_mult2_eq [of cp 64 64] unfolding d step64 by simp
  have d3: "cp div 262144 = b0 mod 8" using div_mult2_eq [of cp 4096 64] by (simp add: d2)
  have "cp div 64 mod 64 = b2 mod 64" unfolding d by (rule step64)
  then show ?thesis using assms(7) b by (simp add: utf8_bytes_def d(2) d2 d3)
qed

definition snap_byte :: "ReadSnapshot \<Rightarrow> Offset \<Rightarrow> nat" where
  "snap_byte r p = of_char (snap_text_of r ! p)"

definition decoded :: "nat list \<Rightarrow> nat" where
  "decoded bs = (case bs of
     [b0, b1] \<Rightarrow> b0 mod 32 * 64 + b1 mod 64
   | [b0, b1, b2] \<Rightarrow> (b0 mod 16 * 64 + b1 mod 64) * 64 + b2 mod 64
   | [b0, b1, b2, b3] \<Rightarrow> ((b0 mod 8 * 64 + b1 mod 64) * 64 + b2 mod 64) * 64 + b3 mod 64
   | _ \<Rightarrow> 0)"

definition accepted :: "nat list \<Rightarrow> bool" where
  "accepted bs \<longleftrightarrow> bs \<noteq> [] \<and> list_all (\<lambda>b. b div 64 = 2) (tl bs) \<and> scalar (decoded bs) \<and>
     (length bs = 2 \<and> 194 \<le> hd bs \<and> hd bs \<le> 223
      \<or> length bs = 3 \<and> 224 \<le> hd bs \<and> hd bs \<le> 239 \<and> 0x800 \<le> decoded bs
      \<or> length bs = 4 \<and> 240 \<le> hd bs \<and> hd bs \<le> 244 \<and> 0x10000 \<le> decoded bs)"

lemma snap_byte_less: "snap_byte r p < 256"
  by (simp add: snap_byte_def char_byte)

lemma snap_length: "snap_ok r \<Longrightarrow> length (snap_text_of r) = rs_length r"
  by (simp add: snap_ok_def doc_ok_def snap_text_doc)

lemma snap_charAt:
  assumes "snap_ok r" "p < rs_length r"
  shows "of_char (ReadSnapshot_charAt r p) = snap_byte r p"
  using snap.char_query [OF assms(1), of p] assms(2) snap_length [OF assms(1)]
  by (simp add: ReadSnapshot_charAt_def snap_byte_def)

lemma leading_range:
  "utf8LeadingByteRange v =
     (if 194 \<le> v \<and> v \<le> 223 then Some \<lparr>ur_first = 0xC2, ur_last = 0xDF, ur_width = 2, ur_payloadMask = 0x1F, ur_minimumCodePoint = 0x80\<rparr>
      else if 224 \<le> v \<and> v \<le> 239 then Some \<lparr>ur_first = 0xE0, ur_last = 0xEF, ur_width = 3, ur_payloadMask = 0x0F, ur_minimumCodePoint = 0x800\<rparr>
      else if 240 \<le> v \<and> v \<le> 244 then Some \<lparr>ur_first = 0xF0, ur_last = 0xF4, ur_width = 4, ur_payloadMask = 0x07, ur_minimumCodePoint = 0x10000\<rparr>
      else None)"
  by (auto simp: utf8LeadingByteRange_def kUtf8LeadingByteRanges_def)

lemma recogniser_accepts:
  assumes "snap_ok r"
  shows "mrHexUtf8CodePointAt r off w0 = (True, w) \<longleftrightarrow>
    off + w \<le> rs_length r \<and> length [0..<w] = w \<and> accepted (map (\<lambda>i. snap_byte r (off + i)) [0..<w])"
proof -
  note c = snap_charAt [OF assms] continuation_byte [OF snap_byte_less] and_masks push_or
  have w: "[Suc 0..<2] = [1]" "[Suc 0..<3] = [1, 2]" "[Suc 0..<4] = [1, 2, 3]" "[0..<2] = [0, 1]" "[0..<3] = [0, 1, 2]" "[0..<4] = [0, 1, 2, 3::nat]"
    by (simp_all add: upt_rec)
  consider "off \<ge> rs_length r" | "off < rs_length r" "194 \<le> snap_byte r off" "snap_byte r off \<le> 223"
    | "off < rs_length r" "224 \<le> snap_byte r off" "snap_byte r off \<le> 239"
    | "off < rs_length r" "240 \<le> snap_byte r off" "snap_byte r off \<le> 244"
    | "off < rs_length r" "snap_byte r off < 194 \<or> 244 < snap_byte r off" by linarith
  then show ?thesis
  proof cases
    case 1
    then show ?thesis by (cases "w = 0") (auto simp: mrHexUtf8CodePointAt_def accepted_def)
  next
    case 2
    then have "mrHexUtf8CodePointAt r off w0 = (True, w) \<longleftrightarrow> w = 2 \<and> off + 2 \<le> rs_length r \<and> snap_byte r (off + 1) div 64 = 2"
      using bytes2(2,3) [of "snap_byte r off" "snap_byte r (off + 1)"]
      by (auto simp: mrHexUtf8CodePointAt_def c leading_range w Let_def scalar_def)
    also have "\<dots> \<longleftrightarrow> off + w \<le> rs_length r \<and> length [0..<w] = w \<and> accepted (map (\<lambda>i. snap_byte r (off + i)) [0..<w])"
      using 2 bytes2(3) [of "snap_byte r off" "snap_byte r (off + 1)"]
      by (cases "w = 2") (auto simp: accepted_def w decoded_def hd_map hd_upt)
    finally show ?thesis .
  next
    case 3
    define cp where "cp = decoded [snap_byte r off, snap_byte r (off + 1), snap_byte r (off + 2)]"
    from 3 have "mrHexUtf8CodePointAt r off w0 = (True, w) \<longleftrightarrow>
        w = 3 \<and> off + 3 \<le> rs_length r \<and> snap_byte r (off + 1) div 64 = 2 \<and> snap_byte r (off + 2) div 64 = 2 \<and> 0x800 \<le> cp \<and> scalar cp"
      by (auto simp: mrHexUtf8CodePointAt_def c leading_range w Let_def scalar_def cp_def decoded_def)
    also have "\<dots> \<longleftrightarrow> off + w \<le> rs_length r \<and> length [0..<w] = w \<and> accepted (map (\<lambda>i. snap_byte r (off + i)) [0..<w])"
      using 3 by (cases "w = 3") (auto simp: accepted_def w cp_def hd_map hd_upt)
    finally show ?thesis .
  next
    case 4
    define cp where "cp = decoded [snap_byte r off, snap_byte r (off + 1), snap_byte r (off + 2), snap_byte r (off + 3)]"
    have "rs_length r - off < 4 \<longleftrightarrow> \<not> off + 4 \<le> rs_length r" using 4(1) by linarith
    with 4 have "mrHexUtf8CodePointAt r off w0 = (True, w) \<longleftrightarrow>
        w = 4 \<and> off + 4 \<le> rs_length r \<and> snap_byte r (off + 1) div 64 = 2 \<and> snap_byte r (off + 2) div 64 = 2
          \<and> snap_byte r (off + 3) div 64 = 2 \<and> 0x10000 \<le> cp \<and> scalar cp"
      by (auto simp: mrHexUtf8CodePointAt_def c leading_range w Let_def scalar_def cp_def decoded_def)
    also have "\<dots> \<longleftrightarrow> off + w \<le> rs_length r \<and> length [0..<w] = w \<and> accepted (map (\<lambda>i. snap_byte r (off + i)) [0..<w])"
      using 4 by (cases "w = 4") (auto simp: accepted_def w cp_def hd_map hd_upt)
    finally show ?thesis .
  next
    case 5
    then have "utf8LeadingByteRange (snap_byte r off) = None" by (simp add: leading_range) linarith
    then have "mrHexUtf8CodePointAt r off w0 = (False, w0)" using 5(1) by (simp add: mrHexUtf8CodePointAt_def c(1))
    moreover have "\<not> accepted (map (\<lambda>i. snap_byte r (off + i)) [0..<w])"
    proof (cases "w = 0")
      case False
      then have "hd (map (\<lambda>i. snap_byte r (off + i)) [0..<w]) = snap_byte r off" by (simp add: hd_map hd_upt)
      with 5(2) show ?thesis unfolding accepted_def by linarith
    qed (simp add: accepted_def)
    ultimately show ?thesis by simp
  qed
qed

text \<open>The accepted byte lists are the encodings.\<close>

lemma accepted_iff_encoded:
  assumes "list_all (\<lambda>b. b < 256) bs"
  shows "accepted bs \<longleftrightarrow> (\<exists>cp. 0x80 \<le> cp \<and> scalar cp \<and> utf8_bytes cp = bs)"
proof
  assume a: "accepted bs"
  then have "length bs = 2 \<or> length bs = 3 \<or> length bs = 4" by (auto simp: accepted_def)
  then consider b0 b1 where "bs = [b0, b1]" | b0 b1 b2 where "bs = [b0, b1, b2]" | b0 b1 b2 b3 where "bs = [b0, b1, b2, b3]"
    by (auto simp: numeral_eq_Suc length_Suc_conv)
  then have "utf8_bytes (decoded bs) = bs \<and> 0x80 \<le> decoded bs"
  proof cases
    case 1
    with a bytes2(1,2) [of b0 b1] show ?thesis by (auto simp: accepted_def decoded_def)
  next
    case 2
    with a bytes3 [of b0 b1 b2] show ?thesis by (auto simp: accepted_def decoded_def)
  next
    case 3
    with a bytes4 [of b0 b1 b2 b3] show ?thesis by (auto simp: accepted_def decoded_def)
  qed
  with a show "\<exists>cp. 0x80 \<le> cp \<and> scalar cp \<and> utf8_bytes cp = bs" by (auto simp: accepted_def)
next
  assume "\<exists>cp. 0x80 \<le> cp \<and> scalar cp \<and> utf8_bytes cp = bs"
  then obtain cp where cp: "0x80 \<le> cp" "scalar cp" "bs = utf8_bytes cp" by blast
  let ?a = "cp div 64"
  have tail: "(128 + n mod 64) div 64 = 2" "(128 + n mod 64) mod 64 = n mod 64" for n :: nat
    using step64 [of 2 n] by simp_all
  have d: "cp div 4096 = ?a div 64" "cp div 262144 = ?a div 64 div 64"
    using div_mult2_eq [of cp 64 64] div_mult2_eq [of cp 64 4096] div_mult2_eq [of ?a 64 64] by simp_all
  have cp64: "?a * 64 + cp mod 64 = cp" "?a div 64 * 64 + ?a mod 64 = ?a" "?a div 64 div 64 * 64 + ?a div 64 mod 64 = ?a div 64"
    by (rule div_mult_mod_eq)+
  have le: "cp \<le> 0x10FFFF" using cp(2) by (simp add: scalar_def)
  consider "cp \<le> 0x7FF" | "0x800 \<le> cp" "cp \<le> 0xFFFF" | "0x10000 \<le> cp" by linarith
  then have "accepted bs \<and> decoded bs = cp"
  proof cases
    case 1
    then have r: "2 \<le> ?a" "?a < 32" using cp(1) div_le_mono [of 128 cp 64] by (simp_all add: less_mult_imp_div_less)
    then have "(192 + ?a) mod 32 = ?a" using lead_mod [of ?a 32 6] by simp
    then have "decoded bs = cp" using 1 cp64(1) by (simp add: cp(3) utf8_bytes_def decoded_def tail)
    then show ?thesis using 1 r cp(2) by (simp add: accepted_def) (simp add: cp(3) utf8_bytes_def tail)
  next
    case 2
    have r: "?a div 64 < 16" using 2(2) d(1) by (simp add: less_mult_imp_div_less)
    then have m: "(224 + ?a div 64) mod 16 = ?a div 64" using lead_mod [of "?a div 64" 16 14] by simp
    have "bs = [224 + ?a div 64, 128 + ?a mod 64, 128 + cp mod 64]" using 2 by (simp add: cp(3) utf8_bytes_def d)
    then have dec: "decoded bs = cp" by (simp only: decoded_def list.case m tail cp64)
    have "hd bs = 224 + ?a div 64" "length bs = 3" "list_all (\<lambda>b. b div 64 = 2) (tl bs)" using 2 by (simp_all add: cp(3) utf8_bytes_def tail d)
    then show ?thesis using 2(1) r cp(2) dec by (auto simp: accepted_def)
  next
    case 3
    have "cp div 262144 \<le> 0x10FFFF div 262144" by (rule div_le_mono [OF le])
    then have r: "?a div 64 div 64 \<le> 4" using d(2) by simp
    then have m: "(240 + ?a div 64 div 64) mod 8 = ?a div 64 div 64" using lead_mod [of "?a div 64 div 64" 8 30] by simp
    have "bs = [240 + ?a div 64 div 64, 128 + ?a div 64 mod 64, 128 + ?a mod 64, 128 + cp mod 64]"
      using 3 by (simp add: cp(3) utf8_bytes_def d)
    then have dec: "decoded bs = cp" by (simp only: decoded_def list.case m tail cp64)
    have "hd bs = 240 + ?a div 64 div 64" "length bs = 4" "list_all (\<lambda>b. b div 64 = 2) (tl bs)"
      using 3 by (simp_all add: cp(3) utf8_bytes_def tail d)
    then show ?thesis using 3 r cp(2) dec by (auto simp: accepted_def)
  qed
  then show "accepted bs" by blast
qed

lemma recogniser_exact:
  assumes "snap_ok r"
  shows "mrHexUtf8CodePointAt r off w0 = (True, n) \<longleftrightarrow>
    (\<exists>cp. 0x80 \<le> unat cp \<and> (\<exists>bytes. mrvmUtf8FromCodepoint cp = Inr bytes \<and> length bytes = n
       \<and> off + n \<le> length (snap_text_of r) \<and> substr (snap_text_of r) off n = bytes))" (is "?l \<longleftrightarrow> ?r")
proof -
  let ?t = "snap_text_of r" and ?bs = "map (\<lambda>i. snap_byte r (off + i)) [0..<n]"
  have bytes: "map of_char (substr ?t off n) = ?bs" if "off + n \<le> length ?t"
    using that by (intro nth_equalityI) (simp_all add: length_substr nth_substr snap_byte_def)
  have "?l \<longleftrightarrow> off + n \<le> length ?t \<and> accepted ?bs" using recogniser_accepts [OF assms] snap_length [OF assms] by simp
  also have "\<dots> \<longleftrightarrow> off + n \<le> length ?t \<and> (\<exists>cp. 0x80 \<le> cp \<and> scalar cp \<and> utf8_bytes cp = ?bs)"
    using accepted_iff_encoded [of ?bs] by (auto simp: list_all_iff snap_byte_less)
  also have "\<dots> \<longleftrightarrow> ?r"
  proof (intro iffI; (elim conjE exE)?)
    fix cp assume len: "off + n \<le> length ?t" and cp: "0x80 \<le> cp" "scalar cp" "utf8_bytes cp = ?bs"
    let ?w = "word_of_nat cp :: 32 word"
    have w: "unat ?w = cp" using cp(2) by (simp add: scalar_def unat_of_nat take_bit_nat_eq_self_iff)
    have "map char_of (utf8_bytes cp) = substr ?t off n"
      unfolding cp(3) bytes [OF len, symmetric] by (simp add: comp_def)
    then have "mrvmUtf8FromCodepoint ?w = Inr (substr ?t off n)" using encode_bytes [of ?w] w cp(1,2) by simp
    moreover have "length (substr ?t off n) = n" using len by (simp add: length_substr)
    ultimately show ?r using w cp(1) len by (intro exI [of _ ?w]) auto
  next
    fix cp bs assume a: "0x80 \<le> unat (cp :: 32 word)" "mrvmUtf8FromCodepoint cp = Inr bs" "off + n \<le> length ?t" "substr ?t off n = bs"
    then have sc: "scalar (unat cp)" "bs = map char_of (utf8_bytes (unat cp))" using encode_bytes [OF a(1)] by (auto split: if_splits)
    have "map of_char bs = utf8_bytes (unat cp)"
      using utf8_bytes_range [OF sc(1)] by (auto simp: sc(2) list_all_iff comp_def intro!: map_idI)
    then have "utf8_bytes (unat cp) = ?bs" using bytes [OF a(3)] a(4) by simp
    then show "off + n \<le> length ?t \<and> (\<exists>cp. 0x80 \<le> cp \<and> scalar cp \<and> utf8_bytes cp = ?bs)" using a(1,3) sc(1) by blast
  qed
  finally show ?thesis .
qed

end
