(* ===== verification/C_Numbers.thy ===== *)
theory C_Numbers
  imports VM_Value
begin

text \<open>
  Reading and printing integers as the C library does: \<open>strtol\<close> in base ten on 64-bit \<open>long\<close>, and the
  narrowing of a \<open>long\<close> to an \<open>int\<close>.
\<close>

definition digit_value :: "char \<Rightarrow> int" where
  "digit_value c = int (of_char c - 48)"

definition c_str :: "string \<Rightarrow> string" where
  "c_str s = takeWhile (\<lambda>c. c \<noteq> NUL) s"

definition clamp_long :: "int \<Rightarrow> int" where
  "clamp_long n = max (- (2 ^ 63)) (min n (2 ^ 63 - 1))"

text \<open>The number and what is left behind it; without a digit nothing is consumed.\<close>

definition strtol :: "string \<Rightarrow> int \<times> string" where
  "strtol s =
     (let s1 = dropWhile isspace s;
          negative = (s1 \<noteq> [] \<and> hd s1 = CHR ''-'');
          s2 = (if s1 \<noteq> [] \<and> (hd s1 = CHR ''-'' \<or> hd s1 = CHR ''+'') then tl s1 else s1);
          digits = takeWhile isdigit s2;
          n = foldl (\<lambda>acc c. acc * 10 + digit_value c) 0 digits
      in if digits = [] then (0, s) else (clamp_long (if negative then - n else n), drop (length digits) s2))"

definition narrow_int :: "int \<Rightarrow> int" where
  "narrow_int n = (n + 2 ^ 31) mod 2 ^ 32 - 2 ^ 31"

lemma digits_char: "n < 10 \<Longrightarrow> isdigit (''0123456789'' ! n) \<and> digit_value (''0123456789'' ! n) = int n"
  by (auto simp: isdigit_def digit_value_def less_Suc_eq numeral_eq_Suc nth_Cons')

lemma decimal_digits_ok:
  "list_all isdigit (decimal_digits n)" "decimal_digits n \<noteq> []" "foldl (\<lambda>acc c. acc * 10 + digit_value c) 0 (decimal_digits n) = int n"
proof (induction n rule: decimal_digits.induct)
  case (1 n)
  have d: "isdigit (''0123456789'' ! (n mod 10)) \<and> digit_value (''0123456789'' ! (n mod 10)) = int (n mod 10)"
    by (rule digits_char) simp
  {
    case 1
    then show ?case using "1.IH"(1) d digits_char by (subst decimal_digits.simps) (auto)
  next
    case 2
    then show ?case by (subst decimal_digits.simps) simp
  next
    case 3
    then show ?case using "1.IH"(3) d digits_char by (subst decimal_digits.simps) (auto simp: zdiv_int zmod_int)
  }
qed

lemma takeWhile_digits: "list_all isdigit ds \<Longrightarrow> takeWhile isdigit ds = ds"
  by (induction ds) auto

lemma strtol_print:
  assumes "- (2 ^ 63) \<le> i" "i < 2 ^ 63" shows "strtol (print_int i) = (i, [])"
proof -
  have nd: "hd (decimal_digits n) \<noteq> CHR ''-''" "hd (decimal_digits n) \<noteq> CHR ''+''" "\<not> isspace (hd (decimal_digits n))" for n
    using decimal_digits_ok(1,2) [of n] by (cases "decimal_digits n"; auto simp: isdigit_def isspace_def)+
  have c: "clamp_long i = i" using assms by (simp add: clamp_long_def)
  have dw: "dropWhile isspace (decimal_digits n) = decimal_digits n" for n
    using nd(3) [of n] decimal_digits_ok(2) [of n] by (simp add: dropWhile_eq_self_iff)
  show ?thesis
  proof (cases "i < 0")
    case True
    have "\<not> isspace (CHR ''-'')" by (simp add: isspace_def)
    then show ?thesis using True c decimal_digits_ok [of "nat (- i)"]
      by (simp add: strtol_def print_int_def takeWhile_digits Let_def)
  next
    case False
    then show ?thesis using c decimal_digits_ok [of "nat i"] nd [of "nat i"] dw
      by (simp add: strtol_def print_int_def takeWhile_digits Let_def)
  qed
qed

end
