(* ===== verification/Edit_Format.thy ===== *)
theory Edit_Format
  imports Ascii C_Numbers
begin

text \<open>
  The format line of the editor (\<open>src/config/settings/MRSettingsEditFormat.cpp\<close>): a ruler of dots with the
  margins \<open>L\<close> and \<open>R\<close> and tab stops \<open>|\<close>, how it is normalized, edited and moved, and the columns and
  indents computed from it. Columns count from one. A function that reports an error yields \<open>Inl\<close> the
  message; the optional outputs are results. All columns but one stay in the range of \<open>int\<close>: margins and
  stops are clamped to 999, and a blank only moves below a target that is itself an \<open>int\<close>. The next
  numeric tab column can exceed the range within a tab size of its end; there it wraps.
\<close>

subsection \<open>Margins\<close>

definition clampEditFormatTabSize :: "int \<Rightarrow> int" where
  "clampEditFormatTabSize tabSize = max 2 (min tabSize 32)"

definition clampEditFormatRightMargin :: "int \<Rightarrow> int" where
  "clampEditFormatRightMargin rightMargin = max 1 (min rightMargin 999)"

definition clampEditFormatLeftMargin :: "int \<Rightarrow> int \<Rightarrow> int" where
  "clampEditFormatLeftMargin leftMargin rightMargin =
     (let normalizedRightMargin = clampEditFormatRightMargin rightMargin in
      if normalizedRightMargin \<le> 1 then 1 else max 1 (min leftMargin (normalizedRightMargin - 1)))"

definition dot :: char where "dot = CHR ''.''"
definition tabStop :: char where "tabStop = CHR ''|''"

text \<open>\<open>mark i c out\<close> is the assignment \<open>out[i] = c\<close>.\<close>

abbreviation mark :: "int \<Rightarrow> char \<Rightarrow> string \<Rightarrow> string" where
  "mark i c out \<equiv> out[nat i := c]"

function defaultTabs_loop :: "int \<Rightarrow> int \<Rightarrow> int \<Rightarrow> int \<Rightarrow> string \<Rightarrow> string" where
  "defaultTabs_loop col tabSize left right out =
     (if tabSize \<le> 0 \<or> col > right then out
      else defaultTabs_loop (col + tabSize) tabSize left right (if col > left \<and> col < right then mark (col - 1) tabStop out else out))"
  by pat_completeness auto
termination by (relation "measure (\<lambda>(col, tabSize, left, right, out). nat (right + 1 - col))") auto

declare defaultTabs_loop.simps [simp del]

definition defaultEditFormatLineForTabSize :: "int \<Rightarrow> int \<Rightarrow> int \<Rightarrow> string" where
  "defaultEditFormatLineForTabSize tabSize leftMargin rightMargin =
     (let normalizedTabSize = clampEditFormatTabSize tabSize;
          right = clampEditFormatRightMargin rightMargin;
          left = clampEditFormatLeftMargin leftMargin right;
          out = replicate (nat right) dot
      in if right \<le> 1 then mark 0 (CHR ''R'') out
         else mark (right - 1) (CHR ''R'') (mark (left - 1) (CHR ''L'') (defaultTabs_loop normalizedTabSize normalizedTabSize left right out)))"

subsection \<open>Normalizing\<close>

text \<open>The scan of the symbols: the counts of \<open>L\<close> and \<open>R\<close> and where each was seen last.\<close>

fun scanSymbols_loop :: "int \<Rightarrow> string \<Rightarrow> nat \<times> nat \<times> int \<times> int \<Rightarrow> (nat \<times> nat \<times> int \<times> int) option" where
  "scanSymbols_loop i [] st = Some st"
| "scanSymbols_loop i (ch # rest) (lCount, rCount, lIndex, rIndex) =
     (if ch \<noteq> dot \<and> ch \<noteq> tabStop \<and> ch \<noteq> CHR ''L'' \<and> ch \<noteq> CHR ''R'' then None
      else scanSymbols_loop (i + 1) rest
        (if ch = CHR ''L'' then lCount + 1 else lCount, if ch = CHR ''R'' then rCount + 1 else rCount,
         if ch = CHR ''L'' then i else lIndex, if ch = CHR ''R'' then i else rIndex))"

definition normalizeEditFormatLine :: "string \<Rightarrow> int \<Rightarrow> int \<Rightarrow> int \<Rightarrow> string + string \<times> int \<times> int" where
  "normalizeEditFormatLine v tabSize fallbackLeftMargin fallbackRightMargin =
     (let right = clampEditFormatRightMargin fallbackRightMargin;
          left = clampEditFormatLeftMargin fallbackLeftMargin right
      in if list_all (\<lambda>ch. ch = CHR ''!'' \<or> ch = CHR ''-'') v
         then Inr (defaultEditFormatLineForTabSize tabSize left right, left, right)
         else
           (let out = map (\<lambda>ch. if ch = CHR '' '' then dot else ch) v in
            case scanSymbols_loop 0 out (0, 0, -1, -1) of
              None \<Rightarrow> Inl ''FORMAT_LINE may only contain '.', ' ', '|', 'L' and 'R'.''
            | Some (lCount, rCount, lIndex0, rIndex) \<Rightarrow>
                if lCount > 1 then Inl ''FORMAT_LINE must contain at most one 'L'.''
                else if rCount \<noteq> 1 then Inl ''FORMAT_LINE must contain exactly one 'R'.''
                else
                  (let lIndex = (if lCount = 0 then 0 else lIndex0) in
                   if lIndex \<ge> rIndex \<and> rIndex > 0 then Inl ''FORMAT_LINE must place 'L' before 'R'.''
                   else
                     (let out1 = take (nat (rIndex + 1)) out;
                          out2 = (if rIndex > 0 then mark lIndex (CHR ''L'') out1 else out1)
                      in Inr (mark rIndex (CHR ''R'') out2, if rIndex > 0 then lIndex + 1 else 1, rIndex + 1)))))"

definition resolvedEditFormatLineValue :: "string \<Rightarrow> int \<Rightarrow> int \<Rightarrow> int \<Rightarrow> string \<times> int \<times> int" where
  "resolvedEditFormatLineValue v tabSize leftMargin rightMargin =
     (case normalizeEditFormatLine v tabSize leftMargin rightMargin of
        Inr r \<Rightarrow> r
      | Inl e \<Rightarrow>
          (let left = clampEditFormatLeftMargin leftMargin rightMargin; right = clampEditFormatRightMargin rightMargin
           in (defaultEditFormatLineForTabSize tabSize left right, left, right)))"

subsection \<open>Editing the line\<close>

text \<open>
  The tab stops of a line are put into a line of other margins. The shift is taken from the old left
  margin before that is known: it is always the new left margin less one.
\<close>

fun copyTabs_loop :: "int \<Rightarrow> int \<Rightarrow> int \<Rightarrow> int \<Rightarrow> string \<Rightarrow> string \<Rightarrow> string" where
  "copyTabs_loop i delta left right [] out = out"
| "copyTabs_loop i delta left right (ch # rest) out =
     copyTabs_loop (i + 1) delta left right rest
       (if ch = tabStop \<and> \<not> (i + delta + 1 \<le> left \<or> i + delta + 1 \<ge> right) then mark (i + delta) tabStop out else out)"

definition synchronizeEditFormatLineMargins :: "string \<Rightarrow> int \<Rightarrow> int \<Rightarrow> int \<Rightarrow> string" where
  "synchronizeEditFormatLineMargins v leftMargin rightMargin tabSize =
     (let right = clampEditFormatRightMargin rightMargin; left = clampEditFormatLeftMargin leftMargin right;
          oldLeftMargin = 1; delta = left - oldLeftMargin
      in case normalizeEditFormatLine v tabSize left right of
           Inl e \<Rightarrow> defaultEditFormatLineForTabSize tabSize left right
         | Inr (normalized, _) \<Rightarrow>
             (let out = replicate (nat right) dot in
              if right \<le> 1 then mark 0 (CHR ''R'') out
              else copyTabs_loop 0 delta left right normalized (mark (right - 1) (CHR ''R'') (mark (left - 1) (CHR ''L'') out))))"

definition editFormatLineAtColumn :: "string \<Rightarrow> int \<Rightarrow> int \<Rightarrow> int \<Rightarrow> int \<Rightarrow> char \<Rightarrow> string + string \<times> int \<times> int" where
  "editFormatLineAtColumn v tabSize leftMargin rightMargin column symbol =
     (let normalizedSymbol = (if symbol = CHR '' '' then dot else symbol); safeColumn = max 1 (min column 999) in
      if normalizedSymbol \<noteq> dot \<and> normalizedSymbol \<noteq> tabStop \<and> normalizedSymbol \<noteq> CHR ''L'' \<and> normalizedSymbol \<noteq> CHR ''R''
      then Inl ''FORMAT_LINE editor accepts only '.', ' ', '|', 'L' and 'R'.''
      else
        (case normalizeEditFormatLine v tabSize leftMargin rightMargin of
           Inl e \<Rightarrow> Inl e
         | Inr (normalized, currentLeftMargin, currentRightMargin) \<Rightarrow>
             (let edited = normalized @ replicate (nat safeColumn - length normalized) dot;
                  finish = (\<lambda>line. normalizeEditFormatLine line tabSize currentLeftMargin currentRightMargin)
              in if normalizedSymbol = CHR ''L'' then
                   (if safeColumn \<ge> currentRightMargin then Inl ''FORMAT_LINE must place 'L' before 'R'.''
                    else finish (mark (safeColumn - 1) (CHR ''L'') (map (\<lambda>ch. if ch = CHR ''L'' then dot else ch) edited)))
                 else if normalizedSymbol = CHR ''R'' then
                   (if safeColumn \<le> currentLeftMargin then Inl ''FORMAT_LINE must place 'R' after 'L'.''
                    else finish (mark (safeColumn - 1) (CHR ''R'')
                           (take (nat safeColumn) (map (\<lambda>ch. if ch = CHR ''R'' then dot else ch) edited))))
                 else if normalizedSymbol = tabStop then
                   (if safeColumn \<le> currentLeftMargin \<or> safeColumn \<ge> currentRightMargin
                    then Inr (normalized, currentLeftMargin, currentRightMargin)
                    else finish (mark (safeColumn - 1) tabStop edited))
                 else finish (if safeColumn \<noteq> currentLeftMargin \<and> safeColumn \<noteq> currentRightMargin \<and> safeColumn \<le> int (length edited)
                              then mark (safeColumn - 1) dot edited else edited))))"

definition translateEditFormatLine :: "string \<Rightarrow> int \<Rightarrow> int \<Rightarrow> int \<Rightarrow> int \<Rightarrow> string + string \<times> int \<times> int" where
  "translateEditFormatLine v tabSize leftMargin rightMargin deltaColumns =
     (case normalizeEditFormatLine v tabSize leftMargin rightMargin of
        Inl e \<Rightarrow> Inl e
      | Inr (normalized, left, right) \<Rightarrow>
          (let delta = max (1 - left) (min deltaColumns (999 - right)) in
           if right \<le> 1 then Inr (''R'', 1, 1)
           else
             (let blank = replicate (nat (right + delta)) dot;
                  translated = mark (right + delta - 1) (CHR ''R'') (mark (left + delta - 1) (CHR ''L'') blank)
              in normalizeEditFormatLine (copyTabs_loop 0 delta (left + delta) (right + delta) normalized translated)
                   tabSize (left + delta) (right + delta))))"

subsection \<open>Columns\<close>

text \<open>
  The sum and the product are of C++ \<open>int\<close>s: where they leave its range the language promises nothing,
  and the model wraps them as the machine does.
\<close>

definition nextNumericTabFillColumn :: "int \<Rightarrow> int \<Rightarrow> int" where
  "nextNumericTabFillColumn column tabSize =
     (let t = clampEditFormatTabSize tabSize; safeColumn = max 1 column in narrow_int (((safeColumn - 1) div t + 1) * t + 1))"

text \<open>The loop from an index on: \<open>rest\<close> is the line from there.\<close>

fun nextTab_loop :: "int \<Rightarrow> string \<Rightarrow> int \<Rightarrow> int" where
  "nextTab_loop i [] safeColumn = safeColumn"
| "nextTab_loop i (ch # rest) safeColumn = (if ch = tabStop then i + 1 else nextTab_loop (i + 1) rest safeColumn)"

definition nextResolvedEditFormatTabStopColumn :: "string \<Rightarrow> int \<Rightarrow> int \<Rightarrow> int \<Rightarrow> int \<Rightarrow> int" where
  "nextResolvedEditFormatTabStopColumn v tabSize leftMargin rightMargin column =
     (let (normalized, _) = resolvedEditFormatLineValue v tabSize leftMargin rightMargin; safeColumn = max 1 column
      in nextTab_loop safeColumn (drop (nat safeColumn) normalized) safeColumn)"

text \<open>The downward loop: \<open>n\<close> counts the indices \<open>0 .. i\<close> that are left.\<close>

fun prevTab_loop :: "string \<Rightarrow> nat \<Rightarrow> int option" where
  "prevTab_loop line 0 = None"
| "prevTab_loop line (Suc i) = (if line ! i = tabStop then Some (int i + 1) else prevTab_loop line i)"

definition prevResolvedEditFormatTabStopColumn :: "string \<Rightarrow> int \<Rightarrow> int \<Rightarrow> int \<Rightarrow> int \<Rightarrow> int" where
  "prevResolvedEditFormatTabStopColumn v tabSize leftMargin rightMargin column =
     (let (normalized, left, _) = resolvedEditFormatLineValue v tabSize leftMargin rightMargin; safeColumn = max 1 column;
          i = min (max 0 (safeColumn - 2)) (int (length normalized) - 1)
      in case prevTab_loop normalized (nat (i + 1)) of
           Some c \<Rightarrow> c
         | None \<Rightarrow> if safeColumn > left then left else safeColumn)"

definition resolvedEditFormatTabDisplayColumn :: "string \<Rightarrow> int \<Rightarrow> int \<Rightarrow> int \<Rightarrow> int \<Rightarrow> int" where
  "resolvedEditFormatTabDisplayColumn v tabSize leftMargin rightMargin column =
     (let safeColumn = max 1 column;
          resolvedTabStop = nextResolvedEditFormatTabStopColumn v tabSize leftMargin rightMargin safeColumn
      in if resolvedTabStop > safeColumn then resolvedTabStop else nextNumericTabFillColumn safeColumn tabSize)"

fun indentColumn_loop :: "int \<Rightarrow> string \<Rightarrow> int \<Rightarrow> int \<Rightarrow> int" where
  "indentColumn_loop i [] preferred resolvedColumn = resolvedColumn"
| "indentColumn_loop i (ch # rest) preferred resolvedColumn =
     (if ch \<noteq> tabStop then indentColumn_loop (i + 1) rest preferred resolvedColumn
      else if i + 1 > preferred then resolvedColumn
      else indentColumn_loop (i + 1) rest preferred (i + 1))"

definition resolvedEditFormatIndentColumn :: "string \<Rightarrow> int \<Rightarrow> int \<Rightarrow> int \<Rightarrow> int \<Rightarrow> int" where
  "resolvedEditFormatIndentColumn v tabSize leftMargin rightMargin preferredColumn =
     (let (normalized, left, _) = resolvedEditFormatLineValue v tabSize leftMargin rightMargin;
          safePreferredColumn = max 1 preferredColumn
      in if safePreferredColumn \<le> left then left else indentColumn_loop 0 normalized safePreferredColumn left)"

subsection \<open>Rulers\<close>

text \<open>
  The normal form of a format line with its margins: a lone \<open>R\<close>, or dots and tab stops around one \<open>L\<close>
  with one \<open>R\<close> at the end.
\<close>

definition tabs_only :: "string \<Rightarrow> bool" where
  "tabs_only s \<longleftrightarrow> list_all (\<lambda>c. c = dot \<or> c = tabStop) s"

definition ruler :: "string \<Rightarrow> int \<Rightarrow> int \<Rightarrow> bool" where
  "ruler v l r \<longleftrightarrow> v = ''R'' \<and> l = 1 \<and> r = 1
     \<or> (\<exists>a b. tabs_only a \<and> tabs_only b \<and> v = a @ CHR ''L'' # b @ ''R'' \<and> l = int (length a) + 1 \<and> r = int (length v))"

lemma tabs_only_simps [simp]:
  "tabs_only []" "tabs_only (c # s) \<longleftrightarrow> (c = dot \<or> c = tabStop) \<and> tabs_only s" "tabs_only (s @ t) \<longleftrightarrow> tabs_only s \<and> tabs_only t"
  "tabs_only (replicate n dot)"
  by (auto simp: tabs_only_def list_all_iff)

lemma symbols [simp]:
  "dot \<noteq> tabStop" "tabStop \<noteq> dot" "CHR ''L'' \<noteq> dot" "CHR ''L'' \<noteq> tabStop" "CHR ''R'' \<noteq> dot" "CHR ''R'' \<noteq> tabStop"
  "dot \<noteq> CHR ''L''" "tabStop \<noteq> CHR ''L''" "dot \<noteq> CHR ''R''" "tabStop \<noteq> CHR ''R''" "dot \<noteq> CHR '' ''" "tabStop \<noteq> CHR '' ''" "CHR '' '' \<noteq> dot" "CHR '' '' \<noteq> tabStop"
  by (simp_all add: dot_def tabStop_def)

lemma tabs_only_update: "tabs_only s \<Longrightarrow> tabs_only (s[i := tabStop])"
  by (auto simp: tabs_only_def list_all_iff dest: set_update_subset_insert [THEN subsetD])

lemma tabs_only_take [simp]: "tabs_only s \<Longrightarrow> tabs_only (take n s)" "tabs_only s \<Longrightarrow> tabs_only (drop n s)"
  by (auto simp: tabs_only_def list_all_iff dest: in_set_takeD in_set_dropD)

lemma ruler_range: "ruler v l r \<Longrightarrow> 1 \<le> l \<and> l \<le> r \<and> r = int (length v) \<and> (r = 1 \<or> l < r)"
  by (auto simp: ruler_def)

lemma ruler_marks:
  assumes "tabs_only s" "int (length s) = r" "1 \<le> l" "l < r"
  shows "ruler (mark (r - 1) (CHR ''R'') (mark (l - 1) (CHR ''L'') s)) l r"
proof -
  define i where "i = nat (l - 1)"
  have i: "i < length s" "Suc i < length s" "l = int i + 1" using assms by (auto simp: i_def)
  have s: "s = take i s @ s ! i # drop (Suc i) s" using i(1) by (rule id_take_nth_drop)
  obtain b x where d: "drop (Suc i) s = b @ [x]" using i(2) by (metis drop_eq_Nil not_le rev_exhaust)
  have tb: "tabs_only b" using assms(1) tabs_only_take(2) [of s "Suc i"] by (simp add: d)
  have len: "length s = Suc (i + Suc (length b))" using arg_cong [OF d, of length] i(2) by simp
  have "s[i := CHR ''L''] = take i s @ CHR ''L'' # b @ [x]" using i(1) d by (simp add: upd_conv_take_nth_drop)
  moreover have "length (take i s) = i" "nat (r - 1) = i + Suc (length b)" using assms(2) len by simp_all
  ultimately have "s[i := CHR ''L'', nat (r - 1) := CHR ''R''] = take i s @ CHR ''L'' # b @ ''R''" by (simp add: list_update_append del: length_take)
  then show ?thesis using tb assms(1,2) i len unfolding ruler_def i_def [symmetric]
    by (intro disjI2 exI [of _ "take i s"] exI [of _ b]) auto
qed

lemma ruler_tab:
  assumes "ruler v l r" "l < c" "c < r"
  shows "ruler (mark (c - 1) tabStop v) l r"
proof -
  obtain a b where v: "tabs_only a" "tabs_only b" "v = a @ CHR ''L'' # b @ ''R''" "l = int (length a) + 1" "r = int (length v)"
    using assms by (auto simp: ruler_def)
  define k where "k = nat (c - 1) - Suc (length a)"
  have k: "nat (c - 1) = length a + Suc k" "k < length b" using assms(2,3) v(3-5) by (auto simp: k_def)
  then have "mark (c - 1) tabStop v = a @ CHR ''L'' # b[k := tabStop] @ ''R''" by (simp add: v(3) list_update_append)
  then show ?thesis using v tabs_only_update [OF v(2), of k] unfolding ruler_def
    by (intro disjI2 exI [of _ a] exI [of _ "b[k := tabStop]"]) auto
qed

subsection \<open>What normalizing yields\<close>

lemma scan_tabs: "tabs_only s \<Longrightarrow> scanSymbols_loop i (s @ t) st = scanSymbols_loop (i + int (length s)) t st"
  by (induction s arbitrary: i st) (auto simp: algebra_simps split: prod.split)

lemma ruler_normal:
  assumes "ruler v l r" shows "normalizeEditFormatLine v tabSize fl fr = Inr (v, l, r)"
proof -
  have sp: "map (\<lambda>ch. if ch = CHR '' '' then dot else ch) s = s" if "tabs_only s" for s
    using that by (induction s) auto
  from assms show ?thesis unfolding ruler_def
  proof (elim disjE exE conjE)
    fix a b assume a: "tabs_only a" "tabs_only b" "v = a @ CHR ''L'' # b @ ''R''" "l = int (length a) + 1" "r = int (length v)"
    show ?thesis using a(1,2) by (simp add: a(3-5) normalizeEditFormatLine_def sp scan_tabs Let_def nat_add_distrib list_update_append)
  qed (simp add: normalizeEditFormatLine_def)
qed

lemma defaultTabs_ok: "tabs_only out \<Longrightarrow> tabs_only (defaultTabs_loop col t l r out)" "length (defaultTabs_loop col t l r out) = length out"
  by (induction col t l r out rule: defaultTabs_loop.induct; subst defaultTabs_loop.simps; simp add: tabs_only_update)+

lemma clamp_margins: "1 \<le> clampEditFormatRightMargin r" "clampEditFormatRightMargin r \<le> 999" "1 \<le> clampEditFormatLeftMargin l r"
    "clampEditFormatRightMargin r = 1 \<Longrightarrow> clampEditFormatLeftMargin l r = 1"
    "clampEditFormatRightMargin r \<noteq> 1 \<Longrightarrow> clampEditFormatLeftMargin l r < clampEditFormatRightMargin r"
    "clampEditFormatRightMargin (clampEditFormatRightMargin r) = clampEditFormatRightMargin r"
    "clampEditFormatLeftMargin l (clampEditFormatRightMargin r) = clampEditFormatLeftMargin l r"
    "clampEditFormatLeftMargin (clampEditFormatLeftMargin l r) r = clampEditFormatLeftMargin l r"
  by (auto simp: clampEditFormatRightMargin_def clampEditFormatLeftMargin_def Let_def)

lemma default_ruler:
  "ruler (defaultEditFormatLineForTabSize t l r) (clampEditFormatLeftMargin l r) (clampEditFormatRightMargin r)"
proof (cases "clampEditFormatRightMargin r \<le> 1")
  case True
  then have "clampEditFormatRightMargin r = 1" using clamp_margins(1) [of r] by simp
  then show ?thesis using clamp_margins(4) by (simp add: defaultEditFormatLineForTabSize_def ruler_def Let_def)
next
  case False
  then show ?thesis unfolding defaultEditFormatLineForTabSize_def Let_def clamp_margins(7)
    by (simp, intro ruler_marks) (use clamp_margins(1) [of r] clamp_margins(3) [of l r] clamp_margins(5) [of r l] in \<open>auto simp: defaultTabs_ok\<close>)
qed

lemma default_ruler_clamped:
  "ruler (defaultEditFormatLineForTabSize t (clampEditFormatLeftMargin l r) (clampEditFormatRightMargin r))
     (clampEditFormatLeftMargin l r) (clampEditFormatRightMargin r)"
  using default_ruler [of t "clampEditFormatLeftMargin l r" "clampEditFormatRightMargin r"] by (simp add: clamp_margins(6-8))

text \<open>The scan counts the margin symbols and finds the last of each.\<close>

lemma scan_Some:
  assumes "scanSymbols_loop i s (lc0, rc0, li0, ri0) = Some (lc, rc, li, ri)"
  shows "list_all (\<lambda>c. c = dot \<or> c = tabStop \<or> c = CHR ''L'' \<or> c = CHR ''R'') s"
    "lc = lc0 + length (filter (\<lambda>c. c = CHR ''L'') s)" "rc = rc0 + length (filter (\<lambda>c. c = CHR ''R'') s)"
    "\<And>x y. s = x @ CHR ''L'' # y \<Longrightarrow> CHR ''L'' \<notin> set y \<Longrightarrow> li = i + int (length x)"
    "\<And>x y. s = x @ CHR ''R'' # y \<Longrightarrow> CHR ''R'' \<notin> set y \<Longrightarrow> ri = i + int (length x)"
    "CHR ''L'' \<notin> set s \<Longrightarrow> li = li0" "CHR ''R'' \<notin> set s \<Longrightarrow> ri = ri0"
proof -
  have main: "list_all (\<lambda>c. c = dot \<or> c = tabStop \<or> c = CHR ''L'' \<or> c = CHR ''R'') s
    \<and> lc = lc0 + length (filter (\<lambda>c. c = CHR ''L'') s) \<and> rc = rc0 + length (filter (\<lambda>c. c = CHR ''R'') s)
    \<and> (\<forall>x y. s = x @ CHR ''L'' # y \<longrightarrow> CHR ''L'' \<notin> set y \<longrightarrow> li = i + int (length x))
    \<and> (\<forall>x y. s = x @ CHR ''R'' # y \<longrightarrow> CHR ''R'' \<notin> set y \<longrightarrow> ri = i + int (length x))
    \<and> (CHR ''L'' \<notin> set s \<longrightarrow> li = li0) \<and> (CHR ''R'' \<notin> set s \<longrightarrow> ri = ri0)"
    using assms
  proof (induction i s "(lc0, rc0, li0, ri0)" arbitrary: lc0 rc0 li0 ri0 rule: scanSymbols_loop.induct)
    case (2 i ch rest lc0 rc0 li0 ri0)
    from "2.prems" have v: "ch = dot \<or> ch = tabStop \<or> ch = CHR ''L'' \<or> ch = CHR ''R''" by (auto split: if_splits)
    then have "\<not> (ch \<noteq> dot \<and> ch \<noteq> tabStop \<and> ch \<noteq> CHR ''L'' \<and> ch \<noteq> CHR ''R'')" by simp
    from "2.hyps" [OF this] "2.prems" v show ?case by (auto simp: Cons_eq_append_conv)
  qed simp
  from main show "list_all (\<lambda>c. c = dot \<or> c = tabStop \<or> c = CHR ''L'' \<or> c = CHR ''R'') s"
    "lc = lc0 + length (filter (\<lambda>c. c = CHR ''L'') s)" "rc = rc0 + length (filter (\<lambda>c. c = CHR ''R'') s)"
    "\<And>x y. s = x @ CHR ''L'' # y \<Longrightarrow> CHR ''L'' \<notin> set y \<Longrightarrow> li = i + int (length x)"
    "\<And>x y. s = x @ CHR ''R'' # y \<Longrightarrow> CHR ''R'' \<notin> set y \<Longrightarrow> ri = i + int (length x)"
    "CHR ''L'' \<notin> set s \<Longrightarrow> li = li0" "CHR ''R'' \<notin> set s \<Longrightarrow> ri = ri0"
    by blast+
qed

lemma single_symbol:
  assumes "length (filter (\<lambda>d. d = c) s) = 1"
  obtains x y where "s = x @ c # y" "c \<notin> set x" "c \<notin> set y"
proof -
  have "c \<in> set s" using assms by (metis (mono_tags, lifting) filter_False length_0_conv zero_neq_one)
  then obtain x y where s: "s = x @ c # y" "c \<notin> set x" by (metis split_list_first)
  then have "c \<notin> set y" using assms by (auto simp: filter_empty_conv)
  with s show thesis by (rule that)
qed

lemma normal_ruler:
  assumes "normalizeEditFormatLine v tabSize fl fr = Inr (w, l, r)" shows "ruler w l r"
proof (cases "list_all (\<lambda>ch. ch = CHR ''!'' \<or> ch = CHR ''-'') v")
  case True
  then show ?thesis using assms default_ruler_clamped by (auto simp: normalizeEditFormatLine_def Let_def clamp_margins)
next
  case False
  define out where "out = map (\<lambda>ch. if ch = CHR '' '' then dot else ch) v"
  obtain lc rc li ri where sc: "scanSymbols_loop 0 out (0, 0, -1, -1) = Some (lc, rc, li, ri)" and lc: "lc \<le> 1" and rc: "rc = 1"
    using assms False by (auto simp: normalizeEditFormatLine_def Let_def out_def split: option.splits if_splits)
  note sp = scan_Some [OF sc]
  have "length (filter (\<lambda>d. d = CHR ''R'') out) = 1" using sp(3) rc by simp
  then obtain x y where o: "out = x @ CHR ''R'' # y" "CHR ''R'' \<notin> set x" "CHR ''R'' \<notin> set y" by (rule single_symbol)
  have ri: "ri = int (length x)" using sp(5) [OF o(1,3)] by simp
  define lIndex where "lIndex = (if lc = 0 then 0 else li)"
  have "nat li < length x" if "li < int (length x)" "x \<noteq> []" using that by (cases x) auto
  then have res: "\<not> (lIndex \<ge> ri \<and> ri > 0)"
      "w = (if ri > 0 then mark lIndex (CHR ''L'') x @ ''R'' else ''R'')" "l = (if ri > 0 then lIndex + 1 else 1)" "r = ri + 1"
    using assms False sc lc rc
    by (auto simp: normalizeEditFormatLine_def Let_def out_def [symmetric] lIndex_def o(1) ri list_update_append nat_add_distrib split: if_splits)
  show ?thesis
  proof (cases "ri > 0")
    case False
    then show ?thesis using res ri by (simp add: ruler_def)
  next
    case pos: True
    obtain a c b where x: "x = a @ c # b" "lIndex = int (length a)" "tabs_only a" "tabs_only b"
    proof (cases "lc = 0")
      case True
      then have "CHR ''L'' \<notin> set x" using sp(2) by (auto simp: o(1) filter_empty_conv)
      then have "tabs_only x" using sp(1) o(1,2) by (auto simp: tabs_only_def list_all_iff)
      then show thesis using that [of "[]" "hd x" "tl x"] True pos ri by (cases x) (auto simp: lIndex_def)
    next
      case False
      then have "length (filter (\<lambda>d. d = CHR ''L'') out) = 1" using sp(2) lc by linarith
      then obtain a b where ab: "out = a @ CHR ''L'' # b" "CHR ''L'' \<notin> set a" "CHR ''L'' \<notin> set b" by (rule single_symbol)
      then have li: "lIndex = int (length a)" using sp(4) [OF ab(1,3)] False by (simp add: lIndex_def)
      then have "length a < length x" using res(1) pos ri by simp
      then obtain b' where x: "x = a @ CHR ''L'' # b'"
        using ab(1) o(1) by (auto simp: append_eq_append_conv2 Cons_eq_append_conv append_eq_Cons_conv)
      then have "CHR ''L'' \<notin> set b'" using ab o(1) by auto
      then have "tabs_only a" "tabs_only b'" using sp(1) o(1,2) ab(2) x by (auto simp: tabs_only_def list_all_iff)
      then show thesis using that x li by blast
    qed
    then show ?thesis using res pos ri by (auto simp: ruler_def list_update_append)
  qed
qed

lemma normalize_idem:
  "normalizeEditFormatLine v tabSize fl fr = Inr (w, l, r) \<Longrightarrow> normalizeEditFormatLine w tabSize' fl' fr' = Inr (w, l, r)"
  by (rule ruler_normal [OF normal_ruler])

lemma resolved_ruler: "resolvedEditFormatLineValue v t fl fr = (w, l, r) \<Longrightarrow> ruler w l r"
  using default_ruler_clamped [of t fl fr] normal_ruler
  by (auto simp: resolvedEditFormatLineValue_def Let_def split: sum.splits)

subsection \<open>Editing keeps rulers\<close>

lemma copyTabs_ruler: "ruler out l r \<Longrightarrow> ruler (copyTabs_loop i delta l r s out) l r"
proof (induction i delta l r s out rule: copyTabs_loop.induct)
  case (2 i delta l r ch rest out)
  have "ruler (mark (i + delta) tabStop out) l r" if "l < i + delta + 1" "i + delta + 1 < r"
    using ruler_tab [OF "2.prems" that] by simp
  then show ?case using 2 by auto
qed simp

lemma synchronize_ruler:
  "ruler (synchronizeEditFormatLineMargins v l r t) (clampEditFormatLeftMargin l r) (clampEditFormatRightMargin r)"
proof (cases "normalizeEditFormatLine v t (clampEditFormatLeftMargin l r) (clampEditFormatRightMargin r)")
  case (Inl e)
  then show ?thesis using default_ruler_clamped by (simp add: synchronizeEditFormatLineMargins_def Let_def clamp_margins)
next
  case (Inr w)
  let ?r = "clampEditFormatRightMargin r" and ?l = "clampEditFormatLeftMargin l r"
  show ?thesis
  proof (cases "?r \<le> 1")
    case True
    then have "?r = 1" using clamp_margins(1) [of r] by simp
    moreover have "clampEditFormatLeftMargin l 1 = 1" by (simp add: clampEditFormatLeftMargin_def clampEditFormatRightMargin_def)
    ultimately show ?thesis using Inr clamp_margins(4) [of r l]
      by (auto simp: synchronizeEditFormatLineMargins_def Let_def ruler_def split: prod.split)
  next
    case False
    then have "ruler (mark (?r - 1) (CHR ''R'') (mark (?l - 1) (CHR ''L'') (replicate (nat ?r) dot))) ?l ?r"
      using clamp_margins(1) [of r] clamp_margins(3) [of l r] clamp_margins(5) [of r l] by (intro ruler_marks) auto
    then show ?thesis using False Inr
      by (auto simp: synchronizeEditFormatLineMargins_def Let_def clamp_margins(7) copyTabs_ruler split: prod.split)
  qed
qed

lemma edited_ruler: "editFormatLineAtColumn v t l r column symbol = Inr (w, l', r') \<Longrightarrow> ruler w l' r'"
  by (auto simp: editFormatLineAtColumn_def Let_def split: sum.splits if_splits prod.splits dest: normal_ruler)

lemma translated_ruler: "translateEditFormatLine v t l r d = Inr (w, l', r') \<Longrightarrow> ruler w l' r'"
  by (auto simp: translateEditFormatLine_def Let_def ruler_def [of "''R''"] split: sum.splits if_splits prod.splits dest: normal_ruler)

subsection \<open>Moving a line\<close>

lemma length_copyTabs [simp]: "length (copyTabs_loop i delta l r s out) = length out"
  by (induction i delta l r s out rule: copyTabs_loop.induct) auto

lemma nth_copyTabs:
  assumes "k < length out" "0 \<le> l"
  shows "copyTabs_loop i delta l r s out ! k =
    (if l \<le> int k \<and> int k + 1 < r \<and> (\<exists>j < length s. int k = i + int j + delta \<and> s ! j = tabStop) then tabStop else out ! k)"
  using assms
proof (induction i delta l r s out rule: copyTabs_loop.induct)
  case (2 i delta l r ch rest out)
  define P where "P i s \<longleftrightarrow> (\<exists>j < length s. int k = i + int j + delta \<and> s ! j = tabStop)" for i and s :: string
  let ?out = "if ch = tabStop \<and> \<not> (i + delta + 1 \<le> l \<or> i + delta + 1 \<ge> r) then mark (i + delta) tabStop out else out"
  have step: "P i (ch # rest) \<longleftrightarrow> int k = i + delta \<and> ch = tabStop \<or> P (i + 1) rest"
    by (auto simp: P_def Ex_less_Suc2 algebra_simps)
  have IH: "copyTabs_loop (i + 1) delta l r rest ?out ! k = (if l \<le> int k \<and> int k + 1 < r \<and> P (i + 1) rest then tabStop else ?out ! k)"
    unfolding P_def using "2.prems" by (intro "2.IH") auto
  have "?out ! k = (if int k = i + delta \<and> ch = tabStop \<and> l \<le> int k \<and> int k + 1 < r then tabStop else out ! k)"
    using "2.prems" by (auto simp: nth_list_update)
  with IH show ?case unfolding copyTabs_loop.simps P_def [symmetric] step by auto
qed simp

lemma copyTabs_moved:
  assumes "tabs_only b" "int p = int (length a) + d" "q = p + Suc (length b)" "n = Suc q"
  shows "copyTabs_loop 0 d (int p + 1) (int q + 1) (a @ CHR ''L'' # b @ ''R'') ((replicate n dot)[p := CHR ''L'', q := CHR ''R''])
    = replicate p dot @ CHR ''L'' # b @ ''R''" (is "?c = ?w")
proof (rule nth_equalityI)
  have "length ?c = n" by simp
  then show "length ?c = length ?w" using assms(3,4) by simp
next
  fix k assume "k < length ?c"
  then have "k < n" by simp
  then have k: "k < Suc q" using assms(4) by simp
  let ?n = "a @ CHR ''L'' # b @ ''R''" and ?t = "(replicate n dot)[p := CHR ''L'', q := CHR ''R'']"
  have c: "?c ! k = (if int p + 1 \<le> int k \<and> int k + 1 < int q + 1 \<and> (\<exists>j < length ?n. int k = 0 + int j + d \<and> ?n ! j = tabStop) then tabStop else ?t ! k)"
    using k assms(4) by (intro nth_copyTabs) (simp_all del: replicate_Suc)
  consider "k < p" | "k = p" | m where "k = p + Suc m" "m < length b" | "k = q"
    using k assms(3) by (metis add_Suc_right less_Suc_eq linorder_neqE_nat less_imp_Suc_add nat_add_left_cancel_less not_less_eq)
  then show "?c ! k = ?w ! k"
  proof cases
    case 3
    have j: "int k = 0 + int j + d \<longleftrightarrow> j = length a + Suc m" for j using 3 assms(2) by auto
    have "?n ! (length a + Suc m) = b ! m" "?w ! k = b ! m" using 3 by (simp_all add: nth_append)
    moreover have "?t ! k = dot" using 3 k assms(3,4) by (simp add: nth_list_update del: replicate_Suc)
    moreover have "b ! m = dot \<or> b ! m = tabStop" using assms(1) 3(2) by (auto simp: tabs_only_def list_all_iff)
    ultimately show ?thesis using 3 assms(3) unfolding c j by auto
  qed (use k assms(3,4) c in \<open>simp_all add: nth_list_update nth_append nth_Cons' del: replicate_Suc\<close>)
qed

text \<open>
  Moving a line by a number of columns moves both margins and the tab stops between them; what stood left
  of the left margin is dropped.
\<close>

lemma translate_spec:
  fixes deltaColumns :: int
  assumes "normalizeEditFormatLine v t fl fr = Inr (a @ CHR ''L'' # b @ ''R'', l, r)" "tabs_only a" "tabs_only b"
    "l = int (length a) + 1" "r = l + int (length b) + 1"
  defines "d \<equiv> max (1 - l) (min deltaColumns (999 - r))"
  shows "translateEditFormatLine v t fl fr deltaColumns
    = Inr (replicate (nat (l + d - 1)) dot @ CHR ''L'' # b @ ''R'', l + d, r + d)"
proof -
  define p where "p = nat (l + d - 1)"
  define q where "q = p + Suc (length b)"
  let ?w = "replicate p dot @ CHR ''L'' # b @ ''R''"
  have pq: "l + d = int p + 1" "r + d = int q + 1" "int p = int (length a) + d" "nat (r + d) = Suc q"
    using assms(4,5) by (auto simp: p_def q_def d_def)
  have "ruler ?w (int p + 1) (int q + 1)" using assms(3) unfolding ruler_def
    by (intro disjI2 exI [of _ "replicate p dot"] exI [of _ b]) (auto simp: q_def)
  moreover have "\<not> r \<le> 1" using assms(4,5) by simp
  ultimately show ?thesis
    using assms(1) copyTabs_moved [OF assms(3) pq(3) q_def pq(4)] ruler_normal
    unfolding translateEditFormatLine_def d_def [symmetric] Let_def p_def [symmetric]
    by (simp add: d_def [symmetric] pq(1,2))
qed

text \<open>
  The shift of \<open>synchronizeEditFormatLineMargins\<close>: with the margins the line already has, its tab stop at
  column 6 moves to column 8.
\<close>

lemma synchronize_moves_tabs:
  "normalizeEditFormatLine ''..L..|...R'' 8 3 10 = Inr (''..L..|...R'', 3, 10)"
  "synchronizeEditFormatLineMargins ''..L..|...R'' 3 10 8 = ''..L....|.R''"
  by code_simp+

subsection \<open>Tab stops\<close>

lemma nextTab_spec:
  "nextTab_loop i s c = (if tabStop \<in> set s then i + int (length (takeWhile (\<lambda>ch. ch \<noteq> tabStop) s)) + 1 else c)"
  by (induction i s c rule: nextTab_loop.induct) auto

lemma nextTab_ge: "nextResolvedEditFormatTabStopColumn v t l r c \<ge> max 1 c"
  by (auto simp: nextResolvedEditFormatTabStopColumn_def nextTab_spec Let_def split: prod.split)

text \<open>Below the last 32 columns the next numeric column is in range, ahead and at most a tab size away.\<close>

lemma numeric_column_bounds:
  assumes "1 \<le> c" "c \<le> 2 ^ 31 - 33" shows "c < nextNumericTabFillColumn c t" "nextNumericTabFillColumn c t \<le> c + 32"
proof -
  define n where "n = clampEditFormatTabSize t"
  have n: "2 \<le> n" "n \<le> 32" by (auto simp: n_def clampEditFormatTabSize_def)
  then have "0 \<le> (c - 1) mod n" "(c - 1) mod n < n" "(c - 1) div n * n + (c - 1) mod n = c - 1" by simp_all
  then have "c < ((c - 1) div n + 1) * n + 1" "((c - 1) div n + 1) * n + 1 \<le> c + 32"
    using n unfolding distrib_right by linarith+
  moreover from this assms have "narrow_int (((c - 1) div n + 1) * n + 1) = ((c - 1) div n + 1) * n + 1"
    by (simp add: narrow_int_def)
  ultimately show "c < nextNumericTabFillColumn c t" "nextNumericTabFillColumn c t \<le> c + 32"
    using assms(1) by (simp_all add: nextNumericTabFillColumn_def Let_def n_def [symmetric] max_absorb2)
qed

lemma displayColumn_greater:
  assumes "1 \<le> c" "c \<le> 2 ^ 31 - 33" shows "c < resolvedEditFormatTabDisplayColumn v t l r c"
  using numeric_column_bounds(1) [OF assms, of t] assms(1) by (simp add: resolvedEditFormatTabDisplayColumn_def Let_def max_absorb2)

subsection \<open>Indenting\<close>

text \<open>The settings the indentation reads.\<close>

record MREditSetupSettings =
  es_formatLine :: string
  es_tabSize :: int
  es_leftMargin :: int
  es_rightMargin :: int

definition display_column :: "MREditSetupSettings \<Rightarrow> int \<Rightarrow> int" where
  "display_column st = resolvedEditFormatTabDisplayColumn (es_formatLine st) (es_tabSize st) (es_leftMargin st) (es_rightMargin st)"

text \<open>The loop returns \<open>Some\<close> what it has pushed to \<open>out\<close>; it is \<open>None\<close> where it does not end.\<close>

partial_function (option) indentFill_loop :: "MREditSetupSettings \<Rightarrow> bool \<Rightarrow> int \<Rightarrow> int \<Rightarrow> string \<Rightarrow> string option" where
  "indentFill_loop st preferTabs currentColumn target out =
     (if currentColumn < target then
        (let nextTabColumn = display_column st currentColumn in
         if preferTabs \<and> nextTabColumn \<le> target then indentFill_loop st preferTabs nextTabColumn target (out @ [CHR 0x09])
         else indentFill_loop st preferTabs (currentColumn + 1) target (out @ '' ''))
      else Some out)"

definition buildEditIndentFill :: "MREditSetupSettings \<Rightarrow> int \<Rightarrow> int \<Rightarrow> bool \<Rightarrow> string option" where
  "buildEditIndentFill st startColumn targetColumn preferTabs =
     (let currentColumn = max 1 startColumn in indentFill_loop st preferTabs currentColumn (max currentColumn targetColumn) [])"

text \<open>The column a run of blanks and tabs ends in, when a tab goes to the column the editor displays it to.\<close>

fun column_after :: "MREditSetupSettings \<Rightarrow> int \<Rightarrow> string \<Rightarrow> int" where
  "column_after st c [] = c"
| "column_after st c (ch # s) = column_after st (if ch = CHR 0x09 then display_column st c else c + 1) s"

text \<open>The columns below a target in range only grow, so the loop ends, and what it pushes leads to the target.\<close>

lemma indentFill_reaches:
  assumes "1 \<le> c" "c \<le> target" "target \<le> 2 ^ 31 - 32"
  shows "\<exists>fill. indentFill_loop st tabs c target out = Some (out @ fill) \<and> column_after st c fill = target
    \<and> set fill \<subseteq> (if tabs then {CHR 0x09, CHR '' ''} else {CHR '' ''})"
  using assms(1,2)
proof (induction "nat (target - c)" arbitrary: c out rule: less_induct)
  case (less c out)
  show ?case
  proof (cases "c < target")
    case False
    then show ?thesis using less.prems by (subst indentFill_loop.simps) simp
  next
    case True
    then have greater: "c < display_column st c"
      using less.prems assms(3) by (auto simp: display_column_def intro!: displayColumn_greater)
    show ?thesis
    proof (cases "tabs \<and> display_column st c \<le> target")
      case tab: True
      then obtain fill where "indentFill_loop st tabs (display_column st c) target (out @ [CHR 0x09]) = Some ((out @ [CHR 0x09]) @ fill)"
          "column_after st (display_column st c) fill = target" "set fill \<subseteq> {CHR 0x09, CHR '' ''}"
        using less.hyps [of "display_column st c" "out @ [CHR 0x09]"] less.prems greater by auto
      with True tab show ?thesis by (subst indentFill_loop.simps) (intro exI [of _ "CHR 0x09 # fill"], simp)
    next
      case blank: False
      obtain fill where "indentFill_loop st tabs (c + 1) target (out @ '' '') = Some ((out @ '' '') @ fill)"
          "column_after st (c + 1) fill = target" "set fill \<subseteq> (if tabs then {CHR 0x09, CHR '' ''} else {CHR '' ''})"
        using less.hyps [of "c + 1" "out @ '' ''"] less.prems True by auto
      with True blank show ?thesis
        by (subst indentFill_loop.simps) (intro exI [of _ "CHR '' '' # fill"], auto simp: Let_def)
    qed
  qed
qed

lemma column_after_blanks: "column_after st c (replicate n (CHR '' '')) = c + int n"
  by (induction n arbitrary: c) auto

lemma indentFill_exact:
  assumes "targetColumn \<le> 2 ^ 31 - 32"
  shows "\<exists>fill. buildEditIndentFill st startColumn targetColumn tabs = Some fill
      \<and> column_after st (max 1 startColumn) fill = max (max 1 startColumn) targetColumn
      \<and> set fill \<subseteq> (if tabs then {CHR 0x09, CHR '' ''} else {CHR '' ''})"
proof (cases "max 1 startColumn < targetColumn")
  case True
  then show ?thesis using indentFill_reaches [of "max 1 startColumn" targetColumn st tabs "[]"] assms
    by (simp add: buildEditIndentFill_def Let_def max_absorb2)
next
  case False
  then have m: "max (max 1 startColumn) targetColumn = max 1 startColumn" by linarith
  have "indentFill_loop st tabs (max 1 startColumn) (max 1 startColumn) [] = Some []" by (subst indentFill_loop.simps) simp
  then show ?thesis by (simp add: buildEditIndentFill_def Let_def m)
qed

lemma indentFill_blanks:
  assumes "targetColumn \<le> 2 ^ 31 - 32"
  shows "buildEditIndentFill st startColumn targetColumn False = Some (replicate (nat (targetColumn - max 1 startColumn)) (CHR '' ''))"
proof -
  obtain fill where f: "buildEditIndentFill st startColumn targetColumn False = Some fill"
      "column_after st (max 1 startColumn) fill = max (max 1 startColumn) targetColumn" "set fill \<subseteq> {CHR '' ''}"
    using indentFill_exact [OF assms, of st startColumn False] by auto
  then have rep: "fill = replicate (length fill) (CHR '' '')" by (metis replicate_length_same subsetD singletonD)
  have "max 1 startColumn + int (length fill) = max (max 1 startColumn) targetColumn"
    using f(2) column_after_blanks [of st "max 1 startColumn" "length fill"] rep by metis
  then have "length fill = nat (targetColumn - max 1 startColumn)" by linarith
  with f(1) rep show ?thesis by metis
qed

text \<open>
  At the very end of the range the loop need not end: without tab stops in the format line, the tab that
  would pass the last column wraps to the front and the columns are run through again.
\<close>

definition wrapping_settings :: MREditSetupSettings where
  "wrapping_settings = \<lparr>es_formatLine = ''R'', es_tabSize = 8, es_leftMargin = 1, es_rightMargin = 1\<rparr>"

definition wrapping_column :: "int \<Rightarrow> bool" where
  "wrapping_column c \<longleftrightarrow> c \<le> 0 \<or> (c - 1) mod 8 = 0"

lemma wrapping_display: "display_column wrapping_settings c = nextNumericTabFillColumn (max 1 c) 8"
proof -
  have r: "resolvedEditFormatLineValue ''R'' 8 1 1 = (''R'', 1, 1)" by code_simp
  have "drop (nat (max 1 c)) ''R'' = []" by simp
  then show ?thesis
    by (simp add: display_column_def wrapping_settings_def resolvedEditFormatTabDisplayColumn_def
        nextResolvedEditFormatTabStopColumn_def r Let_def del: drop_eq_Nil)
qed

lemma wrapping_step:
  assumes "wrapping_column c" "c < 2 ^ 31 - 1"
  shows "wrapping_column (display_column wrapping_settings c)" "display_column wrapping_settings c < 2 ^ 31 - 1"
proof -
  have t: "clampEditFormatTabSize 8 = 8" by (simp add: clampEditFormatTabSize_def)
  have "(max 1 c - 1) mod 8 = 0" using assms(1) by (auto simp: wrapping_column_def max_def)
  then obtain k where k: "max 1 c = 8 * k + 1" by (metis dvdE mod_0_imp_dvd diff_add_cancel)
  then have "0 \<le> k" by linarith
  moreover have "8 * k + 1 < 2 ^ 31 - 1" using assms(2) unfolding k [symmetric] by simp
  moreover have d: "display_column wrapping_settings c = narrow_int (8 * k + 9)"
    unfolding wrapping_display k nextNumericTabFillColumn_def Let_def t using \<open>0 \<le> k\<close> by (simp add: max_absorb2 add.commute mult.commute)
  moreover have "k \<le> 268435454 \<or> k = 268435455" using \<open>8 * k + 1 < 2 ^ 31 - 1\<close> by simp presburger
  ultimately consider "8 * k + 9 < 2 ^ 31 - 1" "display_column wrapping_settings c = 8 * k + 9"
    | "display_column wrapping_settings c \<le> 0"
    by (elim disjE) (auto simp: narrow_int_def)
  then show "wrapping_column (display_column wrapping_settings c)" "display_column wrapping_settings c < 2 ^ 31 - 1"
    by (cases; simp add: wrapping_column_def)+
qed

lemma indentFill_wraps_aux:
  assumes "indentFill_loop st tabs c target out = Some fill"
  shows "\<not> (st = wrapping_settings \<and> tabs \<and> target = 2 ^ 31 - 1 \<and> wrapping_column c \<and> c < 2 ^ 31 - 1)"
proof (rule indentFill_loop.raw_induct [where P = "\<lambda>st tabs c target out fill.
    \<not> (st = wrapping_settings \<and> tabs \<and> target = 2 ^ 31 - 1 \<and> wrapping_column c \<and> c < 2 ^ 31 - 1)", OF _ assms], rule notI)
  fix loop st tabs c target out fill
  assume IH: "\<And>st tabs c target out fill. loop st tabs c target out = Some fill \<Longrightarrow>
      \<not> (st = wrapping_settings \<and> tabs \<and> target = 2 ^ 31 - 1 \<and> wrapping_column c \<and> c < 2 ^ 31 - 1)"
    and body: "(if c < target then
        (let nextTabColumn = display_column st c in
         if tabs \<and> nextTabColumn \<le> target then loop st tabs nextTabColumn target (out @ [CHR 0x09])
         else loop st tabs (c + 1) target (out @ '' ''))
      else Some out) = Some fill"
    and a: "st = wrapping_settings \<and> tabs \<and> target = 2 ^ 31 - 1 \<and> wrapping_column c \<and> c < 2 ^ 31 - 1"
  then have "loop st tabs (display_column st c) target (out @ [CHR 0x09]) = Some fill"
    using wrapping_step [of c] by (auto simp: Let_def split: if_splits)
  with IH wrapping_step [of c] a show False by blast
qed

lemma indentFill_wraps:
  "startColumn \<le> 1 \<Longrightarrow> buildEditIndentFill wrapping_settings startColumn (2 ^ 31 - 1) True = None"
  using indentFill_wraps_aux [of wrapping_settings True 1 "2 ^ 31 - 1" "[]"]
  by (cases "indentFill_loop wrapping_settings True 1 (2 ^ 31 - 1) []") (auto simp: buildEditIndentFill_def wrapping_column_def Let_def)

end
