(* ===== verification/Text_Formatting.thy ===== *)
theory Text_Formatting
  imports Edit_Format
begin

text \<open>
  Formatting and justifying a paragraph (\<open>src/ui/MRFileEditor/MRTextFormatting.cpp\<close>) and the margins the
  editor takes from its settings. The specification of both is a greedy wrapping of the words; the text
  they give has the words of the paragraph, in lines that keep the margins.
\<close>

subsection \<open>Margins\<close>

record NormalizedFormatLine =
  nf_line :: string
  nf_leftMargin :: int
  nf_rightMargin :: int

definition normalizedFormatLine :: "MREditSetupSettings \<Rightarrow> NormalizedFormatLine" where
  "normalizedFormatLine st =
     (case normalizeEditFormatLine (es_formatLine st) (es_tabSize st) (es_leftMargin st) (es_rightMargin st) of
        Inr (line, left, right) \<Rightarrow> \<lparr>nf_line = line, nf_leftMargin = left, nf_rightMargin = right\<rparr>
      | Inl e \<Rightarrow> \<lparr>nf_line = defaultEditFormatLineForTabSize (es_tabSize st) (es_leftMargin st) (es_rightMargin st),
                  nf_leftMargin = es_leftMargin st, nf_rightMargin = es_rightMargin st\<rparr>)"

definition effectiveMargins :: "MREditSetupSettings \<Rightarrow> int \<times> int" where
  "effectiveMargins st =
     (case normalizeEditFormatLine (es_formatLine st) (es_tabSize st) (es_leftMargin st) (es_rightMargin st) of
        Inr (line, left, right) \<Rightarrow> (left, right)
      | Inl e \<Rightarrow>
          (let left = max 1 (es_leftMargin st)
           in (left, max left (if es_rightMargin st > 0 then es_rightMargin st else 78))))"

subsection \<open>Words\<close>

fun splitWords_loop :: "string \<Rightarrow> string list \<Rightarrow> string \<Rightarrow> string list" where
  "splitWords_loop currentWord words [] = (if currentWord \<noteq> [] then words @ [currentWord] else words)"
| "splitWords_loop currentWord words (c # rest) =
     (if isspace c then splitWords_loop [] (if currentWord \<noteq> [] then words @ [currentWord] else words) rest
      else splitWords_loop (currentWord @ [c]) words rest)"

definition splitWords :: "string \<Rightarrow> string list" where
  "splitWords t = splitWords_loop [] [] t"

subsection \<open>Formatting\<close>

definition safeLeftMargin :: "int \<Rightarrow> int" where
  "safeLeftMargin leftMargin = max 1 leftMargin"

definition indentWidth :: "int \<Rightarrow> nat" where
  "indentWidth leftMargin = nat (safeLeftMargin leftMargin - 1)"

definition contentWidth :: "int \<Rightarrow> int \<Rightarrow> nat" where
  "contentWidth leftMargin rightMargin =
     (let left = safeLeftMargin leftMargin; right = max left rightMargin in nat (max 1 (right - left + 1)))"

definition emitLine :: "nat \<Rightarrow> string \<Rightarrow> string \<Rightarrow> string" where
  "emitLine indent formattedText line =
     (if formattedText \<noteq> [] then formattedText @ [LF] else formattedText) @ replicate indent (CHR '' '') @ line"

fun format_loop :: "nat \<Rightarrow> nat \<Rightarrow> string \<Rightarrow> string \<Rightarrow> nat \<Rightarrow> string list \<Rightarrow> string \<times> string" where
  "format_loop indent width formattedText currentLine currentLineLength [] = (formattedText, currentLine)"
| "format_loop indent width formattedText currentLine currentLineLength (word # words) =
     (let projectedLength = (if currentLine = [] then length word else currentLineLength + 1 + length word) in
      if currentLine \<noteq> [] \<and> projectedLength > width
      then format_loop indent width (emitLine indent formattedText currentLine) word (length word) words
      else
        (let (line1, length1) = (if currentLine \<noteq> [] then (currentLine @ '' '', currentLineLength + 1) else (currentLine, currentLineLength))
         in format_loop indent width formattedText (line1 @ word) (length1 + length word) words))"

definition formatParagraphText :: "string \<Rightarrow> int \<Rightarrow> int \<Rightarrow> string" where
  "formatParagraphText paragraphText leftMargin rightMargin =
     (let indent = indentWidth leftMargin; words = splitWords paragraphText in
      if words = [] then []
      else
        (let (formattedText, currentLine) = format_loop indent (contentWidth leftMargin rightMargin) [] [] 0 words
         in if currentLine \<noteq> [] then emitLine indent formattedText currentLine else formattedText))"

subsection \<open>Justifying\<close>

fun wrap_loop :: "nat \<Rightarrow> string list list \<Rightarrow> string list \<Rightarrow> nat \<Rightarrow> string list \<Rightarrow> string list list" where
  "wrap_loop width lines currentLineWords currentLineLength [] =
     (if currentLineWords \<noteq> [] then lines @ [currentLineWords] else lines)"
| "wrap_loop width lines currentLineWords currentLineLength (word # words) =
     (let projectedLength = (if currentLineWords = [] then length word else currentLineLength + 1 + length word);
          (lines1, words1, length1) =
            (if currentLineWords \<noteq> [] \<and> projectedLength > width then (lines @ [currentLineWords], [], 0)
             else (lines, currentLineWords, currentLineLength));
          length2 = (if words1 \<noteq> [] then length1 + 1 else length1)
      in wrap_loop width lines1 (words1 @ [word]) (length2 + length word) words)"

text \<open>The words of a line, with \<open>gap i\<close> blanks before the word \<open>i\<close>, \<open>i \<noteq> 0\<close>.\<close>

fun joinWords_loop :: "(nat \<Rightarrow> nat) \<Rightarrow> nat \<Rightarrow> string list \<Rightarrow> string" where
  "joinWords_loop gap i [] = []"
| "joinWords_loop gap i (w # ws) = (if i \<noteq> 0 then replicate (gap i) (CHR '' '') else []) @ w @ joinWords_loop gap (i + 1) ws"

definition justifyLine :: "nat \<Rightarrow> nat \<Rightarrow> bool \<Rightarrow> string list \<Rightarrow> string" where
  "justifyLine indent width lastLine line =
     replicate indent (CHR '' '') @
       (let wordsLength = sum_list (map length line) in
        if lastLine \<or> length line = 1 then joinWords_loop (\<lambda>i. 1) 0 line
        else
          (let gapCount = length line - 1;
               totalSpaces = (if width > wordsLength then width - wordsLength else gapCount);
               baseGap = totalSpaces div gapCount;
               extraGap = totalSpaces mod gapCount
           in joinWords_loop (\<lambda>i. baseGap + (if i \<le> extraGap then 1 else 0)) 0 line))"

fun justify_loop :: "nat \<Rightarrow> nat \<Rightarrow> string \<Rightarrow> string list list \<Rightarrow> string" where
  "justify_loop indent width justifiedText [] = justifiedText"
| "justify_loop indent width justifiedText (line # rest) =
     justify_loop indent width
       ((if justifiedText \<noteq> [] then justifiedText @ [LF] else justifiedText) @ justifyLine indent width (rest = []) line) rest"

definition justifyParagraphText :: "string \<Rightarrow> int \<Rightarrow> int \<Rightarrow> string" where
  "justifyParagraphText paragraphText leftMargin rightMargin =
     (let words = splitWords paragraphText; width = contentWidth leftMargin rightMargin in
      if words = [] then [] else justify_loop (indentWidth leftMargin) width [] (wrap_loop width [] [] 0 words))"

subsection \<open>The words of a text\<close>

lemma split_acc: "splitWords_loop w ws t = ws @ splitWords_loop w [] t"
proof (induction t arbitrary: w ws)
  case (Cons c t)
  from Cons.IH [of "[]" "ws @ [w]"] Cons.IH [of "[]" "[w]"] Cons.IH [of "w @ [c]" ws] Cons.IH [of "[]" ws] show ?case by simp
qed simp

definition word_ok :: "string \<Rightarrow> bool" where
  "word_ok w \<longleftrightarrow> w \<noteq> [] \<and> list_all (\<lambda>c. \<not> isspace c) w"

lemma words_Nil [simp]: "splitWords [] = []"
  by (simp add: splitWords_def)

lemma words_space [simp]: "isspace c \<Longrightarrow> splitWords (c # t) = splitWords t"
  by (simp add: splitWords_def)

lemma words_spaces [simp]: "splitWords (replicate n (CHR '' '') @ t) = splitWords t"
  by (induction n) (simp_all add: isspace_def)

lemma words_word:
  assumes "word_ok w" "t = [] \<or> isspace (hd t)"
  shows "splitWords (w @ t) = w # splitWords t"
proof -
  have "splitWords_loop u [] (w @ t) = splitWords_loop (u @ w) [] t" if "list_all (\<lambda>c. \<not> isspace c) w" for u
    using that by (induction w arbitrary: u) auto
  moreover have "splitWords_loop w [] t = w # splitWords_loop [] [] t"
    using assms by (cases t) (auto simp: word_ok_def split_acc [of "[]" "[w]"])
  ultimately show ?thesis using assms(1) by (simp add: splitWords_def word_ok_def)
qed

lemma splitWords_ok: "list_all word_ok (splitWords t)"
proof -
  have "list_all (\<lambda>c. \<not> isspace c) w \<Longrightarrow> list_all word_ok ws \<Longrightarrow> list_all word_ok (splitWords_loop w ws t)" for w ws
    by (induction w ws t rule: splitWords_loop.induct) (auto simp: word_ok_def)
  then show ?thesis by (simp add: splitWords_def)
qed

subsection \<open>Lines of words\<close>

lemma join_snoc:
  "joinWords_loop gap i (ws @ [w]) = joinWords_loop gap i ws @ (if i + length ws \<noteq> 0 then replicate (gap (i + length ws)) (CHR '' '') else []) @ w"
  by (induction ws arbitrary: i) auto

lemma join_Nil_iff: "list_all word_ok ws \<Longrightarrow> joinWords_loop gap 0 ws = [] \<longleftrightarrow> ws = []"
  by (cases ws) (auto simp: word_ok_def)

lemma words_join_later:
  assumes "list_all word_ok ws" "\<And>j. j < length ws \<Longrightarrow> 1 \<le> gap (i + j)" "0 < i" "t = [] \<or> isspace (hd t)"
  shows "splitWords (joinWords_loop gap i ws @ t) = ws @ splitWords t \<and> (joinWords_loop gap i ws @ t = [] \<or> isspace (hd (joinWords_loop gap i ws @ t)))"
  using assms
proof (induction ws arbitrary: i)
  case (Cons w ws)
  have g: "1 \<le> gap (Suc i + j)" if "j < length ws" for j using Cons.prems(2) [of "Suc j"] that by simp
  obtain n where n: "gap i = Suc n" using Cons.prems(2) [of 0] by (cases "gap i") auto
  have IH: "splitWords (joinWords_loop gap (Suc i) ws @ t) = ws @ splitWords t"
      "joinWords_loop gap (Suc i) ws @ t = [] \<or> isspace (hd (joinWords_loop gap (Suc i) ws @ t))"
    using Cons.IH [of "Suc i"] Cons.prems g by auto
  then have "splitWords (w @ joinWords_loop gap (Suc i) ws @ t) = w # ws @ splitWords t"
    using words_word [of w "joinWords_loop gap (Suc i) ws @ t"] Cons.prems(1) by simp
  then have "splitWords (replicate (gap i) (CHR '' '') @ w @ joinWords_loop gap (Suc i) ws @ t) = w # ws @ splitWords t"
    by simp
  then show ?case using Cons.prems(3) by (simp add: n isspace_def)
qed simp

lemma words_join:
  assumes "list_all word_ok ws" "ws \<noteq> []" "\<And>j. 0 < j \<Longrightarrow> j < length ws \<Longrightarrow> 1 \<le> gap j" "t = [] \<or> isspace (hd t)"
  shows "splitWords (joinWords_loop gap 0 ws @ t) = ws @ splitWords t"
proof -
  obtain w ws' where ws: "ws = w # ws'" using assms(2) by (cases ws) auto
  have "splitWords (joinWords_loop gap 1 ws' @ t) = ws' @ splitWords t
      \<and> (joinWords_loop gap 1 ws' @ t = [] \<or> isspace (hd (joinWords_loop gap 1 ws' @ t)))"
    using assms by (intro words_join_later) (auto simp: ws)
  then show ?thesis using words_word [of w "joinWords_loop gap 1 ws' @ t"] assms(1) by (simp add: ws)
qed

lemma join_length:
  "length (joinWords_loop gap 0 (w # ws)) = sum_list (map length (w # ws)) + (\<Sum>j<length ws. gap (Suc j))"
proof -
  have "0 < i \<Longrightarrow> length (joinWords_loop gap i ws) = sum_list (map length ws) + (\<Sum>j<length ws. gap (i + j))" for i
  proof (induction ws arbitrary: i)
    case (Cons w ws)
    then show ?case by (simp add: sum.lessThan_Suc_shift del: sum.lessThan_Suc)
  qed simp
  from this [of 1] show ?thesis by simp
qed

fun joinLines :: "string list \<Rightarrow> string" where
  "joinLines [] = []"
| "joinLines [l] = l"
| "joinLines (l # ls) = l @ LF # joinLines ls"

lemma joinLines_snoc: "joinLines (ls @ [l]) = (if ls = [] then l else joinLines ls @ LF # l)"
  by (induction ls rule: joinLines.induct) auto

lemma joinLines_Nil_iff: "list_all (\<lambda>l. l \<noteq> []) ls \<Longrightarrow> joinLines ls = [] \<longleftrightarrow> ls = []"
  by (induction ls rule: joinLines.induct) auto

lemma joinLines_step:
  "list_all (\<lambda>l. l \<noteq> []) ls \<Longrightarrow> (if joinLines ls \<noteq> [] then joinLines ls @ [LF] else joinLines ls) @ l = joinLines (ls @ [l])"
  by (simp add: joinLines_snoc joinLines_Nil_iff)

subsection \<open>Wrapping\<close>

definition line_length :: "string list \<Rightarrow> nat" where
  "line_length ws = sum_list (map length ws) + (length ws - 1)"

text \<open>Each line fits or is a single word, and the first word of the next line would not have fitted.\<close>

definition wrapped :: "nat \<Rightarrow> string list list \<Rightarrow> bool" where
  "wrapped width lines \<longleftrightarrow> list_all (\<lambda>l. l \<noteq> [] \<and> (line_length l \<le> width \<or> length l = 1)) lines
     \<and> successively (\<lambda>l m. line_length l + 1 + length (hd m) > width) lines"

lemma wrapped_new: "wrapped width (lines @ [l]) \<Longrightarrow> line_length l + 1 + length w > width \<Longrightarrow> wrapped width ((lines @ [l]) @ [[w]])"
  by (auto simp: wrapped_def successively_append_iff)

lemma line_length_snoc: "l \<noteq> [] \<Longrightarrow> line_length (l @ [w]) = line_length l + 1 + length w"
  by (cases l) (simp_all add: line_length_def)

lemma wrapped_more:
  "wrapped width (lines @ [l]) \<Longrightarrow> l \<noteq> [] \<Longrightarrow> line_length l + 1 + length w \<le> width \<Longrightarrow> wrapped width (lines @ [l @ [w]])"
  by (auto simp: wrapped_def successively_append_iff line_length_snoc)

lemma wrap_loop_spec:
  assumes "cur = [] \<and> lines = [] \<and> len = 0 \<or> cur \<noteq> [] \<and> len = line_length cur \<and> wrapped width (lines @ [cur])"
  shows "wrapped width (wrap_loop width lines cur len ws) \<and> concat (wrap_loop width lines cur len ws) = concat lines @ cur @ ws"
  using assms
proof (induction ws arbitrary: lines cur len)
  case Nil
  then show ?case by (auto simp: wrapped_def)
next
  case (Cons w ws)
  have single: "wrapped width [[w]]" by (simp add: wrapped_def)
  show ?case
  proof (cases "cur \<noteq> []")
    case False
    then show ?thesis using Cons.IH [of "[w]" "[]" "length w"] Cons.prems single by (simp add: line_length_def)
  next
    case True
    then have p: "len = line_length cur" "wrapped width (lines @ [cur])" using Cons.prems by auto
    show ?thesis
    proof (cases "len + 1 + length w > width")
      case big: True
      then show ?thesis using Cons.IH [of "[w]" "lines @ [cur]" "length w"] wrapped_new [OF p(2)] p(1) True
        by (simp add: line_length_def)
    next
      case False
      then show ?thesis using Cons.IH [of "cur @ [w]" lines "len + 1 + length w"] wrapped_more [OF p(2) True] p(1) True
        by (simp add: line_length_snoc)
    qed
  qed
qed

definition wrap :: "nat \<Rightarrow> string \<Rightarrow> string list list" where
  "wrap width t = wrap_loop width [] [] 0 (splitWords t)"

lemma wrap_spec: "wrapped width (wrap width t)" "concat (wrap width t) = splitWords t"
  using wrap_loop_spec [of "[]" "[]" 0 width "splitWords t"] by (simp_all add: wrap_def)

lemma wrap_words: "l \<in> set (wrap width t) \<Longrightarrow> l \<noteq> [] \<and> list_all word_ok l"
  using wrap_spec [of width t] splitWords_ok [of t] by (auto simp: wrapped_def list_all_iff simp flip: wrap_spec(2) [of width t])

subsection \<open>Formatting is wrapping\<close>

definition plainLine :: "nat \<Rightarrow> string list \<Rightarrow> string" where
  "plainLine indent ws = replicate indent (CHR '' '') @ joinWords_loop (\<lambda>i. 1) 0 ws"

lemma plainLine_nonempty: "list_all word_ok l \<Longrightarrow> l \<noteq> [] \<Longrightarrow> plainLine indent l \<noteq> []"
  by (simp add: plainLine_def join_Nil_iff)

lemma plainLines_nonempty:
  "list_all (\<lambda>l. l \<noteq> []) lines \<Longrightarrow> list_all word_ok (concat lines) \<Longrightarrow> list_all (\<lambda>l. l \<noteq> []) (map (plainLine indent) lines)"
  by (induction lines) (simp_all add: plainLine_nonempty)

lemma emit_plain:
  assumes "list_all (\<lambda>l. l \<noteq> []) (map (plainLine indent) lines)"
  shows "emitLine indent (joinLines (map (plainLine indent) lines)) (joinWords_loop (\<lambda>i. 1) 0 cur)
    = joinLines (map (plainLine indent) (lines @ [cur]))"
  unfolding emitLine_def plainLine_def [of indent cur, symmetric] using joinLines_step [OF assms] by simp

lemma format_loop_wrap:
  assumes "cur \<noteq> []" "list_all word_ok (concat lines @ cur @ ws)" "list_all (\<lambda>l. l \<noteq> []) lines" "len = line_length cur"
  shows "(let (text, line) = format_loop indent width (joinLines (map (plainLine indent) lines)) (joinWords_loop (\<lambda>i. 1) 0 cur) len ws
     in if line \<noteq> [] then emitLine indent text line else text)
    = joinLines (map (plainLine indent) (wrap_loop width lines cur len ws))"
  using assms
proof (induction ws arbitrary: lines cur len)
  case Nil
  have ne: "list_all (\<lambda>l. l \<noteq> []) (map (plainLine indent) lines)"
    by (rule plainLines_nonempty) (use Nil.prems in simp_all)
  show ?case using emit_plain [OF ne, of cur] Nil.prems by (simp add: join_Nil_iff)
next
  case (Cons w ws)
  have ne: "list_all (\<lambda>l. l \<noteq> []) (map (plainLine indent) lines)"
    by (rule plainLines_nonempty) (use Cons.prems in simp_all)
  have c: "joinWords_loop (\<lambda>i. 1) 0 cur \<noteq> []" using Cons.prems by (simp add: join_Nil_iff)
  show ?case
  proof (cases "len + 1 + length w > width")
    case True
    have "emitLine indent (joinLines (map (plainLine indent) lines)) (joinWords_loop (\<lambda>i. 1) 0 cur)
        = joinLines (map (plainLine indent) (lines @ [cur]))"
      by (rule emit_plain [OF ne])
    moreover have "joinWords_loop (\<lambda>i. 1) 0 [w] = w" "line_length [w] = length w" by (simp_all add: line_length_def)
    ultimately show ?thesis using Cons.IH [of "[w]" "lines @ [cur]" "length w"] Cons.prems True c by simp
  next
    case False
    have "joinWords_loop (\<lambda>i. 1) 0 (cur @ [w]) = joinWords_loop (\<lambda>i. 1) 0 cur @ '' '' @ w"
      using Cons.prems(1) by (simp add: join_snoc)
    then show ?thesis using Cons.IH [of "cur @ [w]" lines "len + 1 + length w"] Cons.prems False c
      by (simp add: line_length_snoc)
  qed
qed

lemma format_wrap:
  "formatParagraphText t l r = joinLines (map (plainLine (indentWidth l)) (wrap (contentWidth l r) t))"
proof (cases "splitWords t")
  case Nil
  then show ?thesis by (simp add: formatParagraphText_def wrap_def)
next
  case (Cons w ws)
  have w: "list_all word_ok (w # ws)" using splitWords_ok [of t] by (simp add: Cons)
  have "joinWords_loop (\<lambda>i. 1) 0 [w] = w" "line_length [w] = length w" by (simp_all add: line_length_def)
  then show ?thesis using format_loop_wrap [of "[w]" "[]" ws "length w" "indentWidth l" "contentWidth l r"] w Cons
    by (simp add: formatParagraphText_def wrap_def Let_def)
qed

subsection \<open>Justifying is wrapping with wider gaps\<close>

fun justifiedLines :: "nat \<Rightarrow> nat \<Rightarrow> string list list \<Rightarrow> string list" where
  "justifiedLines indent width [] = []"
| "justifiedLines indent width (l # ls) = justifyLine indent width (ls = []) l # justifiedLines indent width ls"

lemma gap_sum:
  assumes "0 < g"
  shows "(\<Sum>j<g. spaces div g + (if Suc j \<le> spaces mod g then 1 else 0)) = (spaces :: nat)"
proof -
  have "(\<Sum>j<n. (if Suc j \<le> e then 1 else 0)) = min e n" for n e :: nat by (induction n) auto
  then have "(\<Sum>j<g. (if Suc j \<le> spaces mod g then 1 else 0)) = spaces mod g" using assms by (simp add: min_def less_imp_le)
  then show ?thesis by (simp add: sum.distrib)
qed

text \<open>The gaps between the words of a line that fits, none of them empty.\<close>

lemma justifyLine_gaps:
  assumes "line_length l \<le> width \<or> length l = 1" "l \<noteq> []"
  obtains gap where "justifyLine indent width b l = replicate indent (CHR '' '') @ joinWords_loop gap 0 l" "\<And>j. 1 \<le> gap j"
    "\<not> b \<Longrightarrow> length l \<noteq> 1 \<Longrightarrow> length (joinWords_loop gap 0 l) = width" "b \<or> length l = 1 \<Longrightarrow> gap = (\<lambda>i. 1)"
proof (cases "b \<or> length l = 1")
  case True
  then show thesis by (intro that [of "\<lambda>i. 1"]) (auto simp: justifyLine_def)
next
  case False
  let ?n = "sum_list (map length l)" and ?g = "length l - 1"
  define spaces where "spaces = (if width > ?n then width - ?n else ?g)"
  have g: "0 < ?g" using False assms(2) by (cases l) auto
  have fit: "?n + ?g \<le> width" using assms False by (simp add: line_length_def)
  then have tot: "spaces = width - ?n" "?g \<le> spaces" using g by (auto simp: spaces_def)
  let ?gap = "\<lambda>i. spaces div ?g + (if i \<le> spaces mod ?g then 1 else 0)"
  have one: "1 \<le> ?gap j" for j using div_le_mono [OF tot(2), of ?g] g by simp
  have "length (joinWords_loop ?gap 0 l) = ?n + spaces"
    using join_length [of ?gap "hd l" "tl l"] gap_sum [OF g, of spaces] assms(2) by simp
  then have "length (joinWords_loop ?gap 0 l) = width" using tot(1) fit by simp
  then show thesis using that [of ?gap] one False by (auto simp: justifyLine_def Let_def spaces_def)
qed

lemma justify_loop_lines:
  assumes "list_all (\<lambda>x. x \<noteq> []) xs" "list_all (\<lambda>l. l \<noteq> [] \<and> list_all word_ok l \<and> (line_length l \<le> width \<or> length l = 1)) ls"
  shows "justify_loop indent width (joinLines xs) ls = joinLines (xs @ justifiedLines indent width ls)"
  using assms
proof (induction ls arbitrary: xs)
  case (Cons l ls)
  obtain gap where "justifyLine indent width (ls = []) l = replicate indent (CHR '' '') @ joinWords_loop gap 0 l"
    by (rule justifyLine_gaps [of l width indent "ls = []"]) (use Cons.prems in auto)
  then have "justifyLine indent width (ls = []) l \<noteq> []" using Cons.prems by (simp add: join_Nil_iff)
  then show ?case using Cons.IH [of "xs @ [justifyLine indent width (ls = []) l]"] Cons.prems
      joinLines_step [OF Cons.prems(1), of "justifyLine indent width (ls = []) l"] by simp
qed simp

lemma justify_wrap:
  "justifyParagraphText t l r = joinLines (justifiedLines (indentWidth l) (contentWidth l r) (wrap (contentWidth l r) t))"
proof (cases "splitWords t = []")
  case True
  then show ?thesis by (simp add: justifyParagraphText_def wrap_def)
next
  case False
  have "list_all (\<lambda>k. k \<noteq> [] \<and> list_all word_ok k \<and> (line_length k \<le> contentWidth l r \<or> length k = 1)) (wrap (contentWidth l r) t)"
    using wrap_spec(1) [of "contentWidth l r" t] wrap_words by (auto simp: wrapped_def list_all_iff)
  from justify_loop_lines [OF _ this, of "[]"] False show ?thesis by (simp add: justifyParagraphText_def wrap_def Let_def)
qed

subsection \<open>What the texts keep\<close>

lemma words_line:
  assumes "list_all word_ok ws" "ws \<noteq> []" "\<And>j. 1 \<le> gap j"
  shows "\<forall>t. (t = [] \<or> isspace (hd t)) \<longrightarrow> splitWords ((replicate n (CHR '' '') @ joinWords_loop gap 0 ws) @ t) = ws @ splitWords t"
  using words_join [OF assms(1,2)] assms(3) by simp

lemma words_joinLines:
  assumes "list_all2 (\<lambda>x l. \<forall>t. (t = [] \<or> isspace (hd t)) \<longrightarrow> splitWords (x @ t) = l @ splitWords t) xs ls"
  shows "splitWords (joinLines xs) = concat ls"
  using assms
proof (induction xs arbitrary: ls rule: joinLines.induct)
  case (2 x)
  then obtain l where "ls = [l]" by (auto simp: list_all2_Cons1)
  with 2 show ?case by (auto dest: spec [of _ "[]"])
next
  case (3 x y xs)
  then obtain l ls' where ls: "ls = l # ls'" "list_all2 (\<lambda>x l. \<forall>t. (t = [] \<or> isspace (hd t)) \<longrightarrow> splitWords (x @ t) = l @ splitWords t) (y # xs) ls'"
    by (auto simp: list_all2_Cons1)
  have lf: "isspace LF" by (simp add: isspace_def)
  then have "splitWords (x @ LF # joinLines (y # xs)) = l @ splitWords (joinLines (y # xs))" using 3 ls by simp
  with "3.IH" [OF ls(2)] show ?case by (simp add: ls)
qed simp

lemma format_words: "splitWords (formatParagraphText t l r) = splitWords t"
proof -
  have "list_all2 (\<lambda>x k. \<forall>s. (s = [] \<or> isspace (hd s)) \<longrightarrow> splitWords (x @ s) = k @ splitWords s)
      (map (plainLine (indentWidth l)) (wrap (contentWidth l r) t)) (wrap (contentWidth l r) t)"
    unfolding list_all2_conv_all_nth
  proof (intro conjI allI impI)
    fix i s assume i: "i < length (map (plainLine (indentWidth l)) (wrap (contentWidth l r) t))" and s: "s = [] \<or> isspace (hd s)"
    then have "wrap (contentWidth l r) t ! i \<noteq> [] \<and> list_all word_ok (wrap (contentWidth l r) t ! i)" by (intro wrap_words [of _ "contentWidth l r" t]) simp
    then have "splitWords (plainLine (indentWidth l) (wrap (contentWidth l r) t ! i) @ s) = wrap (contentWidth l r) t ! i @ splitWords s"
      unfolding plainLine_def using s by (intro words_line [rule_format]) auto
    then show "splitWords (map (plainLine (indentWidth l)) (wrap (contentWidth l r) t) ! i @ s) = wrap (contentWidth l r) t ! i @ splitWords s"
      using i by simp
  qed simp
  from words_joinLines [OF this] show ?thesis by (simp add: format_wrap wrap_spec(2))
qed

lemma justify_words: "splitWords (justifyParagraphText t l r) = splitWords t"
proof -
  let ?P = "\<lambda>x k. \<forall>s. (s = [] \<or> isspace (hd s)) \<longrightarrow> splitWords (x @ s) = k @ splitWords s"
  have "list_all2 ?P (justifiedLines indent width ls) ls"
    if "list_all (\<lambda>l. l \<noteq> [] \<and> list_all word_ok l \<and> (line_length l \<le> width \<or> length l = 1)) ls" for indent width ls
    using that
  proof (induction ls)
    case (Cons k ls)
    obtain gap where g: "justifyLine indent width (ls = []) k = replicate indent (CHR '' '') @ joinWords_loop gap 0 k" "\<And>j. 1 \<le> gap j"
      by (rule justifyLine_gaps [of k width indent "ls = []"]) (use Cons.prems in auto)
    have "?P (justifyLine indent width (ls = []) k) k" unfolding g(1) by (rule words_line) (use Cons.prems g(2) in auto)
    then show ?case using Cons by simp
  qed simp
  note all = this
  have "list_all (\<lambda>k. k \<noteq> [] \<and> list_all word_ok k \<and> (line_length k \<le> contentWidth l r \<or> length k = 1)) (wrap (contentWidth l r) t)"
    using wrap_spec(1) [of "contentWidth l r" t] wrap_words by (auto simp: wrapped_def list_all_iff)
  from words_joinLines [OF all [OF this]] show ?thesis unfolding justify_wrap wrap_spec(2) .
qed

lemma format_idem:
  "formatParagraphText (formatParagraphText t l r) l r = formatParagraphText t l r"
  "justifyParagraphText (justifyParagraphText t l r) l r = justifyParagraphText t l r"
  "formatParagraphText (justifyParagraphText t l r) l r = formatParagraphText t l r"
  by (simp_all add: format_wrap justify_wrap wrap_def) (simp_all add: format_words justify_words flip: wrap_def format_wrap justify_wrap)

subsection \<open>The margins\<close>

lemma margins_width: "indentWidth l + contentWidth l r = nat (max (safeLeftMargin l) r)"
  by (simp add: indentWidth_def contentWidth_def safeLeftMargin_def Let_def)

lemma plainLine_length: "ws \<noteq> [] \<Longrightarrow> length (plainLine n ws) = n + line_length ws"
  by (cases ws) (simp_all add: plainLine_def line_length_def join_length del: joinWords_loop.simps)

lemma format_lengths:
  "list_all (\<lambda>ws. length ws = 1 \<or> length (plainLine (indentWidth l) ws) \<le> nat (max (safeLeftMargin l) r)) (wrap (contentWidth l r) t)"
  using wrap_spec(1) [of "contentWidth l r" t] plainLine_length margins_width [of l r, symmetric]
  by (auto simp: wrapped_def list_all_iff)

text \<open>All lines of a justified text but the last end at the right margin, if they have more than one word.\<close>

lemma justified_lengths:
  assumes "list_all (\<lambda>k. k \<noteq> [] \<and> (line_length k \<le> width \<or> length k = 1)) ls"
  shows "list_all2 (\<lambda>x ws. length ws = 1 \<or> length x = indent + width) (butlast (justifiedLines indent width ls)) (butlast ls)"
  using assms
proof (induction ls)
  case (Cons k ls)
  show ?case
  proof (cases "ls = []")
    case False
    obtain gap where "justifyLine indent width (ls = []) k = replicate indent (CHR '' '') @ joinWords_loop gap 0 k"
        "\<not> (ls = []) \<Longrightarrow> length k \<noteq> 1 \<Longrightarrow> length (joinWords_loop gap 0 k) = width"
      by (rule justifyLine_gaps [of k width indent "ls = []"]) (use Cons.prems in auto)
    moreover have "justifiedLines indent width ls \<noteq> []" using False by (cases ls) simp_all
    ultimately show ?thesis using Cons False by auto
  qed simp
qed simp

lemma justify_lengths:
  "list_all2 (\<lambda>x ws. length ws = 1 \<or> length x = nat (max (safeLeftMargin l) r))
     (butlast (justifiedLines (indentWidth l) (contentWidth l r) (wrap (contentWidth l r) t))) (butlast (wrap (contentWidth l r) t))"
  using justified_lengths [of "contentWidth l r" "wrap (contentWidth l r) t" "indentWidth l"] wrap_spec(1) [of "contentWidth l r" t]
  by (simp add: margins_width wrapped_def)

end
