(* ===== verification/Gdb_Mi.thy ===== *)
theory Gdb_Mi
  imports C_Numbers
begin

text \<open>
  The machine interface of the debugger (\<open>src/app/services/MRGdbMi.cpp\<close>): the output of \<open>gdb\<close> arrives in
  chunks, is cut into lines and parsed into records; values are quoted strings, tuples and lists are found
  by matching their delimiters.
\<close>

subsection \<open>Strings\<close>

definition isOctal :: "char \<Rightarrow> bool" where
  "isOctal c \<longleftrightarrow> c \<in> set ''01234567''"

definition escapes :: "(char \<times> char) list" where
  "escapes = [(CHR ''n'', LF), (CHR ''r'', CR), (CHR ''t'', CHR 0x09), (CHR ''b'', CHR 0x08), (CHR ''f'', CHR 0x0C), (CHR ''v'', CHR 0x0B),
     (CHR 0x5C, CHR 0x5C), (CHR 0x22, CHR 0x22)]"

text \<open>The value of up to three octal digits, cut to a byte.\<close>

definition octal_char :: "string \<Rightarrow> char" where
  "octal_char ds = char_of (foldl (\<lambda>v c. v * 8 + (of_char c - 48)) 0 ds :: nat)"

function decodeMi_loop :: "string \<Rightarrow> string" where
  "decodeMi_loop [] = []"
| "decodeMi_loop (current # rest) =
     (if current = CHR 0x22 then []
      else if current \<noteq> CHR 0x5C \<or> rest = [] then current # decodeMi_loop rest
      else
        (let escaped = hd rest; rest' = tl rest in
         case map_of escapes escaped of
           Some c \<Rightarrow> c # decodeMi_loop rest'
         | None \<Rightarrow>
             if isOctal escaped then
               (let more = takeWhile isOctal (take 2 rest') in octal_char (escaped # more) # decodeMi_loop (drop (length more) rest'))
             else escaped # decodeMi_loop rest'))"
  by pat_completeness auto
termination by (relation "measure length") (auto simp: less_Suc_eq_le intro: le_trans [OF diff_le_self])

definition decodeMiString :: "string \<Rightarrow> nat \<Rightarrow> string" where
  "decodeMiString t quotePosition =
     (if quotePosition \<ge> length t \<or> t ! quotePosition \<noteq> CHR 0x22 then [] else decodeMi_loop (drop (quotePosition + 1) t))"

fun quote_loop :: "string \<Rightarrow> string" where
  "quote_loop [] = []"
| "quote_loop (c # s) =
     (if c = CHR 0x5C then [CHR 0x5C, CHR 0x5C]
      else if c = CHR 0x22 then [CHR 0x5C, CHR 0x22]
      else if c = LF then [CHR 0x5C, CHR ''n'']
      else if c = CR then [CHR 0x5C, CHR ''r'']
      else if c = CHR 0x09 then [CHR 0x5C, CHR ''t'']
      else [c]) @ quote_loop s"

definition mrGdbMiQuote :: "string \<Rightarrow> string" where
  "mrGdbMiQuote v = CHR 0x22 # quote_loop v @ [CHR 0x22]"

subsection \<open>Records\<close>

datatype MRGdbMiRecordKind =
  MiResult | MiExec | MiStatus | MiNotify | MiConsole | MiTarget | MiLog | MiPrompt | MiUnknown

record MRGdbMiRecord =
  mi_kind :: MRGdbMiRecordKind
  mi_token :: "32 word"
  mi_resultClass :: string
  mi_text :: string
  mi_raw :: string

definition emptyMiRecord :: MRGdbMiRecord where
  "emptyMiRecord = \<lparr>mi_kind = MiUnknown, mi_token = 0, mi_resultClass = [], mi_text = [], mi_raw = []\<rparr>"

definition parseMiRecord :: "string \<Rightarrow> MRGdbMiRecord" where
  "parseMiRecord line =
     (let digits = takeWhile isdigit line;
          record = emptyMiRecord\<lparr>mi_raw := line, mi_token := foldl (\<lambda>t c. t * 10 + of_nat (of_char c - 48)) 0 digits\<rparr>;
          position = length digits
      in if position \<ge> length line then record
         else
           (let prefix = line ! position; position = position + 1;
                stream = (\<lambda>kind. record\<lparr>mi_kind := kind, mi_text := decodeMiString line position\<rparr>);
                result = (\<lambda>kind. record\<lparr>mi_kind := kind, mi_resultClass := takeWhile (\<lambda>c. c \<noteq> CHR '','') (drop position line)\<rparr>)
            in if prefix = CHR ''^'' then result MiResult
               else if prefix = CHR ''*'' then result MiExec
               else if prefix = CHR ''+'' then result MiStatus
               else if prefix = CHR ''='' then result MiNotify
               else if prefix = CHR ''~'' then stream MiConsole
               else if prefix = CHR ''@'' then stream MiTarget
               else if prefix = CHR ''&'' then stream MiLog
               else if line = ''(gdb)'' then record\<lparr>mi_kind := MiPrompt\<rparr> else record))"

subsection \<open>The stream\<close>

definition popCarriageReturn :: "string \<Rightarrow> string" where
  "popCarriageReturn line = (if line \<noteq> [] \<and> last line = CR then butlast line else line)"

definition pushRecord :: "string \<Rightarrow> MRGdbMiRecord list \<Rightarrow> MRGdbMiRecord list" where
  "pushRecord line records =
     (let line = popCarriageReturn line in if line \<noteq> [] then records @ [parseMiRecord line] else records)"

text \<open>The loop over the complete lines of the pending text.\<close>

function append_loop :: "string \<Rightarrow> MRGdbMiRecord list \<Rightarrow> string \<times> MRGdbMiRecord list" where
  "append_loop pending records =
     (if LF \<notin> set pending then (pending, records)
      else
        (let line = takeWhile (\<lambda>c. c \<noteq> LF) pending
         in append_loop (drop (length line + 1) pending) (pushRecord line records)))"
  by pat_completeness auto
termination by (relation "measure (\<lambda>(p, r). length p)") (auto intro: diff_less length_pos_if_in_set)

declare append_loop.simps [simp del]

definition MRGdbMiStream_append :: "string \<Rightarrow> string \<Rightarrow> MRGdbMiRecord list \<Rightarrow> string \<times> MRGdbMiRecord list" where
  "MRGdbMiStream_append pending data records = append_loop (pending @ data) records"

definition MRGdbMiStream_finish :: "string \<Rightarrow> MRGdbMiRecord list \<Rightarrow> string \<times> MRGdbMiRecord list" where
  "MRGdbMiStream_finish pending records = (if pending = [] then ([], records) else ([], pushRecord pending records))"

subsection \<open>Fields\<close>

text \<open>\<open>std::string::find\<close> for a non-empty pattern.\<close>

definition find_from :: "string \<Rightarrow> string \<Rightarrow> nat \<Rightarrow> nat option" where
  "find_from pat t start = find (\<lambda>i. take (length pat) (drop i t) = pat) [start..<Suc (length t) - length pat]"

lemma find_from_Some: "find_from pat t start = Some p \<Longrightarrow> start \<le> p \<and> p + length pat \<le> length t"
  by (auto simp: find_from_def dest!: find_Some_iff [THEN iffD1] dest: nth_mem)

function fieldPosition :: "string \<Rightarrow> string \<Rightarrow> nat \<Rightarrow> nat option" where
  "fieldPosition record name start =
     (let marker = name @ ''='' in
      case find_from marker record start of
        None \<Rightarrow> None
      | Some position \<Rightarrow>
          if position = 0 \<or> record ! (position - 1) \<in> set '',{['' then Some (position + length marker)
          else fieldPosition record name (position + length marker))"
  by pat_completeness auto
termination by (relation "measure (\<lambda>(record, name, start). Suc (length record) - start)") (auto dest!: find_from_Some)

declare fieldPosition.simps [simp del]

definition fieldAfter :: "string \<Rightarrow> string \<Rightarrow> nat \<Rightarrow> string" where
  "fieldAfter record name start =
     (case fieldPosition record name start of
        None \<Rightarrow> []
      | Some valuePosition \<Rightarrow>
          if valuePosition < length record \<and> record ! valuePosition = CHR 0x22 then decodeMiString record valuePosition
          else takeWhile (\<lambda>c. c \<notin> set '',}]'') (drop valuePosition record))"

definition mrGdbMiField :: "string \<Rightarrow> string \<Rightarrow> string" where
  "mrGdbMiField record name = fieldAfter record name 0"

definition mrGdbMiIntField :: "string \<Rightarrow> string \<Rightarrow> int \<Rightarrow> int" where
  "mrGdbMiIntField record name fallback =
     (let v = mrGdbMiField record name; (parsed, rest) = strtol (c_str v)
      in if v \<noteq> [] \<and> rest = [] then narrow_int parsed else fallback)"

subsection \<open>Delimiters\<close>

text \<open>The loop of \<open>matchingDelimiter\<close> over the text from \<open>position\<close> on.\<close>

fun matching_loop :: "nat \<Rightarrow> char \<Rightarrow> char \<Rightarrow> int \<Rightarrow> bool \<Rightarrow> bool \<Rightarrow> string \<Rightarrow> nat option" where
  "matching_loop position opening closing depth quoted escaped [] = None"
| "matching_loop position opening closing depth quoted escaped (c # rest) =
     (let go = (\<lambda>depth quoted escaped. matching_loop (position + 1) opening closing depth quoted escaped rest) in
      if quoted then
        (if escaped then go depth quoted False
         else if c = CHR 0x5C then go depth quoted True
         else if c = CHR 0x22 then go depth False escaped
         else go depth quoted escaped)
      else if c = CHR 0x22 then go depth True escaped
      else if c = opening then go (depth + 1) quoted escaped
      else if c = closing then (if depth - 1 = 0 then Some position else go (depth - 1) quoted escaped)
      else go depth quoted escaped)"

definition matchingDelimiter :: "string \<Rightarrow> nat \<Rightarrow> char \<Rightarrow> char \<Rightarrow> nat option" where
  "matchingDelimiter t openingPosition opening closing =
     matching_loop openingPosition opening closing 0 False False (drop openingPosition t)"

lemma matching_loop_range:
  "matching_loop position opening closing depth quoted escaped s = Some p \<Longrightarrow> position \<le> p \<and> p < position + length s"
  by (induction s arbitrary: position depth quoted escaped) (fastforce simp: Let_def split: if_splits)+

lemma matchingDelimiter_range: "matchingDelimiter t o1 a b = Some p \<Longrightarrow> o1 \<le> p \<and> p < length t"
  by (auto simp: matchingDelimiter_def dest!: matching_loop_range)

function tupleItems_loop :: "string \<Rightarrow> nat \<Rightarrow> nat \<Rightarrow> string list \<Rightarrow> string list" where
  "tupleItems_loop record position listEnd items =
     (if position \<ge> listEnd then items
      else
        (case find_from ''{'' record position of
           None \<Rightarrow> items
         | Some tupleStart \<Rightarrow>
             if tupleStart \<ge> listEnd then items
             else
               (case matchingDelimiter record tupleStart (CHR ''{'') (CHR ''}'') of
                  None \<Rightarrow> items
                | Some tupleEnd \<Rightarrow>
                    if tupleEnd > listEnd then items
                    else tupleItems_loop record (tupleEnd + 1) listEnd (items @ [take (tupleEnd - tupleStart + 1) (drop tupleStart record)]))))"
  by pat_completeness auto
termination
  by (relation "measure (\<lambda>(record, position, listEnd, items). listEnd - position)") (auto dest!: find_from_Some matchingDelimiter_range)

declare tupleItems_loop.simps [simp del]

definition tupleItems :: "string \<Rightarrow> string \<Rightarrow> string list" where
  "tupleItems record listName =
     (let marker = listName @ ''=['' in
      case find_from marker record 0 of
        None \<Rightarrow> []
      | Some markerPosition \<Rightarrow>
          (let listStart = markerPosition + length marker - 1 in
           case matchingDelimiter record listStart (CHR ''['') (CHR '']'') of
             None \<Rightarrow> []
           | Some listEnd \<Rightarrow> tupleItems_loop record (listStart + 1) listEnd []))"

subsection \<open>What the debugger reports\<close>

record MRGdbMiThread =
  gt_id :: string
  gt_name :: string
  gt_state :: string
  gt_function :: string
  gt_address :: string
  gt_file :: string
  gt_line :: int

record MRGdbMiVariable =
  gv_identity :: string
  gv_name :: string
  gv_value :: string
  gv_formats :: string
  gv_type :: string
  gv_objectName :: string
  gv_parentObjectName :: string
  gv_depth :: int
  gv_childCount :: int

record MRGdbMiBreakpoint =
  gb_number :: string
  gb_threadId :: string
  gb_temporary :: bool
  gb_originalLocation :: string
  gb_condition :: string
  gb_file :: string
  gb_line :: int

definition emptyVariable :: MRGdbMiVariable where
  "emptyVariable = \<lparr>gv_identity = [], gv_name = [], gv_value = [], gv_formats = [], gv_type = [], gv_objectName = [],
     gv_parentObjectName = [], gv_depth = 0, gv_childCount = 0\<rparr>"

definition mrGdbMiVariables :: "string \<Rightarrow> MRGdbMiVariable list" where
  "mrGdbMiVariables record =
     filter (\<lambda>v. gv_name v \<noteq> [])
       (map (\<lambda>item. emptyVariable\<lparr>gv_name := mrGdbMiField item ''name'', gv_value := mrGdbMiField item ''value'',
                                   gv_type := mrGdbMiField item ''type''\<rparr>) (tupleItems record ''variables''))"

definition mrGdbMiChildren :: "string \<Rightarrow> string \<Rightarrow> int \<Rightarrow> MRGdbMiVariable list" where
  "mrGdbMiChildren record parentObjectName depth =
     filter (\<lambda>v. gv_objectName v \<noteq> [])
       (map (\<lambda>item. emptyVariable\<lparr>gv_objectName := mrGdbMiField item ''name'', gv_parentObjectName := parentObjectName,
               gv_name := mrGdbMiField item ''exp'', gv_value := mrGdbMiField item ''value'', gv_type := mrGdbMiField item ''type'',
               gv_depth := depth, gv_childCount := mrGdbMiIntField item ''numchild'' 0\<rparr>) (tupleItems record ''children''))"

definition mrGdbMiChanges :: "string \<Rightarrow> MRGdbMiVariable list" where
  "mrGdbMiChanges record =
     filter (\<lambda>v. gv_name v \<noteq> [])
       (map (\<lambda>item. emptyVariable\<lparr>gv_name := mrGdbMiField item ''name'', gv_value := mrGdbMiField item ''value'',
                                   gv_type := mrGdbMiField item ''in_scope''\<rparr>) (tupleItems record ''changelist''))"

definition or_else :: "string \<Rightarrow> string \<Rightarrow> string" where
  "or_else a b = (if a = [] then b else a)"

definition miBreakpoint :: "string \<Rightarrow> MRGdbMiBreakpoint" where
  "miBreakpoint item =
     \<lparr>gb_number = mrGdbMiField item ''number'', gb_threadId = mrGdbMiField item ''thread'', gb_temporary = (mrGdbMiField item ''disp'' = ''del''),
      gb_originalLocation = mrGdbMiField item ''original-location'', gb_condition = mrGdbMiField item ''cond'',
      gb_file = or_else (mrGdbMiField item ''fullname'') (mrGdbMiField item ''file''), gb_line = mrGdbMiIntField item ''line'' 0\<rparr>"

function breakpoints_loop :: "string \<Rightarrow> nat \<Rightarrow> MRGdbMiBreakpoint list \<Rightarrow> MRGdbMiBreakpoint list" where
  "breakpoints_loop record position breakpoints =
     (case find_from ''number='' record position of
        None \<Rightarrow> breakpoints
      | Some position \<Rightarrow>
          (let closing = find_from ''}'' record position;
               item = ''{'' @ (case closing of None \<Rightarrow> drop position record | Some e \<Rightarrow> take (e - position + 1) (drop position record));
               breakpoint = miBreakpoint item;
               breakpoints = (if gb_number breakpoint \<noteq> [] then breakpoints @ [breakpoint] else breakpoints)
           in case closing of None \<Rightarrow> breakpoints | Some e \<Rightarrow> breakpoints_loop record (e + 1) breakpoints))"
  by pat_completeness auto
termination
  by (relation "measure (\<lambda>(record, position, b). Suc (length record) - position)") (fastforce dest: find_from_Some find_from_Some [OF sym])+

declare breakpoints_loop.simps [simp del]

definition mrGdbMiBreakpoints :: "string \<Rightarrow> MRGdbMiBreakpoint list" where
  "mrGdbMiBreakpoints record =
     (case find_from ''body=['' record 0 of
        Some position \<Rightarrow> breakpoints_loop record position []
      | None \<Rightarrow> (case find_from ''bkpt={'' record 0 of None \<Rightarrow> [] | Some position \<Rightarrow> breakpoints_loop record position []))"

definition miThread :: "string \<Rightarrow> MRGdbMiThread" where
  "miThread item =
     (let thread = \<lparr>gt_id = mrGdbMiField item ''id'', gt_name = mrGdbMiField item ''name'', gt_state = mrGdbMiField item ''state'',
            gt_function = [], gt_address = [], gt_file = [], gt_line = 0\<rparr>
      in case find_from ''frame={'' item 0 of
           None \<Rightarrow> thread
         | Some frame \<Rightarrow>
             (let start = frame + 6;
                  fields = (case matchingDelimiter item start (CHR ''{'') (CHR ''}'') of
                      None \<Rightarrow> drop start item | Some e \<Rightarrow> take (e - start + 1) (drop start item))
              in thread\<lparr>gt_function := mrGdbMiField fields ''func'', gt_address := mrGdbMiField fields ''addr'',
                   gt_file := or_else (mrGdbMiField fields ''fullname'') (mrGdbMiField fields ''file''),
                   gt_line := mrGdbMiIntField fields ''line'' 0\<rparr>))"

definition mrGdbMiThreads :: "string \<Rightarrow> MRGdbMiThread list" where
  "mrGdbMiThreads record =
     filter (\<lambda>t. gt_id t \<noteq> [] \<and> list_all isdigit (gt_id t)) (map miThread (tupleItems record ''threads''))"

subsection \<open>Quoting\<close>

lemma decode_quote: "decodeMi_loop (quote_loop s @ CHR 0x22 # t) = s"
proof (induction s)
  case (Cons c s)
  have ne: "quote_loop s @ CHR 0x22 # t \<noteq> []" by simp
  show ?case using Cons.IH ne by (auto simp: escapes_def Let_def)
qed simp

lemma field_quote: "decodeMiString (mrGdbMiQuote s @ t) 0 = s"
  by (simp add: decodeMiString_def mrGdbMiQuote_def decode_quote)

subsection \<open>Chunks\<close>

fun lf_lines :: "string \<Rightarrow> string list" where
  "lf_lines [] = [[]]"
| "lf_lines (c # s) = (if c = LF then [] # lf_lines s else (c # hd (lf_lines s)) # tl (lf_lines s))"

lemma lf_lines_nonempty [simp]: "lf_lines s \<noteq> []"
  by (cases s) auto

lemma lf_lines_plain: "LF \<notin> set s \<Longrightarrow> lf_lines s = [s]"
  by (induction s) auto

lemma lf_lines_first: "LF \<in> set s \<Longrightarrow>
  lf_lines s = takeWhile (\<lambda>c. c \<noteq> LF) s # lf_lines (drop (length (takeWhile (\<lambda>c. c \<noteq> LF) s) + 1) s)"
  by (induction s) auto

lemma append_loop_lines: "append_loop p r = (last (lf_lines p), fold pushRecord (butlast (lf_lines p)) r)"
proof (induction p r rule: append_loop.induct)
  case (1 p r)
  show ?case
  proof (cases "LF \<in> set p")
    case True
    then show ?thesis using 1 by (subst append_loop.simps) (simp add: lf_lines_first Let_def)
  next
    case False
    then show ?thesis by (subst append_loop.simps) (simp add: lf_lines_plain)
  qed
qed

lemma lf_lines_append: "lf_lines (a @ b) = butlast (lf_lines a) @ lf_lines (last (lf_lines a) @ b)"
proof (induction a)
  case (Cons c a)
  obtain l ls where "lf_lines a = l # ls" by (cases "lf_lines a") auto
  with Cons show ?case by auto
qed simp

lemma lf_lines_last: "LF \<notin> set (last (lf_lines s))"
proof (induction s)
  case (Cons c s)
  obtain l ls where "lf_lines s = l # ls" by (cases "lf_lines s") auto
  with Cons show ?case by (cases ls) auto
qed simp

lemma append_append: "append_loop (a @ b) r = (let (p, r1) = append_loop a r in append_loop (p @ b) r1)"
  by (simp add: append_loop_lines lf_lines_append [of a b] butlast_append)

lemma pushRecord_Nil [simp]: "pushRecord [] r = r"
  by (simp add: pushRecord_def popCarriageReturn_def)

text \<open>All that a stream of chunks yields, in the end, are the lines of the whole.\<close>

definition feed :: "string list \<Rightarrow> string \<times> MRGdbMiRecord list \<Rightarrow> string \<times> MRGdbMiRecord list" where
  "feed chunks st = fold (\<lambda>chunk (pending, records). MRGdbMiStream_append pending chunk records) chunks st"

lemma pushes: "fold pushRecord ls r = r @ map parseMiRecord (filter (\<lambda>l. l \<noteq> []) (map popCarriageReturn ls))"
  by (induction ls arbitrary: r) (simp_all add: pushRecord_def Let_def)

lemma feed_lines: "feed chunks ([], r) = append_loop (concat chunks) r"
proof -
  have "feed chunks (p, r) = append_loop (p @ concat chunks) r" if "LF \<notin> set p" for p r
    using that
  proof (induction chunks arbitrary: p r)
    case Nil
    then show ?case by (simp add: feed_def append_loop.simps)
  next
    case (Cons c cs)
    have "LF \<notin> set (fst (append_loop (p @ c) r))" by (simp add: append_loop_lines lf_lines_last)
    with Cons.IH [of "fst (append_loop (p @ c) r)" "snd (append_loop (p @ c) r)"]
    show ?case using append_append [of "p @ c" "concat cs" r]
      by (simp add: feed_def MRGdbMiStream_append_def case_prod_unfold Let_def)
  qed
  from this [of "[]"] show ?thesis by simp
qed

lemma stream_records:
  "snd (case feed chunks ([], []) of (pending, records) \<Rightarrow> MRGdbMiStream_finish pending records)
    = map parseMiRecord (filter (\<lambda>l. l \<noteq> []) (map popCarriageReturn (lf_lines (concat chunks))))"
proof -
  let ?l = "lf_lines (concat chunks)"
  have "snd (case feed chunks ([], []) of (pending, records) \<Rightarrow> MRGdbMiStream_finish pending records)
      = pushRecord (last ?l) (fold pushRecord (butlast ?l) [])"
    by (simp add: feed_lines append_loop_lines MRGdbMiStream_finish_def)
  also have "\<dots> = fold pushRecord (butlast ?l @ [last ?l]) []" by (simp del: append_butlast_last_id)
  also have "\<dots> = fold pushRecord ?l []" by simp
  finally show ?thesis by (simp add: pushes)
qed

text \<open>A marker inside a quoted value is taken for the field.\<close>

lemma field_in_quotes:
  "mrGdbMiField (''{name='' @ mrGdbMiQuote ''x'' @ '',value='' @ mrGdbMiQuote ''a,type=b'' @ '',type='' @ mrGdbMiQuote ''int'' @ ''}'') ''type''
    = ''b'' @ [CHR 0x22]"
  by code_simp

end
