(* ===== verification/Workspace_Codec.thy ===== *)
theory Workspace_Codec
  imports C_Numbers "HOL-Library.Monad_Syntax"
begin

text \<open>
  The text tokens of a workspace file (\<open>src/app/commands/MRBentoWorkspaceCodec.cpp\<close>): splitting at
  delimiters, hexadecimal strings, integers, and the configuration of the macro debugger. Every accepted
  token yields a well-formed configuration, and a configuration is well-formed exactly when what is written
  for it is read back unchanged.
\<close>

subsection \<open>Parts of a token\<close>

text \<open>The calls of \<open>std::getline\<close> until the stream ends.\<close>

function getline_loop :: "char \<Rightarrow> string \<Rightarrow> string list" where
  "getline_loop delimiter input =
     (if input = [] then []
      else (let part = takeWhile (\<lambda>c. c \<noteq> delimiter) input in part # getline_loop delimiter (drop (length part + 1) input)))"
  by pat_completeness auto
termination by (relation "measure (length \<circ> snd)") (auto intro: diff_less)

declare getline_loop.simps [simp del]

definition splitBentoToken :: "string \<Rightarrow> char \<Rightarrow> string list" where
  "splitBentoToken t delimiter = getline_loop delimiter t @ (if t \<noteq> [] \<and> last t = delimiter then [[]] else [])"

definition hexAlphabet :: string where
  "hexAlphabet = ''0123456789ABCDEF''"

definition debuggerHexEncode :: "string \<Rightarrow> string" where
  "debuggerHexEncode v = concat (map (\<lambda>ch. let n = (of_char ch :: nat) in [hexAlphabet ! (n div 16), hexAlphabet ! (n mod 16)]) v)"

definition debuggerHexDigit :: "char \<Rightarrow> int" where
  "debuggerHexDigit ch =
     (let n = int (of_char ch) in
      if 48 \<le> n \<and> n \<le> 57 then n - 48 else if 65 \<le> n \<and> n \<le> 70 then n - 65 + 10 else if 97 \<le> n \<and> n \<le> 102 then n - 97 + 10 else - 1)"

fun hexDecode_loop :: "string \<Rightarrow> string option" where
  "hexDecode_loop (a # b # rest) =
     (let high = debuggerHexDigit a; low = debuggerHexDigit b in
      if high < 0 \<or> low < 0 then None else map_option ((#) (char_of (nat (high * 16 + low)))) (hexDecode_loop rest))"
| "hexDecode_loop _ = Some []"

definition debuggerHexDecode :: "string \<Rightarrow> string option" where
  "debuggerHexDecode v = (if odd (length v) then None else hexDecode_loop v)"

definition parseBentoInt :: "string \<Rightarrow> int option" where
  "parseBentoInt t =
     (let s = c_str t; (parsed, end) = strtol s in
      if end = s \<or> end \<noteq> [] then None else if parsed < - (2 ^ 31) \<or> parsed > 2 ^ 31 - 1 then None else Some parsed)"

text \<open>\<open>text.rfind(expected, 0) == 0\<close>.\<close>

definition beginsWith :: "string \<Rightarrow> string \<Rightarrow> bool" where
  "beginsWith t expected \<longleftrightarrow> take (length expected) t = expected"

definition parseBentoPrefixedInt :: "string \<Rightarrow> string \<Rightarrow> int option" where
  "parseBentoPrefixedInt t expected = (if \<not> beginsWith t expected then None else parseBentoInt (drop (length expected) t))"

subsection \<open>The configuration of the macro debugger\<close>

record MRMacroDebuggerWorkspaceBreakpoint =
  mb_macroKey :: string
  mb_sourceIdentity :: string
  mb_line :: int
  mb_enabled :: bool
  mb_conditionText :: string

record MRMacroDebuggerWorkspaceWatch =
  mw_expression :: string
  mw_enabled :: bool

record MRMacroDebuggerWorkspaceConfiguration =
  mc_macroKey :: string
  mc_macroName :: string
  mc_sourceIdentity :: string
  mc_sourcePath :: string
  mc_breakpoints :: "MRMacroDebuggerWorkspaceBreakpoint list"
  mc_watches :: "MRMacroDebuggerWorkspaceWatch list"

definition print_flag :: "bool \<Rightarrow> string" where
  "print_flag b = print_int (if b then 1 else 0)"

text \<open>Entries one after the other, with a delimiter before each but the first.\<close>

fun joinParts :: "char \<Rightarrow> string list \<Rightarrow> string" where
  "joinParts d [] = []"
| "joinParts d [p] = p"
| "joinParts d (p # q # ps) = p @ d # joinParts d (q # ps)"

definition encodeBreakpoint :: "MRMacroDebuggerWorkspaceBreakpoint \<Rightarrow> string" where
  "encodeBreakpoint b = debuggerHexEncode (mb_macroKey b) @ '':'' @ debuggerHexEncode (mb_sourceIdentity b) @ '':'' @ print_int (mb_line b)
     @ '':'' @ print_flag (mb_enabled b) @ '':'' @ debuggerHexEncode (mb_conditionText b)"

definition encodeWatch :: "MRMacroDebuggerWorkspaceWatch \<Rightarrow> string" where
  "encodeWatch w = debuggerHexEncode (mw_expression w) @ '':'' @ print_flag (mw_enabled w)"

definition encodeMacroDebuggerConfiguration :: "MRMacroDebuggerWorkspaceConfiguration \<Rightarrow> string" where
  "encodeMacroDebuggerConfiguration configuration =
     ''v2'' @ '',k:'' @ debuggerHexEncode (mc_macroKey configuration)
       @ '',n:'' @ debuggerHexEncode (mc_macroName configuration)
       @ '',i:'' @ debuggerHexEncode (mc_sourceIdentity configuration)
       @ '',p:'' @ debuggerHexEncode (mc_sourcePath configuration)
       @ '',b:'' @ joinParts (CHR ''.'') (map encodeBreakpoint (mc_breakpoints configuration))
       @ '',w:'' @ joinParts (CHR ''.'') (map encodeWatch (mc_watches configuration))"

definition parseFlag :: "string \<Rightarrow> bool option" where
  "parseFlag t = (case parseBentoInt t of None \<Rightarrow> None | Some n \<Rightarrow> if n \<noteq> 0 \<and> n \<noteq> 1 then None else Some (n \<noteq> 0))"

text \<open>One entry of the break point field; the older format has neither the source nor the condition.\<close>

definition parseBreakpoint :: "bool \<Rightarrow> string \<Rightarrow> MRMacroDebuggerWorkspaceBreakpoint option" where
  "parseBreakpoint legacy entry =
     (let values = splitBentoToken entry (CHR '':'') in
      if length values \<noteq> (if legacy then 3 else 5) then None
      else do {
        key \<leftarrow> debuggerHexDecode (values ! 0);
        identity \<leftarrow> (if legacy then Some [] else debuggerHexDecode (values ! 1));
        line \<leftarrow> parseBentoInt (values ! (if legacy then 1 else 2));
        enabled \<leftarrow> parseFlag (values ! (if legacy then 2 else 3));
        condition \<leftarrow> (if legacy then Some [] else debuggerHexDecode (values ! 4));
        if key = [] \<or> line \<le> 0 then None
        else Some \<lparr>mb_macroKey = key, mb_sourceIdentity = identity, mb_line = line, mb_enabled = enabled, mb_conditionText = condition\<rparr>
      })"

definition parseWatch :: "string \<Rightarrow> MRMacroDebuggerWorkspaceWatch option" where
  "parseWatch entry =
     (let values = splitBentoToken entry (CHR '':'') in
      if length values \<noteq> 2 then None
      else do {
        expression \<leftarrow> debuggerHexDecode (values ! 0);
        enabled \<leftarrow> parseFlag (values ! 1);
        if expression = [] then None else Some \<lparr>mw_expression = expression, mw_enabled = enabled\<rparr>
      })"

text \<open>The loop over the entries of a field: the first bad entry refuses the field.\<close>

fun parseAll :: "(string \<Rightarrow> 'a option) \<Rightarrow> string list \<Rightarrow> 'a list option" where
  "parseAll parse [] = Some []"
| "parseAll parse (e # es) = do { x \<leftarrow> parse e; xs \<leftarrow> parseAll parse es; Some (x # xs) }"

definition parseField :: "(string \<Rightarrow> 'a option) \<Rightarrow> string \<Rightarrow> 'a list option" where
  "parseField parse field = (if field = [] then Some [] else parseAll parse (splitBentoToken field (CHR ''.'')))"

definition parseMacroDebuggerConfiguration :: "string \<Rightarrow> MRMacroDebuggerWorkspaceConfiguration option" where
  "parseMacroDebuggerConfiguration token =
     (let fields = splitBentoToken token (CHR '','');
          legacy = (fields \<noteq> [] \<and> fields ! 0 = ''v1'');
          tags = (if legacy then [''k:'', ''n:'', ''b:'', ''w:''] else [''k:'', ''n:'', ''i:'', ''p:'', ''b:'', ''w:''])
      in if length fields \<noteq> (if legacy then 5 else 7) \<or> (\<not> legacy \<and> fields ! 0 \<noteq> ''v2'')
            \<or> \<not> list_all2 beginsWith (drop 1 fields) tags then None
         else do {
           key \<leftarrow> debuggerHexDecode (drop 2 (fields ! 1));
           name \<leftarrow> debuggerHexDecode (drop 2 (fields ! 2));
           identity \<leftarrow> (if legacy then Some [] else debuggerHexDecode (drop 2 (fields ! 3)));
           path \<leftarrow> (if legacy then Some [] else debuggerHexDecode (drop 2 (fields ! 4)));
           if key = [] then None
           else do {
             breakpoints \<leftarrow> parseField (parseBreakpoint legacy) (drop 2 (fields ! (if legacy then 3 else 5)));
             watches \<leftarrow> parseField parseWatch (drop 2 (fields ! (if legacy then 4 else 6)));
             Some \<lparr>mc_macroKey = key, mc_macroName = name, mc_sourceIdentity = identity, mc_sourcePath = path,
                    mc_breakpoints = breakpoints, mc_watches = watches\<rparr>
           }
         })"

subsection \<open>Splitting what was joined\<close>

lemma takeWhile_other: "d \<notin> set p \<Longrightarrow> takeWhile (\<lambda>c. c \<noteq> d) p = p"
  by (auto simp: takeWhile_eq_all_conv)

lemma getline_part: "d \<notin> set p \<Longrightarrow> getline_loop d (p @ d # t) = p # getline_loop d t"
  by (subst getline_loop.simps) (simp add: Let_def takeWhile_tail takeWhile_other)

lemma getline_last: "d \<notin> set p \<Longrightarrow> getline_loop d p = (if p = [] then [] else [p])"
  by (subst getline_loop.simps) (simp add: Let_def getline_loop.simps takeWhile_other)

lemma split_part: "d \<notin> set p \<Longrightarrow> splitBentoToken (p @ d # t) d = p # (if t = [] then [[]] else splitBentoToken t d)"
  by (simp add: splitBentoToken_def getline_part) (simp add: getline_loop.simps)

lemma split_last: "d \<notin> set p \<Longrightarrow> splitBentoToken p d = (if p = [] then [] else [p])"
  by (auto simp: splitBentoToken_def getline_last)

lemma joinParts_Nil_iff: "joinParts d ps = [] \<longleftrightarrow> ps = [] \<or> ps = [[]]"
  by (induction d ps rule: joinParts.induct) auto

lemma split_join:
  assumes "list_all (\<lambda>p. d \<notin> set p) ps" "ps \<noteq> [[]]" shows "splitBentoToken (joinParts d ps) d = ps"
  using assms
proof (induction d ps rule: joinParts.induct)
  case (1 d)
  show ?case by (simp add: splitBentoToken_def getline_loop.simps)
next
  case (3 d p q ps)
  then show ?case by (cases "q # ps = [[]]") (auto simp: split_part joinParts_Nil_iff)
qed (simp add: split_last)

lemma joinParts_set: "set (joinParts d ps) \<subseteq> insert d (\<Union>p\<in>set ps. set p)"
  by (induction d ps rule: joinParts.induct) auto

subsection \<open>Values\<close>

lemma hex_digit:
  assumes "n < 16"
  shows "debuggerHexDigit (hexAlphabet ! n) = int n \<and> hexAlphabet ! n \<in> set hexAlphabet"
proof -
  have "list_all (\<lambda>n. debuggerHexDigit (hexAlphabet ! n) = int n) [0..<16]" by code_simp
  then have "debuggerHexDigit (hexAlphabet ! n) = int n" using assms by (simp add: list_all_iff)
  moreover have "length hexAlphabet = 16" by (simp add: hexAlphabet_def)
  ultimately show ?thesis using assms nth_mem [of n hexAlphabet] by simp
qed

lemma of_char_256: "(of_char c :: nat) < 256"
  by (metis of_char_mod_256 mod_less_divisor zero_less_numeral)

lemma hex_round_trip: "debuggerHexDecode (debuggerHexEncode s) = Some s"
proof -
  have "hexDecode_loop (debuggerHexEncode s) = Some s"
  proof (induction s)
    case (Cons c s)
    have h: "(of_char c :: nat) div 16 < 16" "(of_char c :: nat) mod 16 < 16"
      using less_mult_imp_div_less [of "of_char c" 16 16] of_char_256 [of c] by simp_all
    have "nat (int (x div 16) * 16 + int (x mod 16)) = x" for x
      by (metis div_mult_mod_eq nat_int of_nat_add of_nat_mult of_nat_numeral)
    then show ?case using Cons hex_digit [OF h(1)] hex_digit [OF h(2)] by (simp add: debuggerHexEncode_def Let_def)
  qed (simp add: debuggerHexEncode_def)
  moreover have "even (length (debuggerHexEncode s))" by (induction s) (simp_all add: debuggerHexEncode_def Let_def)
  ultimately show ?thesis by (simp add: debuggerHexDecode_def)
qed

lemma hex_chars: "set (debuggerHexEncode s) \<subseteq> set hexAlphabet"
proof (induction s)
  case (Cons c s)
  have "(of_char c :: nat) div 16 < 16" "(of_char c :: nat) mod 16 < 16"
      using less_mult_imp_div_less [of "of_char c" 16 16] of_char_256 [of c] by simp_all
  with Cons show ?case using hex_digit by (simp add: debuggerHexEncode_def Let_def)
qed (simp add: debuggerHexEncode_def)

lemma int_chars: "set (print_int i) \<subseteq> set ''-0123456789''"
proof -
  have d: "set (decimal_digits n) \<subseteq> set ''0123456789''" for n
    using decimal_digits_ok(1) [of n] unfolding list_all_iff isdigit_def by blast
  have "set ''0123456789'' \<subseteq> set ''-0123456789''" "set ''-'' \<subseteq> set ''-0123456789''" by simp_all
  then show ?thesis using d unfolding print_int_def set_append if_split [of "\<lambda>x. set x \<subseteq> _"] by (meson Un_least subset_trans)
qed

lemma parse_print_int:
  assumes "- (2 ^ 31) \<le> i" "i < 2 ^ 31" shows "parseBentoInt (print_int i) = Some i"
proof -
  have "NUL \<notin> set ''-0123456789''" by simp
  then have "NUL \<notin> set (print_int i)" using int_chars [of i] by blast
  then have "c_str (print_int i) = print_int i" by (simp add: c_str_def takeWhile_other)
  moreover have "print_int i \<noteq> []" using decimal_digits_ok(2) by (simp add: print_int_def)
  ultimately show ?thesis using strtol_print [of i] assms by (simp add: parseBentoInt_def)
qed

lemma parse_int_range: "parseBentoInt t = Some i \<Longrightarrow> - (2 ^ 31) \<le> i \<and> i < 2 ^ 31"
  by (auto simp: parseBentoInt_def Let_def split: prod.splits if_splits)

lemma parse_flag [simp]: "parseFlag (print_flag b) = Some b"
  using parse_print_int [of 1] parse_print_int [of 0] by (simp add: parseFlag_def print_flag_def)

subsection \<open>The round trip of the debugger configuration\<close>

lemma hex_no [simp]: "d \<notin> set hexAlphabet \<Longrightarrow> d \<notin> set (debuggerHexEncode s)"
  using hex_chars by blast

lemma int_no [simp]: "d \<notin> set ''-0123456789'' \<Longrightarrow> d \<notin> set (print_int i)"
  using int_chars by blast

lemma flag_no [simp]: "d \<notin> set ''-0123456789'' \<Longrightarrow> d \<notin> set (print_flag b)"
  unfolding print_flag_def by (rule int_no)

lemma delimiters [simp]:
  "CHR '':'' \<notin> set hexAlphabet" "CHR ''.'' \<notin> set hexAlphabet" "CHR '','' \<notin> set hexAlphabet"
  by (simp_all add: hexAlphabet_def)

definition breakpoint_ok :: "MRMacroDebuggerWorkspaceBreakpoint \<Rightarrow> bool" where
  "breakpoint_ok b \<longleftrightarrow> mb_macroKey b \<noteq> [] \<and> 0 < mb_line b \<and> mb_line b < 2 ^ 31"

definition watch_ok :: "MRMacroDebuggerWorkspaceWatch \<Rightarrow> bool" where
  "watch_ok w \<longleftrightarrow> mw_expression w \<noteq> []"

definition configuration_ok :: "MRMacroDebuggerWorkspaceConfiguration \<Rightarrow> bool" where
  "configuration_ok c \<longleftrightarrow> mc_macroKey c \<noteq> [] \<and> list_all breakpoint_ok (mc_breakpoints c) \<and> list_all watch_ok (mc_watches c)"

lemma breakpoint_parts:
  "encodeBreakpoint b = joinParts (CHR '':'') [debuggerHexEncode (mb_macroKey b), debuggerHexEncode (mb_sourceIdentity b),
     print_int (mb_line b), print_flag (mb_enabled b), debuggerHexEncode (mb_conditionText b)]"
  by (simp add: encodeBreakpoint_def)

lemma watch_parts: "encodeWatch w = joinParts (CHR '':'') [debuggerHexEncode (mw_expression w), print_flag (mw_enabled w)]"
  by (simp add: encodeWatch_def)

lemma parse_breakpoint: "breakpoint_ok b \<Longrightarrow> parseBreakpoint False (encodeBreakpoint b) = Some b"
  unfolding parseBreakpoint_def breakpoint_parts
  by (subst split_join) (simp_all add: breakpoint_ok_def hex_round_trip parse_print_int)

lemma parse_watch: "watch_ok w \<Longrightarrow> parseWatch (encodeWatch w) = Some w"
  unfolding parseWatch_def watch_parts by (subst split_join) (simp_all add: watch_ok_def hex_round_trip)

lemma parseBreakpoint_ok: "parseBreakpoint legacy e = Some b \<Longrightarrow> breakpoint_ok b"
  by (auto simp: parseBreakpoint_def Let_def breakpoint_ok_def bind_eq_Some_conv dest: parse_int_range split: if_splits)

lemma parseWatch_ok: "parseWatch e = Some w \<Longrightarrow> watch_ok w"
  by (auto simp: parseWatch_def Let_def watch_ok_def bind_eq_Some_conv split: if_splits)

lemma parseAll_ok: "parseAll p es = Some xs \<Longrightarrow> (\<And>e x. p e = Some x \<Longrightarrow> ok x) \<Longrightarrow> list_all ok xs"
  by (induction es arbitrary: xs) (auto simp: bind_eq_Some_conv)

lemma parseField_ok: "parseField p f = Some xs \<Longrightarrow> (\<And>e x. p e = Some x \<Longrightarrow> ok x) \<Longrightarrow> list_all ok xs"
  unfolding parseField_def by (cases "f = []") (simp_all add: parseAll_ok [of p _ xs ok])

lemma parseAll_map: "(\<And>x. x \<in> set xs \<Longrightarrow> p (e x) = Some x) \<Longrightarrow> parseAll p (map e xs) = Some xs"
  by (induction xs) simp_all

lemma parse_field:
  assumes "\<And>x. x \<in> set xs \<Longrightarrow> p (e x) = Some x" "\<And>x. CHR ''.'' \<notin> set (e x)" "\<And>x. e x \<noteq> []"
  shows "parseField p (joinParts (CHR ''.'') (map e xs)) = Some xs"
proof -
  have n: "map e xs \<noteq> [[]]" using assms(3) by auto
  have "splitBentoToken (joinParts (CHR ''.'') (map e xs)) (CHR ''.'') = map e xs"
    by (rule split_join) (use assms(2) n in \<open>auto simp: list_all_iff\<close>)
  then show ?thesis using n parseAll_map [OF assms(1)] by (auto simp: parseField_def joinParts_Nil_iff)
qed

lemma entries [simp]:
  "CHR ''.'' \<notin> set (encodeBreakpoint b)" "encodeBreakpoint b \<noteq> []" "CHR ''.'' \<notin> set (encodeWatch w)" "encodeWatch w \<noteq> []"
  "CHR '','' \<notin> set (encodeBreakpoint b)" "CHR '','' \<notin> set (encodeWatch w)"
  by (simp_all add: encodeBreakpoint_def encodeWatch_def)

lemma join_no_comma: "(\<And>x. CHR '','' \<notin> set (e x)) \<Longrightarrow> CHR '','' \<notin> set (joinParts (CHR ''.'') (map e xs))"
  using joinParts_set [of "CHR ''.''" "map e xs"] by auto

lemma configuration_fields:
  "splitBentoToken (encodeMacroDebuggerConfiguration c) (CHR '','') =
     [''v2'', ''k:'' @ debuggerHexEncode (mc_macroKey c), ''n:'' @ debuggerHexEncode (mc_macroName c),
      ''i:'' @ debuggerHexEncode (mc_sourceIdentity c), ''p:'' @ debuggerHexEncode (mc_sourcePath c),
      ''b:'' @ joinParts (CHR ''.'') (map encodeBreakpoint (mc_breakpoints c)), ''w:'' @ joinParts (CHR ''.'') (map encodeWatch (mc_watches c))]"
  (is "_ = ?fields")
proof -
  have e: "encodeMacroDebuggerConfiguration c = joinParts (CHR '','') ?fields" by (simp add: encodeMacroDebuggerConfiguration_def)
  show ?thesis unfolding e by (rule split_join) (simp_all add: join_no_comma)
qed

lemma configuration_parsed: "configuration_ok c \<Longrightarrow> parseMacroDebuggerConfiguration (encodeMacroDebuggerConfiguration c) = Some c"
  unfolding parseMacroDebuggerConfiguration_def configuration_fields
  by (simp add: configuration_ok_def list_all_iff beginsWith_def hex_round_trip parse_field parse_breakpoint parse_watch)

lemma configuration_sound: "parseMacroDebuggerConfiguration t = Some c \<Longrightarrow> configuration_ok c"
  by (auto simp: parseMacroDebuggerConfiguration_def Let_def configuration_ok_def bind_eq_Some_conv split: if_splits
      intro: parseField_ok parseBreakpoint_ok parseWatch_ok)

end
