(* ===== verification/Bento_Workspace.thy ===== *)
theory Bento_Workspace
  imports Workspace_Codec
begin

text \<open>
  The layout of a tiled window in a workspace file (\<open>src/app/commands/MRBentoWorkspaceCodec.cpp\<close>, with the
  pane roles of \<open>src/ui/MRBentoBox/MRBentoBoxRoleSupport.cpp\<close>): a vector of nodes that refer to each other by
  index, checked, freed of duplicate panes and renumbered when it is read. The specification is a binary
  tree; the canonical vector of a tree is its postorder.

  The enumerations for modes and roles are their integers here, as the codec casts between the two and the
  roles 12 to 27 have no names. Sizes of vectors are taken to fit an \<open>int\<close>.
\<close>

subsection \<open>Pane roles\<close>

type_synonym MRBentoPaneRole = int

record BentoPaneRoleDescriptor =
  rd_role :: MRBentoPaneRole
  rd_title :: string
  rd_listed :: bool
  rd_multipleInstances :: bool

definition role_row :: "int \<Rightarrow> string \<Rightarrow> bool \<Rightarrow> bool \<Rightarrow> BentoPaneRoleDescriptor" where
  "role_row role t listed multiple = \<lparr>rd_role = role, rd_title = t, rd_listed = listed, rd_multipleInstances = multiple\<rparr>"

definition kPaneRoles :: "BentoPaneRoleDescriptor list" where
  "kPaneRoles =
     [role_row 0 ''Source'' False False, role_row 1 ''Compiler Output'' True False, role_row 2 ''App Output'' True False,
      role_row 3 ''Problems'' True False, role_row 4 ''Debugger Output'' True False, role_row 5 ''Watches'' True False,
      role_row 6 ''Variables'' True False, role_row 7 ''Structure'' True False, role_row 8 ''Functions'' True False,
      role_row 9 ''Split editor'' True True, role_row 10 ''Diff Original'' True False, role_row 11 ''Diff Compare'' True False,
      role_row 28 ''Program Terminal'' True False]"

definition paneRoleTitle :: "MRBentoPaneRole \<Rightarrow> string" where
  "paneRoleTitle role = (case find (\<lambda>d. rd_role d = role) kPaneRoles of Some d \<Rightarrow> rd_title d | None \<Rightarrow> ''Pane'')"

definition paneRoleAllowsMultipleInstances :: "MRBentoPaneRole \<Rightarrow> bool" where
  "paneRoleAllowsMultipleInstances role = (case find (\<lambda>d. rd_role d = role) kPaneRoles of Some d \<Rightarrow> rd_multipleInstances d | None \<Rightarrow> False)"

definition paneRoleIsDiff :: "MRBentoPaneRole \<Rightarrow> bool" where
  "paneRoleIsDiff role \<longleftrightarrow> role = 10 \<or> role = 11"

definition paneRoleForTitle :: "string \<Rightarrow> MRBentoPaneRole" where
  "paneRoleForTitle t = (case find (\<lambda>d. rd_listed d \<and> t = rd_title d) kPaneRoles of Some d \<Rightarrow> rd_role d | None \<Rightarrow> 1)"

definition paneRoleChoices :: "int \<Rightarrow> string list" where
  "paneRoleChoices mode =
     map rd_title (filter (\<lambda>d. rd_listed d \<and> \<not> (mode = 2 \<and> \<not> paneRoleIsDiff (rd_role d)) \<and> \<not> (mode \<noteq> 2 \<and> paneRoleIsDiff (rd_role d))) kPaneRoles)"

definition paneRoleIsOutline :: "MRBentoPaneRole \<Rightarrow> bool" where
  "paneRoleIsOutline role \<longleftrightarrow> role = 7 \<or> role = 8"

text \<open>The menu behind the title of a pane, by its name.\<close>

definition paneRoleTitleMenu :: "int \<Rightarrow> string option" where
  "paneRoleTitleMenu mode = (if mode = 1 then None else Some ''role'')"

datatype MRBentoPanePlacement = BppReplace | BppSplitRight | BppSplitDown

record BentoPaneActionDescriptor =
  ad_action :: string
  ad_placement :: MRBentoPanePlacement

definition paneActionReplace :: string where
  "paneActionReplace = ''replace''"

definition kPaneActionSplitRight :: string where
  "kPaneActionSplitRight = ''split '' @ [CHR 0xC4]"

definition kPaneActionSplitDown :: string where
  "kPaneActionSplitDown = ''split '' @ [CHR 0xB3]"

definition fileCompareActionNext :: string where
  "fileCompareActionNext = ''next diff''"

definition fileCompareActionPrevious :: string where
  "fileCompareActionPrevious = ''prev diff''"

definition fileCompareActionApply :: string where
  "fileCompareActionApply = ''apply diff''"

definition kPaneActions :: "BentoPaneActionDescriptor list" where
  "kPaneActions =
     [\<lparr>ad_action = paneActionReplace, ad_placement = BppReplace\<rparr>, \<lparr>ad_action = kPaneActionSplitRight, ad_placement = BppSplitDown\<rparr>,
      \<lparr>ad_action = kPaneActionSplitDown, ad_placement = BppSplitRight\<rparr>]"

definition paneActionChoices :: "string list" where
  "paneActionChoices = map ad_action kPaneActions"

definition panePlacementForAction :: "string \<Rightarrow> MRBentoPanePlacement" where
  "panePlacementForAction action = (case find (\<lambda>d. action = ad_action d) kPaneActions of Some d \<Rightarrow> ad_placement d | None \<Rightarrow> BppReplace)"

text \<open>A role or action that was chosen from a menu is the one the menu listed.\<close>

lemma role_titles:
  "list_all (\<lambda>d. paneRoleTitle (rd_role d) = rd_title d \<and> (rd_listed d \<longrightarrow> paneRoleForTitle (rd_title d) = rd_role d)) kPaneRoles"
  by code_simp

lemma action_titles: "map panePlacementForAction paneActionChoices = map ad_placement kPaneActions"
  by code_simp

lemma role_choices: "list_all (\<lambda>t. paneRoleIsDiff (paneRoleForTitle t) = (mode = 2)) (paneRoleChoices mode)"
proof (cases "mode = 2")
  case True
  have "list_all (\<lambda>t. paneRoleIsDiff (paneRoleForTitle t)) (paneRoleChoices 2)" by code_simp
  then show ?thesis using True by simp
next
  case False
  have "paneRoleChoices mode = paneRoleChoices 0" using False by (simp add: paneRoleChoices_def)
  moreover have "list_all (\<lambda>t. \<not> paneRoleIsDiff (paneRoleForTitle t)) (paneRoleChoices 0)" by code_simp
  ultimately show ?thesis using False by simp
qed

definition bpwFoldGutter :: "32 word" where
  "bpwFoldGutter = 1"

definition bpwMiniMap :: "32 word" where
  "bpwMiniMap = 2"

unbundle bit_operations_syntax

definition defaultWidgetMask :: "MRBentoPaneRole \<Rightarrow> 32 word" where
  "defaultWidgetMask role = (if role = 0 \<or> role = 9 then bpwFoldGutter OR bpwMiniMap else if role = 11 then bpwMiniMap else 0)"

definition widgetMaskIsValid :: "32 word \<Rightarrow> bool" where
  "widgetMaskIsValid m \<longleftrightarrow> m AND NOT (bpwFoldGutter OR bpwMiniMap) = 0"

subsection \<open>Snapshots\<close>

record MRBentoWorkspaceNode =
  wn_kind :: int
  wn_orientation :: int
  wn_dividerPosition :: int
  wn_firstChild :: int
  wn_secondChild :: int
  wn_leafId :: int

record MRBentoWorkspaceLeaf =
  wl_id :: int
  wl_role :: MRBentoPaneRole
  wl_visible :: bool
  wl_widgetMask :: "32 word"

record MRBentoWorkspaceSnapshot =
  ws_mode :: int
  ws_rootNode :: int
  ws_activeLeafId :: int
  ws_maximizedLeafId :: int
  ws_nodes :: "MRBentoWorkspaceNode list"
  ws_leaves :: "MRBentoWorkspaceLeaf list"

record DroppedBentoPane =
  dp_leafId :: int
  dp_keeperLeafId :: int
  dp_role :: MRBentoPaneRole

definition bentoLeafForId :: "MRBentoWorkspaceSnapshot \<Rightarrow> int \<Rightarrow> MRBentoWorkspaceLeaf option" where
  "bentoLeafForId snapshot leafId = find (\<lambda>leaf. wl_id leaf = leafId) (ws_leaves snapshot)"

definition containsBentoLeafId :: "int list \<Rightarrow> int \<Rightarrow> bool" where
  "containsBentoLeafId leafIds leafId = list_ex (\<lambda>known. known = leafId) leafIds"

definition droppedBentoPaneForLeaf :: "DroppedBentoPane list \<Rightarrow> int \<Rightarrow> DroppedBentoPane option" where
  "droppedBentoPaneForLeaf droppedPanes leafId = find (\<lambda>dropped. dp_leafId dropped = leafId) droppedPanes"

subsection \<open>The reachable layout\<close>

text \<open>
  One turn of the loop: the indices to push and the panes found. The flags of the visited nodes are the set of the flagged indices; the back of the stack is the head of the list.
\<close>

definition visitNode :: "MRBentoWorkspaceSnapshot \<Rightarrow> int set \<Rightarrow> int \<Rightarrow> int list \<Rightarrow> (int list \<times> int list) option" where
  "visitNode snapshot visited nodeIndex reachableLeafIds =
     (if nodeIndex < 0 \<or> nodeIndex \<ge> int (length (ws_nodes snapshot)) then None
      else if nodeIndex \<in> visited then None
      else
        (let node = ws_nodes snapshot ! nat nodeIndex in
         if wn_kind node = 0 then
           (if bentoLeafForId snapshot (wn_leafId node) = None \<or> containsBentoLeafId reachableLeafIds (wn_leafId node) then None
            else Some ([], reachableLeafIds @ [wn_leafId node]))
         else if wn_kind node \<noteq> 1 \<or> wn_orientation node \<noteq> 0 \<and> wn_orientation node \<noteq> 1 then None
         else if wn_firstChild node = nodeIndex \<or> wn_secondChild node = nodeIndex then None
         else Some ([wn_firstChild node, wn_secondChild node], reachableLeafIds)))"

text \<open>Each node is visited at most once, and leaves at most two indices more on the stack.\<close>

lemma visitNode_bound:
  assumes "visitNode s V i r = Some (push, r')"
  shows "0 \<le> i \<and> i < int (length (ws_nodes s)) \<and> i \<notin> V \<and> length push \<le> 2"
  using assms by (auto simp: visitNode_def Let_def split: if_splits)

lemma unvisited_decreases:
  fixes n i :: int
  assumes "0 \<le> i" "i < n" "i \<notin> V"
  shows "card ({0..<n} - insert i V) < card ({0..<n} - V)"
proof -
  have "{0..<n} - insert i V = ({0..<n} - V) - {i}" by blast
  then show ?thesis using assms by (simp only:) (rule card_Diff1_less; simp)
qed

function collect_loop :: "MRBentoWorkspaceSnapshot \<Rightarrow> int set \<Rightarrow> int list \<Rightarrow> int list \<Rightarrow> int list option" where
  "collect_loop snapshot visited stack reachableLeafIds =
     (case stack of
        [] \<Rightarrow> (if reachableLeafIds \<noteq> [] then Some reachableLeafIds else None)
      | nodeIndex # stack \<Rightarrow>
          (case visitNode snapshot visited nodeIndex reachableLeafIds of
             None \<Rightarrow> None
           | Some (children, reachableLeafIds) \<Rightarrow> collect_loop snapshot (insert nodeIndex visited) (children @ stack) reachableLeafIds))"
  by pat_completeness auto
termination
proof (relation "measure (\<lambda>(s, V, st, r). 2 * card ({0..<int (length (ws_nodes s))} - V) + length st)", goal_cases)
  case (2 s V st0 r i st v push r')
  then have v: "visitNode s V i r = Some (push, r')" by simp
  show ?case using visitNode_bound [OF v] unvisited_decreases [of i "int (length (ws_nodes s))" V] 2 by simp
qed simp

declare collect_loop.simps [simp del]

definition collectReachableBentoLayout :: "MRBentoWorkspaceSnapshot \<Rightarrow> int list option" where
  "collectReachableBentoLayout snapshot =
     (if ws_rootNode snapshot < 0 \<or> ws_rootNode snapshot \<ge> int (length (ws_nodes snapshot)) then None
      else collect_loop snapshot {} [ws_rootNode snapshot] [])"

subsection \<open>The canonical copy\<close>

text \<open>
  The recursion follows the indices of the source, which the function does not check: an index outside of it
  and a cycle are \<open>None\<close>. The check before it excludes both.
\<close>

partial_function (option) cloneCanonicalBentoNode ::
  "MRBentoWorkspaceNode list \<Rightarrow> DroppedBentoPane list \<Rightarrow> int \<Rightarrow> MRBentoWorkspaceNode list \<Rightarrow> (int \<times> MRBentoWorkspaceNode list) option" where
  "cloneCanonicalBentoNode source droppedPanes nodeIndex nodes =
     (if nodeIndex < 0 \<or> nodeIndex \<ge> int (length source) then None
      else if wn_kind (source ! nat nodeIndex) = 0 then
        (if droppedBentoPaneForLeaf droppedPanes (wn_leafId (source ! nat nodeIndex)) \<noteq> None then Some (- 1, nodes)
         else Some (int (length nodes), nodes @ [(source ! nat nodeIndex)\<lparr>wn_firstChild := - 1, wn_secondChild := - 1\<rparr>]))
      else
        do {
          (firstChild, nodes1) \<leftarrow> cloneCanonicalBentoNode source droppedPanes (wn_firstChild (source ! nat nodeIndex)) nodes;
          (secondChild, nodes2) \<leftarrow> cloneCanonicalBentoNode source droppedPanes (wn_secondChild (source ! nat nodeIndex)) nodes1;
          if firstChild < 0 then Some (secondChild, nodes2)
          else if secondChild < 0 then Some (firstChild, nodes2)
          else Some (int (length nodes2),
                 nodes2 @ [(source ! nat nodeIndex)\<lparr>wn_firstChild := firstChild, wn_secondChild := secondChild, wn_leafId := - 1\<rparr>])
        })"

text \<open>The panes to drop: a reachable pane whose role is taken by an earlier one and allowed only once.\<close>

fun dropped_loop :: "int list \<Rightarrow> MRBentoWorkspaceLeaf list \<Rightarrow> MRBentoWorkspaceLeaf list \<Rightarrow> DroppedBentoPane list \<Rightarrow> DroppedBentoPane list" where
  "dropped_loop reachableLeafIds [] keepers droppedPanes = droppedPanes"
| "dropped_loop reachableLeafIds (leaf # leaves) keepers droppedPanes =
     (if \<not> containsBentoLeafId reachableLeafIds (wl_id leaf) \<or> paneRoleAllowsMultipleInstances (wl_role leaf)
      then dropped_loop reachableLeafIds leaves keepers droppedPanes
      else
        (case find (\<lambda>known. wl_role known = wl_role leaf) keepers of
           None \<Rightarrow> dropped_loop reachableLeafIds leaves (keepers @ [leaf]) droppedPanes
         | Some keeper \<Rightarrow>
             dropped_loop reachableLeafIds leaves keepers
               (droppedPanes @ [\<lparr>dp_leafId = wl_id leaf, dp_keeperLeafId = wl_id keeper, dp_role = wl_role leaf\<rparr>])))"

definition dropMessage :: "DroppedBentoPane \<Rightarrow> string" where
  "dropMessage dropped = ''Workspace bootstrap dropped duplicate Bento pane role='' @ paneRoleTitle (dp_role dropped) @ '' leaf=''
     @ print_int (dp_leafId dropped) @ '' keeper='' @ print_int (dp_keeperLeafId dropped) @ ''.''"

text \<open>An id of the source after the panes were dropped, or the fallback when it is not among them.\<close>

definition keptLeafId :: "int list \<Rightarrow> DroppedBentoPane list \<Rightarrow> int \<Rightarrow> int \<Rightarrow> int" where
  "keptLeafId reachableLeafIds droppedPanes fallback leafId =
     (let leafId1 = (case droppedBentoPaneForLeaf droppedPanes leafId of Some dropped \<Rightarrow> dp_keeperLeafId dropped | None \<Rightarrow> leafId) in
      if \<not> containsBentoLeafId reachableLeafIds leafId1 \<or> droppedBentoPaneForLeaf droppedPanes leafId1 \<noteq> None then fallback else leafId1)"

definition normalizeBentoSnapshotForBootstrap :: "MRBentoWorkspaceSnapshot \<Rightarrow> (MRBentoWorkspaceSnapshot \<times> string list) option" where
  "normalizeBentoSnapshotForBootstrap snapshot =
     (if \<not> distinct (map wl_id (ws_leaves snapshot)) then None
      else do {
        reachableLeafIds \<leftarrow> collectReachableBentoLayout snapshot;
        let droppedPanes = dropped_loop reachableLeafIds (ws_leaves snapshot) [] [];
        (rootNode, nodes) \<leftarrow> cloneCanonicalBentoNode (ws_nodes snapshot) droppedPanes (ws_rootNode snapshot) [];
        if rootNode < 0 then None
        else
          Some (\<lparr>ws_mode = ws_mode snapshot, ws_rootNode = rootNode,
                  ws_activeLeafId = keptLeafId reachableLeafIds droppedPanes 0 (ws_activeLeafId snapshot),
                  ws_maximizedLeafId = keptLeafId reachableLeafIds droppedPanes (- 1) (ws_maximizedLeafId snapshot),
                  ws_nodes = nodes,
                  ws_leaves = filter (\<lambda>leaf. containsBentoLeafId reachableLeafIds (wl_id leaf) \<and> droppedBentoPaneForLeaf droppedPanes (wl_id leaf) = None)
                                (ws_leaves snapshot)\<rparr>,
                map dropMessage droppedPanes)
      })"

subsection \<open>The token of a snapshot\<close>

definition encodeNode :: "MRBentoWorkspaceNode \<Rightarrow> string" where
  "encodeNode node = print_int (wn_kind node) @ '':'' @ print_int (wn_orientation node) @ '':'' @ print_int (wn_dividerPosition node) @ '':''
     @ print_int (wn_firstChild node) @ '':'' @ print_int (wn_secondChild node) @ '':'' @ print_int (wn_leafId node)"

definition encodeLeaf :: "MRBentoWorkspaceLeaf \<Rightarrow> string" where
  "encodeLeaf leaf = print_int (wl_id leaf) @ '':'' @ print_int (wl_role leaf) @ '':'' @ print_flag (wl_visible leaf) @ '':''
     @ print_int (uint (wl_widgetMask leaf))"

definition encodeBentoSnapshot :: "MRBentoWorkspaceSnapshot \<Rightarrow> string" where
  "encodeBentoSnapshot snapshot =
     ''v1.6'' @ '',m:'' @ print_int (ws_mode snapshot) @ '',r:'' @ print_int (ws_rootNode snapshot)
       @ '',a:'' @ print_int (ws_activeLeafId snapshot) @ '',x:'' @ print_int (ws_maximizedLeafId snapshot)
       @ '',n:'' @ joinParts (CHR ''.'') (map encodeNode (ws_nodes snapshot))
       @ '',l:'' @ joinParts (CHR ''.'') (map encodeLeaf (ws_leaves snapshot))"

definition parseNode :: "string \<Rightarrow> MRBentoWorkspaceNode option" where
  "parseNode nodeText =
     (let values = splitBentoToken nodeText (CHR '':'') in
      if length values \<noteq> 6 then None
      else do {
        kind \<leftarrow> parseBentoInt (values ! 0);
        orientation \<leftarrow> parseBentoInt (values ! 1);
        dividerPosition \<leftarrow> parseBentoInt (values ! 2);
        firstChild \<leftarrow> parseBentoInt (values ! 3);
        secondChild \<leftarrow> parseBentoInt (values ! 4);
        leafId \<leftarrow> parseBentoInt (values ! 5);
        Some \<lparr>wn_kind = kind, wn_orientation = orientation, wn_dividerPosition = dividerPosition, wn_firstChild = firstChild,
               wn_secondChild = secondChild, wn_leafId = leafId\<rparr>
      })"

definition parseLeaf :: "bool \<Rightarrow> bool \<Rightarrow> string \<Rightarrow> MRBentoWorkspaceLeaf option" where
  "parseLeaf hasWidgetMask hasProgramTerminal leafText =
     (let values = splitBentoToken leafText (CHR '':'') in
      if length values \<noteq> (if hasWidgetMask then 4 else 3) then None
      else do {
        leafId \<leftarrow> parseBentoInt (values ! 0);
        role \<leftarrow> parseBentoInt (values ! 1);
        visible \<leftarrow> parseBentoInt (values ! 2);
        if role < 0 \<or> role > 27 \<and> \<not> (hasProgramTerminal \<and> role = 28) \<or> visible \<noteq> 0 \<and> visible \<noteq> 1 then None
        else do {
          widgetMask \<leftarrow> (if hasWidgetMask then
              (case parseBentoInt (values ! 3) of
                 None \<Rightarrow> None
               | Some m \<Rightarrow> if m < 0 \<or> \<not> widgetMaskIsValid (word_of_int m) then None else Some (word_of_int m))
            else Some (defaultWidgetMask role));
          Some \<lparr>wl_id = leafId, wl_role = role, wl_visible = (visible \<noteq> 0), wl_widgetMask = widgetMask\<rparr>
        }
      })"

definition parseBentoSnapshot :: "string \<Rightarrow> (MRBentoWorkspaceSnapshot \<times> string list) option" where
  "parseBentoSnapshot token =
     (let fields = splitBentoToken token (CHR '','') in
      if length fields \<noteq> 7 then None
      else
        (let hasWidgetMask = (fields ! 0 = ''v1.5'' \<or> fields ! 0 = ''v1.6''); hasProgramTerminal = (fields ! 0 = ''v1.6'') in
         if \<not> hasWidgetMask \<and> fields ! 0 \<noteq> ''v1'' then None
         else do {
           mode \<leftarrow> parseBentoPrefixedInt (fields ! 1) ''m:'';
           rootNode \<leftarrow> parseBentoPrefixedInt (fields ! 2) ''r:'';
           activeLeafId \<leftarrow> parseBentoPrefixedInt (fields ! 3) ''a:'';
           maximizedLeafId \<leftarrow> parseBentoPrefixedInt (fields ! 4) ''x:'';
           if mode < 0 \<or> mode > 2 then None
           else if \<not> beginsWith (fields ! 5) ''n:'' \<or> \<not> beginsWith (fields ! 6) ''l:'' then None
           else do {
             nodes \<leftarrow> parseAll parseNode (splitBentoToken (drop 2 (fields ! 5)) (CHR ''.''));
             leaves \<leftarrow> parseAll (parseLeaf hasWidgetMask hasProgramTerminal) (splitBentoToken (drop 2 (fields ! 6)) (CHR ''.''));
             if nodes = [] \<or> leaves = [] then None
             else normalizeBentoSnapshotForBootstrap
                    \<lparr>ws_mode = mode, ws_rootNode = rootNode, ws_activeLeafId = activeLeafId, ws_maximizedLeafId = maximizedLeafId,
                     ws_nodes = nodes, ws_leaves = leaves\<rparr>
           }
         }))"

subsection \<open>Layouts as trees\<close>

datatype layout_tree = PaneT int int int | SplitT int int layout_tree layout_tree

primrec tree_size :: "layout_tree \<Rightarrow> nat" where
  "tree_size (PaneT o1 d l) = 1"
| "tree_size (SplitT o1 d a b) = tree_size a + tree_size b + 1"

primrec tree_leaves :: "layout_tree \<Rightarrow> int list" where
  "tree_leaves (PaneT o1 d l) = [l]"
| "tree_leaves (SplitT o1 d a b) = tree_leaves a @ tree_leaves b"

text \<open>The node at an index is the root of a tree; the last argument lists the indices of its nodes.\<close>

inductive layout :: "MRBentoWorkspaceNode list \<Rightarrow> int \<Rightarrow> layout_tree \<Rightarrow> int list \<Rightarrow> bool" for ns where
  pane: "0 \<le> i \<Longrightarrow> i < int (length ns) \<Longrightarrow> n = ns ! nat i \<Longrightarrow> wn_kind n = 0
    \<Longrightarrow> layout ns i (PaneT (wn_orientation n) (wn_dividerPosition n) (wn_leafId n)) [i]"
| split: "0 \<le> i \<Longrightarrow> i < int (length ns) \<Longrightarrow> n = ns ! nat i \<Longrightarrow> wn_kind n = 1 \<Longrightarrow> wn_orientation n = 0 \<or> wn_orientation n = 1
    \<Longrightarrow> layout ns (wn_firstChild n) a is \<Longrightarrow> layout ns (wn_secondChild n) b js
    \<Longrightarrow> layout ns i (SplitT (wn_orientation n) (wn_dividerPosition n) a b) (i # is @ js)"

lemma layout_root: "layout ns i T is \<Longrightarrow> i \<in> set is"
  by (induction rule: layout.induct) simp_all

lemma tree_size_pos [simp]: "0 < tree_size T"
  by (cases T) simp_all

lemma tree_size_not [simp]: "\<not> int k + int (tree_size T) < 1"
  using tree_size_pos [of T] by linarith

lemma tree_leaves_nonempty [simp]: "tree_leaves T \<noteq> []"
  by (induction T) simp_all

lemma contains_iff [simp]: "containsBentoLeafId ids i \<longleftrightarrow> i \<in> set ids"
  by (induction ids) (auto simp: containsBentoLeafId_def)

lemma leafForId_None [simp]: "bentoLeafForId s i = None \<longleftrightarrow> i \<notin> wl_id ` set (ws_leaves s)"
  by (auto simp: bentoLeafForId_def find_None_iff)

lemma dropped_None: "droppedBentoPaneForLeaf D i = None \<longleftrightarrow> i \<notin> dp_leafId ` set D"
  by (auto simp: droppedBentoPaneForLeaf_def find_None_iff)

lemma reachable_sound:
  assumes "collect_loop s V st R = Some R'"
  shows "\<exists>Ts. list_all2 (\<lambda>i T. \<exists>is. layout (ws_nodes s) i T is) st Ts \<and> R' = R @ concat (map tree_leaves Ts)
    \<and> (distinct R \<longrightarrow> distinct R') \<and> set R' \<subseteq> set R \<union> wl_id ` set (ws_leaves s) \<and> R' \<noteq> []"
  using assms
proof (induction s V st R rule: collect_loop.induct)
  case (1 s V st R)
  show ?case
  proof (cases st)
    case Nil
    then show ?thesis using "1.prems" by (auto simp: collect_loop.simps split: if_splits)
  next
    case (Cons i st')
    then obtain ch R1 where v: "visitNode s V i R = Some (ch, R1)" and
        c: "collect_loop s (insert i V) (ch @ st') R1 = Some R'"
      using "1.prems" by (auto simp: Cons collect_loop.simps [of s V "i # st'" R] split: option.splits)
    obtain Ts where Ts: "list_all2 (\<lambda>i T. \<exists>is. layout (ws_nodes s) i T is) (ch @ st') Ts" "R' = R1 @ concat (map tree_leaves Ts)"
        "distinct R1 \<longrightarrow> distinct R'" "set R' \<subseteq> set R1 \<union> wl_id ` set (ws_leaves s)" "R' \<noteq> []"
      using "1.IH" [OF Cons v refl c] by blast
    let ?n = "ws_nodes s ! nat i"
    have i: "0 \<le> i" "i < int (length (ws_nodes s))" using visitNode_bound [OF v] by auto
    consider (pane) "wn_kind ?n = 0" "ch = []" "R1 = R @ [wn_leafId ?n]" "wn_leafId ?n \<notin> set R" "wn_leafId ?n \<in> wl_id ` set (ws_leaves s)"
      | (split) "wn_kind ?n = 1" "wn_orientation ?n = 0 \<or> wn_orientation ?n = 1" "ch = [wn_firstChild ?n, wn_secondChild ?n]" "R1 = R"
      using v by (auto simp: visitNode_def Let_def split: if_splits)
    then show ?thesis
    proof cases
      case pane
      then have "\<exists>is. layout (ws_nodes s) i (PaneT (wn_orientation ?n) (wn_dividerPosition ?n) (wn_leafId ?n)) is"
        using layout.pane [OF i refl] by blast
      then show ?thesis using Ts pane Cons
        by (intro exI [of _ "PaneT (wn_orientation ?n) (wn_dividerPosition ?n) (wn_leafId ?n) # Ts"]) auto
    next
      case split
      then obtain a b Ts' where ab: "Ts = a # b # Ts'" by (metis Ts(1) append_Cons append_Nil list_all2_Cons1)
      then have "\<exists>is. layout (ws_nodes s) i (SplitT (wn_orientation ?n) (wn_dividerPosition ?n) a b) is"
        using Ts(1) split(3) layout.split [OF i refl split(1,2), of a _ b] by fastforce
      then show ?thesis using Ts split Cons ab
        by (intro exI [of _ "SplitT (wn_orientation ?n) (wn_dividerPosition ?n) a b # Ts'"]) auto
    qed
  qed
qed

lemma collect_complete:
  assumes "layout (ws_nodes s) i T is" "distinct is" "set is \<inter> V = {}" "distinct (tree_leaves T)" "set (tree_leaves T) \<inter> set R = {}"
    "set (tree_leaves T) \<subseteq> wl_id ` set (ws_leaves s)"
  shows "collect_loop s V (i # st) R = collect_loop s (V \<union> set is) st (R @ tree_leaves T)"
  using assms
proof (induction arbitrary: V st R rule: layout.induct)
  case (pane i n)
  then have "visitNode s V i R = Some ([], R @ [wn_leafId n])" by (simp add: visitNode_def)
  then show ?case by (subst collect_loop.simps) simp
next
  case (split i n a "is" b js)
  have r: "wn_firstChild n \<noteq> i" "wn_secondChild n \<noteq> i" using split.prems(1) layout_root split.hyps by fastforce+
  then have v: "visitNode s V i R = Some ([wn_firstChild n, wn_secondChild n], R)" using split.hyps split.prems by (auto simp: visitNode_def Let_def)
  have "collect_loop s V (i # st) R = collect_loop s (insert i V) (wn_firstChild n # wn_secondChild n # st) R"
    by (subst collect_loop.simps) (simp add: v)
  also have "\<dots> = collect_loop s (insert i V \<union> set is) (wn_secondChild n # st) (R @ tree_leaves a)"
    by (rule split.IH(1)) (use split.prems in auto)
  also have "\<dots> = collect_loop s (insert i V \<union> set is \<union> set js) st ((R @ tree_leaves a) @ tree_leaves b)"
    by (rule split.IH(2)) (use split.prems in auto)
  finally show ?case by (simp add: Un_assoc)
qed

subsection \<open>The copy of a tree\<close>

fun prune :: "(int \<Rightarrow> bool) \<Rightarrow> layout_tree \<Rightarrow> layout_tree option" where
  "prune P (PaneT o1 d l) = (if P l then None else Some (PaneT o1 d l))"
| "prune P (SplitT o1 d a b) =
     (case (prune P a, prune P b) of
        (None, b') \<Rightarrow> b'
      | (Some a', None) \<Rightarrow> Some a'
      | (Some a', Some b') \<Rightarrow> Some (SplitT o1 d a' b'))"

text \<open>The vector of a tree whose first node has the index \<open>base\<close>.\<close>

primrec post :: "nat \<Rightarrow> layout_tree \<Rightarrow> MRBentoWorkspaceNode list" where
  "post base (PaneT o1 d l) =
     [\<lparr>wn_kind = 0, wn_orientation = o1, wn_dividerPosition = d, wn_firstChild = - 1, wn_secondChild = - 1, wn_leafId = l\<rparr>]"
| "post base (SplitT o1 d a b) = post base a @ post (base + tree_size a) b
     @ [\<lparr>wn_kind = 1, wn_orientation = o1, wn_dividerPosition = d, wn_firstChild = int (base + tree_size a) - 1,
         wn_secondChild = int (base + tree_size a + tree_size b) - 1, wn_leafId = - 1\<rparr>]"

lemma length_post [simp]: "length (post base T) = tree_size T"
  by (induction T arbitrary: base) simp_all

lemma clone_spec:
  assumes "layout ns i T is"
  shows "cloneCanonicalBentoNode ns D i nodes =
    Some (case prune (\<lambda>l. droppedBentoPaneForLeaf D l \<noteq> None) T of
            None \<Rightarrow> (- 1, nodes)
          | Some U \<Rightarrow> (int (length nodes + tree_size U) - 1, nodes @ post (length nodes) U))"
  using assms
proof (induction arbitrary: nodes rule: layout.induct)
  case (pane i n)
  then show ?case by (subst cloneCanonicalBentoNode.simps) simp
next
  case (split i n a "is" b js)
  let ?p = "prune (\<lambda>l. droppedBentoPaneForLeaf D l \<noteq> None)"
  note ih = split.IH [unfolded split.hyps(3)]
  from split.hyps show ?case
    by (subst cloneCanonicalBentoNode.simps, cases "?p a"; cases "?p b") (simp_all add: ih)
qed

lemma prune_leaves: "filter (\<lambda>l. \<not> P l) (tree_leaves T) = (case prune P T of None \<Rightarrow> [] | Some U \<Rightarrow> tree_leaves U)"
  by (induction T) (simp_all split: option.splits)

lemma prune_none: "(\<And>l. l \<in> set (tree_leaves T) \<Longrightarrow> \<not> P l) \<Longrightarrow> prune P T = Some T"
  by (induction T) auto

text \<open>What the fields of the nodes of a tree have in common; \<open>R\<close> is meant for ranges.\<close>

primrec tree_all :: "(int \<Rightarrow> bool) \<Rightarrow> layout_tree \<Rightarrow> bool" where
  "tree_all R (PaneT o1 d l) \<longleftrightarrow> R o1 \<and> R d \<and> R l"
| "tree_all R (SplitT o1 d a b) \<longleftrightarrow> R o1 \<and> R d \<and> (o1 = 0 \<or> o1 = 1) \<and> tree_all R a \<and> tree_all R b"

lemma prune_all: "prune P T = Some U \<Longrightarrow> tree_all R T \<Longrightarrow> tree_all R U"
  by (induction T arbitrary: U) (auto split: option.splits if_splits)

definition node_all :: "(int \<Rightarrow> bool) \<Rightarrow> MRBentoWorkspaceNode \<Rightarrow> bool" where
  "node_all R n \<longleftrightarrow> R (wn_kind n) \<and> R (wn_orientation n) \<and> R (wn_dividerPosition n) \<and> R (wn_firstChild n) \<and> R (wn_secondChild n) \<and> R (wn_leafId n)"

lemma layout_all: "layout ns i T is \<Longrightarrow> list_all (node_all R) ns \<Longrightarrow> tree_all R T"
  by (induction rule: layout.induct) (auto simp: list_all_length node_all_def)

lemma post_layout:
  assumes "tree_all R T"
  shows "\<exists>is. layout (xs @ post (length xs) T @ ys) (int (length xs + tree_size T) - 1) T is \<and> distinct is
    \<and> set is = {int (length xs)..<int (length xs + tree_size T)}"
  using assms
proof (induction T arbitrary: xs ys)
  case (PaneT o1 d l)
  let ?ns = "xs @ post (length xs) (PaneT o1 d l) @ ys"
  have "layout ?ns (int (length xs)) (PaneT o1 d l) [int (length xs)]"
    using layout.pane [of "int (length xs)" ?ns "?ns ! length xs"] by (simp add: nth_append)
  then show ?case by auto
next
  case (SplitT o1 d a b)
  let ?x = "length xs" let ?ns = "xs @ post ?x (SplitT o1 d a b) @ ys" let ?i = "?x + tree_size a + tree_size b"
  obtain "is" where a: "layout ?ns (int (?x + tree_size a) - 1) a is" "distinct is" "set is = {int ?x..<int (?x + tree_size a)}"
    using SplitT.IH(1) [of xs] SplitT.prems by force
  obtain js where b: "layout ?ns (int ?i - 1) b js" "distinct js" "set js = {int (?x + tree_size a)..<int ?i}"
    using SplitT.IH(2) [of "xs @ post ?x a"] SplitT.prems by force
  let ?n = "?ns ! ?i"
  have n: "?n = \<lparr>wn_kind = 1, wn_orientation = o1, wn_dividerPosition = d, wn_firstChild = int (?x + tree_size a) - 1,
         wn_secondChild = int ?i - 1, wn_leafId = - 1\<rparr>" by (simp add: nth_append)
  have "layout ?ns (int ?i) (SplitT (wn_orientation ?n) (wn_dividerPosition ?n) a b) (int ?i # is @ js)"
  proof (rule layout.split)
    show "?n = ?ns ! nat (int ?i)" by (simp only: nat_int)
  qed (use a(1) b(1) n SplitT.prems in simp_all)
  then have "layout ?ns (int ?i) (SplitT o1 d a b) (int ?i # is @ js)" by (simp only: n) simp
  moreover have "distinct (int ?i # is @ js)" "set (int ?i # is @ js) = {int ?x..<int (?x + tree_size (SplitT o1 d a b))}"
    using a(2,3) b(2,3) by auto
  moreover have "int (?x + tree_size (SplitT o1 d a b)) - 1 = int ?i" by simp
  ultimately show ?case by metis
qed

subsection \<open>Dropped panes\<close>

definition single :: "MRBentoWorkspaceLeaf \<Rightarrow> bool" where
  "single l \<longleftrightarrow> \<not> paneRoleAllowsMultipleInstances (wl_role l)"

lemma keepers_step:
  assumes "X \<subseteq> A \<union> B \<inter> R - C" "x \<notin> A" "x \<notin> B" "k \<in> A" "k \<notin> C"
  shows "insert k X \<subseteq> A \<union> insert x B \<inter> R - insert x C"
  using assms by blast

lemma dropped_spec:
  assumes "distinct (map wl_id ls)" "wl_id ` set K \<inter> wl_id ` set ls = {}"
  obtains E where "dropped_loop R ls K D = D @ E"
    "dp_leafId ` set E \<subseteq> wl_id ` set ls \<inter> set R"
    "dp_keeperLeafId ` set E \<subseteq> wl_id ` set K \<union> wl_id ` set ls \<inter> set R - dp_leafId ` set E"
    "distinct (map wl_role (filter (\<lambda>l. wl_id l \<in> set R \<and> wl_id l \<notin> dp_leafId ` set E \<and> single l) ls))"
    "\<forall>l\<in>set ls. wl_id l \<in> set R \<and> wl_id l \<notin> dp_leafId ` set E \<and> single l \<longrightarrow> wl_role l \<notin> wl_role ` set K"
proof -
  have "\<exists>E. dropped_loop R ls K D = D @ E
    \<and> dp_leafId ` set E \<subseteq> wl_id ` set ls \<inter> set R
    \<and> dp_keeperLeafId ` set E \<subseteq> wl_id ` set K \<union> wl_id ` set ls \<inter> set R - dp_leafId ` set E
    \<and> distinct (map wl_role (filter (\<lambda>l. wl_id l \<in> set R \<and> wl_id l \<notin> dp_leafId ` set E \<and> single l) ls))
    \<and> (\<forall>l\<in>set ls. wl_id l \<in> set R \<and> wl_id l \<notin> dp_leafId ` set E \<and> single l \<longrightarrow> wl_role l \<notin> wl_role ` set K)"
    using assms
  proof (induction ls arbitrary: K D)
    case (Cons l ls)
    show ?case
    proof (cases "wl_id l \<in> set R \<and> single l")
      case False
      then obtain E where "dropped_loop R (l # ls) K D = D @ E" "dp_leafId ` set E \<subseteq> wl_id ` set ls \<inter> set R"
          "dp_keeperLeafId ` set E \<subseteq> wl_id ` set K \<union> wl_id ` set ls \<inter> set R - dp_leafId ` set E"
          "distinct (map wl_role (filter (\<lambda>l. wl_id l \<in> set R \<and> wl_id l \<notin> dp_leafId ` set E \<and> single l) ls))"
          "\<forall>l\<in>set ls. wl_id l \<in> set R \<and> wl_id l \<notin> dp_leafId ` set E \<and> single l \<longrightarrow> wl_role l \<notin> wl_role ` set K"
        using Cons.IH [of K D] Cons.prems by (auto simp: single_def)
      then show ?thesis using False by (intro exI [of _ E]) auto
    next
      case True
      show ?thesis
      proof (cases "find (\<lambda>known. wl_role known = wl_role l) K")
        case None
        then have r: "wl_role l \<notin> wl_role ` set K" by (auto simp: find_None_iff)
        obtain E where E: "dropped_loop R (l # ls) K D = D @ E" "dp_leafId ` set E \<subseteq> wl_id ` set ls \<inter> set R"
            "dp_keeperLeafId ` set E \<subseteq> wl_id ` set (K @ [l]) \<union> wl_id ` set ls \<inter> set R - dp_leafId ` set E"
            "distinct (map wl_role (filter (\<lambda>l. wl_id l \<in> set R \<and> wl_id l \<notin> dp_leafId ` set E \<and> single l) ls))"
            "\<forall>m\<in>set ls. wl_id m \<in> set R \<and> wl_id m \<notin> dp_leafId ` set E \<and> single m \<longrightarrow> wl_role m \<notin> wl_role ` set (K @ [l])"
          using Cons.IH [of "K @ [l]" D] Cons.prems True None by (auto simp: single_def)
        have "wl_id l \<notin> dp_leafId ` set E" using E(2) Cons.prems by auto
        then show ?thesis using E r True by (intro exI [of _ E]) auto
      next
        case (Some k)
        then have k: "k \<in> set K" "wl_role k = wl_role l" by (auto simp: find_Some_iff)
        define e where "e = \<lparr>dp_leafId = wl_id l, dp_keeperLeafId = wl_id k, dp_role = wl_role l\<rparr>"
        obtain E where E: "dropped_loop R (l # ls) K D = (D @ [e]) @ E" "dp_leafId ` set E \<subseteq> wl_id ` set ls \<inter> set R"
            "dp_keeperLeafId ` set E \<subseteq> wl_id ` set K \<union> wl_id ` set ls \<inter> set R - dp_leafId ` set E"
            "distinct (map wl_role (filter (\<lambda>l. wl_id l \<in> set R \<and> wl_id l \<notin> dp_leafId ` set E \<and> single l) ls))"
            "\<forall>m\<in>set ls. wl_id m \<in> set R \<and> wl_id m \<notin> dp_leafId ` set E \<and> single m \<longrightarrow> wl_role m \<notin> wl_role ` set K"
          using Cons.IH [of K "D @ [e]"] Cons.prems True Some by (auto simp: single_def e_def)
        have ne: "wl_id x \<noteq> wl_id l" if "x \<in> set ls" for x using Cons.prems(1) that by (auto simp: image_iff)
        have f: "filter (\<lambda>m. wl_id m \<in> set R \<and> wl_id m \<notin> dp_leafId ` set (e # E) \<and> single m) (l # ls)
            = filter (\<lambda>m. wl_id m \<in> set R \<and> wl_id m \<notin> dp_leafId ` set E \<and> single m) ls"
          using ne by (auto simp: e_def intro!: filter_cong)
        have l: "wl_id l \<notin> wl_id ` set K" "wl_id l \<notin> wl_id ` set ls" using Cons.prems by auto
        have kk: "wl_id k \<in> wl_id ` set K" using k(1) by (rule imageI)
        then have kE: "wl_id k \<notin> dp_leafId ` set E" using E(2) Cons.prems(2) by (simp add: disjoint_iff) blast
        have im: "dp_leafId ` set (e # E) = insert (wl_id l) (dp_leafId ` set E)"
          "dp_keeperLeafId ` set (e # E) = insert (wl_id k) (dp_keeperLeafId ` set E)" by (simp_all add: e_def)
        have "dp_keeperLeafId ` set (e # E) \<subseteq> wl_id ` set K \<union> wl_id ` set (l # ls) \<inter> set R - dp_leafId ` set (e # E)"
          unfolding im list.set(2) [of l ls] image_insert by (rule keepers_step [OF E(3) l kk kE])
        then show ?thesis using E(1,2,4,5) True f by (intro exI [of _ "e # E"]) (auto simp: e_def)
      qed
    qed
  qed simp
  then show thesis using that by blast
qed

lemma dropped_none:
  assumes "distinct (map wl_role (filter (\<lambda>l. wl_id l \<in> set R \<and> single l) ls))"
    "\<forall>l\<in>set ls. wl_id l \<in> set R \<and> single l \<longrightarrow> wl_role l \<notin> wl_role ` set K"
  shows "dropped_loop R ls K D = D"
  using assms
proof (induction ls arbitrary: K)
  case (Cons l ls)
  show ?case
  proof (cases "wl_id l \<in> set R \<and> single l")
    case True
    then have "find (\<lambda>known. wl_role known = wl_role l) K = None"
      using Cons.prems(2) by (auto simp: find_None_iff image_iff)
    moreover have "dropped_loop R ls (K @ [l]) D = D" by (rule Cons.IH) (use Cons.prems True in \<open>auto simp: image_iff\<close>)
    ultimately show ?thesis using True by (simp add: single_def)
  next
    case False
    moreover have "dropped_loop R ls K D = D" by (rule Cons.IH) (use Cons.prems False in auto)
    ultimately show ?thesis by (auto simp: single_def)
  qed
qed simp

subsection \<open>Normal snapshots\<close>

text \<open>
  The vector of nodes is that of a tree, whose panes are exactly the leaves of the snapshot; a role that is
  allowed once occurs once; the active and the maximized pane exist or are the fallback.
\<close>

definition bento_tree :: "MRBentoWorkspaceSnapshot \<Rightarrow> layout_tree \<Rightarrow> bool" where
  "bento_tree s T \<longleftrightarrow> ws_nodes s = post 0 T \<and> ws_rootNode s = int (tree_size T) - 1 \<and> tree_all (\<lambda>i. True) T
     \<and> distinct (tree_leaves T) \<and> set (tree_leaves T) = wl_id ` set (ws_leaves s) \<and> distinct (map wl_id (ws_leaves s))
     \<and> distinct (map wl_role (filter single (ws_leaves s)))
     \<and> (ws_activeLeafId s \<in> set (tree_leaves T) \<or> ws_activeLeafId s = 0)
     \<and> (ws_maximizedLeafId s \<in> set (tree_leaves T) \<or> ws_maximizedLeafId s = - 1)"

lemma collect_canonical:
  assumes "bento_tree s T" shows "collectReachableBentoLayout s = Some (tree_leaves T)"
proof -
  obtain "is" where i: "layout (ws_nodes s) (ws_rootNode s) T is" "distinct is"
    using post_layout [of "\<lambda>i. True" T "[]" "[]"] assms by (auto simp: bento_tree_def)
  have "collect_loop s {} [ws_rootNode s] [] = collect_loop s ({} \<union> set is) [] ([] @ tree_leaves T)"
    by (rule collect_complete [OF i]) (use assms in \<open>auto simp: bento_tree_def\<close>)
  also have "\<dots> = Some (tree_leaves T)" by (simp add: collect_loop.simps)
  finally show ?thesis using assms tree_size_pos [of T] by (simp add: collectReachableBentoLayout_def bento_tree_def)
qed

lemma normalize_fixed:
  assumes "bento_tree s T" shows "normalizeBentoSnapshotForBootstrap s = Some (s, [])"
proof -
  have D: "dropped_loop (tree_leaves T) (ws_leaves s) [] [] = []"
  proof (rule dropped_none)
    have "filter (\<lambda>l. wl_id l \<in> set (tree_leaves T) \<and> single l) (ws_leaves s) = filter single (ws_leaves s)"
      by (rule filter_cong) (use assms in \<open>auto simp: bento_tree_def\<close>)
    then show "distinct (map wl_role (filter (\<lambda>l. wl_id l \<in> set (tree_leaves T) \<and> single l) (ws_leaves s)))"
      using assms by (simp add: bento_tree_def)
  qed simp
  obtain "is" where i: "layout (ws_nodes s) (ws_rootNode s) T is"
    using post_layout [of "\<lambda>i. True" T "[]" "[]"] assms by (auto simp: bento_tree_def)
  have n [simp]: "droppedBentoPaneForLeaf [] l = None" for l by (simp add: droppedBentoPaneForLeaf_def)
  have c: "cloneCanonicalBentoNode (ws_nodes s) [] (ws_rootNode s) [] = Some (ws_rootNode s, ws_nodes s)"
    using clone_spec [OF i, of "[]" "[]"] assms prune_none [of T "\<lambda>l. False"] by (simp add: bento_tree_def)
  have l: "filter (\<lambda>leaf. wl_id leaf \<in> set (tree_leaves T)) (ws_leaves s) = ws_leaves s"
    by (rule filter_True) (use assms in \<open>auto simp: bento_tree_def\<close>)
  have "\<not> ws_rootNode s < 0" using assms tree_size_not [of 0 T] by (simp add: bento_tree_def)
  then show ?thesis using assms D c l collect_canonical [OF assms]
    by (auto simp: normalizeBentoSnapshotForBootstrap_def keptLeafId_def bento_tree_def)
qed

lemma kept_in:
  assumes "dp_keeperLeafId ` set D \<subseteq> set R - dp_leafId ` set D"
  shows "keptLeafId R D fb i \<in> set R - dp_leafId ` set D \<or> keptLeafId R D fb i = fb"
  using assms by (auto simp: keptLeafId_def Let_def dropped_None)

lemma normalize_parts:
  assumes "normalizeBentoSnapshotForBootstrap s = Some (s', ms)"
  obtains T "is" U D where
    "layout (ws_nodes s) (ws_rootNode s) T is" "distinct (tree_leaves T)" "set (tree_leaves T) \<subseteq> wl_id ` set (ws_leaves s)"
    "distinct (map wl_id (ws_leaves s))" "D = dropped_loop (tree_leaves T) (ws_leaves s) [] []"
    "prune (\<lambda>l. droppedBentoPaneForLeaf D l \<noteq> None) T = Some U"
    "s' = \<lparr>ws_mode = ws_mode s, ws_rootNode = int (tree_size U) - 1,
        ws_activeLeafId = keptLeafId (tree_leaves T) D 0 (ws_activeLeafId s),
        ws_maximizedLeafId = keptLeafId (tree_leaves T) D (- 1) (ws_maximizedLeafId s), ws_nodes = post 0 U,
        ws_leaves = filter (\<lambda>leaf. wl_id leaf \<in> set (tree_leaves T) \<and> wl_id leaf \<notin> dp_leafId ` set D) (ws_leaves s)\<rparr>"
proof -
  from assms obtain R where d: "distinct (map wl_id (ws_leaves s))" and R: "collectReachableBentoLayout s = Some R"
    by (auto simp: normalizeBentoSnapshotForBootstrap_def bind_eq_Some_conv split: if_splits)
  then have "collect_loop s {} [ws_rootNode s] [] = Some R" by (simp add: collectReachableBentoLayout_def split: if_splits)
  from reachable_sound [OF this] obtain T "is" where T: "layout (ws_nodes s) (ws_rootNode s) T is" "R = tree_leaves T" "distinct R"
      "set R \<subseteq> wl_id ` set (ws_leaves s)" by (auto simp: list_all2_Cons1)
  define D where "D = dropped_loop R (ws_leaves s) [] []"
  let ?P = "\<lambda>l. droppedBentoPaneForLeaf D l \<noteq> None"
  note clone = clone_spec [OF T(1), of D "[]"]
  obtain U where U: "prune ?P T = Some U"
  proof (cases "prune ?P T")
    case None
    then show thesis using assms clone R d by (simp add: normalizeBentoSnapshotForBootstrap_def D_def [symmetric])
  qed (use that in blast)
  then have "cloneCanonicalBentoNode (ws_nodes s) D (ws_rootNode s) [] = Some (int (tree_size U) - 1, post 0 U)" using clone by simp
  then have "s' = \<lparr>ws_mode = ws_mode s, ws_rootNode = int (tree_size U) - 1,
        ws_activeLeafId = keptLeafId R D 0 (ws_activeLeafId s),
        ws_maximizedLeafId = keptLeafId R D (- 1) (ws_maximizedLeafId s), ws_nodes = post 0 U,
        ws_leaves = filter (\<lambda>leaf. wl_id leaf \<in> set R \<and> wl_id leaf \<notin> dp_leafId ` set D) (ws_leaves s)\<rparr>"
    using assms R d by (simp add: normalizeBentoSnapshotForBootstrap_def D_def [symmetric] dropped_None split: if_splits)
  then show thesis using T d U by (intro that [of T "is" D U]) (simp_all add: D_def)
qed

lemma normalize_tree:
  assumes "normalizeBentoSnapshotForBootstrap s = Some (s', ms)" obtains T where "bento_tree s' T"
proof -
  obtain T "is" U D where T: "layout (ws_nodes s) (ws_rootNode s) T is" "distinct (tree_leaves T)" "set (tree_leaves T) \<subseteq> wl_id ` set (ws_leaves s)"
    "distinct (map wl_id (ws_leaves s))" and D: "D = dropped_loop (tree_leaves T) (ws_leaves s) [] []"
    and U: "prune (\<lambda>l. droppedBentoPaneForLeaf D l \<noteq> None) T = Some U"
    and s': "s' = \<lparr>ws_mode = ws_mode s, ws_rootNode = int (tree_size U) - 1,
        ws_activeLeafId = keptLeafId (tree_leaves T) D 0 (ws_activeLeafId s),
        ws_maximizedLeafId = keptLeafId (tree_leaves T) D (- 1) (ws_maximizedLeafId s), ws_nodes = post 0 U,
        ws_leaves = filter (\<lambda>leaf. wl_id leaf \<in> set (tree_leaves T) \<and> wl_id leaf \<notin> dp_leafId ` set D) (ws_leaves s)\<rparr>"
    using assms by (rule normalize_parts)
  obtain E where E: "dropped_loop (tree_leaves T) (ws_leaves s) [] [] = [] @ E"
    "dp_keeperLeafId ` set E \<subseteq> wl_id ` set [] \<union> wl_id ` set (ws_leaves s) \<inter> set (tree_leaves T) - dp_leafId ` set E"
    "distinct (map wl_role (filter (\<lambda>l. wl_id l \<in> set (tree_leaves T) \<and> wl_id l \<notin> dp_leafId ` set E \<and> single l) (ws_leaves s)))"
    using dropped_spec [of "ws_leaves s" "[]" "tree_leaves T" "[]"] T(4) by auto
  have DE: "D = E" using D E(1) by simp
  have leaves: "tree_leaves U = filter (\<lambda>l. l \<notin> dp_leafId ` set D) (tree_leaves T)"
    using prune_leaves [of "\<lambda>l. droppedBentoPaneForLeaf D l \<noteq> None" T] U by (simp add: dropped_None)
  have all: "tree_all (\<lambda>i. True) U"
    by (rule prune_all [OF U], rule layout_all [OF T(1)]) (simp add: list_all_iff node_all_def)
  have k: "dp_keeperLeafId ` set D \<subseteq> set (tree_leaves T) - dp_leafId ` set D" using E(2) DE by auto
  have "set (tree_leaves U) = wl_id ` set (ws_leaves s')" using T(3) by (auto simp: s' leaves)
  moreover have "distinct (map wl_id (ws_leaves s'))" using T(4) by (simp add: s' distinct_map_filter)
  moreover have "distinct (map wl_role (filter single (ws_leaves s')))"
    using E(3) DE by (simp add: s' conj_commute conj_left_commute)
  moreover have "ws_activeLeafId s' \<in> set (tree_leaves U) \<or> ws_activeLeafId s' = 0"
    "ws_maximizedLeafId s' \<in> set (tree_leaves U) \<or> ws_maximizedLeafId s' = - 1"
    using kept_in [OF k, of 0 "ws_activeLeafId s"] kept_in [OF k, of "- 1" "ws_maximizedLeafId s"] by (auto simp: s' leaves)
  ultimately have "bento_tree s' U" using all T(2) by (simp add: bento_tree_def) (simp add: s' leaves)
  then show thesis by (rule that)
qed

subsection \<open>Reading what was written\<close>

definition i32 :: "int \<Rightarrow> bool" where
  "i32 i \<longleftrightarrow> - (2 ^ 31) \<le> i \<and> i < 2 ^ 31"

definition leaf_range :: "MRBentoWorkspaceLeaf \<Rightarrow> bool" where
  "leaf_range l \<longleftrightarrow> i32 (wl_id l) \<and> 0 \<le> wl_role l \<and> wl_role l \<le> 28 \<and> widgetMaskIsValid (wl_widgetMask l)"

definition snapshot_range :: "MRBentoWorkspaceSnapshot \<Rightarrow> bool" where
  "snapshot_range s \<longleftrightarrow> 0 \<le> ws_mode s \<and> ws_mode s \<le> 2 \<and> i32 (ws_rootNode s) \<and> i32 (ws_activeLeafId s) \<and> i32 (ws_maximizedLeafId s)
     \<and> list_all (node_all i32) (ws_nodes s) \<and> list_all leaf_range (ws_leaves s)"

lemma parse_print [simp]: "i32 i \<Longrightarrow> parseBentoInt (print_int i) = Some i"
  by (simp add: i32_def parse_print_int)

lemma parse_i32: "parseBentoInt t = Some i \<Longrightarrow> i32 i"
  unfolding i32_def by (rule parse_int_range)

lemma print_nonempty [simp]: "print_int i \<noteq> []"
  using decimal_digits_ok(2) by (simp add: print_int_def)

lemma parse_prefixed [simp]: "i32 i \<Longrightarrow> parseBentoPrefixedInt (tag @ print_int i) tag = Some i"
  by (simp add: parseBentoPrefixedInt_def beginsWith_def)

lemma mask_small:
  assumes "widgetMaskIsValid m" shows "i32 (uint m)" "0 \<le> uint m"
proof -
  have "m = m AND (3 OR NOT 3)" by simp
  also have "\<dots> = (m AND 3) OR (m AND NOT 3)" by (rule bit.conj_disj_distrib)
  finally have "m = m AND 3" using assms by (simp add: widgetMaskIsValid_def bpwFoldGutter_def bpwMiniMap_def)
  then have "uint m = uint (m AND 3)" by simp
  then have "uint m = uint m AND uint (3 :: 32 word)" by (simp only: uint_and)
  then have "uint m = uint m AND 3" by simp
  moreover have "uint m AND 3 \<le> 3" by (rule AND_upper2) simp
  ultimately have "uint m \<le> 3" by simp
  moreover have "- 2147483648 \<le> uint m" using uint_ge_0 [of m] by linarith
  ultimately show "i32 (uint m)" by (simp add: i32_def)
qed simp

lemma default_mask [simp]: "widgetMaskIsValid (defaultWidgetMask r)"
  by (simp add: widgetMaskIsValid_def defaultWidgetMask_def bpwFoldGutter_def bpwMiniMap_def)

lemma node_parts:
  "encodeNode n = joinParts (CHR '':'') [print_int (wn_kind n), print_int (wn_orientation n), print_int (wn_dividerPosition n),
     print_int (wn_firstChild n), print_int (wn_secondChild n), print_int (wn_leafId n)]"
  by (simp add: encodeNode_def)

lemma leaf_parts:
  "encodeLeaf l = joinParts (CHR '':'') [print_int (wl_id l), print_int (wl_role l), print_flag (wl_visible l), print_int (uint (wl_widgetMask l))]"
  by (simp add: encodeLeaf_def)

lemma parse_node: "node_all i32 n \<Longrightarrow> parseNode (encodeNode n) = Some n"
  unfolding parseNode_def node_parts by (subst split_join) (simp_all add: node_all_def)

lemma parse_visible: "parseBentoInt (print_flag b) = Some (if b then 1 else 0)"
  by (simp add: print_flag_def i32_def)

lemma parse_leaf: "leaf_range l \<Longrightarrow> parseLeaf True True (encodeLeaf l) = Some l"
  unfolding parseLeaf_def leaf_parts
  by (subst split_join) (simp_all add: leaf_range_def parse_visible mask_small i32_def [of "wl_role l"] parse_print_int)

lemma bento_entries [simp]:
  "CHR ''.'' \<notin> set (encodeNode n)" "encodeNode n \<noteq> []" "CHR ''.'' \<notin> set (encodeLeaf l)" "encodeLeaf l \<noteq> []"
  "CHR '','' \<notin> set (encodeNode n)" "CHR '','' \<notin> set (encodeLeaf l)"
  by (simp_all add: encodeNode_def encodeLeaf_def)

lemma split_entries:
  assumes "\<And>x. CHR ''.'' \<notin> set (e x)" "\<And>x. e x \<noteq> []"
  shows "splitBentoToken (joinParts (CHR ''.'') (map e xs)) (CHR ''.'') = map e xs"
  by (rule split_join) (use assms in \<open>auto simp: list_all_iff\<close>)

lemma snapshot_fields:
  "splitBentoToken (encodeBentoSnapshot s) (CHR '','') =
     [''v1.6'', ''m:'' @ print_int (ws_mode s), ''r:'' @ print_int (ws_rootNode s), ''a:'' @ print_int (ws_activeLeafId s),
      ''x:'' @ print_int (ws_maximizedLeafId s), ''n:'' @ joinParts (CHR ''.'') (map encodeNode (ws_nodes s)),
      ''l:'' @ joinParts (CHR ''.'') (map encodeLeaf (ws_leaves s))]"
  (is "_ = ?fields")
proof -
  have e: "encodeBentoSnapshot s = joinParts (CHR '','') ?fields" by (simp add: encodeBentoSnapshot_def)
  show ?thesis unfolding e by (rule split_join) (simp_all add: join_no_comma)
qed

lemma parse_encode:
  assumes "snapshot_range s" "ws_nodes s \<noteq> []" "ws_leaves s \<noteq> []"
  shows "parseBentoSnapshot (encodeBentoSnapshot s) = normalizeBentoSnapshotForBootstrap s"
proof -
  have "parseAll parseNode (map encodeNode (ws_nodes s)) = Some (ws_nodes s)"
    "parseAll (parseLeaf True True) (map encodeLeaf (ws_leaves s)) = Some (ws_leaves s)"
    using assms(1) by (auto simp: snapshot_range_def list_all_iff intro!: parseAll_map parse_node parse_leaf)
  moreover have "i32 (ws_mode s)" using assms(1) by (simp add: snapshot_range_def i32_def)
  moreover have rec: "\<lparr>ws_mode = ws_mode s, ws_rootNode = ws_rootNode s, ws_activeLeafId = ws_activeLeafId s,
      ws_maximizedLeafId = ws_maximizedLeafId s, ws_nodes = ws_nodes s, ws_leaves = ws_leaves s\<rparr> = s" by (cases s) simp
  ultimately show ?thesis using assms parse_prefixed [of _ "[_, _]", simplified]
    unfolding parseBentoSnapshot_def snapshot_fields
    by (simp add: snapshot_range_def split_entries beginsWith_def rec)
qed

lemma parseNode_range: "parseNode t = Some n \<Longrightarrow> node_all i32 n"
  by (auto simp: parseNode_def Let_def bind_eq_Some_conv node_all_def dest: parse_i32 split: if_splits)

lemma parseLeaf_range: "parseLeaf a b t = Some l \<Longrightarrow> leaf_range l"
  by (auto simp: parseLeaf_def Let_def bind_eq_Some_conv leaf_range_def dest: parse_i32 split: if_splits option.splits)

lemma parse_snapshot_range:
  assumes "parseBentoSnapshot t = Some (s', ms)"
  obtains s where "normalizeBentoSnapshotForBootstrap s = Some (s', ms)" "snapshot_range s"
proof -
  from assms obtain s where s: "normalizeBentoSnapshotForBootstrap s = Some (s', ms)" "0 \<le> ws_mode s" "ws_mode s \<le> 2"
      "\<exists>t. parseBentoInt t = Some (ws_rootNode s)" "\<exists>t. parseBentoInt t = Some (ws_activeLeafId s)" "\<exists>t. parseBentoInt t = Some (ws_maximizedLeafId s)"
      "\<exists>ts. parseAll parseNode ts = Some (ws_nodes s)" "\<exists>a b ts. parseAll (parseLeaf a b) ts = Some (ws_leaves s)"
    unfolding parseBentoSnapshot_def Let_def parseBentoPrefixedInt_def
    by (auto simp: bind_eq_Some_conv split: if_splits) fastforce+
  then have "snapshot_range s" unfolding snapshot_range_def
    by (auto dest: parse_i32 intro: parseAll_ok parseNode_range parseLeaf_range)
  then show thesis using s(1) that by blast
qed

lemma i32_small [simp]: "i32 0" "i32 1" "i32 (- 1)"
  by (simp_all add: i32_def)

lemma post_range: "tree_all i32 U \<Longrightarrow> base + tree_size U \<le> 2 ^ 31 \<Longrightarrow> list_all (node_all i32) (post base U)"
proof (induction U arbitrary: base)
  case (SplitT o1 d a b)
  have "list_all (node_all i32) (post base a)" by (rule SplitT.IH(1)) (use SplitT.prems in simp_all)
  moreover have "list_all (node_all i32) (post (base + tree_size a) b)" by (rule SplitT.IH(2)) (use SplitT.prems in simp_all)
  moreover have "i32 (int (base + tree_size a) - 1)" "i32 (int (base + tree_size a + tree_size b) - 1)"
    using SplitT.prems(2) by (simp_all add: i32_def)
  moreover have "node_all i32 \<lparr>wn_kind = 1, wn_orientation = o1, wn_dividerPosition = d, wn_firstChild = int (base + tree_size a) - 1,
         wn_secondChild = int (base + tree_size a + tree_size b) - 1, wn_leafId = - 1\<rparr>"
    using calculation(3,4) SplitT.prems(1) i32_small unfolding node_all_def by simp
  ultimately show ?case unfolding post.simps list_all_append list.pred_inject(2) by (intro conjI) simp_all
qed (simp add: node_all_def i32_small)

lemma normalize_range:
  assumes "normalizeBentoSnapshotForBootstrap s = Some (s', ms)" "snapshot_range s" "length (ws_nodes s') < 2 ^ 31"
  shows "snapshot_range s' \<and> ws_nodes s' \<noteq> [] \<and> ws_leaves s' \<noteq> []"
proof -
  obtain T "is" U D where T: "layout (ws_nodes s) (ws_rootNode s) T is" "set (tree_leaves T) \<subseteq> wl_id ` set (ws_leaves s)"
    and U: "prune (\<lambda>l. droppedBentoPaneForLeaf D l \<noteq> None) T = Some U"
    and s': "s' = \<lparr>ws_mode = ws_mode s, ws_rootNode = int (tree_size U) - 1,
        ws_activeLeafId = keptLeafId (tree_leaves T) D 0 (ws_activeLeafId s),
        ws_maximizedLeafId = keptLeafId (tree_leaves T) D (- 1) (ws_maximizedLeafId s), ws_nodes = post 0 U,
        ws_leaves = filter (\<lambda>leaf. wl_id leaf \<in> set (tree_leaves T) \<and> wl_id leaf \<notin> dp_leafId ` set D) (ws_leaves s)\<rparr>"
    using assms(1) by (rule normalize_parts)
  have size: "tree_size U < 2 ^ 31" using assms(3) by (simp add: s')
  have "tree_all i32 U" using prune_all [OF U] layout_all [OF T(1)] assms(2) by (simp add: snapshot_range_def)
  then have nodes: "list_all (node_all i32) (ws_nodes s')" using post_range [of U 0] size by (simp add: s')
  have ids: "i32 i" if "i \<in> set (tree_leaves T)" for i
    using that T(2) assms(2) by (auto simp: snapshot_range_def list_all_iff leaf_range_def)
  have kept: "i32 (keptLeafId (tree_leaves T) D fb i)" if "i32 fb" for fb i
    using that ids by (auto simp: keptLeafId_def Let_def)
  have "i32 0" "i32 (- 1)" "i32 (int (tree_size U) - 1)" using size by (simp_all add: i32_def)
  then have "snapshot_range s'" using nodes kept assms(2) by (simp add: snapshot_range_def s') (simp add: list_all_iff)
  moreover obtain V where "bento_tree s' V" using assms(1) by (rule normalize_tree)
  then have "ws_nodes s' \<noteq> [] \<and> ws_leaves s' \<noteq> []"
    using tree_size_pos [of V] length_post [of 0 V] tree_leaves_nonempty [of V] unfolding bento_tree_def
    by (metis image_is_empty length_0_conv less_irrefl set_empty)
  ultimately show ?thesis by blast
qed

text \<open>Every accepted token gives a normal snapshot, and what is written for that is read back unchanged and without a message.\<close>

lemma snapshot_parsed:
  assumes "parseBentoSnapshot t = Some (s, ms)" "length (ws_nodes s) < 2 ^ 31"
  shows "(\<exists>T. bento_tree s T) \<and> snapshot_range s \<and> parseBentoSnapshot (encodeBentoSnapshot s) = Some (s, [])"
proof -
  obtain s0 where n: "normalizeBentoSnapshotForBootstrap s0 = Some (s, ms)" "snapshot_range s0"
    using assms(1) by (rule parse_snapshot_range)
  note r = normalize_range [OF n assms(2)]
  obtain T where "bento_tree s T" using n(1) by (rule normalize_tree)
  then show ?thesis using r parse_encode [of s] normalize_fixed by auto
qed

end
