(* ===== verification/Spec2Isabelle.thy ===== *)
theory Spec2Isabelle
  imports Findings Myers_Diff Keymap_Settings Keymap_Resolver Hex_Utf8 Text_Formatting Gdb_Mi Bento_Workspace
begin

text \<open>
  A verification of the core of \<^emph>\<open>mr\<close>, a terminal text editor in C++ with a macro language. The model
  is executable HOL translated from the sources under \<open>src/\<close>; this theory states the main results.

  \<^bold>\<open>The program.\<close> The editor keeps the text of a window in a piece table (\<open>src/piecetable\<close>): an original
  buffer, which may be a memory-mapped file, an append-only add buffer and a vector of pieces. Edits go
  through transactions that name the version they were made for. A lazy line index over the text is
  extended by queries and by background jobs, which work on immutable read snapshots and hand their
  results back with the version of the snapshot. Around the document stands the buffer of the editor
  (\<open>src/ui/MRTextBufferModel.hpp\<close>) with cursor, selection and the undo and redo stacks. Key strokes
  are parsed, stored and dispatched by \<open>src/keymap\<close>; \<open>src/diff\<close> compares two files by lines. Paragraphs are
  formatted between the margins of the format line; a debugger is driven through its machine interface;
  the layout of windows is kept in a workspace file.

  \<^bold>\<open>Theories.\<close> Definitions keep the names of the sources; \<open>TextDocument::f\<close> is \<open>TextDocument_f\<close> where
  a bare \<open>f\<close> is shared by two classes, and \<open>f_loop\<close> is a loop of \<open>f\<close>.
  \<^item> \<open>MR_Prelude\<close>: bytes, the limits and wrap-around of \<open>size_t\<close>, the parts of the C++ library in use
    (\<open>substr\<close>, \<open>upper_bound\<close>, erasing and inserting in vectors), shared list lemmas.
  \<^item> \<open>Text_Types\<close>: the value types of \<open>MRTextDocument.hpp\<close>: ranges, spans, pieces, buffers, plain and
    staged transactions, commit results, mapped files (the calls of the system are a parameter).
  \<^item> \<open>Line_Breaks\<close>: what a line is, on strings; \<open>Line_Scan\<close>: the SSE2 and scalar scanners of
    \<open>MRTextDocumentDirectLineIndex.cpp\<close>, lane by lane, proved equal to it.
  \<^item> \<open>Doc_View\<close>, \<open>Lazy_Index\<close>, \<open>Line_Lookup\<close>, \<open>Index_Edits\<close>: the template functions over pieces, the
    lazy index with its invariant \<open>lazy_ok\<close>, lookup by line number, and how edits patch the index
    (\<open>MRTextDocumentLineIndex.hpp\<close>, \<open>.cpp\<close>).
  \<^item> \<open>Piece_Table\<close>, \<open>Text_Document\<close>, \<open>Doc_Edits\<close>, \<open>Transactions\<close>: the pieces, the class
    \<open>TextDocument\<close> with its invariant \<open>doc_ok\<close>, the edits as operations on the text, and commits
    (\<open>MRTextDocument.cpp\<close>). The locale \<open>edit_engine\<close> is the contract between the commit loop and a
    kind of operation.
  \<^item> \<open>Doc_Queries\<close>, \<open>Read_Snapshot\<close>: the queries of \<open>TextDocument\<close> and of \<open>ReadSnapshot\<close>. The locale
    \<open>line_queries\<close> states what a class promises about its chunk view and index; both classes
    interpret it.
  \<^item> \<open>Span_Scanner\<close>, \<open>Scan_Ledger\<close>, \<open>Doc_Session\<close>: the scan of one span, the ledger of reservations
    and packets, and a document under edits, queries, restores and jobs as a step relation.
  \<^item> \<open>Buffer_Model\<close>, \<open>Editor_Commits\<close>: the buffer with undo and redo, refined to a history of views, and what
    the editor does with its buffer around a commit (\<open>src/ui/MRFileEditor\<close>). The buffer as a step relation
    is in \<open>Doc_Session\<close>.
  \<^item> \<open>Myers_Diff\<close>: the diff of \<open>src/diff/MRMyersDiff.cpp\<close>.
  \<^item> \<open>Ascii\<close>, \<open>Keymap_Token\<close>, \<open>Keymap_Sequence\<close>, \<open>Keymap_Trie\<close>: the keymap (\<open>src/keymap\<close>).
  \<^item> \<open>Findings\<close>: inputs on which the program does not do what it means to.
  \<^item> \<open>Action_Catalog\<close>, \<open>Keymap_Payload\<close>, \<open>Keymap_Profile\<close>, \<open>Keymap_Settings\<close>: the actions a key can be bound
    to, the payload text of profiles and bindings, their validation and canonicalization, and the
    settings text they are kept in (\<open>MRKeymapActionCatalog.cpp\<close>, \<open>MRKeymapProfile.cpp\<close>).
  \<^item> \<open>VM_Value\<close>, \<open>VM_Hash\<close>, \<open>Runtime_Kv\<close>: values of the macro machine, its store of hashes, which is a graph
    named by handles, and the key-value tree of the application on top of it (\<open>src/mrmac/vm\<close>).
  \<^item> \<open>Keymap_Resolver\<close>: the dispatch of key strokes (\<open>MRKeymapResolver.cpp\<close>). The locale \<open>pending_tokens\<close>
    is the contract between the resolver and the place where it keeps begun sequences; the key-value
    tree interprets it.
  \<^item> \<open>Hex_Utf8\<close>: the UTF-8 recogniser of the hex view (\<open>src/ui/MRBentoHexEditor/MRHexUtf8.cpp\<close>) against the
    encoder of the macro language.
  \<^item> \<open>Edit_Format\<close>, \<open>Text_Formatting\<close>: the format line with its margins and tab stops, the indents computed from
    it (\<open>src/config/settings/MRSettingsEditFormat.cpp\<close>), and the formatting of paragraphs
    (\<open>src/ui/MRFileEditor/MRTextFormatting.cpp\<close>) as one wrapping of words.
  \<^item> \<open>C_Numbers\<close>, \<open>Gdb_Mi\<close>: \<open>strtol\<close>, and the parser of the debugger's machine interface
    (\<open>src/app/services/MRGdbMi.cpp\<close>).
  \<^item> \<open>Workspace_Codec\<close>, \<open>Bento_Workspace\<close>: the tokens of a workspace file for the debugger configuration and
    for the layout of a tiled window (\<open>src/app/commands/MRBentoWorkspaceCodec.cpp\<close>); the layout is refined
    to a binary tree.

  \<^bold>\<open>Results.\<close> C1 to C8: edits and commits refine string operations, with their versions, conflicts and
  atomicity. C9 and C10: the vectorised scanners equal the scalar ones. C11 to C14: line queries answer
  by the text, whatever the state of the index. C15 and C16: the index stays exact under commits and
  under interleavings of edits, restores and jobs, on the conditions given below. C17 to C21: snapshots, scans, reservations and file mapping. C22 to
  C25: undo, redo and the invariant of the buffer. C26: the diff. C27 to C29: key sequences and the
  dispatch trie. C30 and C31: canonical profiles are accepted, and survive the settings text when their
  tokens can be read back. C32: on such tokens the resolver with its hashes refines a machine over lists
  of tokens. C33: the collection of hashes is exact.
  C34: the UTF-8 recogniser is exact. C35 to C37: format lines, indents and paragraphs. C38 to C40: the
  stream of the debugger and the tokens of the workspace file.

  \<^bold>\<open>Parameters and bounds.\<close> Not under \<open>src/\<close>, and so arguments of the definitions: the results of
  \<open>open\<close>, \<open>fstat\<close> and \<open>mmap\<close> (\<open>OsCalls\<close>, with the hypothesis \<open>mmap_sound\<close>), the \<open>long double\<close>
  arithmetic of the line interpolation (\<open>LongDouble\<close>, without any hypothesis), and the values that
  successive loads of a cancel flag return; further the file system and the macro compiler as the keymap
  sees them (\<open>MacroEnv\<close>), and the arithmetic and printing of doubles (\<open>DoubleOps\<close>).
  Offsets are natural numbers; texts are assumed shorter than \<open>size_max\<close>
  (\<open>ops_fit\<close> for a transaction), the sentinel of the sources, and the version counter wraps
  at 64 bits. No definition uses fuel: every loop is a total function with a termination proof, except
  three partial functions with the value \<open>None\<close> where they do not return: the copy of a hash graph (\<open>copyGraph\<close>),
  where C32 states that the calls the resolver makes return; the copy of a layout (\<open>cloneCanonicalBentoNode\<close>),
  which returns on every layout that passed the check before it (\<open>clone_spec\<close>); and the fill of an indent
  (\<open>indentFill_loop\<close>), which C36 proves to return for targets up to \<open>2 ^ 31 - 32\<close>.
  The columns of the format line are \<open>int\<close>s of the source; the next numeric tab column is the only one
  that can leave the range, and it wraps there (\<open>narrow_int\<close>). Other \<open>int\<close>s are integers without a bound
  unless a definition wraps them, among them the counter of hash handles (\<open>createHash\<close>), which in the
  source would overflow after \<open>2 ^ 31\<close> hashes.
  Shared pointers are modelled by value; the classes copy before they write.

  \<^bold>\<open>CR LF.\<close> An edit that joins or splits a CR LF pair leaves an index that does not describe the text
  (theory \<open>Findings\<close>). C15 and the steps of C16 exclude such edits by \<open>run_safe\<close>; the texts of C1 to C8
  hold for all edits.

  \<^bold>\<open>Versions.\<close> Undo puts the version of a snapshot back, so that a version can stand for two texts one after
  the other; the restores of C16 exclude that a job is still out that would be taken for the other.

  \<^bold>\<open>Not modelled.\<close> The user interface, dialogs and widgets (\<open>src/ui\<close>, \<open>src/dialogs\<close>, the vendored
  \<open>src/tvision\<close>), drawing and terminal events; syntax highlighting, folding and outline, which work on
  the parse trees of tree-sitter, a library outside the repository; the threads and clocks of the
  coprocessor (\<open>src/coprocessor\<close>), whose jobs appear as interleavings; processes, files and updates
  (\<open>src/app\<close>) and the table of settings (\<open>src/config\<close>), apart from the parts named above.
  Of the macro language, the compiler (\<open>src/mrmac/mrmac.c\<close>) and the execution of bytecode, which calls into
  all of the application, are left out, as is the meter of hash accesses, which reads the clock.
\<close>

section \<open>A sample document for the witnesses\<close>

text \<open>\<open>"ab\r\ncd\ne"\<close>: a CR LF break, an LF break, three lines.\<close>

definition sample_text :: string where
  "sample_text = [CHR ''a'', CHR ''b'', CR, LF, CHR ''c'', CHR ''d'', LF, CHR ''e'']"

definition sample_doc :: TextDocument where
  "sample_doc = newTextDocumentFrom 7 sample_text"

lemma sample_doc_ok: "doc_ok sample_doc" "index_ok sample_doc" "doc_text sample_doc = sample_text" "mVersion sample_doc = 1"
    "mDocumentId sample_doc = 7" "mLength sample_doc = 8"
  unfolding sample_doc_def newTextDocumentFrom_def
  using initializeFromOriginal_spec [of sample_text "newTextDocument 7" True]
  by (simp_all add: sample_text_def size_max_def newTextDocument_def)
    (simp add: initializeFromOriginal_def TextDocument_resetLazyLineIndex_def Let_def bumpVersion_def)

section \<open>Editing a document\<close>

text \<open>
  C1. \<open>TextDocument::insert\<close> refines insertion into a string: on a well-formed document it yields a
  well-formed document whose text is the old text with the new text put at the clamped offset, and
  it bumps the version exactly when the inserted text is not empty.
\<close>

theorem insert_refines:
  assumes "doc_ok d" "length (doc_text d) + length t < size_max"
  shows "doc_ok (TextDocument_insert d off t)
    \<and> doc_text (TextDocument_insert d off t) = clamped_insert (doc_text d) off t
    \<and> mVersion (TextDocument_insert d off t) = (if t = [] then mVersion d else wrap64 (mVersion d + 1))"
proof (cases "t = []")
  case True
  then show ?thesis using assms by (simp add: TextDocument_insert_def)
next
  case False
  obtain d' b where a: "appendAndInsert d off t = (d', b)" by (metis surj_pair)
  from appendAndInsert_spec [OF assms(1) False assms(2) a] a False show ?thesis
    by (simp add: TextDocument_insert_def bumpIf_def bumpVersion_version)
qed

theorem insert_refines_witness:
  "doc_text (TextDocument_insert sample_doc 1 ''XY'')
     = [CHR ''a'', CHR ''X'', CHR ''Y'', CHR ''b'', CR, LF, CHR ''c'', CHR ''d'', LF, CHR ''e'']"
  using insert_refines [OF sample_doc_ok(1), of "''XY''" 1]
  by (simp add: sample_doc_ok sample_text_def size_max_def clamped_insert_def insert_text_def)

text \<open>
  C2. \<open>TextDocument::erase\<close> refines erasure from a string: the clamped range disappears, the
  document stays well formed, and the version moves exactly when the clamped range is not empty.
\<close>

theorem erase_refines:
  assumes "doc_ok d"
  shows "doc_ok (TextDocument_erase d rng)
    \<and> doc_text (TextDocument_erase d rng) = clamped_erase (doc_text d) rng
    \<and> mVersion (TextDocument_erase d rng)
        = (if Range_empty (Range_clamped rng (mLength d)) then mVersion d else wrap64 (mVersion d + 1))"
proof -
  obtain d' b where e: "eraseNoVersionBump d rng = (d', b)" by (metis surj_pair)
  from eraseNoVersionBump_spec [OF assms e] e show ?thesis
    by (simp add: TextDocument_erase_def bumpIf_def bumpVersion_version)
qed

theorem erase_refines_witness:
  "doc_text (TextDocument_erase sample_doc (mkRange 1 4)) = [CHR ''a'', CHR ''c'', CHR ''d'', LF, CHR ''e'']"
  using erase_refines [OF sample_doc_ok(1), of "mkRange 1 4"]
  by (simp add: sample_doc_ok sample_text_def clamped_erase_def erase_text_def Range_clamped_def mkRange_def Let_def
      Range_normalize_def)

text \<open>
  C3. \<open>TextDocument::replace\<close> refines replacement in a string, with one version bump for the
  erasure and the insertion together.
\<close>

theorem replace_refines:
  assumes "doc_ok d" "length (doc_text d) + length t < size_max"
  shows "doc_ok (TextDocument_replace d rng t)
    \<and> doc_text (TextDocument_replace d rng t) = clamped_replace (doc_text d) rng t
    \<and> mVersion (TextDocument_replace d rng t)
        = (if t = [] \<and> Range_empty (Range_clamped rng (mLength d)) then mVersion d else wrap64 (mVersion d + 1))"
proof -
  obtain d' b where e: "replaceNoVersionBump d rng t = (d', b)" by (metis surj_pair)
  from replaceNoVersionBump_spec [OF assms e] e show ?thesis
    by (auto simp: TextDocument_replace_def bumpIf_def bumpVersion_version)
qed

theorem replace_refines_witness:
  "doc_text (TextDocument_replace sample_doc (mkRange 2 4) ''-'') = [CHR ''a'', CHR ''b'', CHR ''-'', CHR ''c'', CHR ''d'', LF, CHR ''e'']"
  using replace_refines [OF sample_doc_ok(1), of "''-''" "mkRange 2 4"]
  by (simp add: sample_doc_ok sample_text_def clamped_replace_def replace_text_def Range_clamped_def mkRange_def Let_def
      Range_normalize_def size_max_def)

text \<open>
  C4. \<open>TextDocument::tryApply\<close> at the current version applies the operations in order: the text is
  the fold of the string operations, and the result reports one version step with the old and new
  lengths, or \<open>NoOp\<close> with text and version unchanged.
\<close>

theorem commit_applies:
  assumes "doc_ok d" "ops_fit d (et_operations tr)" "tryApply d tr (mVersion d) = (d', r)"
  shows "doc_ok d' \<and> doc_text d' = foldl (\<lambda>s op. op_spec op s) (doc_text d) (et_operations tr)
    \<and> actualVersion r = mVersion d'
    \<and> (status r = Applied \<and> mVersion d' = wrap64 (mVersion d + 1)
         \<and> oldLength (change r) = length (doc_text d) \<and> newLength (change r) = length (doc_text d')
         \<and> oldVersion (change r) = mVersion d \<and> newVersion (change r) = mVersion d'
       \<or> status r = NoOp \<and> mVersion d' = mVersion d \<and> doc_text d' = doc_text d)"
proof -
  have run: "plain.run ops s = foldl (\<lambda>s op. op_spec op s) s ops" for ops s by (induction ops arbitrary: s) auto
  from plain.commit_ok [OF assms(1) _ assms(3) [unfolded tryApply_def]] assms(2) show ?thesis
    by (auto simp: run ops_fit_def)
qed

definition sample_transaction :: EditTransaction where
  "sample_transaction = EditTransaction_erase (EditTransaction_insert (mkEditTransaction ''demo'') 0 ''x'') (mkRange 3 5)"

theorem commit_applies_witness:
  "doc_text (fst (tryApply sample_doc sample_transaction 1))
     = [CHR ''x'', CHR ''a'', CHR ''b'', CHR ''c'', CHR ''d'', LF, CHR ''e'']"
proof -
  obtain d' r where c: "tryApply sample_doc sample_transaction 1 = (d', r)" by (metis surj_pair)
  have ops: "et_operations sample_transaction
      = [\<lparr>op_kind = EditKind.Insert, op_range = mkRange 0 0, op_text = ''x''\<rparr>, \<lparr>op_kind = Erase, op_range = mkRange 3 5, op_text = []\<rparr>]"
    by (simp add: sample_transaction_def mkEditTransaction_def EditTransaction_insert_def EditTransaction_erase_def
        EditTransaction_push_def Range_normalize_def mkRange_def)
  have "ops_fit sample_doc (et_operations sample_transaction)"
    by (simp add: ops ops_fit_def sample_doc_ok sample_text_def size_max_def)
  from commit_applies [OF sample_doc_ok(1) this] c show ?thesis
    by (simp add: ops sample_doc_ok sample_text_def op_spec_def clamped_insert_def insert_text_def clamped_erase_def
        erase_text_def Range_clamped_def mkRange_def Let_def Range_normalize_def)
qed

text \<open>
  C5. A commit against any other version changes nothing: the document comes back as it was and the
  result says \<open>VersionConflict\<close> with the expected and the actual version.
\<close>

theorem commit_conflict_unchanged:
  assumes "expected \<noteq> mVersion d"
  shows "tryApply d tr expected = (d, (mkCommitResult expected (mVersion d))\<lparr>status := VersionConflict\<rparr>)"
  using plain.commit_conflict [OF assms] by (simp add: tryApply_def)

theorem commit_conflict_witness:
  "fst (tryApply sample_doc sample_transaction 0) = sample_doc"
  using commit_conflict_unchanged [of 0 sample_doc sample_transaction] by (simp add: sample_doc_ok)

text \<open>
  C6. Staged and plain transactions commit alike: a producer that records the same requests in a
  staged transaction based on version \<open>v\<close> and in a plain transaction gets the same document and the
  same result from \<open>tryApply\<close>, whatever the document.
\<close>

theorem staged_equals_plain:
  "tryApplyStaged d (foldl record_staged (mkStagedEditTransaction v label) reqs)
     = tryApply d (foldl record_plain (mkEditTransaction label) reqs) v"
proof -
  have "staged_matches (mkStagedEditTransaction v label) (mkEditTransaction label)"
    by (simp add: staged_matches_def mkStagedEditTransaction_def mkEditTransaction_def)
  from record_all_matches [OF this, of reqs] record_baseVersion [of "mkStagedEditTransaction v label" reqs] show ?thesis
    by (auto simp: staged_matches_def mkStagedEditTransaction_def intro!: staged_commit [THEN trans])
qed

text \<open>
  C7. \<open>TextDocument::tryApplyReplacements\<close> on ascending ranges that pass the length check replaces
  all of them at once: the text is the reference that copies between the ranges.
\<close>

theorem replacements_applied:
  assumes "doc_ok d" "rngs \<noteq> []"
    and "checkReplacements_loop (mLength d) (length t) rngs (mLength d) 0 False = Some (n, True)"
    and "length (replace_ranges (doc_text d) t 0 rngs) < size_max"
    and "tryApplyReplacements d rngs t (mVersion d) = (d', r)"
  shows "doc_ok d' \<and> doc_text d' = replace_ranges (doc_text d) t 0 rngs \<and> status r = Applied
    \<and> mVersion d' = wrap64 (mVersion d + 1) \<and> index_ok d'"
  using tryApplyReplacements_applied [OF assms(1) refl assms(2-4)] adoptText_spec [OF assms(4), of d] assms(5) by simp

theorem replacements_applied_witness:
  "doc_text (fst (tryApplyReplacements sample_doc [mkRange 0 1, mkRange 7 8] ''ZZ'' 1))
     = [CHR ''Z'', CHR ''Z'', CHR ''b'', CR, LF, CHR ''c'', CHR ''d'', LF, CHR ''Z'', CHR ''Z'']"
proof -
  obtain d' r where c: "tryApplyReplacements sample_doc [mkRange 0 1, mkRange 7 8] ''ZZ'' 1 = (d', r)" by (metis surj_pair)
  have "checkReplacements_loop (mLength sample_doc) (length ''ZZ'') [mkRange 0 1, mkRange 7 8] (mLength sample_doc) 0 False = Some (10, True)"
    by (simp add: sample_doc_ok mkRange_def Range_length_def Range_empty_def size_max_def)
  moreover have "replace_ranges (doc_text sample_doc) ''ZZ'' 0 [mkRange 0 1, mkRange 7 8]
      = [CHR ''Z'', CHR ''Z'', CHR ''b'', CR, LF, CHR ''c'', CHR ''d'', LF, CHR ''Z'', CHR ''Z'']"
    by (simp add: sample_doc_ok sample_text_def mkRange_def substr_def)
  ultimately show ?thesis
    using replacements_applied [OF sample_doc_ok(1), of "[mkRange 0 1, mkRange 7 8]" "''ZZ''" 10 d' r] c
    by (simp add: sample_doc_ok size_max_def)
qed

text \<open>
  C8. \<open>TextDocument::tryApplyReplacements\<close> is all or nothing: unless it reports \<open>Applied\<close> the
  document is the one it was given, for every list of ranges and every expected version.
\<close>

theorem replacements_atomic:
  "status (snd (tryApplyReplacements d rngs t expected)) = Applied \<or> fst (tryApplyReplacements d rngs t expected) = d"
  by (auto simp: tryApplyReplacements_def adoptedResult_def Let_def split: option.split prod.split)

section \<open>Finding and counting line breaks\<close>

text \<open>
  C9. The SSE2 line-break counter agrees with the scalar one: for every buffer and every prefix of it
  the blocks of sixteen bytes with their lane masks and the carried CR give the scalar loop's count
  and carry.
\<close>

theorem simd_count_equals_scalar:
  assumes "len \<le> length d"
  shows "countLineBreaksChunk (Some d) len prevWasCR = countLineBreaksScalar d len prevWasCR"
  by (rule countLineBreaksChunk_scalar [OF assms])

theorem simd_count_equals_scalar_witness:
  "countLineBreaksChunk (Some (replicate 15 (CHR ''x'') @ [CR, LF, CHR ''y''])) 18 True = (1, False)"
  using simd_count_equals_scalar [of 18 "replicate 15 (CHR ''x'') @ [CR, LF, CHR ''y'']" True]
  by (simp add: countLineBreaksScalar_def eval_nat_numeral)

text \<open>
  C10. The vectorised searches find the nearest break byte: forward the first one at or behind the
  start, backward the last one before the end, with the sentinels the callers test for.
\<close>

theorem simd_search_exact:
  assumes "n \<le> length d" "p \<le> n"
  shows "directFindNextLineBreak (Some d) n p = next_break d n p
    \<and> directFindPrevLineBreak (Some d) p = (if after_prev_break d p = 0 then size_max else after_prev_break d p - 1)"
  using assms by (simp add: directFindNextLineBreak_spec directFindPrevLineBreak_spec)

theorem simd_search_exact_witness:
  "directFindNextLineBreak (Some (replicate 20 (CHR ''x'') @ [LF, CHR ''y''])) 22 3 = 20"
  using simd_search_exact [of 22 "replicate 20 (CHR ''x'') @ [LF, CHR ''y'']" 3]
  by (simp add: next_break_def substr_def isLineBreakByte_def eval_nat_numeral)

section \<open>Line queries\<close>

text \<open>
  C11. \<open>TextDocument::lineIndex\<close> returns the number of line breaks before the clamped offset, where
  CR LF is one break, for every state of the lazy index, and extending the index on the way leaves
  the document and its text as they were.
\<close>

theorem line_index_exact:
  assumes "doc_ok d" "index_ok d"
  shows "snd (TextDocument_lineIndex d p) = breaks_before (doc_text d) (min p (length (doc_text d)))
    \<and> doc_ok (fst (TextDocument_lineIndex d p)) \<and> index_ok (fst (TextDocument_lineIndex d p))
    \<and> doc_text (fst (TextDocument_lineIndex d p)) = doc_text d"
  using TextDocument_lineIndex_spec [OF assms] by simp

theorem line_index_exact_witness: "snd (TextDocument_lineIndex sample_doc 5) = 1"
  using line_index_exact [OF sample_doc_ok(1,2), of 5]
  by (simp add: sample_doc_ok sample_text_def breaks_before_def lb_end_def upt_rec)

text \<open>
  C12. \<open>TextDocument::lineStartByIndex\<close> returns the start of the line with the given number. The
  interpolation it takes its first guesses from is a parameter: the result does not depend on how
  \<open>long double\<close> rounds.
\<close>

theorem line_start_by_index_exact:
  assumes "doc_ok d" "index_ok d" "index < line_count (doc_text d)"
  shows "snd (TextDocument_lineStartByIndex ld d index) = line_starts (doc_text d) ! index"
  using TextDocument_lineStartByIndex_spec(1) [OF assms] .

theorem line_start_by_index_exact_witness:
  "\<forall>ld :: int LongDouble. snd (TextDocument_lineStartByIndex ld sample_doc 2) = 7"
proof
  fix ld :: "int LongDouble"
  have "2 < line_count (doc_text sample_doc)" "line_starts (doc_text sample_doc) ! 2 = 7"
    by (simp_all add: sample_doc_ok sample_text_def line_count_def breaks_before_def line_starts_def lb_end_def upt_rec)
  with line_start_by_index_exact [OF sample_doc_ok(1,2), of 2 ld]
  show "snd (TextDocument_lineStartByIndex ld sample_doc 2) = 7" by simp
qed

text \<open>
  C13. \<open>TextDocument::lineCount\<close> returns the number of lines of the text and leaves text and exactness of
  the index as they are. Without an edited line-start index it completes the lazy index, whose total is
  then that number (the completion loop ends for every document); with one it answers from that index
  and leaves the lazy index alone.
\<close>

theorem line_count_exact:
  assumes "doc_ok d" "index_ok d"
  shows "snd (TextDocument_lineCount d) = line_count (doc_text d)
    \<and> doc_text (fst (TextDocument_lineCount d)) = doc_text d \<and> index_ok (fst (TextDocument_lineCount d))
    \<and> (if hasEditedLineStartIndex (mEditedLineStarts d) then mLazyIndex (fst (TextDocument_lineCount d)) = mLazyIndex d
       else mLazyLineIndexComplete (mLazyIndex (fst (TextDocument_lineCount d)))
         \<and> mLazyTotalLineCount (mLazyIndex (fst (TextDocument_lineCount d))) = line_count (doc_text d))"
  using TextDocument_lineCount_spec [OF assms] TextDocument_lineCount_index [OF assms] by blast

theorem line_count_exact_witness: "snd (TextDocument_lineCount sample_doc) = 3"
  using line_count_exact [OF sample_doc_ok(1,2)]
  by (simp add: sample_doc_ok sample_text_def line_count_def breaks_before_def lb_end_def upt_rec)

text \<open>
  Line numbers and offsets are inverse: the line whose number an offset reports starts where
  \<open>lineStart\<close> says, and the start of line \<open>n\<close> reports \<open>n\<close>.
\<close>

lemma line_index_round_trip:
  assumes "doc_ok d" "index_ok d"
  shows "snd (TextDocument_lineStartByIndex ld d (snd (TextDocument_lineIndex d p))) = TextDocument_lineStart d p
    \<and> (n < line_count (doc_text d) \<longrightarrow> snd (TextDocument_lineIndex d (snd (TextDocument_lineStartByIndex ld d n))) = n)"
proof -
  let ?s = "doc_text d"
  have lt: "breaks_before ?s (min p (length ?s)) < line_count ?s" by (rule breaks_before_less_count)
  have "line_starts ?s ! n \<le> length ?s" if "n < line_count ?s"
    using nth_mem [of n "line_starts ?s"] that by (auto simp: length_line_starts set_line_starts dest: is_line_start_le)
  with TextDocument_lineStartByIndex_spec(1) [OF assms, of _ ld] TextDocument_lineIndex_spec(1) [OF assms] lt
    doc.line_start_query [of d p] assms show ?thesis
    by (simp add: TextDocument_lineStart_def nth_line_start_at breaks_before_nth_start min_absorb1)
qed

text \<open>
  C14. Line navigation is exact over the pieces: \<open>lineStart\<close>, \<open>lineEnd\<close>, \<open>nextLine\<close> and
  \<open>prevLine\<close> return what the text says, with or without an edited line-start index, whether the
  document is one mapped buffer or many pieces.
\<close>

theorem line_navigation_exact:
  fixes p :: Offset
  assumes "doc_ok d" "index_ok d"
  defines "q \<equiv> min p (length (doc_text d))"
  shows "TextDocument_lineStart d p = line_start_at (doc_text d) q
    \<and> TextDocument_lineEnd d p = next_break (doc_text d) (length (doc_text d)) q
    \<and> TextDocument_nextLine d p = next_line_or_end (doc_text d) q
    \<and> TextDocument_prevLine d p = prev_line_start (doc_text d) q"
  using doc.line_start_query [of d p] doc.line_end_query [of d p] doc.next_line_query [of d p] doc.prev_line_query [of d p] assms
  by (simp add: TextDocument_lineStart_def TextDocument_lineEnd_def TextDocument_nextLine_def TextDocument_prevLine_def)

theorem line_navigation_exact_witness:
  "TextDocument_lineStart sample_doc 5 = 4 \<and> TextDocument_lineEnd sample_doc 0 = 2 \<and> TextDocument_nextLine sample_doc 0 = 4"
  using line_navigation_exact [OF sample_doc_ok(1,2), of 5] line_navigation_exact [OF sample_doc_ok(1,2), of 0]
  by (simp add: sample_doc_ok sample_text_def line_start_at_def line_starts_def lb_end_def upt_rec next_break_def substr_def
      isLineBreakByte_def next_line_or_end_def next_line_start_def)

text \<open>
  \<open>TextDocument::lineText\<close> and \<open>column\<close>: the bytes between the start and the end of the line,
  and the distance from the start.
\<close>

lemma line_text_exact:
  fixes p :: Offset
  assumes "doc_ok d" "index_ok d"
  defines "q \<equiv> min p (length (doc_text d))"
  shows "TextDocument_lineText d p
      = substr (doc_text d) (line_start_at (doc_text d) q) (next_break (doc_text d) (length (doc_text d)) q - line_start_at (doc_text d) q)
    \<and> TextDocument_column d p = q - line_start_at (doc_text d) q"
  using lineText_spec [OF doc.source [of d] doc.edited [of d], of p] column_spec [OF doc.source [of d] doc.edited [of d], of p] assms
  by (simp add: TextDocument_lineText_def TextDocument_column_def Let_def)

text \<open>
  C15. A commit keeps the line index exact as long as no operation joins or splits a CR LF pair: the
  shifted, truncated or rebuilt index of the new document describes the new text.
\<close>

theorem commit_keeps_index:
  assumes "doc_ok d" "index_ok d" "ops_fit d (et_operations tr)"
    and "plain.run_safe (et_operations tr) (doc_text d)" "tryApply d tr expected = (d', r)"
  shows "index_ok d'"
proof (cases "expected = mVersion d")
  case True
  with plain.commit_ok(4) [OF assms(1), of "et_operations tr" d' r] assms show ?thesis by (simp add: tryApply_def ops_fit_def)
next
  case False
  with plain.commit_conflict [OF False, of "et_operations tr"] assms(2,5) show ?thesis by (simp add: tryApply_def)
qed

theorem commit_keeps_index_witness:
  "index_ok (fst (tryApply sample_doc (EditTransaction_insert (mkEditTransaction ''demo'') 1 [CHR ''x'', LF, CHR ''y'']) 1))"
proof -
  let ?tr = "EditTransaction_insert (mkEditTransaction ''demo'') 1 [CHR ''x'', LF, CHR ''y'']"
  have ops: "et_operations ?tr = [\<lparr>op_kind = EditKind.Insert, op_range = mkRange 1 1, op_text = [CHR ''x'', LF, CHR ''y'']\<rparr>]"
    by (simp add: mkEditTransaction_def EditTransaction_insert_def EditTransaction_push_def)
  have "ops_fit sample_doc (et_operations ?tr)" "plain.run_safe (et_operations ?tr) (doc_text sample_doc)"
    unfolding ops by (simp_all add: ops_fit_def sample_doc_ok sample_text_def size_max_def op_safe_def insert_safe_def seam_def mkRange_def)
  with commit_keeps_index [OF sample_doc_ok(1,2), of ?tr 1] show ?thesis by (metis prod.collapse)
qed

section \<open>Snapshots, background jobs and their ledger\<close>

text \<open>
  C16. Every reachable document is well formed and its line index is exact, whatever the order of commits
  (plain and staged), direct edits, replacement lists, projections, loads, saves and restores of undo
  snapshots, queries, warm-up and scan jobs and their reservations: a job's result is adopted only for
  the version it was computed on. Two conditions limit the steps, and the source enforces neither. An
  edit neither joins nor splits a CR LF pair (\<open>run_safe\<close> and its relatives). A snapshot is restored only
  while every outstanding job is of an older version than the restored document, or of its version with
  its text (\<open>job_current\<close>). \<open>insert_joins_crlf\<close> and \<open>version_reused\<close> in \<open>Findings\<close> show what happens
  otherwise. Texts and versions stay below \<open>size_max\<close>.
\<close>

theorem session_index_exact:
  assumes "session_reachable s"
  shows "doc_ok (ss_doc s) \<and> index_ok (ss_doc s)
    \<and> snd (TextDocument_lineCount (ss_doc s)) = line_count (doc_text (ss_doc s))
    \<and> snd (TextDocument_lineIndex (ss_doc s) p) = breaks_before (doc_text (ss_doc s)) (min p (length (doc_text (ss_doc s))))"
proof -
  have ok: "doc_ok (ss_doc s)" "index_ok (ss_doc s)" using session_reachable_ok [OF assms] by (auto simp: session_ok_def)
  from ok TextDocument_lineCount_spec(1) [OF ok] TextDocument_lineIndex_spec(1) [OF ok] show ?thesis by simp
qed

theorem session_index_exact_witness:
  "\<exists>s. session_reachable s \<and> ss_jobs s \<noteq> [] \<and> ss_saved s \<noteq> [] \<and> doc_text (ss_doc s) = sample_text
    \<and> snd (TextDocument_lineCount (ss_doc s)) = 3"
proof -
  let ?r = "compactLineIndexForUndo (readSnapshot sample_doc) 0" and ?e = "TextDocument_setText sample_doc ''x''"
  let ?d = "restoreFromSnapshot ?e ?r"
  define s0 where "s0 = \<lparr>ss_doc = sample_doc, ss_jobs = [], ss_saved = []\<rparr>"
  define s1 where "s1 = \<lparr>ss_doc = sample_doc, ss_jobs = [], ss_saved = [?r]\<rparr>"
  define s2 where "s2 = \<lparr>ss_doc = ?e, ss_jobs = [], ss_saved = [?r]\<rparr>"
  define s3 where "s3 = \<lparr>ss_doc = ?d, ss_jobs = [], ss_saved = [?r]\<rparr>"
  define s4 where "s4 = \<lparr>ss_doc = ?d, ss_jobs = [readSnapshot ?d], ss_saved = [?r]\<rparr>"
  have "session_reachable s0" unfolding s0_def sample_doc_def
    by (rule session_reachable.start) (simp add: sample_text_def size_max_def)
  moreover have "session_step s0 s1" using session_step.save [of s0 0] by (simp add: s0_def s1_def)
  ultimately have r1: "session_reachable s1" by (rule session_reachable.step)
  have "session_edit sample_doc ?e" by (rule session_edit.setText) (simp add: size_max_def)
  then have "session_step s1 s2" using session_step.edit [of s1 ?e] by (simp add: s1_def s2_def sample_doc_ok size_max_def)
  with r1 have r2: "session_reachable s2" by (rule session_reachable.step)
  have "session_step s2 s3" using session_step.restore [of ?r s2] by (simp add: s2_def s3_def)
  with r2 have r3: "session_reachable s3" by (rule session_reachable.step)
  have "session_step s3 s4" using session_step.spawn [of s3] by (simp add: s3_def s4_def)
  with r3 have r4: "session_reachable s4" by (rule session_reachable.step)
  have "doc_ok ?e" "doc_ok (snap_doc ?r)"
    using session_reachable_ok [OF r2] undo_snapshot_doc(1) [OF sample_doc_ok(1)] by (auto simp: session_ok_def s2_def)
  then have "doc_text ?d = sample_text"
    using restore_doc(2) undo_snapshot_doc(2) [OF sample_doc_ok(1)] by (simp add: sample_doc_ok)
  moreover have "line_count sample_text = 3" by (simp add: sample_text_def line_count_def breaks_before_def lb_end_def upt_rec)
  ultimately show ?thesis using session_index_exact [OF r4, of 0] r4 by (intro exI [of _ s4]) (simp add: s4_def)
qed

text \<open>
  C17. A snapshot put back restores the text it was taken of: \<open>restoreFromSnapshot\<close> of
  \<open>readSnapshot\<close> yields a well-formed document with that text and an exact index, from any document.
\<close>

theorem snapshot_round_trip:
  assumes "doc_ok d" "index_ok d" "doc_ok d0" "index_ok d0"
  defines "d' \<equiv> restoreFromSnapshot d0 (readSnapshot d)"
  shows "doc_ok d' \<and> index_ok d' \<and> doc_text d' = doc_text d
    \<and> (doc_text d \<noteq> [] \<longrightarrow> mVersion d' = mVersion d \<and> mDocumentId d' = mDocumentId d)"
proof -
  note rs = readSnapshot_ok [OF assms(1,2)]
  have "rs_length (readSnapshot d) = length (doc_text d)" using assms(1) by (simp add: readSnapshot_frame doc_ok_def)
  with restoreFromSnapshot_ok [OF assms(3,4) rs(1)] rs show ?thesis by (simp add: d'_def)
qed

theorem snapshot_round_trip_witness:
  "doc_text (restoreFromSnapshot (TextDocument_erase sample_doc (mkRange 0 2)) (readSnapshot sample_doc)) = sample_text"
proof -
  let ?e = "TextDocument_erase sample_doc (mkRange 0 2)"
  have e: "doc_ok ?e \<and> index_ok ?e"
  proof -
    obtain d' b where eq: "eraseNoVersionBump sample_doc (mkRange 0 2) = (d', b)" by (metis surj_pair)
    have "clamped_erase_safe (doc_text sample_doc) (mkRange 0 2)"
      by (simp add: clamped_erase_safe_def erase_safe_def sample_doc_ok sample_text_def Range_clamped_def mkRange_def
          Range_normalize_def seam_def Let_def)
    with eraseNoVersionBump_spec [OF sample_doc_ok(1) eq] sample_doc_ok eq show ?thesis
      by (simp add: TextDocument_erase_def bumpIf_def)
  qed
  with snapshot_round_trip [OF sample_doc_ok(1,2), of ?e] show ?thesis by (simp add: sample_doc_ok)
qed

text \<open>
  Compacting a snapshot for the undo stack (\<open>compactLineIndexForUndo\<close>) keeps its text and keeps
  its line index exact around every focus offset.
\<close>

lemma compaction_exact:
  assumes "snap_ok r"
  shows "snap_ok (compactLineIndexForUndo r focus) \<and> snap_text_of (compactLineIndexForUndo r focus) = snap_text_of r"
  using compactLineIndexForUndo_ok [OF assms] by simp

text \<open>
  C18. A parallel scan (\<open>scanLineIndexSpan\<close>) reports the exact number of breaks of its span and only
  true line starts, wherever the span cuts a CR LF pair, and succeeds when it is not cancelled.
\<close>

theorem scan_packet_exact:
  assumes "snap_ok r" "scanLineIndexSpan r rid x y cancel = (p, ok)"
  shows "(ok \<longrightarrow> packet_ok (snap_text_of r) p
        \<and> pk_startOffset p = min (min x y) (rs_length r) \<and> pk_endOffset p = min (max x y) (rs_length r))
    \<and> (cancel = (\<lambda>_. False) \<longrightarrow> ok)"
  using scanLineIndexSpan_ok [OF assms(1), of rid x y cancel p] scanLineIndexSpan_runs [of cancel r rid x y] assms(2) by auto

theorem scan_packet_exact_witness:
  "pk_lineBreakCount (fst (scanLineIndexSpan (readSnapshot sample_doc) 1 3 8 (\<lambda>_. False))) = 2"
proof -
  obtain p ok where p: "scanLineIndexSpan (readSnapshot sample_doc) 1 3 8 (\<lambda>_. False) = (p, ok)" by (metis surj_pair)
  have "rs_length (readSnapshot sample_doc) = 8" by (simp add: readSnapshot_frame sample_doc_ok)
  with scan_packet_exact [OF readSnapshot_ok(1) [OF sample_doc_ok(1,2)] p] readSnapshot_ok(2) [OF sample_doc_ok(1,2)]
  have "packet_ok sample_text p" "pk_startOffset p = 3" "pk_endOffset p = 8" by (simp_all add: sample_doc_ok)
  then have "breaks_before sample_text 8 = breaks_before sample_text 3 + pk_lineBreakCount p" by (simp add: packet_ok_def)
  moreover have "breaks_before sample_text 8 = 2" "breaks_before sample_text 3 = 0"
    by (simp_all add: sample_text_def breaks_before_def lb_end_def upt_rec)
  ultimately show ?thesis using p by simp
qed

text \<open>
  C19. Reservations handed to parallel scanners never overlap: the new spans are pairwise disjoint,
  inside the text, apart from everything already indexed, scanned or reserved, carry an id, and are
  at most as many as asked for.
\<close>

theorem reservations_disjoint:
  assumes "reserveLineIndexScanSpans d focus n target = (d', new)"
  shows "disjoint_reservations new \<and> list_all (fresh_reservation (mLength d) (ledger_blocked d)) new \<and> length new \<le> n
    \<and> mLineIndexScanReservations d' = mLineIndexScanReservations d @ new \<and> ledger_only d d'"
  using reserveLineIndexScanSpans_ok [OF assms] by simp

theorem reservations_disjoint_witness:
  "\<exists>d' new. reserveLineIndexScanSpans sample_doc 4 2 3 = (d', new) \<and> disjoint_reservations new \<and> length new \<le> 2"
proof -
  obtain d' new where r: "reserveLineIndexScanSpans sample_doc 4 2 3 = (d', new)" by (metis surj_pair)
  from reservations_disjoint [OF r] r show ?thesis by auto
qed

text \<open>
  C20. As long as some byte of the text is neither indexed nor scanned nor reserved, a request for at
  least one span gets one: the background scan does not stall.
\<close>

theorem reservations_progress:
  assumes "i < mLength d" "mLazyIndexedOffset (mLazyIndex d) \<le> i" "\<not> mLazyLineIndexComplete (mLazyIndex d)" "0 < n"
    and "\<And>p. p \<in> set (mPendingLineIndexScanPackets d) \<Longrightarrow> i < min (pk_startOffset p) (pk_endOffset p) \<or> max (pk_startOffset p) (pk_endOffset p) \<le> i"
    and "\<And>r. r \<in> set (mLineIndexScanReservations d) \<Longrightarrow> i < min (rv_startOffset r) (rv_endOffset r) \<or> max (rv_startOffset r) (rv_endOffset r) \<le> i"
    and "mLength d + max 1 target \<le> size_max"
  shows "snd (reserveLineIndexScanSpans d focus n target) \<noteq> []"
  by (rule reserveLineIndexScanSpans_progress [OF assms])

theorem reservations_progress_witness: "snd (reserveLineIndexScanSpans sample_doc 4 2 3) \<noteq> []"
proof (rule reservations_progress [of 7])
  show "7 < mLength sample_doc" "mLength sample_doc + max 1 3 \<le> size_max" by (simp_all add: sample_doc_ok size_max_def)
  show "mLazyIndexedOffset (mLazyIndex sample_doc) \<le> 7" "\<not> mLazyLineIndexComplete (mLazyIndex sample_doc)"
    by (simp_all add: sample_doc_def newTextDocumentFrom_def initializeFromOriginal_def TextDocument_resetLazyLineIndex_def
        bumpVersion_def resetLazyLineIndex_def sample_text_def Let_def)
qed (auto simp: sample_doc_def newTextDocumentFrom_def initializeFromOriginal_def TextDocument_resetLazyLineIndex_def
      bumpVersion_def clearLineIndexScanLedger_def Let_def)

text \<open>
  C21. Loading a file through a memory map (\<open>loadMappedFile\<close>), with an \<open>mmap\<close> that maps as many bytes as
  asked for: it succeeds exactly when the path opens to a descriptor that \<open>fstat\<close> reports as a regular
  file and that is empty or can be mapped over its whole size. Then the document is well formed with an
  exact index, its text is the bytes of that mapping and its version is counted up; on every failure the
  document is as it was.
\<close>

theorem load_mapped_file:
  assumes "mmap_sound os" "loadMappedFile os d path = (ok, err, d')"
  shows "(ok \<longleftrightarrow> (\<exists>bytes. file_bytes os path bytes)) \<and> (ok \<or> d' = d)
    \<and> (\<forall>bytes. file_bytes os path bytes \<and> length bytes < size_max \<longrightarrow>
        doc_ok d' \<and> index_ok d' \<and> doc_text d' = bytes \<and> mVersion d' = wrap64 (mVersion d + 1))"
  by (rule loadMappedFile_spec [OF assms])

definition sample_os :: OsCalls where
  "sample_os = \<lparr>os_open = (\<lambda>path. if path = ''f'' then Inr 3 else if path = ''dev'' then Inr 4 else Inl ''No such file or directory''),
     os_fstat = (\<lambda>fd. Inr (fd = 3, 2)), os_mmap = (\<lambda>fd n. Inr (replicate n (if fd = 3 then CHR ''q'' else CHR ''z'')))\<rparr>"

lemma sample_bytes: "mmap_sound sample_os" "file_bytes sample_os ''f'' ''qq''" "\<not> file_bytes sample_os ''dev'' bytes"
  by (auto simp: mmap_sound_def sample_os_def file_bytes_def fd_bytes_def eval_nat_numeral)

theorem load_mapped_file_witness:
  "doc_text (snd (snd (loadMappedFile sample_os (newTextDocument 1) ''f''))) = ''qq''
   \<and> snd (snd (loadMappedFile sample_os (newTextDocument 1) ''dev'')) = newTextDocument 1"
proof -
  have load: "(ok \<longleftrightarrow> (\<exists>bytes. file_bytes sample_os path bytes)) \<and> (ok \<or> d' = newTextDocument 1)
    \<and> (\<forall>bytes. file_bytes sample_os path bytes \<and> length bytes < size_max \<longrightarrow> doc_text d' = bytes)"
    if "loadMappedFile sample_os (newTextDocument 1) path = (ok, err, d')" for ok err d' path
    using load_mapped_file [OF sample_bytes(1) that] by blast
  obtain ok err d' where f: "loadMappedFile sample_os (newTextDocument 1) ''f'' = (ok, err, d')" by (metis prod_cases3)
  obtain ok2 err2 d2 where dev: "loadMappedFile sample_os (newTextDocument 1) ''dev'' = (ok2, err2, d2)" by (metis prod_cases3)
  from load [OF f] load [OF dev] f dev sample_bytes(2,3) show ?thesis by (auto simp: size_max_def)
qed

section \<open>Undo and redo\<close>

text \<open>
  C22. \<open>MRTextBufferModel::undo\<close> and \<open>redo\<close> refine a history of views: they move the present view to
  the other stack and show the one on top, with its text, cursor, selection and modified flag.
\<close>

theorem undo_redo_refine:
  assumes "buffer_ok m"
  shows "buffer_history (fst (undo m)) = hist_undo (buffer_history m) \<and> buffer_ok (fst (undo m))
    \<and> buffer_history (fst (redo m)) = hist_redo (buffer_history m) \<and> buffer_ok (fst (redo m))"
  using undo_refines [OF assms] redo_refines [OF assms] by simp

definition sample_buffer :: TextBuffer where
  "sample_buffer = editor_pushUndoSnapshot (Buffer_setText (newTextBuffer 1) ''one'') (currentRecord (newTextBuffer 1) emptyChangeSet)"

lemma sample_buffer_reachable: "buffer_reachable sample_buffer"
  unfolding sample_buffer_def
  by (rule buffer_reachable.step [OF buffer_reachable.step [OF buffer_reachable.start buffer_step.setText] buffer_step.push])
    (simp add: size_max_def)

lemma sample_buffer_ok: "buffer_ok sample_buffer"
  by (rule buffer_reachable_ok [OF sample_buffer_reachable])

theorem undo_redo_refine_witness:
  "buffer_history (fst (undo sample_buffer)) = hist_undo (buffer_history sample_buffer)"
  using undo_redo_refine [OF sample_buffer_ok] by simp

text \<open>
  C23. Any number of undos followed by as many redos brings back the whole history: the text, the
  cursor, the selection, the modified flag and both stacks.
\<close>

theorem undos_then_redos:
  assumes "buffer_ok m" "n \<le> length (undoStack m)"
  shows "buffer_history (((fst \<circ> redo) ^^ n) (((fst \<circ> undo) ^^ n) m)) = buffer_history m"
  by (rule undos_redos [OF assms])

theorem undos_then_redos_witness:
  "buffer_history (((fst \<circ> redo) ^^ 1) (((fst \<circ> undo) ^^ 1) sample_buffer)) = buffer_history sample_buffer"
proof -
  have "1 \<le> length (undoStack sample_buffer)"
    by (simp add: sample_buffer_def editor_pushUndoSnapshot_def pushUndoSnapshot_def Let_def)
  from undos_then_redos [OF sample_buffer_ok this] show ?thesis .
qed

text \<open>
  The editor's edit cycle is undoable: push a snapshot, commit any transaction, undo: the text,
  the cursor and the modified flag are back.
\<close>

lemma edit_is_undoable:
  fixes block :: CustomUndoRecord and expected :: nat
  assumes "buffer_ok m" "ops_fit (document m) (et_operations tr)"
  defines "m2 \<equiv> fst (tryApplyEditTransaction (editor_pushUndoSnapshot m block) tr expected)"
  shows "doc_text (document (fst (undo m2))) = doc_text (document m)
    \<and> cursor_offset (mCursor (fst (undo m2))) = cursor_offset (mCursor m) \<and> modified (fst (undo m2)) = modified m"
proof -
  let ?m1 = "editor_pushUndoSnapshot m block"
  note p = editor_push_refines [OF assms(1), of block]
  have d1: "document ?m1 = document m" by (simp add: editor_pushUndoSnapshot_def pushUndoSnapshot_def Let_def)
  have fit: "ops_fit (document ?m1) (et_operations tr)" using assms(2) unfolding d1 .
  have ok2: "buffer_ok m2" unfolding m2_def by (rule buffer_step_ok [OF buffer_step.commit [OF fit] p(2)])
  have st: "undoStack m2 = undoStack ?m1"
    by (simp add: m2_def tryApplyEditTransaction_def clampState_def Let_def split: prod.split)
  have "hs_past (buffer_history m2) = hs_past (buffer_history ?m1)" by (simp add: buffer_history_def st)
  moreover obtain v where v: "buffer_history ?m1 = hist_push v (buffer_history m)" "vw_text v = vw_text (buffer_view m)"
      "vw_cursor v = vw_cursor (buffer_view m)" "vw_modified v = vw_modified (buffer_view m)"
    by (rule that [OF p(1)]) simp_all
  ultimately have past: "hs_past (buffer_history m2) = hs_past (buffer_history m) @ [v]" by (simp add: hist_push_def)
  have "buffer_view (fst (undo m2)) = hs_now (hist_undo (buffer_history m2))"
    using arg_cong [OF undo_refines(1) [OF ok2], of hs_now] by (simp add: buffer_history_def)
  then have "buffer_view (fst (undo m2)) = v" using past by (simp add: hist_undo_def)
  with v(2-4) have "vw_text (buffer_view (fst (undo m2))) = vw_text (buffer_view m)"
    "vw_cursor (buffer_view (fst (undo m2))) = vw_cursor (buffer_view m)"
    "vw_modified (buffer_view (fst (undo m2))) = vw_modified (buffer_view m)" by simp_all
  then show ?thesis by (simp add: buffer_view_def)
qed

text \<open>
  C24. \<open>revertUndoSuffix\<close> to depth \<open>n\<close> shows the view and leaves the undo stack that as many single
  undos as the stack is deep above \<open>n\<close> would.
\<close>

theorem revert_equals_undos:
  assumes "buffer_ok m" "n < length (undoStack m)"
  shows "hs_now (buffer_history (fst (revertUndoSuffix m n)))
      = hs_now (buffer_history (((fst \<circ> undo) ^^ (length (undoStack m) - n)) m))
    \<and> hs_past (buffer_history (fst (revertUndoSuffix m n)))
      = hs_past (buffer_history (((fst \<circ> undo) ^^ (length (undoStack m) - n)) m))"
  using hist_revert_undos [of n "buffer_history m"] undos_refine [OF assms(1), of "length (undoStack m) - n"]
    revert_refines(1) [OF assms(1), of n] assms(2)
  by (simp add: buffer_history_def)

theorem revert_equals_undos_witness:
  "hs_now (buffer_history (fst (revertUndoSuffix sample_buffer 0))) = hs_now (buffer_history (fst (undo sample_buffer)))"
proof -
  have "length (undoStack sample_buffer) = 1"
    by (simp add: sample_buffer_def editor_pushUndoSnapshot_def pushUndoSnapshot_def Buffer_setText_def clampState_def
        newTextBuffer_def Let_def)
  with revert_equals_undos [OF sample_buffer_ok, of 0] show ?thesis by simp
qed

text \<open>
  C25. A buffer whose content no other view shares is well formed in every state it can reach through its
  operations and through what the editor does with its document (adopting a document, projections,
  staged edits, replacement lists, undo, redo and revert with the synchronization of the cursor, loading a
  mapped file): the document's pieces fit its buffers, the cursor and the selection lie in the text, and
  so do those of every undo and redo record in the text of its snapshot. With shared content
  (\<open>shareContentStateFrom\<close>) another view can shorten the text under this cursor; that is not modelled.
\<close>

theorem buffer_invariant:
  assumes "buffer_reachable m"
  shows "doc_ok (document m) \<and> cursor_offset (mCursor m) \<le> length (doc_text (document m))
    \<and> sel_anchor (mSelection m) \<le> length (doc_text (document m)) \<and> sel_cursor (mSelection m) \<le> length (doc_text (document m))
    \<and> (\<forall>r \<in> set (undoStack m @ redoStack m). record_ok r)"
  using buffer_reachable_ok [OF assms] by (auto simp: buffer_ok_def doc_ok_def list_all_iff)

theorem buffer_invariant_witness:
  "cursor_offset (mCursor (editor_undo sample_buffer (currentRecord sample_buffer emptyChangeSet)))
    \<le> length (doc_text (document (editor_undo sample_buffer (currentRecord sample_buffer emptyChangeSet))))"
  using buffer_invariant [OF buffer_reachable.step [OF sample_buffer_reachable buffer_step.editorUndo]] by simp

section \<open>The line diff\<close>

text \<open>
  C26. A line diff that succeeds is an edit script: read from left to right its hunks cover both files
  exactly, equal hunks are equal, applying it to the left lines gives the right lines, and adjacent
  hunks have different kinds.
\<close>

theorem diff_is_edit_script:
  assumes "mrComputeMyersDiff cancel l r = Inr hs"
  shows "walk l r hs (0, 0) = Some (length l, length r) \<and> patched l r hs = r \<and> consumed l hs = l
    \<and> distinct_adj (map hk_op hs)"
  using myers_sound [OF assms] by simp

lemma sample_prefix: "prefix_loop [''a'', ''b''] [''a'', ''c'', ''b''] 2 3 0 0 []
  = (1, 1, [\<lparr>hk_op = Equal, hk_leftStart = 0, hk_rightStart = 0, hk_count = 1\<rparr>])"
  by (subst prefix_loop.simps, simp, subst prefix_loop.simps) (simp add: appendElementEdit_def mkEdit_def)

lemma sample_suffix: "suffix_loop [''a'', ''b''] [''a'', ''c'', ''b''] 1 2 1 3 0 = 1"
  by (subst suffix_loop.simps, simp, subst suffix_loop.simps) simp

definition sample_hunks :: "MRDiffHunk list" where
  "sample_hunks = [\<lparr>hk_op = Equal, hk_leftStart = 0, hk_rightStart = 0, hk_count = 1\<rparr>,
     \<lparr>hk_op = MRDiffOp.Insert, hk_leftStart = 1, hk_rightStart = 1, hk_count = 1\<rparr>,
     \<lparr>hk_op = Equal, hk_leftStart = 1, hk_rightStart = 2, hk_count = 1\<rparr>]"

theorem diff_is_edit_script_witness:
  "mrComputeMyersDiff (\<lambda>_. False) [''a'', ''b''] [''a'', ''c'', ''b''] = Inr sample_hunks
   \<and> patched [''a'', ''b''] [''a'', ''c'', ''b''] sample_hunks = [''a'', ''c'', ''b'']"
proof -
  have "appendDiffRange (\<lambda>_. False) [''a'', ''b''] [''a'', ''c'', ''b''] 0 0 2 0 3 [] = (1, Inr sample_hunks)"
    by (subst appendDiffRange.simps) (simp add: sample_prefix sample_suffix sample_hunks_def inserts_def equals_def
        appendElementEdit_def hunkCanExtend_def mkEdit_def)
  then have "mrComputeMyersDiff (\<lambda>_. False) [''a'', ''b''] [''a'', ''c'', ''b''] = Inr sample_hunks"
    by (simp add: mrComputeMyersDiff_def maxInputLines_def)
  from diff_is_edit_script [OF this] this show ?thesis by blast
qed

text \<open>
  \<open>mrSplitTextLinesForDiff\<close> yields one line more than the text has line feeds (none for the empty
  text), no line holds a line feed, and without carriage returns joining the lines gives the text back.
\<close>

lemma diff_lines_round_trip:
  "length (mrSplitTextLinesForDiff t) = (if t = [] then 0 else Suc (count_list t LF))
   \<and> LF \<notin> \<Union> (set ` set (mrSplitTextLinesForDiff t))
   \<and> (CR \<in> set t \<or> join_lines (mrSplitTextLinesForDiff t) = t)"
  using mrSplit_lines [of t] by auto

section \<open>The keymap\<close>

text \<open>
  A key token that was parsed, in whichever notation, prints to a text that parses to the same
  token, unless it is a plus sign with modifiers.
\<close>

lemma key_token_round_trip:
  assumes "MRKeymapToken_parse s = Some t" "\<not> modified_plus t"
  shows "MRKeymapToken_parse (MRKeymapToken_toString t) = Some t"
  by (rule token_round_trip [OF parsed_canonical [OF assms]])

text \<open>
  C27. A key sequence that was parsed prints to a text that parses to the same sequence, unless it
  holds a plus sign with modifiers.
\<close>

theorem key_sequence_round_trip:
  assumes "MRKeymapSequence_parse s = Some ts" "\<not> list_ex modified_plus ts"
  shows "MRKeymapSequence_parse (MRKeymapSequence_toString ts) = Some ts"
  by (rule sequence_round_trip [OF assms])

theorem key_sequence_round_trip_witness:
  "MRKeymapSequence_parse (MRKeymapSequence_toString [mkToken Printable kCtrlBit (CHR ''K''), mkToken Printable 0 (CHR ''b'')])
     = Some [mkToken Printable kCtrlBit (CHR ''K''), mkToken Printable 0 (CHR ''b'')]"
proof (rule key_sequence_round_trip)
  show "MRKeymapSequence_parse ''<Ctrl+k><b>'' = Some [mkToken Printable kCtrlBit (CHR ''K''), mkToken Printable 0 (CHR ''b'')]"
    by code_simp
qed (simp add: modified_plus_def mkToken_def)

text \<open>
  C28. \<open>MRKeymapTrie::rebuild\<close> succeeds exactly on complete bindings whose sequences are prefix-free
  within each context: it finds every duplicate and every collision, in either order, and nothing else.
\<close>

theorem trie_rebuild_succeeds_iff:
  "snd (MRKeymapTrie_rebuild bindings) = None \<longleftrightarrow>
     list_all binding_complete bindings \<and> sorted_wrt bindings_apart bindings"
  using rebuild_spec(1) [of bindings "fst (MRKeymapTrie_rebuild bindings)" "snd (MRKeymapTrie_rebuild bindings)"]
  by (simp add: dispatchable_def)

text \<open>
  C29. After a successful rebuild \<open>MRKeymapTrie::decide\<close> is a search through the bindings: the binding
  with this context and sequence, \<open>Pending\<close> when the sequence begins a longer one, else \<open>NoMatch\<close>.
\<close>

theorem trie_decides_by_bindings:
  assumes "MRKeymapTrie_rebuild bindings = (trie, None)"
  shows "decide trie context sequence = decide_spec bindings context sequence"
  using rebuild_spec(2) [OF assms] by simp

definition sample_bindings :: "MRKeymapBindingRecord list" where
  "sample_bindings =
     [\<lparr>br_profileName = ''p'', br_context = ContextEdit, br_target = \<lparr>bt_type = BindAction, bt_target = ''MR_RENAME''\<rparr>,
       br_sequence = [mkToken Printable kCtrlBit (CHR ''K''), mkToken F5 0 NUL], br_description = ''rename''\<rparr>]"

theorem trie_decides_by_bindings_witness:
  "dc_kind (decide (fst (MRKeymapTrie_rebuild sample_bindings)) ContextEdit [mkToken Printable kCtrlBit (CHR ''K'')]) = Pending
   \<and> dc_kind (decide (fst (MRKeymapTrie_rebuild sample_bindings)) ContextEdit
        [mkToken Printable kCtrlBit (CHR ''K''), mkToken F5 0 NUL]) = Matched"
proof -
  have "snd (MRKeymapTrie_rebuild sample_bindings) = None"
    by (simp add: rebuild_spec(1) [OF prod.collapse [symmetric]] dispatchable_def binding_complete_def sample_bindings_def)
  then have "MRKeymapTrie_rebuild sample_bindings = (fst (MRKeymapTrie_rebuild sample_bindings), None)"
    by (metis prod.collapse)
  from trie_decides_by_bindings [OF this] show ?thesis
    by (simp add: decide_spec_def binding_at_def sample_bindings_def mkToken_def emptyDecision_def)
qed

section \<open>Keymap profiles, the resolver and the macro machine\<close>

definition sample_env :: MacroEnv where
  "sample_env = \<lparr>me_access = \<lambda>_. True, me_macroDirectory = ''/macros'', me_readTextFile = \<lambda>_. Some ''$MACRO MAIN; END_MACRO;'',
     me_compile = \<lambda>_. Inr [Some ''MAIN'']\<rparr>"

definition sample_profile :: MRKeymapProfile where
  "sample_profile = \<lparr>pf_name = ''P'', pf_description = ''Sample'', pf_bindings =
     [\<lparr>br_profileName = ''P'', br_context = ContextEdit, br_target = \<lparr>bt_type = BindAction, bt_target = ''MRMAC_CURSOR_LEFT''\<rparr>,
       br_sequence = [mkToken F4 kCtrlBit NUL, mkToken F5 0 NUL], br_description = ''left''\<rparr>,
      \<lparr>br_profileName = ''P'', br_context = ContextEdit, br_target = \<lparr>bt_type = BindMacro, bt_target = ''a.mrmac^MAIN''\<rparr>,
       br_sequence = [mkToken F6 0 NUL], br_description = ''run''\<rparr>]\<rparr>"

lemma cursor_left_known: "catalog_contains ''MRMAC_CURSOR_LEFT''"
proof -
  have "mrmac ''MRMAC_CURSOR_LEFT'' ''Cursor left'' \<in> set catalogDefinitions" unfolding catalogDefinitions_def by (rule list.set_intros(1))
  then show ?thesis unfolding catalog_contains_iff by (rule rev_image_eqI) (simp add: mrmac_def)
qed

lemma sample_sequences:
  "\<not> sequenceHasPhase1CtrlAsciiCollision [mkToken F4 kCtrlBit NUL, mkToken F5 0 NUL]" "\<not> sequenceHasPhase1CtrlAsciiCollision [mkToken F6 0 NUL]"
  "list_all sequence_token [mkToken F4 kCtrlBit NUL, mkToken F5 0 NUL]" "list_all sequence_token [mkToken F6 0 NUL]"
  by code_simp+

lemma sample_clean: "clean_profile sample_profile"
  by (simp add: clean_profile_def clean_bindings_def clean_binding_def sample_profile_def ingressError_def cursor_left_known sample_sequences [unfolded mkToken_def]
      bindings_apart_def mkToken_def)

lemma sample_settled: "settled sample_env [sample_profile]"
proof -
  have "normalizeKeymapProfile sample_profile = sample_profile" by code_simp
  moreover have "macros_accepted sample_env (pf_bindings sample_profile)" by code_simp
  ultimately show ?thesis using sample_clean by (simp add: settled_def size_max_def)
qed

lemma sample_active: "trimAscii ''P'' = ''P''" "''P'' = [] \<or> ''P'' \<in> pf_name ` set [sample_profile]"
  by (code_simp, simp add: sample_profile_def)

lemma sample_canonical:
  "canonicalizeKeymapProfiles sample_env [sample_profile] ''P'' UntrustedIngress
    = \<lparr>cr_activeProfileName = ''P'', cr_profiles = [sample_profile], cr_diagnostics = []\<rparr>"
  by (rule canonicalize_settled [OF sample_settled sample_active])

definition sample_keys :: "(MRKeymapContext \<times> MRKeymapToken) list" where
  "sample_keys =
     [(ContextEdit, mkToken F4 kCtrlBit NUL), (ContextMenu, mkToken F6 0 NUL), (ContextEdit, mkToken F5 0 NUL),
      (ContextEdit, mkToken F4 kCtrlBit NUL), (ContextEdit, mkToken F6 0 NUL), (ContextEdit, mkToken F4 kCtrlBit NUL)]"

lemma sample_keys_spec:
  "map rr_kind (snd (keys_spec (pf_bindings sample_profile) (\<lambda>_. []) sample_keys))
     = [ResultPending, ResultNoMatch, ResultMatched, ResultPending, ResultInvalid, ResultPending]"
  "fst (keys_spec (pf_bindings sample_profile) (\<lambda>_. []) sample_keys) ContextEdit = [mkToken F4 kCtrlBit NUL]"
  by code_simp+

text \<open>
  C30. What canonicalization of keymap profiles from outside lets through is well-formed: the profiles it
  returns validate without a diagnostic, and the dispatch trie of each of them can be built.
\<close>

theorem canonical_profiles_accepted:
  assumes "length profiles \<le> size_max"
  shows "validateKeymapProfiles (cr_profiles (canonicalizeKeymapProfiles env profiles active UntrustedIngress)) = []
    \<and> list_all (\<lambda>p. snd (MRKeymapTrie_rebuild (pf_bindings p)) = None)
        (cr_profiles (canonicalizeKeymapProfiles env profiles active UntrustedIngress))"
proof -
  note clean = canonicalize_clean [OF assms, of env active]
  have "snd (MRKeymapTrie_rebuild (pf_bindings p)) = None" if "clean_profile p" for p
    using that rebuild_spec(1) [OF prod.collapse [symmetric]] clean_dispatchable by (auto simp: clean_profile_def)
  then show ?thesis using clean clean_profiles_validate by (auto simp: list_all_iff)
qed

theorem canonical_profiles_accepted_witness:
  "cr_profiles (canonicalizeKeymapProfiles sample_env [sample_profile] ''P'' UntrustedIngress) = [sample_profile]
   \<and> validateKeymapProfiles [sample_profile] = [] \<and> snd (MRKeymapTrie_rebuild (pf_bindings sample_profile)) = None"
proof -
  have "cr_profiles (canonicalizeKeymapProfiles sample_env [sample_profile] ''P'' UntrustedIngress) = [sample_profile]"
    using sample_canonical by simp
  with canonical_profiles_accepted [of "[sample_profile]" sample_env "''P''"] show ?thesis by (simp add: size_max_def)
qed

text \<open>
  C31. Keymap profiles survive the settings file: profiles that are in canonical form, with macros the
  compiler accepts, are written by \<open>serializeKeymapProfilesToSettingsSource\<close> and read back by
  \<open>loadKeymapProfilesFromSettingsSource\<close> unchanged, with the active profile and without a diagnostic, when
  their bindings have a text form (\<open>binding_printable\<close>): every token is as parsing yields it, none is a
  plus sign with a modifier and none the key \<open>>\<close>, and no sequence collides with a control character. The
  first exception is real: canonicalization lets \<open><Ctrl+>\<close> through, but its text is \<open><Ctrl++>\<close>, which is
  not read (\<open>plus_token_lost\<close>).
\<close>

theorem keymap_settings_round_trip:
  assumes "settled env profiles" "trimAscii active = active" "active = [] \<or> active \<in> pf_name ` set profiles"
    and "list_all binding_printable (concat (map pf_bindings profiles))"
  shows "loadKeymapProfilesFromSettingsSource env (serializeKeymapProfilesToSettingsSource profiles active)
    = \<lparr>lr_activeProfileName = active, lr_profiles = profiles, lr_diagnostics = []\<rparr>"
  by (rule save_load [OF assms])

theorem keymap_settings_round_trip_witness:
  "loadKeymapProfilesFromSettingsSource sample_env (serializeKeymapProfilesToSettingsSource [sample_profile] ''P'')
    = \<lparr>lr_activeProfileName = ''P'', lr_profiles = [sample_profile], lr_diagnostics = []\<rparr>"
proof (rule keymap_settings_round_trip [OF sample_settled sample_active])
  have "trimAscii ''P'' = ''P''" by (rule sample_active)
  then show "list_all binding_printable (concat (map pf_bindings [sample_profile]))"
    using sample_sequences by (simp add: binding_printable_def sample_profile_def)
qed

text \<open>
  C32. The resolver refines a machine over lists of tokens: after \<open>MRKeymapResolver::rebuild\<close> on
  canonicalized profiles whose active bindings have tokens as parsing yields them, none of them a plus sign
  with a modifier (\<open>canonical_token\<close>), every sequence of key presses gives the results of \<open>key_spec\<close>, which
  matches the begun sequence of the context against the bindings of the active profile, and the begun
  sequences are those the runtime key-value tree holds, as text in hashes of the macro machine,
  afterwards. The condition on tokens is needed: a begun \<open><Ctrl+>\<close> is kept as \<open><Ctrl++>\<close> and lost
  (\<open>plus_token_lost\<close>).
\<close>

theorem resolver_refines:
  assumes "kv_inv r h" "length profiles \<le> size_max"
    and "ps = cr_profiles (canonicalizeKeymapProfiles env profiles name UntrustedIngress)"
    and "list_all (\<lambda>b. list_all canonical_token (br_sequence b)) (activeBindings ps active)"
  shows "\<exists>h1. resolver_session r ps active keys h = Some (Inr (None, snd (keys_spec (activeBindings ps active) (\<lambda>_. []) keys)), h1)
    \<and> kv_inv r h1 \<and> kv_pending r h1 = fst (keys_spec (activeBindings ps active) (\<lambda>_. []) keys)"
proof (rule session_refines [OF assms(1) _ assms(4)])
  show "dispatchable (activeBindings ps active)"
    using canonicalize_clean(1) [OF assms(2)] unfolding assms(3) by (rule active_dispatchable)
qed

theorem resolver_refines_witness:
  "\<exists>h1 rs. resolver_session (fst (newRuntimeKv emptyStore)) [sample_profile] ''P'' sample_keys (snd (newRuntimeKv emptyStore))
      = Some (Inr (None, rs), h1)
    \<and> map rr_kind rs = [ResultPending, ResultNoMatch, ResultMatched, ResultPending, ResultInvalid, ResultPending]
    \<and> kv_pending (fst (newRuntimeKv emptyStore)) h1 ContextEdit = [mkToken F4 kCtrlBit NUL]"
proof -
  have active: "activeBindings [sample_profile] ''P'' = pf_bindings sample_profile"
    by (simp add: activeBindings_def findActiveProfile_def sample_profile_def)
  have "kv_inv (fst (newRuntimeKv emptyStore)) (snd (newRuntimeKv emptyStore))" by (rule new_kv_inv(1) [of emptyStore]) simp
  moreover have "length [sample_profile] \<le> size_max" by (simp add: size_max_def)
  moreover have "[sample_profile] = cr_profiles (canonicalizeKeymapProfiles sample_env [sample_profile] ''P'' UntrustedIngress)"
    using sample_canonical by simp
  moreover have "list_all (\<lambda>b. list_all canonical_token (br_sequence b)) (activeBindings [sample_profile] ''P'')"
    using sample_sequences unfolding active by (simp add: sample_profile_def sequence_token_def)
  ultimately obtain h1
    where "resolver_session (fst (newRuntimeKv emptyStore)) [sample_profile] ''P'' sample_keys (snd (newRuntimeKv emptyStore))
        = Some (Inr (None, snd (keys_spec (pf_bindings sample_profile) (\<lambda>_. []) sample_keys)), h1)"
      "kv_pending (fst (newRuntimeKv emptyStore)) h1 = fst (keys_spec (pf_bindings sample_profile) (\<lambda>_. []) sample_keys)"
    unfolding active [symmetric] using resolver_refines by blast
  with sample_keys_spec show ?thesis by auto
qed

text \<open>
  C33. The collection of the macro machine's hash store is exact: \<open>clearExceptRoots\<close> keeps a hash, with all
  its entries, if and only if it can be reached from the roots along local hash values and array
  elements, cycles included; every other hash is gone.
\<close>

theorem hash_collection_exact:
  "map_of (hs_hashes (clearExceptRoots store roots)) handle =
     (if reachable_from (hs_hashes store) (set roots) handle then map_of (hs_hashes store) handle else None)"
  by (rule clearExceptRoots_exact)

text \<open>
  C34. The UTF-8 recogniser of the hex view accepts \<open>n\<close> bytes at an offset exactly when they are in the
  document and are the bytes \<open>mrvmUtf8FromCodepoint\<close> gives for a code point from 0x80 on: overlong
  forms, surrogates, code points past 0x10FFFF and truncated sequences are refused.
\<close>

theorem hex_utf8_exact:
  assumes "snap_ok r"
  shows "mrHexUtf8CodePointAt r offset width = (True, n) \<longleftrightarrow>
    (\<exists>codePoint. 0x80 \<le> unat codePoint \<and> (\<exists>bytes. mrvmUtf8FromCodepoint codePoint = Inr bytes \<and> length bytes = n
       \<and> offset + n \<le> length (snap_text_of r) \<and> substr (snap_text_of r) offset n = bytes))"
  by (rule recogniser_exact [OF assms])

theorem hex_utf8_exact_witness:
  "mrHexUtf8CodePointAt (readSnapshot (newTextDocumentFrom 7 [CHR ''x'', CHR 0xC3, CHR 0xA9])) 1 0 = (True, 2)"
proof -
  let ?t = "[CHR ''x'', CHR 0xC3, CHR 0xA9]" let ?d = "newTextDocumentFrom 7 ?t"
  have d: "doc_ok ?d" "index_ok ?d" "doc_text ?d = ?t"
    unfolding newTextDocumentFrom_def using initializeFromOriginal_spec [of ?t "newTextDocument 7" True]
    by (simp_all add: size_max_def newTextDocument_def)
  have "mrvmUtf8FromCodepoint 0xE9 = Inr [CHR 0xC3, CHR 0xA9]"
    by (simp add: encode_bytes scalar_def utf8_bytes_def char_of_eq)
  then have "\<exists>codePoint. 0x80 \<le> unat codePoint \<and> (\<exists>bytes. mrvmUtf8FromCodepoint codePoint = Inr bytes \<and> length bytes = 2
       \<and> 1 + 2 \<le> length ?t \<and> substr ?t 1 2 = bytes)"
    by (intro exI [where x = "0xE9 :: 32 word"]) (simp add: substr_def)
  then show ?thesis using hex_utf8_exact [OF readSnapshot_ok(1) [OF d(1,2)], of 1 0 2]
    by (simp only: readSnapshot_ok(2) [OF d(1,2)] d(3))
qed

section \<open>The format line and paragraphs\<close>

text \<open>
  C35. Format lines have one normal form: dots and tab stops with a left margin before the final right
  margin. It is what normalization yields, exactly the lines that normalization leaves as they are, and
  what every edit of a column, every move, every change of the margins and the default produce.
\<close>

theorem format_lines_normal:
  "((\<exists>u t fl fr. normalizeEditFormatLine u t fl fr = Inr (w, l, r)) \<longleftrightarrow> ruler w l r)
   \<and> (normalizeEditFormatLine w tabSize lm rm = Inr (w, l, r) \<longleftrightarrow> ruler w l r)
   \<and> (case editFormatLineAtColumn v tabSize lm rm c s of Inl e \<Rightarrow> True | Inr (x, a, b) \<Rightarrow> ruler x a b)
   \<and> (case translateEditFormatLine v tabSize lm rm d of Inl e \<Rightarrow> True | Inr (x, a, b) \<Rightarrow> ruler x a b)
   \<and> (case resolvedEditFormatLineValue v tabSize lm rm of (x, a, b) \<Rightarrow> ruler x a b)
   \<and> ruler (synchronizeEditFormatLineMargins v lm rm tabSize) (clampEditFormatLeftMargin lm rm) (clampEditFormatRightMargin rm)"
proof (intro conjI)
  show "(\<exists>u t fl fr. normalizeEditFormatLine u t fl fr = Inr (w, l, r)) \<longleftrightarrow> ruler w l r"
    "normalizeEditFormatLine w tabSize lm rm = Inr (w, l, r) \<longleftrightarrow> ruler w l r" using normal_ruler ruler_normal by blast+
qed (auto split: sum.split intro: edited_ruler translated_ruler resolved_ruler synchronize_ruler)

text \<open>
  C36. Filling an indent ends for every format line and reaches its column, as long as the target is at
  most \<open>2 ^ 31 - 32\<close>, so that no tab column leaves the range of \<open>int\<close>: the blanks and tabs that
  \<open>buildEditIndentFill\<close> writes move the column from the start exactly to the target, when that is ahead,
  and without tabs they are that many blanks. The wrap-around of the columns is in the model; above the
  bound \<open>indentFill_wraps\<close> shows a fill that does not end.
\<close>

theorem indent_fill_reaches:
  assumes "targetColumn \<le> 2 ^ 31 - 32"
  shows "case buildEditIndentFill st startColumn targetColumn tabs of
      None \<Rightarrow> False
    | Some fill \<Rightarrow> column_after st (max 1 startColumn) fill = max (max 1 startColumn) targetColumn
        \<and> set fill \<subseteq> {CHR 0x09, CHR '' ''}
        \<and> buildEditIndentFill st startColumn targetColumn False
          = Some (replicate (nat (targetColumn - max 1 startColumn)) (CHR '' ''))"
  using indentFill_exact [OF assms, of st startColumn tabs] indentFill_blanks [OF assms] by (auto split: if_splits)

theorem indent_fill_reaches_witness:
  "\<exists>fill. buildEditIndentFill \<lparr>es_formatLine = ''L..|....R'', es_tabSize = 4, es_leftMargin = 1, es_rightMargin = 9\<rparr> 2 11 True = Some fill
    \<and> column_after \<lparr>es_formatLine = ''L..|....R'', es_tabSize = 4, es_leftMargin = 1, es_rightMargin = 9\<rparr> 2 fill = 11
    \<and> buildEditIndentFill \<lparr>es_formatLine = ''L..|....R'', es_tabSize = 4, es_leftMargin = 1, es_rightMargin = 9\<rparr> 2 11 False = Some ''         ''"
  using indent_fill_reaches [of 11 "\<lparr>es_formatLine = ''L..|....R'', es_tabSize = 4, es_leftMargin = 1, es_rightMargin = 9\<rparr>" 2 True]
  by (auto simp: numeral_eq_Suc split: option.splits)

text \<open>
  C37. Formatting and justifying a paragraph are one wrapping of its words: the words come back in order;
  each line is full, in that the first word of the next one would cross the right margin; a line of more
  than one word keeps within the right margin, and in a justified paragraph ends at it, the last line
  apart.
\<close>

theorem paragraph_exact:
  "formatParagraphText t l r = joinLines (map (plainLine (indentWidth l)) (wrap (contentWidth l r) t))
   \<and> justifyParagraphText t l r = joinLines (justifiedLines (indentWidth l) (contentWidth l r) (wrap (contentWidth l r) t))
   \<and> wrapped (contentWidth l r) (wrap (contentWidth l r) t) \<and> concat (wrap (contentWidth l r) t) = splitWords t
   \<and> splitWords (formatParagraphText t l r) = splitWords t \<and> splitWords (justifyParagraphText t l r) = splitWords t
   \<and> list_all (\<lambda>ws. length ws = 1 \<or> length (plainLine (indentWidth l) ws) \<le> nat (max (safeLeftMargin l) r)) (wrap (contentWidth l r) t)
   \<and> list_all2 (\<lambda>x ws. length ws = 1 \<or> length x = nat (max (safeLeftMargin l) r))
        (butlast (justifiedLines (indentWidth l) (contentWidth l r) (wrap (contentWidth l r) t))) (butlast (wrap (contentWidth l r) t))"
  by (intro conjI format_wrap justify_wrap wrap_spec format_words justify_words format_lengths justify_lengths)

section \<open>The debugger and the workspace file\<close>

text \<open>
  C38. The stream of the debugger's machine interface does not depend on how its output is cut into
  chunks: the records are those of the non-empty lines of the whole. A quoted string is decoded to what
  was quoted, whatever follows it.
\<close>

theorem gdb_stream_exact:
  "snd (case feed chunks ([], []) of (p, rs) \<Rightarrow> MRGdbMiStream_finish p rs)
     = map parseMiRecord (filter (\<lambda>l. l \<noteq> []) (map popCarriageReturn (lf_lines (concat chunks))))
   \<and> decodeMiString (mrGdbMiQuote s @ rest) 0 = s"
  by (simp add: stream_records field_quote)

text \<open>
  C39. A debugger configuration survives the workspace file exactly when it is well-formed, and only
  well-formed configurations are ever read from one.
\<close>

theorem debugger_configuration_round_trip:
  "(parseMacroDebuggerConfiguration (encodeMacroDebuggerConfiguration c) = Some c \<longleftrightarrow> configuration_ok c)
   \<and> ((\<exists>t. parseMacroDebuggerConfiguration t = Some c) \<longleftrightarrow> configuration_ok c)"
  using configuration_parsed [of c] configuration_sound [of _ c] by blast

text \<open>
  C40. Every layout token that is accepted, of whatever version, gives a normal snapshot: its nodes are the
  postorder of one tree whose panes are the leaves of the snapshot, a role that is allowed once occurs
  once, and the active and the maximized pane exist or are the fallback. Writing it and reading the
  result gives the same snapshot without a message.
\<close>

theorem workspace_layout_normal:
  assumes "parseBentoSnapshot t = Some (s, ms)" "length (ws_nodes s) < 2 ^ 31"
  shows "(\<exists>T. bento_tree s T) \<and> parseBentoSnapshot (encodeBentoSnapshot s) = Some (s, [])"
  using snapshot_parsed [OF assms] by blast

definition sample_layout :: MRBentoWorkspaceSnapshot where
  "sample_layout = \<lparr>ws_mode = 0, ws_rootNode = 2, ws_activeLeafId = 1, ws_maximizedLeafId = - 1,
     ws_nodes = post 0 (SplitT 1 40 (PaneT 0 0 0) (PaneT 0 0 1)),
     ws_leaves = [\<lparr>wl_id = 0, wl_role = 0, wl_visible = True, wl_widgetMask = 3\<rparr>, \<lparr>wl_id = 1, wl_role = 3, wl_visible = True, wl_widgetMask = 0\<rparr>]\<rparr>"

theorem workspace_layout_normal_witness:
  "parseBentoSnapshot (encodeBentoSnapshot sample_layout) = Some (sample_layout, [])"
proof -
  have "bento_tree sample_layout (SplitT 1 40 (PaneT 0 0 0) (PaneT 0 0 1))"
    by (simp add: bento_tree_def sample_layout_def)
  then have n: "normalizeBentoSnapshotForBootstrap sample_layout = Some (sample_layout, [])" by (rule normalize_fixed)
  have "parseBentoSnapshot (encodeBentoSnapshot sample_layout) = normalizeBentoSnapshotForBootstrap sample_layout"
    by (rule parse_encode) (simp_all add: sample_layout_def snapshot_range_def i32_def node_all_def leaf_range_def
        widgetMaskIsValid_def bpwFoldGutter_def bpwMiniMap_def)
  then have "parseBentoSnapshot (encodeBentoSnapshot sample_layout) = Some (sample_layout, [])" using n by simp
  from workspace_layout_normal [OF this] show ?thesis by (simp add: sample_layout_def)
qed

end
